(* ===== verification/Prelude.thy ===== *)
theory Prelude
  imports Main "HOL-Library.Monad_Syntax"
begin

text \<open>
  What every component shares: the exceptions and undefined behaviour of the C++ code as
  values of a sum type, the checked vector access, the two loop combinators the components
  are written with (a fold that stops at the first exception, and a fold with a
  \<^theory_text>\<open>break\<close>), and update lemmas for the nested vectors of the program.

  Conventions of the whole development.
  \<^item> A C++ \<^theory_text>\<open>std::vector\<close> is a list; vectors of vectors are lists of lists.
  \<^item> A loop counter that starts at 0 and only grows is a \<^typ>\<open>nat\<close>; a value that the
    code compares with \<open>-1\<close> (\<open>firstel\<close>, \<open>matrix\<close>, images of partial permutations),
    and every literal, is an \<^typ>\<open>int\<close>.
  \<^item> An access whose index is data of the program (an image of a permutation, the entry of a
    literal) goes through \<open>vget\<close>, which yields \<open>Inl UB\<close> out of range; an access whose index
    is a loop counter below the length of the vector is written with \<open>!\<close>.
\<close>

section \<open>Exceptions, undefined behaviour and exits\<close>

text \<open>
  \<open>SymBreak c\<close> is \<^theory_text>\<open>throw\<close> of a clause, \<open>LimitReached\<close> the exception
  class of the same name, \<open>UB\<close> an access out of range and \<open>ExitFailure\<close> the macro
  \<open>EXIT_UNWANTED_STATE\<close>.
\<close>

datatype exc = SymBreak "int list" | LimitReached | UB | ExitFailure

type_synonym 'a res = "exc + 'a"

definition bindE :: "'a res \<Rightarrow> ('a \<Rightarrow> 'b res) \<Rightarrow> 'b res" where
  "bindE x f = (case x of Inl e \<Rightarrow> Inl e | Inr a \<Rightarrow> f a)"

lemma bindE_simps [simp]:
  "bindE (Inl e) f = Inl e"
  "bindE (Inr a) f = f a"
  by (simp_all add: bindE_def)

lemma bindE_eq_Inr: "bindE x f = Inr b \<longleftrightarrow> (\<exists>a. x = Inr a \<and> f a = Inr b)"
  by (cases x) auto

lemma bindE_eq_Inl: "bindE x f = Inl e \<longleftrightarrow> x = Inl e \<or> (\<exists>a. x = Inr a \<and> f a = Inl e)"
  by (cases x) auto

definition vget :: "'a list \<Rightarrow> int \<Rightarrow> 'a res" where
  "vget xs i = (if 0 \<le> i \<and> i < int (length xs) then Inr (xs ! nat i) else Inl UB)"

lemma vget_in [simp]: "i < length xs \<Longrightarrow> vget xs (int i) = Inr (xs ! i)"
  by (simp add: vget_def)

lemma vget_eq_Inr:
  "vget xs i = Inr x \<longleftrightarrow> 0 \<le> i \<and> nat i < length xs \<and> x = xs ! nat i"
  by (auto simp: vget_def)

lemma vget_neg [simp]: "i < 0 \<Longrightarrow> vget xs i = Inl UB"
  by (simp add: vget_def)

lemma vget_Inl: "vget xs i = Inl e \<Longrightarrow> e = UB"
  by (auto simp: vget_def split: if_splits)

section \<open>Loops\<close>

text \<open>A loop over a list whose body may throw.\<close>

primrec foldE :: "('a \<Rightarrow> 's \<Rightarrow> 's res) \<Rightarrow> 'a list \<Rightarrow> 's \<Rightarrow> 's res" where
  "foldE f [] s = Inr s"
| "foldE f (x # xs) s = bindE (f x s) (foldE f xs)"

lemma foldE_cong: "(\<And>x. x \<in> set xs \<Longrightarrow> f x = g x) \<Longrightarrow> foldE f xs s = foldE g xs s"
proof (induction xs arbitrary: s)
  case (Cons x xs)
  have "foldE f xs = foldE g xs" using Cons by (intro ext) simp
  then show ?case using Cons.prems by simp
qed simp

lemma foldE_append: "foldE f (xs @ ys) s = bindE (foldE f xs s) (foldE f ys)"
proof (induction xs arbitrary: s)
  case (Cons x xs)
  then show ?case by (cases "f x s") auto
qed simp

text \<open>Invariant rule: \<open>P i s\<close> holds before the \<open>i\<close>-th round.\<close>

lemma foldE_inv:
  assumes "foldE f xs s = Inr t" "P 0 s"
    and "\<And>i s t. i < length xs \<Longrightarrow> P i s \<Longrightarrow> f (xs ! i) s = Inr t \<Longrightarrow> P (Suc i) t"
  shows "P (length xs) t"
  using assms
proof (induction xs arbitrary: s P)
  case (Cons x xs)
  from Cons.prems(1) obtain u where u: "f x s = Inr u" "foldE f xs u = Inr t"
    by (auto simp: bindE_eq_Inr)
  have "P (Suc 0) u" using Cons.prems(3)[of 0] Cons.prems(2) u(1) by simp
  moreover have "\<And>i s t. i < length xs \<Longrightarrow> P (Suc i) s \<Longrightarrow> f (xs ! i) s = Inr t \<Longrightarrow> P (Suc (Suc i)) t"
    using Cons.prems(3)[of "Suc _"] by simp
  ultimately show ?case
    using Cons.IH[OF u(2), where P = "\<lambda>i. P (Suc i)"] by simp
qed simp

text \<open>An exception of the loop is the exception of the body in a state that satisfies the invariant.\<close>

lemma foldE_Inl:
  assumes "foldE f xs s = Inl e" "P 0 s"
    and "\<And>i s t. i < length xs \<Longrightarrow> P i s \<Longrightarrow> f (xs ! i) s = Inr t \<Longrightarrow> P (Suc i) t"
  obtains i u where "i < length xs" "P i u" "f (xs ! i) u = Inl e"
  using assms
proof (induction xs arbitrary: s P thesis)
  case (Cons x xs)
  show ?case
  proof (cases "f x s")
    case (Inl e')
    with Cons.prems show ?thesis by (auto intro: Cons.prems(1)[of 0])
  next
    case (Inr u)
    have "P (Suc 0) u" using Cons.prems(4)[of 0] Cons.prems(3) Inr by simp
    moreover have "foldE f xs u = Inl e" using Cons.prems(2) Inr by simp
    moreover have "\<And>i s t. i < length xs \<Longrightarrow> P (Suc i) s \<Longrightarrow> f (xs ! i) s = Inr t \<Longrightarrow> P (Suc (Suc i)) t"
      using Cons.prems(4)[of "Suc _"] by simp
    ultimately obtain i u' where "i < length xs" "P (Suc i) u'" "f (xs ! i) u' = Inl e"
      using Cons.IH[where s = u and P = "\<lambda>i. P (Suc i)"] by metis
    then show ?thesis using Cons.prems(1)[of "Suc i" u'] by simp
  qed
qed simp

lemma foldE_total:
  assumes "\<And>x s. x \<in> set xs \<Longrightarrow> P s \<Longrightarrow> \<exists>t. f x s = Inr t \<and> P t" "P s"
  shows "\<exists>t. foldE f xs s = Inr t \<and> P t"
  using assms
proof (induction xs arbitrary: s)
  case (Cons x xs)
  then obtain t where "f x s = Inr t" "P t" by (meson list.set_intros(1))
  with Cons show ?case by (auto simp: Cons.IH)
qed simp

text \<open>A pure loop: \<^const>\<open>fold\<close>, with the same invariant rule.\<close>

lemma fold_inv:
  assumes "P 0 s"
    and "\<And>i s. i < length xs \<Longrightarrow> P i s \<Longrightarrow> P (Suc i) (f (xs ! i) s)"
  shows "P (length xs) (fold f xs s)"
  using assms
proof (induction xs arbitrary: s P)
  case (Cons x xs)
  show ?case
    using Cons.IH[where s = "f x s" and P = "\<lambda>i. P (Suc i)"] Cons.prems(1) Cons.prems(2)[of 0] Cons.prems(2)[of "Suc _"]
    by simp
qed simp

lemma fold_upt_inv:
  assumes "P a s" "a \<le> b"
    and "\<And>i s. a \<le> i \<Longrightarrow> i < b \<Longrightarrow> P i s \<Longrightarrow> P (Suc i) (f i s)"
  shows "P b (fold f [a..<b] s)"
  using fold_inv[of "\<lambda>i. P (a + i)" s "[a..<b]" f] assms by simp

lemma fold_set_inv:
  assumes "P s" "\<And>x s. x \<in> set xs \<Longrightarrow> P s \<Longrightarrow> P (f x s)"
  shows "P (fold f xs s)"
  using assms by (induction xs arbitrary: s) auto

section \<open>Nested vectors\<close>

definition dims2 :: "nat \<Rightarrow> 'a list list \<Rightarrow> bool" where
  "dims2 n M \<longleftrightarrow> length M = n \<and> (\<forall>i<n. length (M ! i) = n)"

definition dims3 :: "nat \<Rightarrow> 'a list list list \<Rightarrow> bool" where
  "dims3 n T \<longleftrightarrow> length T = n \<and> (\<forall>i<n. dims2 n (T ! i))"

definition upd2 :: "'a list list \<Rightarrow> nat \<Rightarrow> nat \<Rightarrow> 'a \<Rightarrow> 'a list list" where
  "upd2 M i j x = M[i := (M ! i)[j := x]]"

definition upd3 :: "'a list list list \<Rightarrow> nat \<Rightarrow> nat \<Rightarrow> nat \<Rightarrow> 'a \<Rightarrow> 'a list list list" where
  "upd3 T i j k x = T[i := upd2 (T ! i) j k x]"

definition const2 :: "nat \<Rightarrow> 'a \<Rightarrow> 'a list list" where
  "const2 n x = replicate n (replicate n x)"

definition const3 :: "nat \<Rightarrow> 'a \<Rightarrow> 'a list list list" where
  "const3 n x = replicate n (const2 n x)"

lemma dims2_const2 [simp]: "dims2 n (const2 n x)"
  by (simp add: dims2_def const2_def)

lemma dims3_const3 [simp]: "dims3 n (const3 n x)"
  by (simp add: dims3_def const3_def)

lemma const2_nth [simp]: "i < n \<Longrightarrow> j < n \<Longrightarrow> const2 n x ! i ! j = x"
  by (simp add: const2_def)

lemma const3_nth [simp]: "i < n \<Longrightarrow> j < n \<Longrightarrow> k < n \<Longrightarrow> const3 n x ! i ! j ! k = x"
  by (simp add: const3_def)

lemma dims2_upd2 [simp]: "dims2 n M \<Longrightarrow> dims2 n (upd2 M i j x)"
  unfolding dims2_def upd2_def by (cases "i < n") (auto simp: nth_list_update)

lemma dims3_upd3 [simp]: "dims3 n T \<Longrightarrow> dims3 n (upd3 T i j k x)"
  unfolding dims3_def upd3_def by (cases "i < n") (auto simp: nth_list_update)

lemma upd2_nth:
  "dims2 n M \<Longrightarrow> i < n \<Longrightarrow> j < n \<Longrightarrow> a < n \<Longrightarrow> b < n \<Longrightarrow>
   upd2 M i j x ! a ! b = (if a = i \<and> b = j then x else M ! a ! b)"
  by (auto simp: dims2_def upd2_def nth_list_update)

lemma upd3_nth:
  "dims3 n T \<Longrightarrow> i < n \<Longrightarrow> j < n \<Longrightarrow> k < n \<Longrightarrow> a < n \<Longrightarrow> b < n \<Longrightarrow> c < n \<Longrightarrow>
   upd3 T i j k x ! a ! b ! c = (if a = i \<and> b = j \<and> c = k then x else T ! a ! b ! c)"
  by (auto simp: dims3_def dims2_def upd3_def upd2_def nth_list_update)

lemma dims2D:
  assumes "dims2 n M"
  shows "length M = n" "i < n \<Longrightarrow> length (M ! i) = n"
  using assms by (simp_all add: dims2_def)

lemma dims3D:
  assumes "dims3 n T"
  shows "length T = n" "i < n \<Longrightarrow> dims2 n (T ! i)" "i < n \<Longrightarrow> length (T ! i) = n"
    "i < n \<Longrightarrow> j < n \<Longrightarrow> length (T ! i ! j) = n"
  using assms by (simp_all add: dims3_def dims2_def)

section \<open>Lists of indices\<close>

lemma ex1_cong: "(\<And>x. P x \<longleftrightarrow> Q x) \<Longrightarrow> (\<exists>!x. P x) \<longleftrightarrow> (\<exists>!x. Q x)"
  by simp

lemma mult_step: "a < (b::nat) \<Longrightarrow> m * a + m \<le> m * b"
  using mult_le_mono2[of "Suc a" b m] by simp

lemma nth_in_filter_upt: "x \<in> set (filter P [0..<n]) \<longleftrightarrow> x < n \<and> P x"
  by auto

lemma sorted_filter_upt [simp]: "sorted (filter P [0..<n])"
  by (simp add: sorted_wrt_filter)

lemma distinct_filter_upt [simp]: "distinct (filter P [0..<n])"
  by simp

end
