(* ===== verification/Domains.thy ===== *)
theory Domains
  imports Prelude
begin

text \<open>
  The value domains of \<^verbatim>\<open>domains.h\<close> and \<^verbatim>\<open>domains.cpp\<close>: \<open>bitdomain_t\<close> (one
  domain as a bit vector with its size, first element and number of elements), and
  \<open>bitdomains2_t\<close> and \<open>bitdomains3_t\<close> (a row, a matrix of domains in one flat vector of
  slots, each slot holding the first element, the number of elements and then the bits).

  The contract all three share is the locale \<open>domain_store\<close>: each slot denotes a set of
  values and the cached \<open>firstel\<close> and \<open>numTrue\<close> are its least element and its cardinality.
  The two flat layouts are refined to \<open>bitdomain_t\<close> slot by slot.
\<close>

section \<open>One domain: bitdomain\_t\<close>

record bitdomain =
  bd_dom :: "bool list"
  bd_size :: nat
  bd_firstel :: int
  bd_numTrue :: int

definition bitdomain_empty :: bitdomain where
  "bitdomain_empty = \<lparr>bd_dom = [], bd_size = 0, bd_firstel = -1, bd_numTrue = 0\<rparr>"

definition bitdomain_new :: "nat \<Rightarrow> bool \<Rightarrow> bitdomain" where
  "bitdomain_new n init = \<lparr>bd_dom = replicate n init, bd_size = n,
     bd_firstel = (if init then 0 else -1), bd_numTrue = (if init then int n else 0)\<rparr>"

definition bd_set1 :: "bitdomain \<Rightarrow> nat \<Rightarrow> bitdomain" where
  "bd_set1 d k = (if bd_dom d ! k then d
     else d\<lparr>bd_dom := (bd_dom d)[k := True], bd_numTrue := bd_numTrue d + 1,
            bd_firstel := (if bd_firstel d = -1 \<or> int k < bd_firstel d then int k else bd_firstel d)\<rparr>)"

definition bd_reset1 :: "bitdomain \<Rightarrow> nat \<Rightarrow> bitdomain" where
  "bd_reset1 d k = (if \<not> bd_dom d ! k then d
     else let dm = (bd_dom d)[k := False];
              f = (if int k = bd_firstel d
                   then (let f1 = (case List.find (\<lambda>i. dm ! i) [Suc k..<bd_size d] of
                                     Some i \<Rightarrow> int i | None \<Rightarrow> bd_firstel d)
                         in if f1 = int k then -1 else f1)
                   else bd_firstel d)
          in d\<lparr>bd_dom := dm, bd_numTrue := bd_numTrue d - 1, bd_firstel := f\<rparr>)"

definition bd_set_all :: "bitdomain \<Rightarrow> bitdomain" where
  "bd_set_all d = d\<lparr>bd_dom := replicate (bd_size d) True, bd_firstel := 0, bd_numTrue := int (bd_size d)\<rparr>"

definition bd_reset_all :: "bitdomain \<Rightarrow> bitdomain" where
  "bd_reset_all d = d\<lparr>bd_dom := replicate (bd_size d) False, bd_firstel := -1, bd_numTrue := 0\<rparr>"

definition bd_none :: "bitdomain \<Rightarrow> bool" where
  "bd_none d = (List.find (\<lambda>x. x) (bd_dom d) = None)"

definition bd_options :: "bitdomain \<Rightarrow> nat list" where
  "bd_options d = filter (\<lambda>j. bd_dom d ! j) [0..<bd_size d]"

subsection \<open>The set a domain denotes\<close>

definition bd_vals :: "bitdomain \<Rightarrow> nat set" where
  "bd_vals d = {k. k < bd_size d \<and> bd_dom d ! k}"

definition first_of :: "nat set \<Rightarrow> int" where
  "first_of A = (if A = {} then -1 else int (Min A))"

text \<open>
  The class invariant for domains of size \<open>n\<close> (at least 1: \<open>set()\<close> writes \<open>firstel = 0\<close>
  also for size 0).
\<close>

definition bd_inv :: "nat \<Rightarrow> bitdomain \<Rightarrow> bool" where
  "bd_inv n d \<longleftrightarrow> 0 < n \<and> bd_size d = n \<and> length (bd_dom d) = n \<and>
     bd_numTrue d = int (card (bd_vals d)) \<and> bd_firstel d = first_of (bd_vals d)"

lemma bd_vals_finite [simp]: "finite (bd_vals d)"
  by (simp add: bd_vals_def)

lemma bd_vals_bound: "bd_inv n d \<Longrightarrow> bd_vals d \<subseteq> {..<n}"
  by (auto simp: bd_vals_def bd_inv_def)

lemma bd_dom_vals: "bd_inv n d \<Longrightarrow> k < n \<Longrightarrow> bd_dom d ! k \<longleftrightarrow> k \<in> bd_vals d"
  by (auto simp: bd_vals_def bd_inv_def)

lemma first_of_eq_int:
  assumes "finite A"
  shows "first_of A = int k \<longleftrightarrow> k \<in> A \<and> (\<forall>j\<in>A. k \<le> j)"
  using assms Min_eq_iff[of A k] by (auto simp: first_of_def)

lemma first_of_least:
  assumes "k \<in> A" "\<And>j. j \<in> A \<Longrightarrow> k \<le> j" "finite A"
  shows "first_of A = int k"
  using assms by (simp add: first_of_eq_int)

lemma first_of_insert:
  assumes "finite A"
  shows "first_of (insert k A) = (if first_of A = -1 \<or> int k < first_of A then int k else first_of A)"
proof (cases "A = {}")
  case False
  with assms have "first_of A = int (Min A)" "Min (insert k A) = min k (Min A)"
    by (simp_all add: first_of_def)
  then show ?thesis by (auto simp: first_of_def min_def)
qed (simp add: first_of_def)

lemma first_of_lessThan: "0 < n \<Longrightarrow> first_of {..<n} = 0"
  using first_of_least[of 0 "{..<n}"] by simp

lemma find_upt:
  "List.find P [a..<b] = (if \<exists>i. a \<le> i \<and> i < b \<and> P i then Some (LEAST i. a \<le> i \<and> P i) else None)"
proof (cases "\<exists>i. a \<le> i \<and> i < b \<and> P i")
  case True
  let ?m = "LEAST i. a \<le> i \<and> P i"
  from True obtain i where i: "a \<le> i" "i < b" "P i" by blast
  then have m: "a \<le> ?m" "P ?m" "?m \<le> i"
    by (metis (mono_tags, lifting) LeastI, metis (mono_tags, lifting) LeastI,
        metis (mono_tags, lifting) Least_le)
  have "\<not> P j" if "a \<le> j" "j < ?m" for j
    using that not_less_Least by blast
  with m i have "List.find P [a..<b] = Some ?m"
    by (auto simp: find_Some_iff intro!: exI[of _ "?m - a"])
  with True show ?thesis by simp
next
  case False
  then show ?thesis by (auto simp: find_None_iff)
qed

lemma bitdomain_new_inv: "0 < n \<Longrightarrow> bd_inv n (bitdomain_new n init)"
proof -
  assume n: "0 < n"
  have "bd_vals (bitdomain_new n init) = (if init then {..<n} else {})"
    by (auto simp: bd_vals_def bitdomain_new_def)
  with n show ?thesis
    by (simp add: bd_inv_def first_of_lessThan) (simp add: bitdomain_new_def first_of_def)
qed

lemma bitdomain_new_vals: "bd_vals (bitdomain_new n init) = (if init then {..<n} else {})"
  by (auto simp: bd_vals_def bitdomain_new_def)

lemma bd_set1_vals:
  "bd_inv n d \<Longrightarrow> k < n \<Longrightarrow> bd_vals (bd_set1 d k) = insert k (bd_vals d)"
  by (auto simp: bd_vals_def bd_set1_def bd_inv_def nth_list_update)

lemma bd_set1_inv:
  assumes "bd_inv n d" "k < n" shows "bd_inv n (bd_set1 d k)"
proof (cases "bd_dom d ! k")
  case False
  then have "k \<notin> bd_vals d" by (simp add: bd_vals_def)
  with False assms bd_set1_vals[OF assms] show ?thesis
    by (simp add: bd_inv_def bd_set1_def first_of_insert)
qed (use assms in \<open>simp add: bd_set1_def\<close>)

lemma bd_reset1_vals:
  "bd_inv n d \<Longrightarrow> k < n \<Longrightarrow> bd_vals (bd_reset1 d k) = bd_vals d - {k}"
  by (auto simp: bd_vals_def bd_reset1_def bd_inv_def nth_list_update Let_def)

text \<open>The scan for the next element recomputes the cached first element.\<close>

lemma first_of_remove:
  assumes "finite A" "k \<in> A" "A \<subseteq> {..<n}"
  shows "first_of (A - {k}) =
    (if int k = first_of A
     then (let f1 = (case List.find (\<lambda>i. i \<in> A - {k}) [Suc k..<n] of Some i \<Rightarrow> int i | None \<Rightarrow> first_of A)
           in if f1 = int k then -1 else f1)
     else first_of A)"
proof (cases "int k = first_of A")
  case True
  with assms have min: "\<And>j. j \<in> A \<Longrightarrow> k \<le> j" by (auto simp: first_of_def split: if_splits)
  show ?thesis
  proof (cases "A - {k} = {}")
    case True
    then have "List.find (\<lambda>i. i \<in> A - {k}) [Suc k..<n] = None" by (auto simp: find_None_iff)
    with True \<open>int k = first_of A\<close> show ?thesis by (simp add: first_of_def)
  next
    case False
    let ?P = "\<lambda>i. i \<in> A - {k}" and ?m = "LEAST i. Suc k \<le> i \<and> i \<in> A - {k}"
    from False obtain j where j: "j \<in> A - {k}" by blast
    with min[of j] have ex: "Suc k \<le> j \<and> j \<in> A - {k}" by auto
    then have m: "Suc k \<le> ?m \<and> ?m \<in> A - {k}" by (rule LeastI)
    have le: "?m \<le> i" if "i \<in> A - {k}" for i
      using that min[of i] by (intro Least_le) auto
    have "List.find ?P [Suc k..<n] = Some ?m"
      unfolding find_upt using ex j assms(3) by auto
    moreover have "first_of (A - {k}) = int ?m"
      using m le assms(1) by (intro first_of_least) auto
    ultimately show ?thesis using True m by simp
  qed
next
  case False
  let ?m = "Min A"
  have "?m \<in> A" using assms by (intro Min_in) auto
  with assms have m: "?m \<in> A" "\<forall>j\<in>A. ?m \<le> j" "first_of A = int ?m"
    by (auto simp: first_of_def)
  with False have "first_of (A - {k}) = int ?m"
    using assms(1) by (intro first_of_least) auto
  with False m show ?thesis by simp
qed

lemma bd_reset1_inv:
  assumes inv: "bd_inv n d" and k: "k < n" shows "bd_inv n (bd_reset1 d k)"
proof (cases "bd_dom d ! k")
  case True
  let ?A = "bd_vals d"
  from True k inv have kA: "k \<in> ?A" by (simp add: bd_dom_vals)
  have find: "List.find (\<lambda>i. (bd_dom d)[k := False] ! i) [Suc k..<n] =
      List.find (\<lambda>i. i \<in> ?A - {k}) [Suc k..<n]"
    using inv by (intro find_cong) (auto simp: nth_list_update bd_vals_def bd_inv_def)
  have "bd_firstel (bd_reset1 d k) = first_of (?A - {k})"
  proof -
    have eqs: "bd_size d = n" "bd_firstel d = first_of ?A" using inv by (simp_all add: bd_inv_def)
    show ?thesis
      unfolding first_of_remove[OF bd_vals_finite kA bd_vals_bound[OF inv]]
      using True by (simp only: bd_reset1_def Let_def if_False not_True_eq_False eqs find) simp
  qed
  moreover have "bd_numTrue (bd_reset1 d k) = int (card (?A - {k}))"
    using True inv kA card_gt_0_iff[of ?A] by (auto simp: bd_reset1_def Let_def bd_inv_def of_nat_diff)
  ultimately show ?thesis
    using inv True bd_reset1_vals[OF inv k] by (simp add: bd_inv_def bd_reset1_def Let_def)
qed (use inv in \<open>simp add: bd_reset1_def\<close>)

lemma bd_set_all_vals: "bd_vals (bd_set_all d) = {..<bd_size d}"
  by (auto simp: bd_vals_def bd_set_all_def)

lemma bd_set_all_inv: "bd_inv n d \<Longrightarrow> bd_inv n (bd_set_all d)"
  by (simp add: bd_inv_def bd_set_all_vals first_of_lessThan) (simp add: bd_set_all_def)

lemma bd_reset_all_vals: "bd_vals (bd_reset_all d) = {}"
  by (auto simp: bd_vals_def bd_reset_all_def)

lemma bd_reset_all_inv: "bd_inv n d \<Longrightarrow> bd_inv n (bd_reset_all d)"
  by (simp add: bd_inv_def bd_reset_all_vals first_of_def) (simp add: bd_reset_all_def)

lemma bd_none_iff: "bd_inv n d \<Longrightarrow> bd_none d \<longleftrightarrow> bd_vals d = {}"
  by (auto simp: bd_none_def bd_vals_def bd_inv_def find_None_iff in_set_conv_nth)

lemma set_bd_options: "set (bd_options d) = bd_vals d"
  by (auto simp: bd_options_def bd_vals_def)

lemma bd_options_eq: "bd_options d = sorted_list_of_set (bd_vals d)"
proof (rule sorted_distinct_set_unique)
  show "sorted (bd_options d)" "distinct (bd_options d)" by (simp_all add: bd_options_def)
qed (simp_all add: set_bd_options)

section \<open>Flat layouts: bitdomains2\_t and bitdomains3\_t\<close>

text \<open>
  A slot at base \<open>b\<close> is the flat vector's cells \<open>b\<close> (first element), \<open>b + 1\<close> (number of
  elements) and \<open>b + 2, \<dots>\<close> (one cell per value). Row \<open>e\<close> of \<open>bitdomains2_t\<close> is the slot at
  \<open>chunk * e\<close>, cell \<open>(r, c)\<close> of \<open>bitdomains3_t\<close> the slot at \<open>chunkr * r + chunkc * c\<close>. The
  two classes have the same operation bodies up to the base; the slot operations below are
  those bodies.
\<close>

definition slot_set :: "int list \<Rightarrow> nat \<Rightarrow> nat \<Rightarrow> int list" where
  "slot_set dm b k = (if dm ! (b + 2 + k) = 1 then dm
     else let d1 = dm[b + 2 + k := 1];
              d2 = d1[b + 1 := d1 ! (b + 1) + 1];
              firstidx = d2 ! b
          in if firstidx = -1 \<or> int k < firstidx then d2[b := int k] else d2)"

definition slot_reset :: "nat \<Rightarrow> int list \<Rightarrow> nat \<Rightarrow> nat \<Rightarrow> int list" where
  "slot_reset n dm b k = (if dm ! (b + 2 + k) = 0 then dm
     else let d1 = dm[b + 2 + k := 0];
              d2 = d1[b + 1 := d1 ! (b + 1) - 1];
              firstidx = d2 ! b
          in if int k = firstidx
             then (let d3 = (case List.find (\<lambda>i. d2 ! (b + 2 + i) = 1) [Suc k..<n] of
                               Some i \<Rightarrow> d2[b := int i] | None \<Rightarrow> d2)
                   in if d3 ! b = int k then d3[b := -1] else d3)
             else d2)"

text \<open>The loop \<open>for (i = b + 2; i < e; i++) dom[i] = v\<close> and the two writes after it.\<close>

definition slot_fill :: "int list \<Rightarrow> nat \<Rightarrow> nat \<Rightarrow> int \<Rightarrow> int \<Rightarrow> int \<Rightarrow> int list" where
  "slot_fill dm b e v f c = (fold (\<lambda>i d. d[i := v]) [b + 2..<e] dm)[b := f, b + 1 := c]"

definition slot_options :: "nat \<Rightarrow> int list \<Rightarrow> nat \<Rightarrow> nat list" where
  "slot_options n dm b = filter (\<lambda>j. dm ! (b + j + 2) = 1) [0..<n]"

record bitdomains2 =
  bd2_dom :: "int list"
  bd2_chunk :: nat

definition bd2_new :: "nat \<Rightarrow> bool \<Rightarrow> bitdomains2" where
  "bd2_new n init = (let ch = n + 2;
       dm = replicate (ch * n) (if init then 1 else 0)
     in \<lparr>bd2_dom = (if init then fold (\<lambda>i d. d[ch * i := 0, ch * i + 1 := int n]) [0..<n] dm
                   else fold (\<lambda>i d. d[ch * i := -1]) [0..<n] dm),
         bd2_chunk = ch\<rparr>)"

definition bd2_empty :: bitdomains2 where
  "bd2_empty = \<lparr>bd2_dom = [], bd2_chunk = 0\<rparr>"

definition bd2_firstel :: "bitdomains2 \<Rightarrow> nat \<Rightarrow> int" where
  "bd2_firstel d e = bd2_dom d ! (bd2_chunk d * e)"

definition bd2_numtrue :: "bitdomains2 \<Rightarrow> nat \<Rightarrow> int" where
  "bd2_numtrue d e = bd2_dom d ! (bd2_chunk d * e + 1)"

definition bd2_get_val :: "bitdomains2 \<Rightarrow> nat \<Rightarrow> int" where
  "bd2_get_val d e = (if bd2_numtrue d e = 1 then bd2_firstel d e else -1)"

definition bd2_get :: "bitdomains2 \<Rightarrow> nat \<Rightarrow> nat \<Rightarrow> bool" where
  "bd2_get d e k = (if bd2_numtrue d e \<noteq> 0 then bd2_dom d ! (bd2_chunk d * e + 2 + k) = 1 else False)"

definition bd2_set_every :: "nat \<Rightarrow> bitdomains2 \<Rightarrow> bitdomains2" where
  "bd2_set_every n d = (let ch = bd2_chunk d in
     d\<lparr>bd2_dom := fold (\<lambda>i dm. dm[ch * i := 0, ch * i + 1 := int n]) [0..<n] (replicate (ch * n) 1)\<rparr>)"

definition bd2_reset_every :: "nat \<Rightarrow> bitdomains2 \<Rightarrow> bitdomains2" where
  "bd2_reset_every n d = (let ch = bd2_chunk d in
     d\<lparr>bd2_dom := fold (\<lambda>i dm. dm[ch * i := -1]) [0..<n] (replicate (ch * n) 0)\<rparr>)"

definition bd2_set1 :: "bitdomains2 \<Rightarrow> nat \<Rightarrow> nat \<Rightarrow> bitdomains2" where
  "bd2_set1 d e k = d\<lparr>bd2_dom := slot_set (bd2_dom d) (bd2_chunk d * e) k\<rparr>"

definition bd2_reset1 :: "nat \<Rightarrow> bitdomains2 \<Rightarrow> nat \<Rightarrow> nat \<Rightarrow> bitdomains2" where
  "bd2_reset1 n d e k = d\<lparr>bd2_dom := slot_reset n (bd2_dom d) (bd2_chunk d * e) k\<rparr>"

definition bd2_set_all :: "nat \<Rightarrow> bitdomains2 \<Rightarrow> nat \<Rightarrow> bitdomains2" where
  "bd2_set_all n d e =
     d\<lparr>bd2_dom := slot_fill (bd2_dom d) (bd2_chunk d * e) (bd2_chunk d * (e + 1)) 1 0 (int n)\<rparr>"

definition bd2_reset_all :: "bitdomains2 \<Rightarrow> nat \<Rightarrow> bitdomains2" where
  "bd2_reset_all d e =
     d\<lparr>bd2_dom := slot_fill (bd2_dom d) (bd2_chunk d * e) (bd2_chunk d * (e + 1)) 0 (-1) 0\<rparr>"

definition bd2_none :: "bitdomains2 \<Rightarrow> nat \<Rightarrow> bool" where
  "bd2_none d e = (bd2_numtrue d e = 0)"

definition bd2_options :: "nat \<Rightarrow> bitdomains2 \<Rightarrow> nat \<Rightarrow> nat list" where
  "bd2_options n d e = slot_options n (bd2_dom d) (bd2_chunk d * e)"

record bitdomains3 =
  bd3_dom :: "int list"
  bd3_chunkr :: nat
  bd3_chunkc :: nat

definition bd3_base :: "bitdomains3 \<Rightarrow> nat \<times> nat \<Rightarrow> nat" where
  "bd3_base d k = bd3_chunkr d * fst k + bd3_chunkc d * snd k"

definition bd3_empty :: bitdomains3 where
  "bd3_empty = \<lparr>bd3_dom = [], bd3_chunkr = 0, bd3_chunkc = 0\<rparr>"

text \<open>The double loop that writes the slot heads visits \<open>(j, i)\<close> with \<open>i\<close> outermost.\<close>

definition bd3_fill_heads :: "nat \<Rightarrow> nat \<Rightarrow> nat \<Rightarrow> bool \<Rightarrow> int list \<Rightarrow> int list" where
  "bd3_fill_heads n chr chc init dm =
     fold (\<lambda>(i, j) d. if init then d[chr * j + chc * i := 0, chr * j + chc * i + 1 := int n]
                      else d[chr * j + chc * i := -1])
       (List.product [0..<n] [0..<n]) dm"

definition bd3_new :: "nat \<Rightarrow> bool \<Rightarrow> bitdomains3" where
  "bd3_new n init = (let chc = n + 2; chr = n * chc in
     \<lparr>bd3_dom = bd3_fill_heads n chr chc init (replicate (chr * n) (if init then 1 else 0)),
      bd3_chunkr = chr, bd3_chunkc = chc\<rparr>)"

definition bd3_firstel :: "bitdomains3 \<Rightarrow> nat \<times> nat \<Rightarrow> int" where
  "bd3_firstel d k = bd3_dom d ! bd3_base d k"

definition bd3_numtrue :: "bitdomains3 \<Rightarrow> nat \<times> nat \<Rightarrow> int" where
  "bd3_numtrue d k = bd3_dom d ! (bd3_base d k + 1)"

definition bd3_get_val :: "bitdomains3 \<Rightarrow> nat \<times> nat \<Rightarrow> int" where
  "bd3_get_val d k = (if bd3_numtrue d k = 1 then bd3_firstel d k else -1)"

definition bd3_get :: "bitdomains3 \<Rightarrow> nat \<times> nat \<Rightarrow> nat \<Rightarrow> bool" where
  "bd3_get d k e = (if bd3_numtrue d k \<noteq> 0 then bd3_dom d ! (bd3_base d k + 2 + e) = 1 else False)"

definition bd3_set_every :: "nat \<Rightarrow> bitdomains3 \<Rightarrow> bitdomains3" where
  "bd3_set_every n d = d\<lparr>bd3_dom :=
     bd3_fill_heads n (bd3_chunkr d) (bd3_chunkc d) True (replicate (bd3_chunkr d * n) 1)\<rparr>"

definition bd3_reset_every :: "nat \<Rightarrow> bitdomains3 \<Rightarrow> bitdomains3" where
  "bd3_reset_every n d = d\<lparr>bd3_dom :=
     bd3_fill_heads n (bd3_chunkr d) (bd3_chunkc d) False (replicate (bd3_chunkr d * n) 0)\<rparr>"

definition bd3_set1 :: "bitdomains3 \<Rightarrow> nat \<times> nat \<Rightarrow> nat \<Rightarrow> bitdomains3" where
  "bd3_set1 d k e = d\<lparr>bd3_dom := slot_set (bd3_dom d) (bd3_base d k) e\<rparr>"

definition bd3_reset1 :: "nat \<Rightarrow> bitdomains3 \<Rightarrow> nat \<times> nat \<Rightarrow> nat \<Rightarrow> bitdomains3" where
  "bd3_reset1 n d k e = d\<lparr>bd3_dom := slot_reset n (bd3_dom d) (bd3_base d k) e\<rparr>"

definition bd3_set_all :: "nat \<Rightarrow> bitdomains3 \<Rightarrow> nat \<times> nat \<Rightarrow> bitdomains3" where
  "bd3_set_all n d k = d\<lparr>bd3_dom :=
     slot_fill (bd3_dom d) (bd3_base d k) (bd3_base d (fst k, snd k + 1)) 1 0 (int n)\<rparr>"

definition bd3_reset_all :: "bitdomains3 \<Rightarrow> nat \<times> nat \<Rightarrow> bitdomains3" where
  "bd3_reset_all d k = d\<lparr>bd3_dom :=
     slot_fill (bd3_dom d) (bd3_base d k) (bd3_base d (fst k, snd k + 1)) 0 (-1) 0\<rparr>"

definition bd3_none :: "bitdomains3 \<Rightarrow> nat \<times> nat \<Rightarrow> bool" where
  "bd3_none d k = (bd3_numtrue d k = 0)"

definition bd3_options :: "nat \<Rightarrow> bitdomains3 \<Rightarrow> nat \<times> nat \<Rightarrow> nat list" where
  "bd3_options n d k = slot_options n (bd3_dom d) (bd3_base d k)"

subsection \<open>Refinement: a slot is a bitdomain\<close>

definition slot_abs :: "nat \<Rightarrow> int list \<Rightarrow> nat \<Rightarrow> bitdomain" where
  "slot_abs n dm b = \<lparr>bd_dom = map (\<lambda>i. dm ! (b + 2 + i) = 1) [0..<n], bd_size = n,
     bd_firstel = dm ! b, bd_numTrue = dm ! (b + 1)\<rparr>"

definition slot_ok :: "nat \<Rightarrow> int list \<Rightarrow> nat \<Rightarrow> bool" where
  "slot_ok n dm b \<longleftrightarrow> b + 2 + n \<le> length dm \<and> (\<forall>i<n. dm ! (b + 2 + i) = 0 \<or> dm ! (b + 2 + i) = 1)"

definition same_outside :: "nat \<Rightarrow> nat \<Rightarrow> int list \<Rightarrow> int list \<Rightarrow> bool" where
  "same_outside n b dm dm' \<longleftrightarrow> length dm' = length dm \<and>
     (\<forall>i. i < b \<or> b + 2 + n \<le> i \<longrightarrow> dm' ! i = dm ! i)"

lemma same_outside_frame:
  assumes "same_outside n b dm dm'" "b' + 2 + n \<le> b \<or> b + 2 + n \<le> b'"
  shows "slot_abs n dm' b' = slot_abs n dm b'" "slot_ok n dm' b' = slot_ok n dm b'"
proof -
  have "dm' ! (b' + i) = dm ! (b' + i)" if "i < n + 2" for i
    using assms that by (auto simp: same_outside_def)
  from this[of 0] this[of 1] this[of "2 + _"]
  have eq: "dm' ! b' = dm ! b'" "dm' ! Suc b' = dm ! Suc b'"
      "\<And>i. i < n \<Longrightarrow> dm' ! (b' + 2 + i) = dm ! (b' + 2 + i)"
    by (simp_all add: add.assoc)
  then show "slot_abs n dm' b' = slot_abs n dm b'" by (simp add: slot_abs_def)
  from eq(3) assms(1) show "slot_ok n dm' b' = slot_ok n dm b'"
    by (auto simp: slot_ok_def same_outside_def)
qed

lemma slot_set_outside: "k < n \<Longrightarrow> same_outside n b dm (slot_set dm b k)"
  by (auto simp: same_outside_def slot_set_def Let_def)

lemma slot_reset_outside: "k < n \<Longrightarrow> same_outside n b dm (slot_reset n dm b k)"
  by (auto simp: same_outside_def slot_reset_def Let_def split: option.splits)

lemma fold_update_range:
  "length (fold (\<lambda>i d. d[i := v]) [a..<e] dm) = length dm \<and>
   (\<forall>i. (if a \<le> i \<and> i < e then i < length dm \<longrightarrow> fold (\<lambda>i d. d[i := v]) [a..<e] dm ! i = v
        else fold (\<lambda>i d. d[i := v]) [a..<e] dm ! i = dm ! i))"
proof (induction e)
  case (Suc e)
  then show ?case
    by (cases "a \<le> e") (auto simp: nth_list_update less_Suc_eq)
qed simp

lemma slot_fill_outside: "e = b + 2 + n \<Longrightarrow> same_outside n b dm (slot_fill dm b e v f c)"
  using fold_update_range[where v = v and a = "b + 2" and e = e and dm = dm]
  by (auto simp: same_outside_def slot_fill_def simp del: upt_Suc add_2_eq_Suc add_2_eq_Suc')

lemma slot_set_refines:
  assumes "slot_ok n dm b" "k < n"
  shows "slot_abs n (slot_set dm b k) b = bd_set1 (slot_abs n dm b) k" "slot_ok n (slot_set dm b k) b"
proof -
  show "slot_ok n (slot_set dm b k) b"
    using assms by (auto simp: slot_ok_def slot_set_def Let_def nth_list_update)
  show "slot_abs n (slot_set dm b k) b = bd_set1 (slot_abs n dm b) k"
    using assms
    by (auto simp: slot_ok_def slot_set_def slot_abs_def bd_set1_def Let_def nth_list_update
        intro!: nth_equalityI)
qed

lemma slot_bits_reset:
  assumes "slot_ok n dm b" "k < n"
  shows "map (\<lambda>i. dm[b + 2 + k := 0] ! (b + 2 + i) = 1) [0..<n] =
      (map (\<lambda>i. dm ! (b + 2 + i) = 1) [0..<n])[k := False]"
    and "List.find (\<lambda>i. dm[b + 2 + k := 0] ! (b + 2 + i) = 1) [Suc k..<n] =
      List.find ((!) ((map (\<lambda>i. dm ! (b + 2 + i) = 1) [0..<n])[k := False])) [Suc k..<n]"
proof -
  show "map (\<lambda>i. dm[b + 2 + k := 0] ! (b + 2 + i) = 1) [0..<n] =
      (map (\<lambda>i. dm ! (b + 2 + i) = 1) [0..<n])[k := False]" (is "?L = ?R")
    using assms by (auto intro!: nth_equalityI simp: nth_list_update slot_ok_def)
  then have "?L ! i = ?R ! i" for i by simp
  then have "dm[b + 2 + k := 0] ! (b + 2 + i) = 1 \<longleftrightarrow> ?R ! i" if "i < n" for i
    using that nth_map[of i "[0..<n]" "\<lambda>i. dm[b + 2 + k := 0] ! (b + 2 + i) = 1"] by simp
  then show "List.find (\<lambda>i. dm[b + 2 + k := 0] ! (b + 2 + i) = 1) [Suc k..<n] =
      List.find ((!) ?R) [Suc k..<n]"
    by (intro find_cong) auto
qed

lemma find_upt_ge: "List.find P [a..<e] = Some i \<Longrightarrow> a \<le> i"
  by (auto simp: find_Some_iff)

lemma slot_reset_refines:
  assumes ok: "slot_ok n dm b" and k: "k < n"
  shows "slot_abs n (slot_reset n dm b k) b = bd_reset1 (slot_abs n dm b) k" "slot_ok n (slot_reset n dm b k) b"
proof -
  show "slot_ok n (slot_reset n dm b k) b"
    using assms by (auto simp: slot_ok_def slot_reset_def Let_def nth_list_update split: option.splits)
  have bit: "dm ! (b + 2 + k) = 0 \<longleftrightarrow> \<not> bd_dom (slot_abs n dm b) ! k"
    using assms by (auto simp: slot_ok_def slot_abs_def)
  have len: "b + 2 + n \<le> length dm" using ok by (simp add: slot_ok_def)
  show "slot_abs n (slot_reset n dm b k) b = bd_reset1 (slot_abs n dm b) k"
  proof (cases "dm ! (b + 2 + k) = 0")
    case True
    with bit show ?thesis by (simp add: slot_reset_def bd_reset1_def)
  next
    case False
    with bit have set: "bd_dom (slot_abs n dm b) ! k" by blast
    have one: "dm ! (b + 2 + k) = 1" using False ok k by (auto simp: slot_ok_def)
    show ?thesis
      using one set len k
      by (auto simp: slot_reset_def bd_reset1_def slot_abs_def Let_def slot_bits_reset[OF ok k]
          simp del: add_2_eq_Suc add_2_eq_Suc' split: option.splits dest: find_upt_ge)
  qed
qed

lemma slot_fill_refines:
  assumes ok: "slot_ok n dm b" and e: "e = b + 2 + n"
  shows "slot_abs n (slot_fill dm b e 1 0 (int n)) b = bd_set_all (slot_abs n dm b)"
    "slot_abs n (slot_fill dm b e 0 (-1) 0) b = bd_reset_all (slot_abs n dm b)"
    "v = 0 \<or> v = 1 \<Longrightarrow> slot_ok n (slot_fill dm b e v f c) b"
proof -
  have len: "b + 2 + n \<le> length dm" using ok by (simp add: slot_ok_def)
  have bit: "slot_fill dm b e v f c ! (b + 2 + i) = v" if "i < n" for v f c i
    using that len fold_update_range[where v = v and a = "b + 2" and e = "b + 2 + n" and dm = dm]
    by (simp add: slot_fill_def e del: upt_Suc add_2_eq_Suc add_2_eq_Suc')
  have hd: "slot_fill dm b e v f c ! b = f" "slot_fill dm b e v f c ! (b + 1) = c" for v f c
    using len fold_update_range[where v = v and a = "b + 2" and e = e and dm = dm]
    by (simp_all add: slot_fill_def del: upt_Suc add_2_eq_Suc add_2_eq_Suc')
  have l: "length (slot_fill dm b e v f c) = length dm" for v f c
    using slot_fill_outside[OF e, of dm v f c] by (simp add: same_outside_def)
  show "slot_abs n (slot_fill dm b e 1 0 (int n)) b = bd_set_all (slot_abs n dm b)"
    using bit hd by (auto simp: slot_abs_def bd_set_all_def intro!: nth_equalityI)
  show "slot_abs n (slot_fill dm b e 0 (-1) 0) b = bd_reset_all (slot_abs n dm b)"
    using bit hd by (auto simp: slot_abs_def bd_reset_all_def intro!: nth_equalityI)
  show "slot_ok n (slot_fill dm b e v f c) b" if "v = 0 \<or> v = 1"
    using that bit l len by (auto simp: slot_ok_def)
qed

lemma slot_options_refines: "slot_options n dm b = bd_options (slot_abs n dm b)"
  unfolding slot_options_def bd_options_def slot_abs_def
  by (auto intro!: filter_cong simp: add.commute add.left_commute)

section \<open>The contract\<close>

text \<open>
  A store of domains over the values \<open>0, \<dots>, n - 1\<close>: each valid key names one domain, an update
  at a key leaves the other keys alone, and the cached first element and count are what a scan
  of the set would give.
\<close>

locale domain_store =
  fixes n :: nat
    and inv :: "'d \<Rightarrow> bool"
    and key :: "'k \<Rightarrow> bool"
    and vals :: "'d \<Rightarrow> 'k \<Rightarrow> nat set"
    and set1 reset1 :: "'d \<Rightarrow> 'k \<Rightarrow> nat \<Rightarrow> 'd"
    and fill clear :: "'d \<Rightarrow> 'k \<Rightarrow> 'd"
    and firstel numtrue :: "'d \<Rightarrow> 'k \<Rightarrow> int"
    and none :: "'d \<Rightarrow> 'k \<Rightarrow> bool"
    and options :: "'d \<Rightarrow> 'k \<Rightarrow> nat list"
  assumes vals_bound: "inv d \<Longrightarrow> key k \<Longrightarrow> vals d k \<subseteq> {..<n}"
    and firstel_eq: "inv d \<Longrightarrow> key k \<Longrightarrow> firstel d k = first_of (vals d k)"
    and numtrue_eq: "inv d \<Longrightarrow> key k \<Longrightarrow> numtrue d k = int (card (vals d k))"
    and none_eq: "inv d \<Longrightarrow> key k \<Longrightarrow> none d k \<longleftrightarrow> vals d k = {}"
    and options_eq: "inv d \<Longrightarrow> key k \<Longrightarrow> options d k = sorted_list_of_set (vals d k)"
    and set1_vals: "inv d \<Longrightarrow> key k \<Longrightarrow> key k' \<Longrightarrow> v < n \<Longrightarrow>
      vals (set1 d k v) k' = (if k' = k then insert v (vals d k) else vals d k')"
    and reset1_vals: "inv d \<Longrightarrow> key k \<Longrightarrow> key k' \<Longrightarrow> v < n \<Longrightarrow>
      vals (reset1 d k v) k' = (if k' = k then vals d k - {v} else vals d k')"
    and fill_vals: "inv d \<Longrightarrow> key k \<Longrightarrow> key k' \<Longrightarrow>
      vals (fill d k) k' = (if k' = k then {..<n} else vals d k')"
    and clear_vals: "inv d \<Longrightarrow> key k \<Longrightarrow> key k' \<Longrightarrow>
      vals (clear d k) k' = (if k' = k then {} else vals d k')"
    and set1_inv: "inv d \<Longrightarrow> key k \<Longrightarrow> v < n \<Longrightarrow> inv (set1 d k v)"
    and reset1_inv: "inv d \<Longrightarrow> key k \<Longrightarrow> v < n \<Longrightarrow> inv (reset1 d k v)"
    and fill_inv: "inv d \<Longrightarrow> key k \<Longrightarrow> inv (fill d k)"
    and clear_inv: "inv d \<Longrightarrow> key k \<Longrightarrow> inv (clear d k)"
begin

lemma finite_vals: "inv d \<Longrightarrow> key k \<Longrightarrow> finite (vals d k)"
  using vals_bound finite_subset by blast

lemma firstel_neg: "inv d \<Longrightarrow> key k \<Longrightarrow> firstel d k = -1 \<longleftrightarrow> vals d k = {}"
  by (simp add: firstel_eq first_of_def)

lemma firstel_nat:
  assumes "inv d" "key k" "vals d k \<noteq> {}"
  shows "nat (firstel d k) \<in> vals d k" "0 \<le> firstel d k"
    "v \<in> vals d k \<Longrightarrow> firstel d k \<le> int v"
proof -
  note fin = finite_vals[OF assms(1,2)]
  have eq: "firstel d k = int (Min (vals d k))"
    using assms by (simp add: firstel_eq first_of_def)
  then show "nat (firstel d k) \<in> vals d k" "0 \<le> firstel d k"
    using Min_in[OF fin assms(3)] by simp_all
  show "v \<in> vals d k \<Longrightarrow> firstel d k \<le> int v"
    using eq Min_le[OF fin, of v] by simp
qed

lemma numtrue_one: "inv d \<Longrightarrow> key k \<Longrightarrow> numtrue d k = 1 \<longleftrightarrow> (\<exists>v. vals d k = {v})"
  by (simp add: numtrue_eq card_1_singleton_iff)

lemma numtrue_one_vals:
  assumes "inv d" "key k" "numtrue d k = 1"
  shows "vals d k = {nat (firstel d k)}"
proof -
  from assms numtrue_one[OF assms(1,2)] obtain v where "vals d k = {v}" by blast
  with assms(1,2) show ?thesis by (simp add: firstel_eq first_of_def)
qed

lemma numtrue_zero: "inv d \<Longrightarrow> key k \<Longrightarrow> numtrue d k = 0 \<longleftrightarrow> none d k"
  by (simp add: numtrue_eq none_eq finite_vals)

lemma set_options: "inv d \<Longrightarrow> key k \<Longrightarrow> set (options d k) = vals d k"
  by (simp add: options_eq finite_vals)

lemma options_first: "inv d \<Longrightarrow> key k \<Longrightarrow> options d k \<noteq> [] \<Longrightarrow> int (hd (options d k)) = firstel d k"
  using finite_vals[of d k] by (auto simp: options_eq firstel_eq first_of_def Min_in sorted_list_of_set_nonempty)

lemma length_options: "inv d \<Longrightarrow> key k \<Longrightarrow> int (length (options d k)) = numtrue d k"
  by (simp add: options_eq numtrue_eq)

end

interpretation bd: domain_store n "bd_inv n" "\<lambda>_. True" "\<lambda>d (_::unit). bd_vals d"
  "\<lambda>d _. bd_set1 d" "\<lambda>d _. bd_reset1 d" "\<lambda>d _. bd_set_all d" "\<lambda>d _. bd_reset_all d"
  "\<lambda>d _. bd_firstel d" "\<lambda>d _. bd_numTrue d" "\<lambda>d _. bd_none d" "\<lambda>d _. bd_options d"
  for n
proof (unfold_locales, goal_cases)
  case (8 d k k') then show ?case by (simp add: bd_set_all_vals bd_inv_def)
qed (simp_all add: bd_vals_bound bd_none_iff bd_options_eq bd_set1_vals bd_reset1_vals
    bd_reset_all_vals bd_set1_inv bd_reset1_inv bd_set_all_inv bd_reset_all_inv, simp_all add: bd_inv_def)

text \<open>
  Any family of slots with pairwise disjoint extents satisfies the contract; the two flat
  classes are instances of this one argument.
\<close>

definition slots_inv :: "nat \<Rightarrow> ('k \<Rightarrow> bool) \<Rightarrow> ('k \<Rightarrow> nat) \<Rightarrow> int list \<Rightarrow> bool" where
  "slots_inv n key base dm \<longleftrightarrow>
     (\<forall>k. key k \<longrightarrow> slot_ok n dm (base k) \<and> bd_inv n (slot_abs n dm (base k)))"

definition slots_apart :: "nat \<Rightarrow> ('k \<Rightarrow> bool) \<Rightarrow> ('k \<Rightarrow> nat) \<Rightarrow> bool" where
  "slots_apart n key base \<longleftrightarrow>
     (\<forall>k k'. key k \<longrightarrow> key k' \<longrightarrow> k \<noteq> k' \<longrightarrow> base k + 2 + n \<le> base k' \<or> base k' + 2 + n \<le> base k)"

lemma slots_inv_update:
  assumes "slots_inv n key base dm" "slots_apart n key base" "key k"
    and "same_outside n (base k) dm dm'" "slot_ok n dm' (base k)" "bd_inv n (slot_abs n dm' (base k))"
  shows "slots_inv n key base dm'"
  unfolding slots_inv_def
proof (intro allI impI)
  fix k' assume k': "key k'"
  show "slot_ok n dm' (base k') \<and> bd_inv n (slot_abs n dm' (base k'))"
  proof (cases "k' = k")
    case False
    with assms(2,3) k' have "base k' + 2 + n \<le> base k \<or> base k + 2 + n \<le> base k'"
      by (auto simp: slots_apart_def)
    from same_outside_frame[OF assms(4) this] assms(1) k' show ?thesis by (simp add: slots_inv_def)
  qed (use assms in simp)
qed

lemma slots_other:
  assumes "slots_apart n key base" "key k" "key k'" "k' \<noteq> k" "same_outside n (base k) dm dm'"
  shows "slot_abs n dm' (base k') = slot_abs n dm (base k')"
  using assms same_outside_frame(1)[OF assms(5), of "base k'"] by (auto simp: slots_apart_def)

lemma slots_heads:
  assumes "slots_inv n key base dm" "key k"
  shows "dm ! base k = first_of (bd_vals (slot_abs n dm (base k)))"
    "dm ! (base k + 1) = int (card (bd_vals (slot_abs n dm (base k))))"
proof -
  have "bd_inv n (slot_abs n dm (base k))" using assms by (auto simp: slots_inv_def)
  then have "bd_firstel (slot_abs n dm (base k)) = first_of (bd_vals (slot_abs n dm (base k)))"
    "bd_numTrue (slot_abs n dm (base k)) = int (card (bd_vals (slot_abs n dm (base k))))"
    by (simp_all add: bd_inv_def)
  moreover have "bd_firstel (slot_abs n dm (base k)) = dm ! base k"
    "bd_numTrue (slot_abs n dm (base k)) = dm ! (base k + 1)"
    by (simp_all add: slot_abs_def)
  ultimately show "dm ! base k = first_of (bd_vals (slot_abs n dm (base k)))"
    "dm ! (base k + 1) = int (card (bd_vals (slot_abs n dm (base k))))" by simp_all
qed

lemma slots_domain_store:
  assumes "slots_apart n key base"
  shows "domain_store n (slots_inv n key base) key
    (\<lambda>dm k. bd_vals (slot_abs n dm (base k)))
    (\<lambda>dm k. slot_set dm (base k)) (\<lambda>dm k. slot_reset n dm (base k))
    (\<lambda>dm k. slot_fill dm (base k) (base k + 2 + n) 1 0 (int n))
    (\<lambda>dm k. slot_fill dm (base k) (base k + 2 + n) 0 (-1) 0)
    (\<lambda>dm k. dm ! base k) (\<lambda>dm k. dm ! (base k + 1)) (\<lambda>dm k. dm ! (base k + 1) = 0)
    (\<lambda>dm k. slot_options n dm (base k))"
proof -
  note inv = slots_inv_def[THEN iffD1, rule_format]
  note upd = slots_inv_update[OF _ assms]
  show ?thesis
  proof (unfold_locales, goal_cases)
    case (1 d k) then show ?case using inv[OF 1] bd_vals_bound[of n "slot_abs n d (base k)"] by simp
  next
    case (2 d k) then show ?case by (rule slots_heads)
  next
    case (3 d k) then show ?case by (rule slots_heads)
  next
    case (4 d k) then show ?case using slots_heads(2)[OF 4] by simp
  next
    case (5 d k) then show ?case by (simp add: slot_options_refines bd_options_eq)
  next
    case (6 d k k' v)
    then show ?case using inv[OF 6(1,2)] slots_other[OF assms 6(2,3) _ slot_set_outside[OF 6(4)], of d]
      by (auto simp: slot_set_refines bd_set1_vals)
  next
    case (7 d k k' v)
    then show ?case using inv[OF 7(1,2)] slots_other[OF assms 7(2,3) _ slot_reset_outside[OF 7(4)], of d]
      by (auto simp: slot_reset_refines bd_reset1_vals)
  next
    case (8 d k k')
    then show ?case using inv[OF 8(1,2)] slots_other[OF assms 8(2,3) _ slot_fill_outside[OF refl], of d 1 0 "int n"]
      by (auto simp: slot_fill_refines bd_set_all_vals) (simp_all add: slot_abs_def)
  next
    case (9 d k k')
    then show ?case using inv[OF 9(1,2)] slots_other[OF assms 9(2,3) _ slot_fill_outside[OF refl], of d 0 "-1" 0]
      by (auto simp: slot_fill_refines bd_reset_all_vals)
  next
    case (10 d k v)
    with inv[OF 10(1,2)] show ?case
      by (intro upd[OF 10(1,2) slot_set_outside[OF 10(3)]]) (simp_all add: slot_set_refines bd_set1_inv)
  next
    case (11 d k v)
    with inv[OF 11(1,2)] show ?case
      by (intro upd[OF 11(1,2) slot_reset_outside[OF 11(3)]]) (simp_all add: slot_reset_refines bd_reset1_inv)
  next
    case (12 d k)
    with inv[OF 12] show ?case
      by (intro upd[OF 12 slot_fill_outside[OF refl]]) (simp_all add: slot_fill_refines bd_set_all_inv)
  next
    case (13 d k)
    with inv[OF 13] show ?case
      by (intro upd[OF 13 slot_fill_outside[OF refl]]) (simp_all add: slot_fill_refines bd_reset_all_inv)
  qed
qed

subsection \<open>The two flat classes satisfy the contract\<close>

definition bd2_key :: "nat \<Rightarrow> nat \<Rightarrow> bool" where
  "bd2_key n e \<longleftrightarrow> e < n"

definition bd2_slot :: "nat \<Rightarrow> nat \<Rightarrow> nat" where
  "bd2_slot n e = (n + 2) * e"

definition bd2_inv :: "nat \<Rightarrow> bitdomains2 \<Rightarrow> bool" where
  "bd2_inv n d \<longleftrightarrow> bd2_chunk d = n + 2 \<and> slots_inv n (bd2_key n) (bd2_slot n) (bd2_dom d)"

definition bd2_vals :: "nat \<Rightarrow> bitdomains2 \<Rightarrow> nat \<Rightarrow> nat set" where
  "bd2_vals n d e = bd_vals (slot_abs n (bd2_dom d) (bd2_slot n e))"

definition bd3_key :: "nat \<Rightarrow> nat \<times> nat \<Rightarrow> bool" where
  "bd3_key n k \<longleftrightarrow> fst k < n \<and> snd k < n"

definition bd3_slot :: "nat \<Rightarrow> nat \<times> nat \<Rightarrow> nat" where
  "bd3_slot n k = (n + 2) * (n * fst k + snd k)"

definition bd3_inv :: "nat \<Rightarrow> bitdomains3 \<Rightarrow> bool" where
  "bd3_inv n d \<longleftrightarrow> bd3_chunkc d = n + 2 \<and> bd3_chunkr d = n * (n + 2) \<and>
     slots_inv n (bd3_key n) (bd3_slot n) (bd3_dom d)"

definition bd3_vals :: "nat \<Rightarrow> bitdomains3 \<Rightarrow> nat \<times> nat \<Rightarrow> nat set" where
  "bd3_vals n d k = bd_vals (slot_abs n (bd3_dom d) (bd3_slot n k))"

lemma bd2_apart: "slots_apart n (bd2_key n) (bd2_slot n)"
  unfolding slots_apart_def bd2_slot_def
proof (intro allI impI)
  fix k k' :: nat assume "k \<noteq> k'"
  then show "(n + 2) * k + 2 + n \<le> (n + 2) * k' \<or> (n + 2) * k' + 2 + n \<le> (n + 2) * k"
    using mult_step[of k k' "n + 2"] mult_step[of k' k "n + 2"] by (cases "k < k'") auto
qed

lemma pair_code_inj:
  assumes "c < n" "c' < (n::nat)" "n * r + c = n * r' + c'"
  shows "r = r' \<and> c = c'"
proof -
  have "(n * r + c) div n = r" "(n * r' + c') div n = r'"
    using assms(1,2) by simp_all
  then show ?thesis using assms(3) by simp
qed

lemma bd3_apart: "slots_apart n (bd3_key n) (bd3_slot n)"
  unfolding slots_apart_def
proof (intro allI impI)
  fix k k' :: "nat \<times> nat" assume k: "bd3_key n k" "bd3_key n k'" "k \<noteq> k'"
  let ?f = "\<lambda>k. n * fst k + snd k"
  have "?f k \<noteq> ?f k'"
    using k pair_code_inj[of "snd k" n "snd k'" "fst k" "fst k'"]
    by (auto simp: bd3_key_def prod_eq_iff)
  then show "bd3_slot n k + 2 + n \<le> bd3_slot n k' \<or> bd3_slot n k' + 2 + n \<le> bd3_slot n k"
    using mult_step[of "?f k" "?f k'" "n + 2"] mult_step[of "?f k'" "?f k" "n + 2"]
    by (cases "?f k < ?f k'") (auto simp: bd3_slot_def)
qed

lemmas bd2_store = slots_domain_store[OF bd2_apart]
lemmas bd3_store = slots_domain_store[OF bd3_apart]

lemma bd2_base_slot:
  "(n + 2) * e = bd2_slot n e" "bd2_slot n (Suc e) = bd2_slot n e + 2 + n"
  by (simp_all add: bd2_slot_def)

lemma bd3_base_slot:
  assumes "bd3_chunkc d = n + 2" "bd3_chunkr d = n * (n + 2)"
  shows "bd3_base d k = bd3_slot n k"
  using assms by (simp add: bd3_base_def bd3_slot_def algebra_simps)

lemma bd3_slot_next: "bd3_slot n (fst k, Suc (snd k)) = bd3_slot n k + 2 + n"
  by (simp add: bd3_slot_def)

interpretation bd2: domain_store n "bd2_inv n" "bd2_key n" "bd2_vals n"
  bd2_set1 "bd2_reset1 n" "bd2_set_all n" bd2_reset_all bd2_firstel bd2_numtrue bd2_none "bd2_options n"
  for n
  unfolding bd2_vals_def bd2_set1_def bd2_reset1_def bd2_set_all_def bd2_reset_all_def
    bd2_firstel_def bd2_numtrue_def bd2_none_def bd2_options_def
proof (unfold_locales, goal_cases)
  case (1) then show ?case
    using domain_store.vals_bound[OF bd2_store[of n]] by (simp add: bd2_inv_def bd2_base_slot del: add_2_eq_Suc' mult_Suc_right)
next
  case (2) then show ?case
    using domain_store.firstel_eq[OF bd2_store[of n]] by (simp add: bd2_inv_def bd2_base_slot del: add_2_eq_Suc' mult_Suc_right)
next
  case (3) then show ?case
    using domain_store.numtrue_eq[OF bd2_store[of n]] by (simp add: bd2_inv_def bd2_base_slot del: add_2_eq_Suc' mult_Suc_right)
next
  case (4) then show ?case
    using domain_store.none_eq[OF bd2_store[of n]] by (simp add: bd2_inv_def bd2_base_slot del: add_2_eq_Suc' mult_Suc_right)
next
  case (5) then show ?case
    using domain_store.options_eq[OF bd2_store[of n]] by (simp add: bd2_inv_def bd2_base_slot del: add_2_eq_Suc' mult_Suc_right)
next
  case (6) then show ?case
    using domain_store.set1_vals[OF bd2_store[of n]] by (simp add: bd2_inv_def bd2_base_slot del: add_2_eq_Suc' mult_Suc_right)
next
  case (7) then show ?case
    using domain_store.reset1_vals[OF bd2_store[of n]] by (simp add: bd2_inv_def bd2_base_slot del: add_2_eq_Suc' mult_Suc_right)
next
  case (8) then show ?case
    using domain_store.fill_vals[OF bd2_store[of n]] by (simp add: bd2_inv_def bd2_base_slot del: add_2_eq_Suc' mult_Suc_right)
next
  case (9) then show ?case
    using domain_store.clear_vals[OF bd2_store[of n]] by (simp add: bd2_inv_def bd2_base_slot del: add_2_eq_Suc' mult_Suc_right)
next
  case (10) then show ?case
    using domain_store.set1_inv[OF bd2_store[of n]] by (simp add: bd2_inv_def bd2_base_slot del: add_2_eq_Suc' mult_Suc_right)
next
  case (11) then show ?case
    using domain_store.reset1_inv[OF bd2_store[of n]] by (simp add: bd2_inv_def bd2_base_slot del: add_2_eq_Suc' mult_Suc_right)
next
  case (12) then show ?case
    using domain_store.fill_inv[OF bd2_store[of n]] by (simp add: bd2_inv_def bd2_base_slot del: add_2_eq_Suc' mult_Suc_right)
next
  case (13) then show ?case
    using domain_store.clear_inv[OF bd2_store[of n]] by (simp add: bd2_inv_def bd2_base_slot del: add_2_eq_Suc' mult_Suc_right)
qed

interpretation bd3: domain_store n "bd3_inv n" "bd3_key n" "bd3_vals n"
  bd3_set1 "bd3_reset1 n" "bd3_set_all n" bd3_reset_all bd3_firstel bd3_numtrue bd3_none "bd3_options n"
  for n
  unfolding bd3_vals_def bd3_set1_def bd3_reset1_def bd3_set_all_def bd3_reset_all_def
    bd3_firstel_def bd3_numtrue_def bd3_none_def bd3_options_def
proof (unfold_locales, goal_cases)
  case (1) then show ?case
    using domain_store.vals_bound[OF bd3_store[of n]] by (simp add: bd3_inv_def bd3_base_slot bd3_slot_next del: add_2_eq_Suc')
next
  case (2) then show ?case
    using domain_store.firstel_eq[OF bd3_store[of n]] by (simp add: bd3_inv_def bd3_base_slot bd3_slot_next del: add_2_eq_Suc')
next
  case (3) then show ?case
    using domain_store.numtrue_eq[OF bd3_store[of n]] by (simp add: bd3_inv_def bd3_base_slot bd3_slot_next del: add_2_eq_Suc')
next
  case (4) then show ?case
    using domain_store.none_eq[OF bd3_store[of n]] by (simp add: bd3_inv_def bd3_base_slot bd3_slot_next del: add_2_eq_Suc')
next
  case (5) then show ?case
    using domain_store.options_eq[OF bd3_store[of n]] by (simp add: bd3_inv_def bd3_base_slot bd3_slot_next del: add_2_eq_Suc')
next
  case (6) then show ?case
    using domain_store.set1_vals[OF bd3_store[of n]] by (simp add: bd3_inv_def bd3_base_slot bd3_slot_next del: add_2_eq_Suc')
next
  case (7) then show ?case
    using domain_store.reset1_vals[OF bd3_store[of n]] by (simp add: bd3_inv_def bd3_base_slot bd3_slot_next del: add_2_eq_Suc')
next
  case (8) then show ?case
    using domain_store.fill_vals[OF bd3_store[of n]] by (simp add: bd3_inv_def bd3_base_slot bd3_slot_next del: add_2_eq_Suc')
next
  case (9) then show ?case
    using domain_store.clear_vals[OF bd3_store[of n]] by (simp add: bd3_inv_def bd3_base_slot bd3_slot_next del: add_2_eq_Suc')
next
  case (10) then show ?case
    using domain_store.set1_inv[OF bd3_store[of n]] by (simp add: bd3_inv_def bd3_base_slot bd3_slot_next del: add_2_eq_Suc')
next
  case (11) then show ?case
    using domain_store.reset1_inv[OF bd3_store[of n]] by (simp add: bd3_inv_def bd3_base_slot bd3_slot_next del: add_2_eq_Suc')
next
  case (12) then show ?case
    using domain_store.fill_inv[OF bd3_store[of n]] by (simp add: bd3_inv_def bd3_base_slot bd3_slot_next del: add_2_eq_Suc')
next
  case (13) then show ?case
    using domain_store.clear_inv[OF bd3_store[of n]] by (simp add: bd3_inv_def bd3_base_slot bd3_slot_next del: add_2_eq_Suc')
qed

subsection \<open>Constructors and element tests of the flat classes\<close>

text \<open>The loop over the slot heads, in the two forms of the constructors.\<close>

definition head_write :: "bool \<Rightarrow> nat \<Rightarrow> nat \<Rightarrow> int list \<Rightarrow> int list" where
  "head_write init n b d = (if init then d[b := 0, b + 1 := int n] else d[b := -1])"

lemma head_write_fold:
  assumes "\<And>k. k \<in> set ks \<Longrightarrow> base k + 1 < length dm"
    and "\<And>k k'. k \<in> set ks \<Longrightarrow> k' \<in> set ks \<Longrightarrow> k \<noteq> k' \<Longrightarrow> base k + 1 < base k' \<or> base k' + 1 < base k"
  shows "length (fold (\<lambda>k. head_write init n (base k)) ks dm) = length dm \<and>
    (\<forall>j. (\<forall>k\<in>set ks. j \<noteq> base k \<and> j \<noteq> base k + 1) \<longrightarrow> fold (\<lambda>k. head_write init n (base k)) ks dm ! j = dm ! j) \<and>
    (\<forall>k\<in>set ks. fold (\<lambda>k. head_write init n (base k)) ks dm ! base k = (if init then 0 else -1) \<and>
       fold (\<lambda>k. head_write init n (base k)) ks dm ! (base k + 1) = (if init then int n else dm ! (base k + 1)))"
  using assms
proof (induction ks rule: rev_induct)
  case (snoc x ks)
  let ?F = "fold (\<lambda>k. head_write init n (base k)) ks dm"
  have IH: "length ?F = length dm"
    "\<And>j. \<forall>k\<in>set ks. j \<noteq> base k \<and> j \<noteq> base k + 1 \<Longrightarrow> ?F ! j = dm ! j"
    "\<And>k. k \<in> set ks \<Longrightarrow> ?F ! base k = (if init then 0 else -1) \<and> ?F ! (base k + 1) = (if init then int n else dm ! (base k + 1))"
    using snoc.IH[OF snoc.prems(1) snoc.prems(2)] by auto
  have x: "base x + 1 < length ?F" using snoc.prems(1)[of x] IH(1) by simp
  have apart: "base k + 1 < base x \<or> base x + 1 < base k" if "k \<in> set ks" "k \<noteq> x" for k
    using snoc.prems(2)[of k x] that by simp
  have keep: "head_write init n (base x) ?F ! j = ?F ! j" if "j \<noteq> base x" "j \<noteq> base x + 1" for j
    using that by (simp add: head_write_def)
  have new: "head_write init n (base x) ?F ! base x = (if init then 0 else -1)"
    "head_write init n (base x) ?F ! (base x + 1) = (if init then int n else ?F ! (base x + 1))"
    using x by (cases init; simp add: head_write_def)+
  have old: "?F ! (base x + 1) = dm ! (base x + 1)" if "\<not> init"
  proof (cases "x \<in> set ks")
    case False
    then show ?thesis by (intro IH(2)) (use apart in force)
  qed (use IH(3) that in simp)
  have "head_write init n (base x) ?F ! base k = (if init then 0 else -1) \<and>
      head_write init n (base x) ?F ! (base k + 1) = (if init then int n else dm ! (base k + 1))"
    if "k \<in> set (ks @ [x])" for k
  proof (cases "k = x")
    case False
    with that have k: "k \<in> set ks" by simp
    from apart[OF k False] have "base k \<noteq> base x" "base k \<noteq> base x + 1" "base k + 1 \<noteq> base x" "base k + 1 \<noteq> base x + 1"
      by auto
    with keep IH(3)[OF k] show ?thesis by metis
  qed (use new old in simp)
  moreover have "head_write init n (base x) ?F ! j = dm ! j"
    if "\<forall>k\<in>set (ks @ [x]). j \<noteq> base k \<and> j \<noteq> base k + 1" for j
    using that keep[of j] IH(2)[of j] by simp
  moreover have "length (head_write init n (base x) ?F) = length dm"
    using IH(1) by (cases init) (simp_all add: head_write_def)
  ultimately show ?case by simp
qed simp

lemma slots_new:
  fixes init :: bool and m n :: nat and ks :: "'k list" and base :: "'k \<Rightarrow> nat"
  defines "dm \<equiv> fold (\<lambda>k. head_write init n (base k)) ks (replicate m (if init then 1 else 0))"
  assumes "slots_apart n key base" "\<And>k. k \<in> set ks \<longleftrightarrow> key k"
    and "\<And>k. key k \<Longrightarrow> base k + 2 + n \<le> m" "key k"
  shows "slot_abs n dm (base k) = bitdomain_new n init" "slot_ok n dm (base k)"
proof -
  have apart: "base k + 2 + n \<le> base k' \<or> base k' + 2 + n \<le> base k" if "key k" "key k'" "k \<noteq> k'" for k k'
    using assms(2) that by (auto simp: slots_apart_def)
  have F: "length dm = m" "\<And>j. \<forall>k\<in>set ks. j \<noteq> base k \<and> j \<noteq> base k + 1 \<Longrightarrow> dm ! j = replicate m (if init then 1 else 0) ! j"
    "\<And>k. k \<in> set ks \<Longrightarrow> dm ! base k = (if init then 0 else -1) \<and>
       dm ! (base k + 1) = (if init then int n else replicate m (if init then 1 else 0) ! (base k + 1))"
  proof -
    have p: "base k + 1 < length (replicate m (if init then 1 else (0::int)))" if "k \<in> set ks" for k
      using that assms(3)[of k] assms(4)[of k] by auto
    have q: "base k + 1 < base k' \<or> base k' + 1 < base k" if "k \<in> set ks" "k' \<in> set ks" "k \<noteq> k'" for k k'
      using that assms(3) apart[of k k'] by auto
    have H: "length dm = m \<and>
      (\<forall>j. (\<forall>k\<in>set ks. j \<noteq> base k \<and> j \<noteq> base k + 1) \<longrightarrow> dm ! j = replicate m (if init then 1 else 0) ! j) \<and>
      (\<forall>k\<in>set ks. dm ! base k = (if init then 0 else -1) \<and>
         dm ! (base k + 1) = (if init then int n else replicate m (if init then 1 else 0) ! (base k + 1)))"
      unfolding dm_def
      using head_write_fold[of ks base "replicate m (if init then 1 else (0::int))" init n] p q by simp
    then show "length dm = m"
      "\<And>j. \<forall>k\<in>set ks. j \<noteq> base k \<and> j \<noteq> base k + 1 \<Longrightarrow> dm ! j = replicate m (if init then 1 else 0) ! j"
      "\<And>k. k \<in> set ks \<Longrightarrow> dm ! base k = (if init then 0 else -1) \<and>
       dm ! (base k + 1) = (if init then int n else replicate m (if init then 1 else 0) ! (base k + 1))"
      by blast+
  qed
  have m: "base k + 2 + n \<le> m" using assms(4,5) by blast
  have bit: "dm ! (base k + 2 + i) = (if init then 1 else 0)" if "i < n" for i
  proof -
    have "base k + 2 + i \<noteq> base k' \<and> base k + 2 + i \<noteq> base k' + 1" if "k' \<in> set ks" for k'
      using apart[OF assms(5), of k'] that \<open>i < n\<close> by (cases "k' = k") (auto simp: assms(3))
    then show ?thesis using F(2)[of "base k + 2 + i"] that m by simp
  qed
  show "slot_ok n dm (base k)" using F(1) m bit by (simp add: slot_ok_def)
  show "slot_abs n dm (base k) = bitdomain_new n init"
    using bit F(3)[of k] assms(3)[of k] assms(5) m
    by (auto simp: slot_abs_def bitdomain_new_def intro!: nth_equalityI)
qed

lemma bd2_new_slots:
  assumes "e < n"
  shows "slot_abs n (bd2_dom (bd2_new n init)) (bd2_slot n e) = bitdomain_new n init"
    "slot_ok n (bd2_dom (bd2_new n init)) (bd2_slot n e)"
proof -
  have bound: "bd2_slot n k + 2 + n \<le> (n + 2) * n" if "k < n" for k
    using mult_step[OF that, of "n + 2"] by (simp add: bd2_slot_def)
  have "bd2_dom (bd2_new n init) =
      fold (\<lambda>k. head_write init n (bd2_slot n k)) [0..<n] (replicate ((n + 2) * n) (if init then 1 else 0))"
    unfolding bd2_new_def Let_def head_write_def bd2_slot_def by (cases init) (simp_all only: bitdomains2.simps if_True if_False)
  then show "slot_abs n (bd2_dom (bd2_new n init)) (bd2_slot n e) = bitdomain_new n init"
    "slot_ok n (bd2_dom (bd2_new n init)) (bd2_slot n e)"
    using slots_new[OF bd2_apart, of "[0..<n]" n "(n + 2) * n" e init] bound assms
    by (simp_all add: bd2_key_def)
qed

lemma bd2_new_inv: "0 < n \<Longrightarrow> bd2_inv n (bd2_new n init)"
  by (auto simp: bd2_inv_def slots_inv_def bd2_key_def bd2_new_slots bitdomain_new_inv)
    (simp add: bd2_new_def Let_def)

lemma bd2_new_vals: "e < n \<Longrightarrow> bd2_vals n (bd2_new n init) e = (if init then {..<n} else {})"
  by (simp add: bd2_vals_def bd2_new_slots bitdomain_new_vals)

lemma bd2_get_iff:
  assumes "bd2_inv n d" "e < n" "k < n"
  shows "bd2_get d e k \<longleftrightarrow> k \<in> bd2_vals n d e"
proof -
  have key: "bd2_key n e" using assms(2) by (simp add: bd2_key_def)
  have "bd2_chunk d * e = bd2_slot n e" using assms(1) by (simp add: bd2_inv_def bd2_slot_def)
  moreover have "bd2_numtrue d e = 0 \<longleftrightarrow> bd2_vals n d e = {}"
    using bd2.numtrue_eq[OF assms(1) key] bd2.finite_vals[OF assms(1) key] by simp
  ultimately show ?thesis
    using assms(3) by (auto simp: bd2_get_def bd2_vals_def bd_vals_def slot_abs_def)
qed

lemma bd2_get_val_eq:
  assumes "bd2_inv n d" "e < n"
  shows "bd2_get_val d e = (if card (bd2_vals n d e) = 1 then first_of (bd2_vals n d e) else -1)"
  using bd2.numtrue_eq[OF assms(1)] bd2.firstel_eq[OF assms(1)] assms(2)
  by (simp add: bd2_get_val_def bd2_key_def)

lemma bd3_new_slots:
  assumes "bd3_key n k"
  shows "slot_abs n (bd3_dom (bd3_new n init)) (bd3_slot n k) = bitdomain_new n init"
    "slot_ok n (bd3_dom (bd3_new n init)) (bd3_slot n k)"
proof -
  let ?ks = "map (\<lambda>(i, j). (j, i)) (List.product [0..<n] [0..<n])"
  have bound: "bd3_slot n k + 2 + n \<le> n * (n + 2) * n" if "bd3_key n k" for k
  proof -
    have "n * fst k + snd k < n * n"
      using that mult_step[of "fst k" n n] by (auto simp: bd3_key_def)
    from mult_step[OF this, of "n + 2"] show ?thesis by (simp add: bd3_slot_def algebra_simps)
  qed
  have "bd3_dom (bd3_new n init) =
      fold (\<lambda>k. head_write init n (bd3_slot n k)) ?ks (replicate (n * (n + 2) * n) (if init then 1 else 0))"
    by (auto simp: bd3_new_def bd3_fill_heads_def Let_def head_write_def bd3_slot_def fold_map
        algebra_simps intro!: fold_cong)
  moreover have "\<And>k. k \<in> set ?ks \<longleftrightarrow> bd3_key n k"
    by (force simp: bd3_key_def)
  ultimately show "slot_abs n (bd3_dom (bd3_new n init)) (bd3_slot n k) = bitdomain_new n init"
    "slot_ok n (bd3_dom (bd3_new n init)) (bd3_slot n k)"
    using slots_new[OF bd3_apart, of ?ks n "n * (n + 2) * n" k init] bound assms by simp_all
qed

lemma bd3_new_inv: "0 < n \<Longrightarrow> bd3_inv n (bd3_new n init)"
  by (auto simp: bd3_inv_def slots_inv_def bd3_new_slots bitdomain_new_inv)
    (simp_all add: bd3_new_def Let_def)

lemma bd3_get_iff:
  assumes "bd3_inv n d" "bd3_key n k" "e < n"
  shows "bd3_get d k e \<longleftrightarrow> e \<in> bd3_vals n d k"
proof -
  have "bd3_base d k = bd3_slot n k" using assms(1) by (simp add: bd3_inv_def bd3_base_slot)
  moreover have "bd3_numtrue d k = 0 \<longleftrightarrow> bd3_vals n d k = {}"
    using bd3.numtrue_eq[OF assms(1,2)] bd3.finite_vals[OF assms(1,2)] by simp
  ultimately show ?thesis
    using assms(3) by (auto simp: bd3_get_def bd3_vals_def bd_vals_def slot_abs_def)
qed

section \<open>Runs of operations\<close>

text \<open>
  Any sequence of updates of one domain, and of a row of domains, against the plain sets and
  against a list of \<open>bitdomain_t\<close>.
\<close>

datatype bd_op = BSet nat | BReset nat | BFill | BClear

fun bd_step :: "bd_op \<Rightarrow> bitdomain \<Rightarrow> bitdomain" where
  "bd_step (BSet v) d = bd_set1 d v"
| "bd_step (BReset v) d = bd_reset1 d v"
| "bd_step BFill d = bd_set_all d"
| "bd_step BClear d = bd_reset_all d"

fun set_step :: "nat \<Rightarrow> bd_op \<Rightarrow> nat set \<Rightarrow> nat set" where
  "set_step n (BSet v) A = insert v A"
| "set_step n (BReset v) A = A - {v}"
| "set_step n BFill A = {..<n}"
| "set_step n BClear A = {}"

fun bd_op_ok :: "nat \<Rightarrow> bd_op \<Rightarrow> bool" where
  "bd_op_ok n (BSet v) \<longleftrightarrow> v < n"
| "bd_op_ok n (BReset v) \<longleftrightarrow> v < n"
| "bd_op_ok n _ \<longleftrightarrow> True"

lemma bd_step_sound:
  "bd_inv n d \<Longrightarrow> bd_op_ok n op \<Longrightarrow> bd_inv n (bd_step op d) \<and> bd_vals (bd_step op d) = set_step n op (bd_vals d)"
  by (cases op) (use bd.fill_vals[of n d "()" "()"] in \<open>auto simp: bd_set1_inv bd_reset1_inv bd_set_all_inv
      bd_reset_all_inv bd_set1_vals bd_reset1_vals bd_reset_all_vals\<close>)

lemma bd_run_sound:
  assumes "\<forall>op\<in>set ops. bd_op_ok n op" "bd_inv n d"
  shows "bd_inv n (fold bd_step ops d) \<and> bd_vals (fold bd_step ops d) = fold (set_step n) ops (bd_vals d)"
  using assms by (induction ops arbitrary: d) (auto simp: bd_step_sound)

fun bd2_step :: "nat \<Rightarrow> nat \<times> bd_op \<Rightarrow> bitdomains2 \<Rightarrow> bitdomains2" where
  "bd2_step n (e, BSet v) d = bd2_set1 d e v"
| "bd2_step n (e, BReset v) d = bd2_reset1 n d e v"
| "bd2_step n (e, BFill) d = bd2_set_all n d e"
| "bd2_step n (e, BClear) d = bd2_reset_all d e"

definition bds_step :: "nat \<times> bd_op \<Rightarrow> bitdomain list \<Rightarrow> bitdomain list" where
  "bds_step x ds = ds[fst x := bd_step (snd x) (ds ! fst x)]"

definition bd2_abs :: "nat \<Rightarrow> bitdomains2 \<Rightarrow> bitdomain list" where
  "bd2_abs n d = map (\<lambda>e. slot_abs n (bd2_dom d) (bd2_slot n e)) [0..<n]"

lemma bd2_step_refines:
  assumes inv: "bd2_inv n d" and e: "e < n" and ok: "bd_op_ok n op"
  shows "bd2_inv n (bd2_step n (e, op) d) \<and> bd2_abs n (bd2_step n (e, op) d) = bds_step (e, op) (bd2_abs n d)"
proof -
  have key: "bd2_key n e" using e by (simp add: bd2_key_def)
  have base: "bd2_chunk d = n + 2" and sok: "slot_ok n (bd2_dom d) (bd2_slot n e)"
    using inv key by (auto simp: bd2_inv_def slots_inv_def)
  let ?d' = "bd2_step n (e, op) d"
  have inv': "bd2_inv n ?d'"
    using bd2.set1_inv[OF inv key] bd2.reset1_inv[OF inv key] bd2.fill_inv[OF inv key]
      bd2.clear_inv[OF inv key] ok by (cases op) auto
  have out: "same_outside n (bd2_slot n e) (bd2_dom d) (bd2_dom ?d') \<and>
      slot_abs n (bd2_dom ?d') (bd2_slot n e) = bd_step op (slot_abs n (bd2_dom d) (bd2_slot n e))"
    using ok sok
    by (cases op) (auto simp: bd2_set1_def bd2_reset1_def bd2_set_all_def bd2_reset_all_def base bd2_base_slot
        slot_set_outside slot_reset_outside slot_fill_outside slot_set_refines slot_reset_refines slot_fill_refines
        simp del: add_2_eq_Suc' mult_Suc_right)
  have other: "slot_abs n (bd2_dom ?d') (bd2_slot n i) = slot_abs n (bd2_dom d) (bd2_slot n i)"
    if "i < n" "i \<noteq> e" for i
    using slots_other[OF bd2_apart key _ that(2)] out that(1) by (simp add: bd2_key_def)
  have "bd2_abs n ?d' = bds_step (e, op) (bd2_abs n d)"
    using e out other
    by (auto intro!: nth_equalityI simp: bd2_abs_def bds_step_def nth_list_update)
  with inv' show ?thesis by blast
qed

text \<open>
  C12: the flat row of domains \<open>bitdomains2_t\<close> behaves as a vector of independent \<open>bitdomain_t\<close>
  objects: after any sequence of \<open>set\<close>, \<open>reset\<close>, fill and clear operations on valid rows and
  values, every slot equals the \<open>bitdomain_t\<close> that went through the same operations (bits,
  cached first element and cached count), and no operation disturbs another slot.
\<close>

theorem bd2_refines_bitdomains:
  assumes "bd2_inv n d" "\<forall>x\<in>set ops. fst x < n \<and> bd_op_ok n (snd x)"
  shows "bd2_abs n (fold (bd2_step n) ops d) = fold bds_step ops (bd2_abs n d) \<and>
    bd2_inv n (fold (bd2_step n) ops d)"
  using assms
proof (induction ops arbitrary: d)
  case (Cons x ops)
  then show ?case using bd2_step_refines[of n d "fst x" "snd x"] by simp
qed simp

theorem bd2_refines_bitdomains_witness:
  "bd2_abs 3 (fold (bd2_step 3) [(1, BReset 0), (2, BClear), (2, BSet 1)] (bd2_new 3 True)) =
   fold bds_step [(1, BReset 0), (2, BClear), (2, BSet 1)] (bd2_abs 3 (bd2_new 3 True))"
  using bd2_refines_bitdomains[of 3 "bd2_new 3 True" "[(1, BReset 0), (2, BClear), (2, BSet 1)]"]
    bd2_new_inv[of 3 True] by simp

text \<open>
  C13: the cached fields of \<open>bitdomain_t\<close> are always right: after any sequence of operations on a
  fresh domain, \<open>firstel\<close> is the least element (or -1), \<open>numTrue\<close> the number of elements,
  \<open>none()\<close> the emptiness test and \<open>options()\<close> the increasing list of the elements of the set
  obtained by the same insertions and deletions.
\<close>

theorem bitdomain_caches_exact:
  assumes "0 < n" "\<forall>op\<in>set ops. bd_op_ok n op"
  shows "let d = fold bd_step ops (bitdomain_new n init);
             A = fold (set_step n) ops (if init then {..<n} else {})
         in bd_firstel d = first_of A \<and> bd_numTrue d = int (card A) \<and> (bd_none d \<longleftrightarrow> A = {}) \<and>
            bd_options d = sorted_list_of_set A"
proof -
  let ?d = "fold bd_step ops (bitdomain_new n init)"
  have inv: "bd_inv n ?d" and vals: "bd_vals ?d = fold (set_step n) ops (if init then {..<n} else {})"
    using bd_run_sound[OF assms(2) bitdomain_new_inv[OF assms(1), of init]]
    by (simp_all add: bitdomain_new_vals)
  then show ?thesis
    using bd.firstel_eq[OF inv TrueI] bd.numtrue_eq[OF inv TrueI] bd.none_eq[OF inv TrueI] bd.options_eq[OF inv TrueI]
    by (simp add: Let_def)
qed

theorem bitdomain_caches_exact_witness:
  "bd_firstel (fold bd_step [BReset 0, BReset 1, BSet 0, BReset 0] (bitdomain_new 3 True)) = 2"
proof -
  have "fold (set_step 3) [BReset 0, BReset 1, BSet 0, BReset 0] {..<3} = {2}"
    by (auto simp: numeral_eq_Suc less_Suc_eq)
  then show ?thesis
    using bitdomain_caches_exact[of 3 "[BReset 0, BReset 1, BSet 0, BReset 0]" True]
    by (simp add: Let_def first_of_def)
qed

end
