(* ===== verification/Cardinality.thy ===== *)
theory Cardinality
  imports Prelude
begin

text \<open>
  Clauses and the cardinality encodings of \<^verbatim>\<open>clause.cpp\<close>: \<open>atMostOne\<close>,
  \<open>atLeastOne\<close>, \<open>exactlyOne\<close> and the recursive \<open>commanderEncoding\<close>, which draws its auxiliary
  variables from the counter \<open>nextFree\<close>. A CNF under construction together with that counter
  is an \<open>enc\<close>; the locale \<open>encoder\<close> states what every encoding routine promises, and its
  lemmas compose routines in sequence and in loops.
\<close>

type_synonym lit = int
type_synonym clause = "int list"
type_synonym cnf = "int list list"
type_synonym enc = "cnf \<times> int"

section \<open>Semantics\<close>

type_synonym valuation = "int \<Rightarrow> bool"

definition lit_holds :: "valuation \<Rightarrow> lit \<Rightarrow> bool" where
  "lit_holds v l = (if 0 < l then v l else \<not> v (- l))"

definition clause_holds :: "valuation \<Rightarrow> clause \<Rightarrow> bool" where
  "clause_holds v c \<longleftrightarrow> (\<exists>l\<in>set c. lit_holds v l)"

definition cnf_holds :: "valuation \<Rightarrow> cnf \<Rightarrow> bool" where
  "cnf_holds v F \<longleftrightarrow> (\<forall>c\<in>set F. clause_holds v c)"

text \<open>How many literals of a list (counted with position) hold.\<close>

definition holding :: "valuation \<Rightarrow> lit list \<Rightarrow> nat" where
  "holding v xs = length (filter (lit_holds v) xs)"

definition agree :: "int \<Rightarrow> valuation \<Rightarrow> valuation \<Rightarrow> bool" where
  "agree m v w \<longleftrightarrow> (\<forall>x. 0 < x \<and> x < m \<longrightarrow> v x = w x)"

definition lit_below :: "int \<Rightarrow> lit \<Rightarrow> bool" where
  "lit_below m l \<longleftrightarrow> l \<noteq> 0 \<and> \<bar>l\<bar> < m"

definition cnf_below :: "int \<Rightarrow> cnf \<Rightarrow> bool" where
  "cnf_below m F \<longleftrightarrow> (\<forall>c\<in>set F. \<forall>l\<in>set c. lit_below m l)"

lemma lit_holds_neg [simp]: "l \<noteq> 0 \<Longrightarrow> lit_holds v (- l) \<longleftrightarrow> \<not> lit_holds v l"
  by (auto simp: lit_holds_def)

lemma lit_holds_pos: "0 < l \<Longrightarrow> lit_holds v l = v l"
  by (simp add: lit_holds_def)

lemma clause_holds_simps [simp]:
  "clause_holds v [] = False"
  "clause_holds v (l # c) = (lit_holds v l \<or> clause_holds v c)"
  by (auto simp: clause_holds_def)

lemma cnf_holds_simps [simp]:
  "cnf_holds v []"
  "cnf_holds v (c # F) = (clause_holds v c \<and> cnf_holds v F)"
  "cnf_holds v (F @ G) = (cnf_holds v F \<and> cnf_holds v G)"
  by (auto simp: cnf_holds_def)

lemma holding_simps [simp]:
  "holding v [] = 0"
  "holding v (x # xs) = (if lit_holds v x then 1 else 0) + holding v xs"
  "holding v (xs @ ys) = holding v xs + holding v ys"
  by (simp_all add: holding_def)

lemma cnf_below_simps [simp]:
  "cnf_below m []"
  "cnf_below m (c # F) \<longleftrightarrow> (\<forall>l\<in>set c. lit_below m l) \<and> cnf_below m F"
  "cnf_below m (F @ G) \<longleftrightarrow> cnf_below m F \<and> cnf_below m G"
  by (auto simp: cnf_below_def)

lemma lit_below_neg [simp]: "lit_below m (- l) = lit_below m l"
  by (simp add: lit_below_def)

lemma lit_below_mono: "lit_below m l \<Longrightarrow> m \<le> m' \<Longrightarrow> lit_below m' l"
  by (simp add: lit_below_def)

lemma cnf_below_mono: "cnf_below m F \<Longrightarrow> m \<le> m' \<Longrightarrow> cnf_below m' F"
  by (auto simp: cnf_below_def intro: lit_below_mono)

lemma agree_refl [simp]: "agree m v v"
  by (simp add: agree_def)

lemma agree_ex: "Q v \<Longrightarrow> \<exists>w. agree m v w \<and> Q w"
  by (intro exI[of _ v]) simp

lemma agree_some [simp]: "Ex (agree m v)"
  by (intro exI[of _ v]) simp

lemma agree_trans: "agree m v w \<Longrightarrow> agree m' w u \<Longrightarrow> m \<le> m' \<Longrightarrow> agree m v u"
  by (auto simp: agree_def)

lemma agree_mono: "agree m' v w \<Longrightarrow> m \<le> m' \<Longrightarrow> agree m v w"
  by (auto simp: agree_def)

lemma agree_sym: "agree m v w \<Longrightarrow> agree m w v"
  by (auto simp: agree_def)

lemma agree_lit: "agree m v w \<Longrightarrow> lit_below m l \<Longrightarrow> lit_holds w l = lit_holds v l"
  by (auto simp: agree_def lit_below_def lit_holds_def)

lemma agree_cnf: "agree m v w \<Longrightarrow> cnf_below m F \<Longrightarrow> cnf_holds w F = cnf_holds v F"
  by (auto simp: cnf_holds_def clause_holds_def cnf_below_def agree_lit)

lemma agree_holding: "agree m v w \<Longrightarrow> \<forall>l\<in>set xs. lit_below m l \<Longrightarrow> holding w xs = holding v xs"
  by (induction xs) (auto simp: agree_lit)

lemma agree_upd: "m \<le> x \<Longrightarrow> agree m v (v(x := b))"
  by (auto simp: agree_def)

lemma holding_zero: "holding v xs = 0 \<longleftrightarrow> (\<forall>l\<in>set xs. \<not> lit_holds v l)"
  by (simp add: holding_def filter_empty_conv)

lemma holding_le_one:
  "holding v xs \<le> 1 \<longleftrightarrow> (\<forall>i j. i < j \<longrightarrow> j < length xs \<longrightarrow> \<not> (lit_holds v (xs ! i) \<and> lit_holds v (xs ! j)))"
proof (induction xs)
  case (Cons x xs)
  have "holding v (x # xs) \<le> 1 \<longleftrightarrow> (if lit_holds v x then holding v xs = 0 else holding v xs \<le> 1)"
    by auto
  also have "\<dots> \<longleftrightarrow> (lit_holds v x \<longrightarrow> (\<forall>j<length xs. \<not> lit_holds v (xs ! j))) \<and> holding v xs \<le> 1"
    using holding_zero[of v xs] by (auto simp: all_set_conv_all_nth)
  also have "\<dots> \<longleftrightarrow> (\<forall>i j. i < j \<longrightarrow> j < length (x # xs) \<longrightarrow>
      \<not> (lit_holds v ((x # xs) ! i) \<and> lit_holds v ((x # xs) ! j)))"
    unfolding Cons.IH
  proof (intro iffI conjI allI impI, goal_cases)
    case (1 i j)
    then show ?case by (cases i; cases j) auto
  next
    case (2 j)
    then show ?case using 2(1)[rule_format, of 0 "Suc j"] by simp
  next
    case (3 i j)
    then show ?case using 3(1)[rule_format, of "Suc i" "Suc j"] by simp
  qed
  finally show ?case .
qed simp

text \<open>Exactly one of a family of distinct positions.\<close>

lemma holding_one_map:
  assumes "distinct is"
  shows "holding v (map f is) = 1 \<longleftrightarrow> (\<exists>!i. i \<in> set is \<and> lit_holds v (f i))"
proof -
  have "holding v (map f is) = card {i \<in> set is. lit_holds v (f i)}"
    using assms by (simp add: holding_def filter_map comp_def distinct_card[symmetric])
  also have "\<dots> = 1 \<longleftrightarrow> (\<exists>!i. i \<in> set is \<and> lit_holds v (f i))"
    by (simp only: card_1_singleton_iff set_eq_iff mem_Collect_eq singleton_iff Ex1_def One_nat_def) blast
  finally show ?thesis .
qed

section \<open>The encodings\<close>

definition atMostOne :: "cnf \<Rightarrow> lit list \<Rightarrow> cnf" where
  "atMostOne F alo = F @ concat (map (\<lambda>i. map (\<lambda>j. [- (alo ! i), - (alo ! j)]) [Suc i..<length alo]) [0..<length alo])"

definition atLeastOne :: "cnf \<Rightarrow> lit list \<Rightarrow> cnf" where
  "atLeastOne F amo = F @ [amo]"

text \<open>The clauses \<open>commanderEncoding\<close> appends once \<open>a\<close>, \<open>b\<close>, \<open>c\<close> and the commander are known.\<close>

definition commander_clauses :: "cnf \<Rightarrow> lit \<Rightarrow> lit \<Rightarrow> lit \<Rightarrow> lit \<Rightarrow> cnf" where
  "commander_clauses F a b c cmd =
     F @ [[- a, cmd], [- b, cmd]] @
     (if c \<noteq> 0 then [[a, b, c, - cmd], [- c, cmd]] else [[a, b, - cmd]]) @
     [[- a, - b]] @ (if c \<noteq> 0 then [[- a, - c], [- b, - c]] else [])"

function commanderEncoding :: "lit list \<Rightarrow> int \<Rightarrow> (lit \<times> cnf) \<times> int" where
  "commanderEncoding amo nf =
     (if length amo = 0 then ((0, []), nf)
      else if length amo = 1 then ((amo ! 0, []), nf)
      else let (a, b, c, F, nf') =
             (if length amo = 2 then (amo ! 0, amo ! 1, 0, [], nf)
              else if length amo = 3 then (amo ! 0, amo ! 1, amo ! 2, [], nf)
              else let p = length amo div 3;
                       (p1, nf1) = commanderEncoding (take p amo) nf;
                       (p2, nf2) = commanderEncoding (take p (drop p amo)) nf1;
                       (p3, nf3) = commanderEncoding (drop (2 * p) amo) nf2
                   in (fst p1, fst p2, fst p3, snd p1 @ snd p2 @ snd p3, nf3))
           in ((nf', commander_clauses F a b c nf'), nf' + 1))"
  by pat_completeness auto
termination
proof (relation "measure (\<lambda>(xs, nf). length xs)", goal_cases)
  case (4 amo nf)
  then have "4 \<le> length amo" by linarith
  with 4 show ?case by simp
qed auto

declare commanderEncoding.simps [simp del]

definition exactlyOne :: "bool \<Rightarrow> lit list \<Rightarrow> enc \<Rightarrow> enc" where
  "exactlyOne noCommander eo s =
     (let toEO = filter (\<lambda>i. i \<noteq> 0) eo
      in if noCommander then (atLeastOne (atMostOne (fst s) toEO) toEO, snd s)
         else (case commanderEncoding toEO (snd s) of
                 (p, nf') \<Rightarrow> (atLeastOne (fst s @ snd p) toEO, nf')))"

section \<open>Correctness of the cardinality encodings\<close>

lemma all_pairs:
  "(\<forall>c\<in>set (concat (map (\<lambda>i. map (\<lambda>j. C i j) [Suc i..<m]) [0..<m])). Q c) \<longleftrightarrow>
   (\<forall>i j. i < j \<longrightarrow> j < m \<longrightarrow> Q (C i j))"
  by (auto simp: Suc_le_eq)

lemma atMostOne_holds:
  assumes "\<forall>l\<in>set xs. l \<noteq> 0"
  shows "cnf_holds v (atMostOne F xs) \<longleftrightarrow> cnf_holds v F \<and> holding v xs \<le> 1"
proof -
  have "cnf_holds v (atMostOne F xs) \<longleftrightarrow> cnf_holds v F \<and>
      (\<forall>i j. i < j \<longrightarrow> j < length xs \<longrightarrow> clause_holds v [- (xs ! i), - (xs ! j)])"
    unfolding atMostOne_def cnf_holds_simps(3) cnf_holds_def[of v "concat _"] all_pairs ..
  also have "(\<forall>i j. i < j \<longrightarrow> j < length xs \<longrightarrow> clause_holds v [- (xs ! i), - (xs ! j)]) \<longleftrightarrow> holding v xs \<le> 1"
    unfolding holding_le_one
  proof (intro all_cong1 imp_cong refl)
    fix i j assume "i < j" "j < length xs"
    then show "clause_holds v [- (xs ! i), - (xs ! j)] \<longleftrightarrow> \<not> (lit_holds v (xs ! i) \<and> lit_holds v (xs ! j))"
      using assms by simp
  qed
  finally show ?thesis .
qed

lemma atMostOne_below: "cnf_below m (atMostOne F xs) \<longleftrightarrow> cnf_below m F \<and>
    (2 \<le> length xs \<longrightarrow> (\<forall>l\<in>set xs. lit_below m l))" if "\<forall>l\<in>set xs. lit_below m l"
  using that by (auto simp: atMostOne_def cnf_below_def)

lemma clause_holds_holding: "clause_holds v xs \<longleftrightarrow> 1 \<le> holding v xs"
  using holding_zero[of v xs] by (auto simp: clause_holds_def Suc_le_eq)

text \<open>
  What \<open>commanderEncoding\<close> promises of its result: fresh variables only, at most one literal
  holds in every model, the commander is equivalent to "one holds", and every valuation of the
  old variables under which at most one holds extends to a model.
\<close>

definition commander_ok :: "lit list \<Rightarrow> int \<Rightarrow> (lit \<times> cnf) \<times> int \<Rightarrow> bool" where
  "commander_ok xs nf r \<longleftrightarrow> nf \<le> snd r \<and> cnf_below (snd r) (snd (fst r)) \<and>
     (xs \<noteq> [] \<longrightarrow> lit_below (snd r) (fst (fst r))) \<and>
     (\<forall>v. cnf_holds v (snd (fst r)) \<longrightarrow> holding v xs \<le> 1 \<and>
        (xs \<noteq> [] \<longrightarrow> (lit_holds v (fst (fst r)) \<longleftrightarrow> holding v xs = 1))) \<and>
     (\<forall>v. holding v xs \<le> 1 \<longrightarrow> (\<exists>w. agree nf v w \<and> cnf_holds w (snd (fst r))))"

lemma commander_clauses_ok:
  fixes a b c :: lit
  defines "abc \<equiv> [a, b] @ (if c \<noteq> 0 then [c] else [])"
  assumes nf: "0 < nf'" "nf \<le> nf'" and F: "cnf_below nf' F"
    and abc: "\<forall>l\<in>set abc. lit_below nf' l" and xs: "xs \<noteq> []"
    and sound: "\<And>v. cnf_holds v F \<Longrightarrow> holding v abc \<le> 1 \<Longrightarrow> holding v xs = holding v abc"
    and compl: "\<And>v. holding v xs \<le> 1 \<Longrightarrow> \<exists>w. agree nf v w \<and> cnf_holds w F \<and> holding w abc \<le> 1"
  shows "commander_ok xs nf ((nf', commander_clauses F a b c nf'), nf' + 1)"
proof -
  let ?G = "commander_clauses F a b c nf'"
  have nz: "a \<noteq> 0" "b \<noteq> 0" using abc by (auto simp: lit_below_def abc_def)
  have G: "cnf_holds v ?G \<longleftrightarrow> cnf_holds v F \<and> holding v abc \<le> 1 \<and> (v nf' \<longleftrightarrow> holding v abc = 1)" for v
  proof -
    have "lit_holds v nf' = v nf'" "lit_holds v (- nf') = (\<not> v nf')"
      using nf by (simp_all add: lit_holds_def)
    then show ?thesis
      using nz by (cases "c = 0"; cases "lit_holds v a"; cases "lit_holds v b"; cases "lit_holds v c"; cases "v nf'")
        (simp_all add: commander_clauses_def abc_def)
  qed
  have below: "cnf_below (nf' + 1) ?G"
  proof -
    have "\<forall>l\<in>set abc. lit_below (nf' + 1) l" "lit_below (nf' + 1) nf'"
      using abc nf lit_below_mono[of nf' _ "nf' + 1"] by (auto simp: lit_below_def)
    with F[THEN cnf_below_mono, of "nf' + 1"] show ?thesis
      by (cases "c = 0") (simp_all add: commander_clauses_def abc_def)
  qed
  have ex: "\<exists>w. agree nf v w \<and> cnf_holds w ?G" if h: "holding v xs \<le> 1" for v
  proof -
    obtain w where w: "agree nf v w" "cnf_holds w F" "holding w abc \<le> 1"
      using compl[OF h] by blast
    let ?w = "w(nf' := (holding w abc = 1))"
    have ag: "agree nf' w ?w" by (rule agree_upd) simp
    have "cnf_holds ?w ?G" using w agree_cnf[OF ag F] agree_holding[OF ag abc] unfolding G by simp
    moreover have "agree nf v ?w" using agree_trans[OF w(1) ag nf(2)] .
    ultimately show ?thesis by blast
  qed
  show ?thesis
    unfolding commander_ok_def fst_conv snd_conv
  proof (intro conjI allI impI)
    fix v assume "cnf_holds v ?G"
    then have v: "cnf_holds v F" "holding v abc \<le> 1" "v nf' \<longleftrightarrow> holding v abc = 1" using G by blast+
    from sound[OF v(1,2)] v(2) show "holding v xs \<le> 1" by simp
    from sound[OF v(1,2)] v(3) nf(1) show "lit_holds v nf' = (holding v xs = 1)" by (simp add: lit_holds_pos)
  qed (use nf below ex in \<open>auto simp: lit_below_def\<close>)
qed

text \<open>One more group appended to clauses that already hold, as in the recursive case.\<close>

lemma commander_extend:
  assumes ok: "commander_ok ys m r" and F: "cnf_below m F" "cnf_holds v F"
    and ys: "\<forall>l\<in>set ys. lit_below m l" "ys \<noteq> []" and h: "holding v ys \<le> 1"
  shows "\<exists>w. agree m v w \<and> cnf_holds w (F @ snd (fst r)) \<and> (lit_holds w (fst (fst r)) \<longleftrightarrow> holding v ys = 1)"
proof -
  obtain w where w: "agree m v w" "cnf_holds w (snd (fst r))"
    using ok h by (auto simp: commander_ok_def)
  then have "cnf_holds w (F @ snd (fst r))" using agree_cnf[OF w(1) F(1)] F(2) by simp
  moreover have "lit_holds w (fst (fst r)) \<longleftrightarrow> holding v ys = 1"
    using ok w(2) ys(2) agree_holding[OF w(1) ys(1)] by (simp add: commander_ok_def)
  ultimately show ?thesis using w(1) by blast
qed

lemma commander_groups:
  assumes r1: "commander_ok xs nf r1" and r2: "commander_ok ys (snd r1) r2" and r3: "commander_ok zs (snd r2) r3"
    and nf: "0 < nf" and xs: "\<forall>l\<in>set (xs @ ys @ zs). lit_below nf l"
    and ne: "xs \<noteq> []" "ys \<noteq> []" "zs \<noteq> []"
  shows "commander_ok (xs @ ys @ zs) nf
    ((snd r3, commander_clauses (snd (fst r1) @ snd (fst r2) @ snd (fst r3))
        (fst (fst r1)) (fst (fst r2)) (fst (fst r3)) (snd r3)), snd r3 + 1)"
proof -
  let ?a = "fst (fst r1)" and ?b = "fst (fst r2)" and ?c = "fst (fst r3)"
  let ?F = "snd (fst r1) @ snd (fst r2) @ snd (fst r3)"
  have le: "nf \<le> snd r1" "snd r1 \<le> snd r2" "snd r2 \<le> snd r3"
    using r1 r2 r3 by (simp_all add: commander_ok_def)
  have bel: "cnf_below (snd r1) (snd (fst r1))" "cnf_below (snd r2) (snd (fst r2))" "cnf_below (snd r3) (snd (fst r3))"
    "lit_below (snd r1) ?a" "lit_below (snd r2) ?b" "lit_below (snd r3) ?c"
    using r1 r2 r3 ne by (simp_all add: commander_ok_def)
  then have c: "?c \<noteq> 0" by (simp add: lit_below_def)
  let ?abc = "[?a, ?b] @ (if ?c \<noteq> 0 then [?c] else [])"
  have abc: "?abc = [?a, ?b, ?c]" using c by simp
  have ys': "\<forall>l\<in>set ys. lit_below (snd r1) l" "\<forall>l\<in>set zs. lit_below (snd r2) l"
    using xs le lit_below_mono[of nf _ "snd r1"] lit_below_mono[of nf _ "snd r2"] by auto
  show ?thesis
  proof (rule commander_clauses_ok, goal_cases)
    case 3 show ?case using bel le by (auto intro: cnf_below_mono)
  next
    case 4 show ?case using bel le unfolding abc by (auto intro: lit_below_mono)
  next
    case (6 v)
    then have v: "cnf_holds v (snd (fst r1))" "cnf_holds v (snd (fst r2))" "cnf_holds v (snd (fst r3))" by simp_all
    from v r1 r2 r3 ne have
      "holding v xs = (if lit_holds v ?a then 1 else 0)" "holding v ys = (if lit_holds v ?b then 1 else 0)"
      "holding v zs = (if lit_holds v ?c then 1 else 0)"
      unfolding commander_ok_def by (metis One_nat_def le_Suc_eq le_zero_eq)+
    then show ?case unfolding abc by simp
  next
    case (7 v)
    then have h: "holding v xs \<le> 1" "holding v ys \<le> 1" "holding v zs \<le> 1" by simp_all
    obtain w1 where w1: "agree nf v w1" "cnf_holds w1 (snd (fst r1))" "lit_holds w1 ?a \<longleftrightarrow> holding v xs = 1"
      using commander_extend[OF r1, of "[]" v] xs ne h by auto
    have ag1: "holding w1 ys = holding v ys" "holding w1 zs = holding v zs"
      using agree_holding[OF w1(1)] xs by simp_all
    obtain w2 where w2: "agree (snd r1) w1 w2" "cnf_holds w2 (snd (fst r1) @ snd (fst r2))"
        "lit_holds w2 ?b \<longleftrightarrow> holding v ys = 1"
      using commander_extend[OF r2 bel(1) w1(2) ys'(1) ne(2)] h ag1 by auto
    have ag2: "holding w2 zs = holding v zs" "lit_holds w2 ?a = lit_holds w1 ?a"
      using agree_holding[OF w2(1)] agree_lit[OF w2(1) bel(4)] ag1 xs le lit_below_mono[of nf _ "snd r1"] by auto
    have bel12: "cnf_below (snd r2) (snd (fst r1) @ snd (fst r2))" using bel le by (auto intro: cnf_below_mono)
    obtain w where w: "agree (snd r2) w2 w" "cnf_holds w ((snd (fst r1) @ snd (fst r2)) @ snd (fst r3))"
        "lit_holds w ?c \<longleftrightarrow> holding v zs = 1"
      using commander_extend[OF r3 bel12 w2(2) ys'(2) ne(3)] h ag2 by auto
    have "lit_holds w ?a = lit_holds w2 ?a" "lit_holds w ?b = lit_holds w2 ?b"
      using agree_lit[OF w(1)] bel le by (auto intro: lit_below_mono)
    then have "holding w [?a, ?b, ?c] \<le> 1" using 7 w(3) w2(3) w1(3) ag2(2) by auto
    moreover have "agree nf v w"
      using agree_trans[OF agree_trans[OF w1(1) w2(1) le(1)] w(1)] le by simp
    ultimately have "agree nf v w \<and> cnf_holds w ?F \<and> holding w ?abc \<le> 1"
      using w(2) unfolding abc by simp
    then show ?case by blast
  qed (use nf le ne in auto)
qed

theorem commanderEncoding_ok:
  "0 < nf \<Longrightarrow> \<forall>l\<in>set xs. lit_below nf l \<Longrightarrow> commander_ok xs nf (commanderEncoding xs nf)"
proof (induction xs nf rule: commanderEncoding.induct)
  case (1 xs nf)
  note low = "1.prems"
  consider "length xs = 0" | "length xs = 1" | "length xs = 2" | "length xs = 3" | "4 \<le> length xs" by linarith
  then show ?case
  proof cases
    case 1
    then have xs: "xs = []" by simp
    show ?thesis unfolding xs
      by (auto simp: commanderEncoding.simps[of "[]"] commander_ok_def intro: agree_ex)
  next
    case 2
    then obtain a where xs: "xs = [a]" by (auto simp: length_Suc_conv)
    have "lit_below nf a" using low xs by simp
    then show ?thesis unfolding xs
      by (auto simp: commanderEncoding.simps[of "[a]"] commander_ok_def intro: agree_ex)
  next
    case 3
    then obtain a b where xs: "xs = [a, b]" by (auto simp: length_Suc_conv numeral_2_eq_2)
    show ?thesis
      unfolding commanderEncoding.simps[of xs] using 3 xs low
      by (auto simp: Let_def intro!: commander_clauses_ok intro: agree_ex)
  next
    case 4
    then obtain a b c where xs: "xs = [a, b, c]" by (auto simp: length_Suc_conv numeral_3_eq_3)
    with low have "c \<noteq> 0" by (simp add: lit_below_def)
    then show ?thesis
      unfolding commanderEncoding.simps[of xs] using 4 xs low
      by (auto simp: Let_def intro!: commander_clauses_ok intro: agree_ex)
  next
    case 5
    define p where "p = length xs div 3"
    have p: "1 \<le> p" "3 * p \<le> length xs" using 5 by (auto simp: p_def)
    let ?x = "take p xs" and ?y = "take p (drop p xs)" and ?z = "drop (2 * p) xs"
    define r1 where "r1 = commanderEncoding ?x nf"
    define r2 where "r2 = commanderEncoding ?y (snd r1)"
    define r3 where "r3 = commanderEncoding ?z (snd r2)"
    have split: "xs = ?x @ ?y @ ?z"
      by (metis append_take_drop_id drop_drop mult_2)
    have ne: "?x \<noteq> []" "?y \<noteq> []" "?z \<noteq> []" using p by auto
    have sub: "\<forall>l\<in>set (?x @ ?y @ ?z). lit_below nf l" using low(2) split by metis
    have len: "length xs \<noteq> 0" "length xs \<noteq> 1" "length xs \<noteq> 2" "length xs \<noteq> 3" using 5 by auto
    have ok1: "commander_ok ?x nf r1"
      using "1.IH"(1)[OF len p_def low(1)] sub unfolding r1_def by simp
    then have le1: "nf \<le> snd r1" by (simp add: commander_ok_def)
    have ok2: "commander_ok ?y (snd r1) r2"
      using "1.IH"(2)[OF len p_def r1_def prod.collapse] le1 low(1) sub lit_below_mono[OF _ le1]
      unfolding r2_def by simp
    then have le2: "nf \<le> snd r2" using le1 by (simp add: commander_ok_def)
    have ok3: "commander_ok ?z (snd r2) r3"
      using "1.IH"(3)[OF len p_def r1_def prod.collapse r2_def prod.collapse] le2 low(1) sub lit_below_mono[OF _ le2]
      unfolding r3_def by simp
    have "commanderEncoding xs nf = ((snd r3, commander_clauses (snd (fst r1) @ snd (fst r2) @ snd (fst r3))
        (fst (fst r1)) (fst (fst r2)) (fst (fst r3)) (snd r3)), snd r3 + 1)"
      using len unfolding commanderEncoding.simps[of xs nf] Let_def p_def[symmetric]
      by (simp add: r1_def r2_def r3_def split_beta)
    then show ?thesis
      using commander_groups[OF ok1 ok2 ok3 low(1) sub ne] split by simp
  qed
qed

section \<open>The contract of an encoding routine\<close>

text \<open>
  A routine takes the CNF under construction and the counter. It promises: only literals over
  variables below the new counter, the old clauses kept, and that the models of the result are,
  on the old variables, exactly the models of the old CNF that satisfy \<open>P\<close>.
\<close>

definition wf_enc :: "enc \<Rightarrow> bool" where
  "wf_enc s \<longleftrightarrow> 0 < snd s \<and> cnf_below (snd s) (fst s)"

definition encodes :: "(valuation \<Rightarrow> bool) \<Rightarrow> enc \<Rightarrow> enc \<Rightarrow> bool" where
  "encodes P s t \<longleftrightarrow> wf_enc t \<and> snd s \<le> snd t \<and>
     (\<forall>v. cnf_holds v (fst t) \<longrightarrow> cnf_holds v (fst s) \<and> P v) \<and>
     (\<forall>v. cnf_holds v (fst s) \<longrightarrow> P v \<longrightarrow> (\<exists>w. agree (snd s) v w \<and> cnf_holds w (fst t)))"

definition local_to :: "int \<Rightarrow> (valuation \<Rightarrow> bool) \<Rightarrow> bool" where
  "local_to m P \<longleftrightarrow> (\<forall>v w. agree m v w \<longrightarrow> P v = P w)"

lemma local_to_mono: "local_to m P \<Longrightarrow> m \<le> m' \<Longrightarrow> local_to m' P"
  by (auto simp: local_to_def intro: agree_mono)

lemma encodesD:
  assumes "encodes P s t"
  shows "wf_enc t" "snd s \<le> snd t" "cnf_holds v (fst t) \<Longrightarrow> cnf_holds v (fst s) \<and> P v"
    "cnf_holds v (fst s) \<Longrightarrow> P v \<Longrightarrow> \<exists>w. agree (snd s) v w \<and> cnf_holds w (fst t)"
  using assms by (auto simp: encodes_def)

lemma encodes_refl: "wf_enc s \<Longrightarrow> encodes (\<lambda>_. True) s s"
  by (auto simp: encodes_def intro: agree_ex)

lemma encodes_cong: "encodes P s t \<Longrightarrow> (\<And>v. P v = Q v) \<Longrightarrow> encodes Q s t"
  by (simp add: encodes_def)

lemma encodes_seq:
  assumes P: "encodes P s t" and Q: "encodes Q t u" and loc: "local_to (snd s) Q"
  shows "encodes (\<lambda>v. P v \<and> Q v) s u"
  unfolding encodes_def
proof (intro conjI allI impI)
  show "wf_enc u" "snd s \<le> snd u" using encodesD(1,2)[OF Q] encodesD(2)[OF P] by simp_all
  fix v assume "cnf_holds v (fst u)"
  then show "cnf_holds v (fst s)" "P v" "Q v" using encodesD(3)[OF Q] encodesD(3)[OF P] by blast+
next
  fix v assume v: "cnf_holds v (fst s)" "P v \<and> Q v"
  obtain w where w: "agree (snd s) v w" "cnf_holds w (fst t)" using encodesD(4)[OF P] v by blast
  have "Q w" using loc w(1) v(2) by (auto simp: local_to_def)
  then obtain x where x: "agree (snd t) w x" "cnf_holds x (fst u)" using encodesD(4)[OF Q] w(2) by blast
  show "\<exists>w. agree (snd s) v w \<and> cnf_holds w (fst u)"
    using agree_trans[OF w(1) x(1) encodesD(2)[OF P]] x(2) by blast
qed

lemma encodes_then:
  assumes "encodes P s t" "encodes Q t u" "local_to m Q" "m \<le> snd s"
  shows "encodes (\<lambda>v. P v \<and> Q v) s u"
  using encodes_seq[OF assms(1,2) local_to_mono[OF assms(3,4)]] .

text \<open>
  Routines as an interface: \<open>enc_op\<close> takes an item and the state; \<open>meaning\<close> is the constraint
  the item stands for. The loop lemma is what the nested loops of \<open>encodeEntries\<close> use.
\<close>

locale encoder =
  fixes enc_op :: "'x \<Rightarrow> enc \<Rightarrow> enc"
    and meaning :: "'x \<Rightarrow> valuation \<Rightarrow> bool"
    and ready :: "int \<Rightarrow> 'x \<Rightarrow> bool"
  assumes op_encodes: "wf_enc s \<Longrightarrow> ready (snd s) x \<Longrightarrow> encodes (meaning x) s (enc_op x s)"
    and meaning_local: "ready m x \<Longrightarrow> local_to m (meaning x)"
    and ready_mono: "ready m x \<Longrightarrow> m \<le> m' \<Longrightarrow> ready m' x"
begin

lemma loop_encodes:
  "wf_enc s \<Longrightarrow> \<forall>x\<in>set xs. ready (snd s) x \<Longrightarrow>
   encodes (\<lambda>v. \<forall>x\<in>set xs. meaning x v) s (fold enc_op xs s)"
proof (induction xs arbitrary: s)
  case (Cons x xs)
  let ?t = "enc_op x s"
  have x: "encodes (meaning x) s ?t" using Cons.prems by (simp add: op_encodes)
  have "\<forall>y\<in>set xs. ready (snd ?t) y"
    using Cons.prems(2) ready_mono encodesD(2)[OF x] by auto
  then have xs: "encodes (\<lambda>v. \<forall>x\<in>set xs. meaning x v) ?t (fold enc_op xs ?t)"
    using Cons.IH encodesD(1)[OF x] by blast
  have "local_to (snd s) (\<lambda>v. \<forall>x\<in>set xs. meaning x v)"
    using Cons.prems(2) meaning_local by (fastforce simp: local_to_def)
  from encodes_seq[OF x xs this] show ?case by simp
qed (simp add: encodes_refl)

text \<open>The loops of the code compute the item from a counter and may skip it (\<^theory_text>\<open>continue\<close>).\<close>

lemma guarded_loop_encodes:
  assumes "wf_enc s" "\<And>x. x \<in> set xs \<Longrightarrow> P x \<Longrightarrow> ready m (f x)" "m \<le> snd s"
  shows "encodes (\<lambda>v. \<forall>x\<in>set xs. P x \<longrightarrow> meaning (f x) v) s (fold (\<lambda>x s. if P x then enc_op (f x) s else s) xs s)"
proof -
  have "fold (\<lambda>x s. if P x then enc_op (f x) s else s) xs s = fold enc_op (map f (filter P xs)) s"
    by (induction xs arbitrary: s) auto
  moreover have "encodes (\<lambda>v. \<forall>x\<in>set (map f (filter P xs)). meaning x v) s (fold enc_op (map f (filter P xs)) s)"
    using assms(2) ready_mono[OF _ assms(3)] by (intro loop_encodes[OF assms(1)]) auto
  ultimately show ?thesis by (auto elim!: encodes_cong)
qed

lemma map_loop_encodes:
  assumes "wf_enc s" "\<And>x. x \<in> set xs \<Longrightarrow> ready m (f x)" "m \<le> snd s"
  shows "encodes (\<lambda>v. \<forall>x\<in>set xs. meaning (f x) v) s (fold (\<lambda>x. enc_op (f x)) xs s)"
  using guarded_loop_encodes[OF assms(1) _ assms(3), of xs "\<lambda>x. True" f] assms(2) by simp

lemma guarded_loop_local:
  "(\<And>x. x \<in> set xs \<Longrightarrow> P x \<Longrightarrow> ready m (f x)) \<Longrightarrow> local_to m (\<lambda>v. \<forall>x\<in>set xs. P x \<longrightarrow> meaning (f x) v)"
  using meaning_local unfolding local_to_def by blast

lemma map_loop_local:
  "(\<And>x. x \<in> set xs \<Longrightarrow> ready m (f x)) \<Longrightarrow> local_to m (\<lambda>v. \<forall>x\<in>set xs. meaning (f x) v)"
  using meaning_local unfolding local_to_def by blast

end

definition one_of :: "lit list \<Rightarrow> valuation \<Rightarrow> bool" where
  "one_of eo v \<longleftrightarrow> holding v (filter (\<lambda>i. i \<noteq> 0) eo) = 1"

definition lits_ready :: "int \<Rightarrow> lit list \<Rightarrow> bool" where
  "lits_ready m eo \<longleftrightarrow> (\<forall>l\<in>set eo. l \<noteq> 0 \<longrightarrow> lit_below m l)"

theorem exactlyOne_encodes:
  assumes wf: "wf_enc s" and eo: "lits_ready (snd s) eo"
  shows "encodes (one_of eo) s (exactlyOne noCommander eo s)"
proof -
  let ?xs = "filter (\<lambda>i. i \<noteq> 0) eo"
  have xs: "\<forall>l\<in>set ?xs. lit_below (snd s) l" "\<forall>l\<in>set ?xs. l \<noteq> 0" using eo by (auto simp: lits_ready_def)
  have F: "0 < snd s" "cnf_below (snd s) (fst s)" using wf by (auto simp: wf_enc_def)
  show ?thesis
  proof (cases noCommander)
    case True
    then have t: "exactlyOne noCommander eo s = (atMostOne (fst s) ?xs @ [?xs], snd s)"
      by (simp add: exactlyOne_def Let_def atLeastOne_def)
    have holds: "cnf_holds v (fst (exactlyOne noCommander eo s)) \<longleftrightarrow> cnf_holds v (fst s) \<and> one_of eo v" for v
      unfolding t by (auto simp: atMostOne_holds[OF xs(2)] clause_holds_holding one_of_def)
    have "wf_enc (exactlyOne noCommander eo s)"
      using F xs(1) atMostOne_below[OF xs(1), of "fst s"] unfolding t by (simp add: wf_enc_def)
    then show ?thesis
      unfolding encodes_def holds by (auto simp: t intro: agree_ex)
  next
    case False
    obtain c G nf' where r: "commanderEncoding ?xs (snd s) = ((c, G), nf')" by (metis prod.collapse)
    have ok: "commander_ok ?xs (snd s) ((c, G), nf')" using commanderEncoding_ok[OF F(1) xs(1)] r by simp
    have t: "exactlyOne noCommander eo s = (fst s @ G @ [?xs], nf')"
      using False r by (simp add: exactlyOne_def Let_def atLeastOne_def)
    have le: "snd s \<le> nf'" "cnf_below nf' G" using ok by (simp_all add: commander_ok_def)
    show ?thesis
      unfolding encodes_def t fst_conv snd_conv
    proof (intro conjI allI impI)
      show "wf_enc (fst s @ G @ [?xs], nf')"
        using le F xs(1) cnf_below_mono[OF F(2) le(1)] by (auto simp: wf_enc_def intro: lit_below_mono)
      show "snd s \<le> nf'" by (rule le)
      fix v assume v: "cnf_holds v (fst s @ G @ [?xs])"
      then show "cnf_holds v (fst s)" by simp
      from v ok show "one_of eo v"
        by (auto simp: commander_ok_def one_of_def clause_holds_holding intro: le_antisym)
    next
      fix v assume v: "cnf_holds v (fst s)" "one_of eo v"
      then obtain w where w: "agree (snd s) v w" "cnf_holds w G"
      proof -
        have "holding v ?xs \<le> 1" using v(2) by (simp add: one_of_def)
        then show thesis using ok that by (auto simp: commander_ok_def)
      qed
      moreover have "cnf_holds w (fst s)" using agree_cnf[OF w(1) F(2)] v(1) by simp
      moreover have "clause_holds w ?xs"
        using agree_holding[OF w(1) xs(1)] v(2) by (simp add: clause_holds_holding one_of_def)
      ultimately show "\<exists>w. agree (snd s) v w \<and> cnf_holds w (fst s @ G @ [?xs])" by auto
    qed
  qed
qed

lemma one_of_local: "lits_ready m eo \<Longrightarrow> local_to m (one_of eo)"
  unfolding local_to_def one_of_def
  using agree_holding[of m _ _ "filter (\<lambda>i. i \<noteq> 0) eo"] by (auto simp: lits_ready_def)

lemma lits_ready_mono: "lits_ready m eo \<Longrightarrow> m \<le> m' \<Longrightarrow> lits_ready m' eo"
  by (auto simp: lits_ready_def intro: lit_below_mono)

interpretation eo: encoder "exactlyOne noCommander" one_of lits_ready for noCommander
  by unfold_locales (simp_all add: exactlyOne_encodes one_of_local lits_ready_mono)

text \<open>\<^theory_text>\<open>cnf->push_back(cl)\<close> is the other routine.\<close>

definition add_clause :: "clause \<Rightarrow> enc \<Rightarrow> enc" where
  "add_clause c s = (fst s @ [c], snd s)"

definition clause_ready :: "int \<Rightarrow> clause \<Rightarrow> bool" where
  "clause_ready m c \<longleftrightarrow> (\<forall>l\<in>set c. lit_below m l)"

lemma add_clause_encodes:
  "wf_enc s \<Longrightarrow> clause_ready (snd s) c \<Longrightarrow> encodes (\<lambda>v. clause_holds v c) s (add_clause c s)"
  by (auto simp: encodes_def wf_enc_def add_clause_def clause_ready_def intro: agree_ex)

interpretation cl: encoder add_clause "\<lambda>c v. clause_holds v c" clause_ready
proof unfold_locales
  show "local_to m (\<lambda>v. clause_holds v x)" if "clause_ready m x" for m x
    using that agree_lit by (auto simp: local_to_def clause_holds_def clause_ready_def)
qed (auto simp: add_clause_encodes clause_ready_def intro: lit_below_mono)

end
