(* ===== verification/Cycle_Set.thy ===== *)
theory Cycle_Set
  imports Prelude "HOL-Library.List_Lexorder"
begin

text \<open>
  What the program enumerates, as mathematics: non-degenerate cycle sets of size \<open>n\<close> (the
  multiplication tables behind set-theoretic solutions of the Yang-Baxter equation), the action
  of permutations on them, and the row-major lexicographic order whose minima are the
  representatives the solver keeps. The other theories state against these definitions what
  the encoding, the minimality check and the clauses of the code do.
\<close>

type_synonym cmat = "nat \<Rightarrow> nat \<Rightarrow> nat"

definition perm_on :: "nat \<Rightarrow> (nat \<Rightarrow> nat) \<Rightarrow> bool" where
  "perm_on n p \<longleftrightarrow> bij_betw p {..<n} {..<n}"

definition row_perms :: "nat \<Rightarrow> cmat \<Rightarrow> bool" where
  "row_perms n N \<longleftrightarrow> (\<forall>i<n. perm_on n (N i))"

definition diag_perm :: "nat \<Rightarrow> cmat \<Rightarrow> bool" where
  "diag_perm n N \<longleftrightarrow> perm_on n (\<lambda>i. N i i)"

text \<open>The law \<open>(i \<cdot> j) \<cdot> (i \<cdot> k) = (j \<cdot> i) \<cdot> (j \<cdot> k)\<close>.\<close>

definition cycle_law :: "nat \<Rightarrow> cmat \<Rightarrow> bool" where
  "cycle_law n N \<longleftrightarrow> (\<forall>i<n. \<forall>j<n. \<forall>k<n. N (N i j) (N i k) = N (N j i) (N j k))"

definition cycle_set :: "nat \<Rightarrow> cmat \<Rightarrow> bool" where
  "cycle_set n N \<longleftrightarrow> row_perms n N \<and> diag_perm n N \<and> cycle_law n N"

section \<open>Permutations of an initial segment\<close>

lemma perm_on_less: "perm_on n p \<Longrightarrow> i < n \<Longrightarrow> p i < n"
  by (auto simp: perm_on_def bij_betw_def)

lemma perm_on_inj: "perm_on n p \<Longrightarrow> i < n \<Longrightarrow> j < n \<Longrightarrow> p i = p j \<longleftrightarrow> i = j"
  by (auto simp: perm_on_def bij_betw_def inj_on_def)

lemma perm_on_surj: "perm_on n p \<Longrightarrow> x < n \<Longrightarrow> \<exists>i<n. p i = x"
  using imageE[of x p "{..<n}"] by (auto simp: perm_on_def bij_betw_def)

definition pinv :: "nat \<Rightarrow> (nat \<Rightarrow> nat) \<Rightarrow> nat \<Rightarrow> nat" where
  "pinv n p x = (case List.find (\<lambda>i. p i = x) [0..<n] of Some i \<Rightarrow> i | None \<Rightarrow> x)"

lemma pinv_inv_into:
  assumes "perm_on n p" "x < n" shows "pinv n p x = inv_into {..<n} p x"
proof -
  obtain i where i: "i < n" "p i = x" using perm_on_surj[OF assms] by blast
  have "List.find (\<lambda>i. p i = x) [0..<n] = Some i"
    unfolding find_Some_iff
    by (rule exI[of _ i]) (use i perm_on_inj[OF assms(1) _ i(1)] in auto)
  with i assms(1) show ?thesis
    by (auto simp: pinv_def perm_on_def bij_betw_def intro!: inv_into_f_eq[symmetric])
qed

lemma pinv_perm: "perm_on n p \<Longrightarrow> perm_on n (pinv n p)"
proof -
  assume p: "perm_on n p"
  then have "bij_betw (inv_into {..<n} p) {..<n} {..<n}" by (simp add: perm_on_def bij_betw_inv_into)
  moreover have "bij_betw (pinv n p) {..<n} {..<n} = bij_betw (inv_into {..<n} p) {..<n} {..<n}"
    using p by (intro bij_betw_cong) (simp add: pinv_inv_into)
  ultimately show ?thesis by (simp add: perm_on_def)
qed

lemma pinv_left [simp]: "perm_on n p \<Longrightarrow> i < n \<Longrightarrow> pinv n p (p i) = i"
  by (simp add: pinv_inv_into perm_on_less) (simp add: perm_on_def bij_betw_inv_into_left)

lemma pinv_right [simp]: "perm_on n p \<Longrightarrow> i < n \<Longrightarrow> p (pinv n p i) = i"
  by (simp add: pinv_inv_into) (simp add: perm_on_def bij_betw_inv_into_right)

lemma pinv_less: "perm_on n p \<Longrightarrow> i < n \<Longrightarrow> pinv n p i < n"
  by (rule perm_on_less[OF pinv_perm])

lemma pinv_eq: "perm_on n p \<Longrightarrow> i < n \<Longrightarrow> p i = x \<Longrightarrow> pinv n p x = i"
  by auto

lemma perm_on_comp: "perm_on n p \<Longrightarrow> perm_on n q \<Longrightarrow> perm_on n (p \<circ> q)"
  unfolding perm_on_def by (rule bij_betw_trans)

lemma pinv_comp:
  assumes "perm_on n p" "perm_on n q" "x < n"
  shows "pinv n (p \<circ> q) x = pinv n q (pinv n p x)"
  using assms by (intro pinv_eq) (auto simp: perm_on_comp pinv_less)

lemma perm_on_id: "perm_on n (\<lambda>i. i)"
  by (simp add: perm_on_def bij_betw_def)

lemma perm_onI:
  assumes "\<And>i. i < n \<Longrightarrow> p i < n" "\<And>i j. i < n \<Longrightarrow> j < n \<Longrightarrow> p i = p j \<Longrightarrow> i = j"
  shows "perm_on n p"
proof -
  have inj: "inj_on p {..<n}" using assms(2) by (auto simp: inj_on_def)
  have "p ` {..<n} \<subseteq> {..<n}" using assms(1) by auto
  then have "p ` {..<n} = {..<n}" using endo_inj_surj[OF _ _ inj] by simp
  with inj show ?thesis by (simp add: perm_on_def bij_betw_def)
qed

lemma perm_on_surjI:
  assumes "\<And>i. i < n \<Longrightarrow> p i < n" "\<And>x. x < n \<Longrightarrow> \<exists>i<n. p i = x"
  shows "perm_on n p"
proof -
  have "p ` {..<n} = {..<n}" using assms by fastforce
  then show ?thesis
    using eq_card_imp_inj_on[of "{..<n}" p] by (simp add: perm_on_def bij_betw_def)
qed

lemma perm_on_cong: "(\<And>i. i < n \<Longrightarrow> p i = q i) \<Longrightarrow> perm_on n p = perm_on n q"
  unfolding perm_on_def by (rule bij_betw_cong) simp

section \<open>The action of permutations\<close>

text \<open>
  \<open>pact n p N\<close> is the table the minimality check compares with \<open>N\<close>: its entry at \<open>(i, j)\<close>
  is \<open>invperm\<close> of the entry of \<open>N\<close> at \<open>(perm[i], perm[j])\<close>.
\<close>

definition pact :: "nat \<Rightarrow> (nat \<Rightarrow> nat) \<Rightarrow> cmat \<Rightarrow> cmat" where
  "pact n p N i j = pinv n p (N (p i) (p j))"

lemma row_perms_less: "row_perms n N \<Longrightarrow> i < n \<Longrightarrow> j < n \<Longrightarrow> N i j < n"
  by (simp add: row_perms_def perm_on_less)

lemma row_perms_inj: "row_perms n N \<Longrightarrow> i < n \<Longrightarrow> j < n \<Longrightarrow> k < n \<Longrightarrow> N i j = N i k \<longleftrightarrow> j = k"
  using perm_on_inj[of n "N i" j k] by (simp add: row_perms_def)

lemma pact_less:
  "perm_on n p \<Longrightarrow> row_perms n N \<Longrightarrow> i < n \<Longrightarrow> j < n \<Longrightarrow> pact n p N i j < n"
  by (simp add: pact_def pinv_less row_perms_less perm_on_less)

lemma pact_row_perms: "perm_on n p \<Longrightarrow> row_perms n N \<Longrightarrow> row_perms n (pact n p N)"
proof (unfold row_perms_def, intro allI impI)
  fix i assume p: "perm_on n p" and N: "\<forall>i<n. perm_on n (N i)" and i: "i < n"
  then have "perm_on n (pinv n p \<circ> (N (p i) \<circ> p))"
    by (intro perm_on_comp pinv_perm) (simp_all add: perm_on_less)
  then show "perm_on n (pact n p N i)" by (simp add: pact_def comp_def cong: perm_on_cong)
qed

lemma pact_diag_perm: "perm_on n p \<Longrightarrow> diag_perm n N \<Longrightarrow> diag_perm n (pact n p N)"
proof -
  assume p: "perm_on n p" and N: "diag_perm n N"
  then have "perm_on n (pinv n p \<circ> ((\<lambda>i. N i i) \<circ> p))"
    by (intro perm_on_comp pinv_perm) (simp_all add: diag_perm_def)
  then show ?thesis by (simp add: diag_perm_def pact_def comp_def)
qed

lemma pact_cycle_law:
  assumes p: "perm_on n p" and N: "row_perms n N" and law: "cycle_law n N"
  shows "cycle_law n (pact n p N)"
  using law by (simp add: cycle_law_def pact_def p N perm_on_less[OF p] row_perms_less[OF N])

lemma pact_cycle_set: "perm_on n p \<Longrightarrow> cycle_set n N \<Longrightarrow> cycle_set n (pact n p N)"
  by (simp add: cycle_set_def pact_row_perms pact_diag_perm pact_cycle_law)

lemma pact_comp:
  assumes "perm_on n p" "perm_on n q" "row_perms n N" "i < n" "j < n"
  shows "pact n q (pact n p N) i j = pact n (p \<circ> q) N i j"
  using assms by (simp add: pact_def pinv_comp row_perms_less perm_on_less)

lemma pact_id: "row_perms n N \<Longrightarrow> i < n \<Longrightarrow> j < n \<Longrightarrow> pact n (\<lambda>i. i) N i j = N i j"
  using pinv_left[OF perm_on_id, of "N i j" n] by (simp add: pact_def row_perms_less)

section \<open>The row-major order\<close>

definition cells :: "nat \<Rightarrow> (nat \<times> nat) list" where
  "cells n = List.product [0..<n] [0..<n]"

definition mlist :: "nat \<Rightarrow> cmat \<Rightarrow> nat list" where
  "mlist n N = map (\<lambda>(i, j). N i j) (cells n)"

definition lex_less :: "nat \<Rightarrow> cmat \<Rightarrow> cmat \<Rightarrow> bool" where
  "lex_less n A B \<longleftrightarrow> mlist n A < mlist n B"

definition before :: "nat \<Rightarrow> nat \<Rightarrow> nat \<Rightarrow> nat \<Rightarrow> bool" where
  "before r' c' r c \<longleftrightarrow> r' < r \<or> (r' = r \<and> c' < c)"

lemma length_cells [simp]: "length (cells n) = n * n"
  by (simp add: cells_def)

lemma cells_nth: "k < n * n \<Longrightarrow> cells n ! k = (k div n, k mod n)"
  by (cases "n = 0") (auto simp: cells_def List.product_nth less_mult_imp_div_less)

lemma set_cells [simp]: "set (cells n) = {..<n} \<times> {..<n}"
  by (auto simp: cells_def)

lemma ball_cells: "(\<forall>x\<in>set (cells n). P x) \<longleftrightarrow> (\<forall>i<n. \<forall>j<n. P (i, j))"
  by auto

lemma ball_upt: "(\<forall>i\<in>set [0..<n]. P i) \<longleftrightarrow> (\<forall>i<n. P i)"
  by auto

lemma mlist_nth: "k < n * n \<Longrightarrow> mlist n N ! k = N (k div n) (k mod n)"
  by (simp add: mlist_def cells_nth)

lemma length_mlist [simp]: "length (mlist n N) = n * n"
  by (simp add: mlist_def)

lemma mlist_eq_iff: "mlist n A = mlist n B \<longleftrightarrow> (\<forall>i<n. \<forall>j<n. A i j = B i j)"
  by (auto simp: mlist_def)

lemma cell_index: "r < n \<Longrightarrow> c < n \<Longrightarrow> r * n + c < n * (n::nat)"
proof -
  assume "r < n" "c < n"
  then have "r * n + c < (r + 1) * n" by simp
  also have "\<dots> \<le> n * n" using \<open>r < n\<close> by (intro mult_le_mono1) simp
  finally show ?thesis .
qed

lemma list_less_nth:
  fixes xs ys :: "nat list"
  assumes "length xs = length ys" "k < length xs" "xs ! k < ys ! k" "\<And>j. j < k \<Longrightarrow> xs ! j = ys ! j"
  shows "xs < ys"
  using assms
proof (induction xs ys arbitrary: k rule: list_induct2)
  case (Cons x xs y ys)
  show ?case
  proof (cases k)
    case 0
    with Cons.prems show ?thesis by simp
  next
    case (Suc k')
    with Cons.prems Cons.IH[of k'] Cons.prems(3)[of 0] Cons.prems(3)[of "Suc _"] show ?thesis by force
  qed
qed simp

lemma list_less_nthD:
  fixes xs ys :: "nat list"
  assumes "length xs = length ys" "xs < ys"
  shows "\<exists>k<length xs. xs ! k < ys ! k \<and> (\<forall>j<k. xs ! j = ys ! j)"
  using assms
proof (induction xs ys rule: list_induct2)
  case (Cons x xs y ys)
  show ?case
  proof (cases "x < y")
    case True
    then show ?thesis by (intro exI[of _ 0]) simp
  next
    case False
    with Cons obtain k where "x = y" "k < length xs" "xs ! k < ys ! k" "\<forall>j<k. xs ! j = ys ! j"
      by auto
    then show ?thesis by (intro exI[of _ "Suc k"]) (auto simp: less_Suc_eq_0_disj)
  qed
qed simp

text \<open>The order in terms of cells, as the nested loops over \<open>r\<close> and \<open>c\<close> decide it.\<close>

lemma lex_less_cell:
  assumes "r < n" "c < n" "A r c < B r c"
    and "\<And>r' c'. r' < n \<Longrightarrow> c' < n \<Longrightarrow> before r' c' r c \<Longrightarrow> A r' c' \<le> B r' c'"
  shows "lex_less n A B"
proof -
  let ?k = "r * n + c"
  have k: "?k < n * n" using assms(1,2) by (rule cell_index)
  have le: "mlist n A ! j \<le> mlist n B ! j" if "j < ?k" for j
  proof -
    have n: "0 < n" using assms(1) by simp
    have "j div n < r \<or> (j div n = r \<and> j mod n < c)"
    proof -
      have "j div n \<le> r" using that assms(2) by (metis add.commute less_mult_imp_div_less mult_Suc
          nat_less_le add_less_cancel_left less_Suc_eq_le less_trans)
      moreover have "j mod n < c" if "j div n = r"
        using \<open>j < ?k\<close> that div_mult_mod_eq[of j n] by simp
      ultimately show ?thesis by linarith
    qed
    then show ?thesis
      using that k n assms(1) assms(4)[of "j div n" "j mod n"] by (auto simp: mlist_nth before_def)
  qed
  have kk: "mlist n A ! ?k < mlist n B ! ?k"
    using k assms(1-3) by (simp add: mlist_nth)
  show ?thesis
  proof (cases "\<exists>j<?k. mlist n A ! j < mlist n B ! j")
    case True
    define j where "j = (LEAST j. j < ?k \<and> mlist n A ! j < mlist n B ! j)"
    from True have j: "j < ?k \<and> mlist n A ! j < mlist n B ! j"
      unfolding j_def by (metis (mono_tags, lifting) LeastI)
    have "mlist n A ! i = mlist n B ! i" if "i < j" for i
    proof -
      have "\<not> (i < ?k \<and> mlist n A ! i < mlist n B ! i)" using that unfolding j_def by (rule not_less_Least)
      with le[of i] that j show ?thesis by simp
    qed
    with j k show ?thesis
      unfolding lex_less_def by (intro list_less_nth[of _ _ j]) auto
  next
    case False
    with le have "mlist n A ! j = mlist n B ! j" if "j < ?k" for j
      using that by (metis nat_less_le)
    with kk k show ?thesis
      unfolding lex_less_def by (intro list_less_nth[of _ _ ?k]) auto
  qed
qed

lemma lex_lessE:
  assumes "lex_less n A B"
  obtains r c where "r < n" "c < n" "A r c < B r c"
    "\<And>r' c'. r' < n \<Longrightarrow> c' < n \<Longrightarrow> before r' c' r c \<Longrightarrow> A r' c' = B r' c'"
proof -
  from assms obtain k where k: "k < n * n" "mlist n A ! k < mlist n B ! k"
    "\<And>j. j < k \<Longrightarrow> mlist n A ! j = mlist n B ! j"
    using list_less_nthD[of "mlist n A" "mlist n B"] by (auto simp: lex_less_def)
  then have n: "0 < n" by (cases n) auto
  let ?r = "k div n" and ?c = "k mod n"
  have r: "?r < n" using k(1) by (simp add: less_mult_imp_div_less)
  have "A r' c' = B r' c'" if "r' < n" "c' < n" "before r' c' ?r ?c" for r' c'
  proof -
    have "r' * n + c' < k"
    proof (cases "r' < ?r")
      case True
      then have "r' * n + n \<le> ?r * n" using mult_step[of r' ?r n] by (simp add: mult.commute)
      also have "\<dots> \<le> k" by (rule div_times_less_eq_dividend)
      finally show ?thesis using that(2) by simp
    next
      case False
      with that(3) have "r' = ?r" "c' < ?c" by (auto simp: before_def)
      then show ?thesis using div_mult_mod_eq[of k n] by (metis nat_add_left_cancel_less)
    qed
    from k(3)[OF this] this k(1) that n show ?thesis by (simp add: mlist_nth)
  qed
  with that[of ?r ?c] r n k show thesis by (simp add: mlist_nth)
qed

lemma lex_less_trans: "lex_less n A B \<Longrightarrow> lex_less n B C \<Longrightarrow> lex_less n A C"
  by (auto simp: lex_less_def)

lemma lex_less_irrefl: "\<not> lex_less n A A"
  by (simp add: lex_less_def)

lemma lex_less_total: "lex_less n A B \<or> lex_less n B A \<or> (\<forall>i<n. \<forall>j<n. A i j = B i j)"
  unfolding lex_less_def mlist_eq_iff[symmetric] by (metis linorder_less_linear)

lemma mlist_cong: "(\<And>i j. i < n \<Longrightarrow> j < n \<Longrightarrow> A i j = B i j) \<Longrightarrow> mlist n A = mlist n B"
  by (simp add: mlist_eq_iff)

section \<open>Symmetries and canonical representatives\<close>

text \<open>
  With a fixed diagonal \<open>T\<close> only the permutations that commute with \<open>T\<close> are symmetries of the
  problem; without one (\<open>None\<close>) all of them are.
\<close>

definition syms :: "nat \<Rightarrow> (nat \<Rightarrow> nat) option \<Rightarrow> (nat \<Rightarrow> nat) set" where
  "syms n T = {p. perm_on n p \<and> (case T of None \<Rightarrow> True | Some t \<Rightarrow> \<forall>i<n. p (t i) = t (p i))}"

definition has_diag :: "nat \<Rightarrow> (nat \<Rightarrow> nat) option \<Rightarrow> cmat \<Rightarrow> bool" where
  "has_diag n T N \<longleftrightarrow> (case T of None \<Rightarrow> True | Some t \<Rightarrow> \<forall>i<n. N i i = t i)"

definition lexmin :: "nat \<Rightarrow> (nat \<Rightarrow> nat) option \<Rightarrow> cmat \<Rightarrow> bool" where
  "lexmin n T N \<longleftrightarrow> (\<forall>p\<in>syms n T. \<not> lex_less n (pact n p N) N)"

lemma syms_perm: "p \<in> syms n T \<Longrightarrow> perm_on n p"
  by (simp add: syms_def)

lemma syms_comp: "p \<in> syms n T \<Longrightarrow> q \<in> syms n T \<Longrightarrow> p \<circ> q \<in> syms n T"
  by (auto simp: syms_def perm_on_comp perm_on_less split: option.splits)

lemma syms_id: "(\<lambda>i. i) \<in> syms n T"
  by (auto simp: syms_def perm_on_id split: option.splits)

lemma pact_has_diag:
  assumes p: "p \<in> syms n T" and N: "row_perms n N" "has_diag n T N"
  shows "has_diag n T (pact n p N)"
proof (cases T)
  case (Some t)
  have pp: "perm_on n p" using p by (rule syms_perm)
  have "pact n p N i i = t i" if "i < n" for i
  proof -
    have "t i < n" using N(2) row_perms_less[OF N(1) that that] Some that by (simp add: has_diag_def)
    moreover have "N (p i) (p i) = t (p i)" using N(2) Some that perm_on_less[OF pp] by (simp add: has_diag_def)
    moreover have "t (p i) = p (t i)" using p Some that by (simp add: syms_def)
    ultimately show ?thesis using pp by (simp add: pact_def)
  qed
  then show ?thesis using Some by (simp add: has_diag_def)
qed (simp add: has_diag_def)

text \<open>Every table has a canonical representative in its orbit.\<close>

theorem canonical_exists:
  assumes N: "row_perms n N"
  shows "\<exists>p\<in>syms n T. lexmin n T (pact n p N)"
proof -
  let ?S = "(\<lambda>p. mlist n (pact n p N)) ` syms n T"
  have "?S \<subseteq> {xs. set xs \<subseteq> {..<n} \<and> length xs = n * n}"
    using pact_less[OF syms_perm N] by (force simp: mlist_def)
  then have fin: "finite ?S"
    using finite_lists_length_eq[of "{..<n}" "n * n"] finite_subset by auto
  have ne: "?S \<noteq> {}" using syms_id by blast
  obtain p where p: "p \<in> syms n T" "mlist n (pact n p N) = Min ?S"
    using Min_in[OF fin ne] by fastforce
  have "\<not> lex_less n (pact n q (pact n p N)) (pact n p N)" if q: "q \<in> syms n T" for q
  proof -
    have "mlist n (pact n q (pact n p N)) = mlist n (pact n (p \<circ> q) N)"
      using p(1) q N by (intro mlist_cong pact_comp) (auto dest: syms_perm)
    then show ?thesis
      using Min_le[OF fin, of "mlist n (pact n (p \<circ> q) N)"] syms_comp[OF p(1) q] p(2)
      by (auto simp: lex_less_def not_less)
  qed
  with p(1) show ?thesis by (auto simp: lexmin_def)
qed

text \<open>The inverse is a symmetry as well, so "is isomorphic to" is symmetric.\<close>

lemma syms_pinv:
  assumes p: "p \<in> syms n T" and T: "\<And>t i. T = Some t \<Longrightarrow> i < n \<Longrightarrow> t i < n"
  shows "pinv n p \<in> syms n T"
proof (cases T)
  case (Some t)
  have pp: "perm_on n p" using p by (rule syms_perm)
  have "pinv n p (t i) = t (pinv n p i)" if i: "i < n" for i
  proof -
    let ?j = "pinv n p i"
    have j: "?j < n" "p ?j = i" using pp i by (simp_all add: pinv_less)
    then have "t i = p (t ?j)" using p Some by (auto simp: syms_def)
    then show ?thesis using pp T[OF Some j(1)] by simp
  qed
  then show ?thesis using pinv_perm[OF pp] Some by (simp add: syms_def)
qed (use p in \<open>simp add: syms_def pinv_perm\<close>)

text \<open>The canonical representative is unique: isomorphic canonical tables are equal.\<close>

theorem canonical_unique:
  assumes N: "row_perms n N" and T: "has_diag n T N" and p: "p \<in> syms n T"
    and min: "lexmin n T N" "lexmin n T (pact n p N)" and ij: "i < n" "j < n"
  shows "pact n p N i j = N i j"
proof -
  have pp: "perm_on n p" using p by (rule syms_perm)
  have Tb: "t i < n" if "T = Some t" "i < n" for t i
    using T row_perms_less[OF N that(2,2)] that by (simp add: has_diag_def)
  have q: "pinv n p \<in> syms n T" by (rule syms_pinv[OF p]) (rule Tb)
  have "mlist n (pact n (pinv n p) (pact n p N)) = mlist n N"
  proof (rule mlist_cong)
    fix a b assume ab: "a < n" "b < n"
    have "pact n (pinv n p) (pact n p N) a b = pact n (p \<circ> pinv n p) N a b"
      using pp N ab pinv_perm[OF pp] by (simp add: pact_comp)
    also have "\<dots> = N a b"
      using pp ab N pinv_eq[OF perm_on_comp[OF pp pinv_perm[OF pp]], of "N a b" "N a b"]
      by (simp add: pact_def row_perms_less)
    finally show "pact n (pinv n p) (pact n p N) a b = N a b" .
  qed
  then have "\<not> lex_less n N (pact n p N)"
    using min(2) q by (auto simp: lexmin_def lex_less_def)
  moreover have "\<not> lex_less n (pact n p N) N" using min(1) p by (simp add: lexmin_def)
  ultimately show ?thesis using lex_less_total[of n "pact n p N" N] ij by blast
qed

end
