(* ===== verification/Encode_Entries.thy ===== *)
theory Encode_Entries
  imports Cardinality Cycle_Set
begin

text \<open>
  The table variables and their constraints (\<^verbatim>\<open>clause.cpp\<close>, \<open>encodeEntries\<close> in its two
  overloads; the allocation loop of the diagonal-free mode is in \<^verbatim>\<open>main.cpp\<close>).
  A valuation is read as a table through
  \<open>reads\<close>: the entry at \<open>(i, j)\<close> is the one \<open>k\<close> whose literal holds; with the smaller
  encoding the entries that have no variable (literal 0) are those the diagonal decides.
\<close>

section \<open>Allocation of the table variables\<close>

type_synonym lits3 = "int list list list"

definition triples :: "nat \<Rightarrow> (nat \<times> nat \<times> nat) list" where
  "triples n = List.product [0..<n] (cells n)"

definition alloc_step :: "(nat \<Rightarrow> nat \<Rightarrow> nat \<Rightarrow> bool) \<Rightarrow> nat \<times> nat \<times> nat \<Rightarrow> lits3 \<times> int \<Rightarrow> lits3 \<times> int" where
  "alloc_step keep t s = (case t of (i, j, k) \<Rightarrow>
     if keep i j k then (upd3 (fst s) i j k (snd s), snd s + 1) else s)"

text \<open>The loop of \<^verbatim>\<open>main.cpp\<close> for the mode without a diagonal: every entry has a variable.\<close>

definition alloc_all :: "nat \<Rightarrow> lits3 \<times> int \<Rightarrow> lits3 \<times> int" where
  "alloc_all n s = fold (alloc_step (\<lambda>i j k. True)) (triples n) s"

text \<open>The first loop of \<open>encodeEntries\<close> with a diagonal.\<close>

definition diag_keep :: "bool \<Rightarrow> nat list \<Rightarrow> nat \<Rightarrow> nat \<Rightarrow> nat \<Rightarrow> bool" where
  "diag_keep smaller d i j k = (if smaller \<and> i \<noteq> j \<and> k \<noteq> d ! i then True else \<not> smaller)"

definition alloc_diag :: "bool \<Rightarrow> nat \<Rightarrow> nat list \<Rightarrow> lits3 \<times> int \<Rightarrow> lits3 \<times> int" where
  "alloc_diag smaller n d s = fold (alloc_step (diag_keep smaller d)) (triples n) s"

section \<open>The constraints\<close>

definition encodeEntries :: "bool \<Rightarrow> nat \<Rightarrow> lits3 \<Rightarrow> enc \<Rightarrow> enc" where
  "encodeEntries nc n L s =
     (let s1 = fold (\<lambda>(i, j). exactlyOne nc (L ! i ! j)) (cells n) s;
          s2 = fold (\<lambda>(i, k). exactlyOne nc (map (\<lambda>j. L ! i ! j ! k) [0..<n])) (cells n) s1
      in fold (\<lambda>i. exactlyOne nc (map (\<lambda>k. L ! k ! k ! i) [0..<n])) [0..<n] s2)"

definition diag_value_step :: "bool \<Rightarrow> nat \<Rightarrow> nat list \<Rightarrow> lits3 \<Rightarrow> nat \<Rightarrow> enc \<Rightarrow> enc" where
  "diag_value_step nc n d L i s =
     exactlyOne nc (map (\<lambda>k. L ! k ! k ! i) [0..<n]) (add_clause [L ! i ! i ! (d ! i)] s)"

definition encodeEntries_constraints :: "bool \<Rightarrow> bool \<Rightarrow> nat \<Rightarrow> nat list \<Rightarrow> lits3 \<Rightarrow> enc \<Rightarrow> enc" where
  "encodeEntries_constraints nc smaller n d L s =
     (let s1 = fold (\<lambda>(i, j) s. if i \<noteq> j then exactlyOne nc (L ! i ! j) s else s) (cells n) s;
          s2 = fold (\<lambda>(i, k) s. if d ! i \<noteq> k
                 then exactlyOne nc (map (\<lambda>j. L ! i ! j ! k) (filter (\<lambda>j. j \<noteq> i) [0..<n])) s else s) (cells n) s1
      in if \<not> smaller then fold (diag_value_step nc n d L) [0..<n] s2 else s2)"

definition encodeEntries_diag :: "bool \<Rightarrow> bool \<Rightarrow> nat \<Rightarrow> nat list \<Rightarrow> lits3 \<Rightarrow> enc \<Rightarrow> lits3 \<times> enc" where
  "encodeEntries_diag nc smaller n d L s =
     (case alloc_diag smaller n d (L, snd s) of
        (L', nf) \<Rightarrow> (L', encodeEntries_constraints nc smaller n d L' (fst s, nf)))"

section \<open>Allocation gives distinct consecutive variables\<close>

lemma set_triples [simp]: "set (triples n) = {..<n} \<times> {..<n} \<times> {..<n}"
  by (auto simp: triples_def)

lemma distinct_cells [simp]: "distinct (cells n)"
  by (simp add: cells_def distinct_product)

lemma distinct_triples [simp]: "distinct (triples n)"
  by (simp add: triples_def distinct_product)

definition lit_at :: "lits3 \<Rightarrow> nat \<times> nat \<times> nat \<Rightarrow> int" where
  "lit_at L t = (case t of (i, j, k) \<Rightarrow> L ! i ! j ! k)"

lemma alloc_fold:
  fixes keep :: "nat \<Rightarrow> nat \<Rightarrow> nat \<Rightarrow> bool" and nf :: int
  assumes "dims3 n L" "set ts \<subseteq> {..<n} \<times> {..<n} \<times> {..<n}" "distinct ts"
  defines "kept \<equiv> filter (\<lambda>(i, j, k). keep i j k) ts"
  defines "r \<equiv> fold (alloc_step keep) ts (L, nf)"
  shows "dims3 n (fst r) \<and> snd r = nf + int (length kept) \<and>
    (\<forall>p<length kept. lit_at (fst r) (kept ! p) = nf + int p) \<and>
    (\<forall>t\<in>{..<n} \<times> {..<n} \<times> {..<n} - set kept. lit_at (fst r) t = lit_at L t)"
  using assms(2,3) unfolding kept_def r_def
proof (induction ts rule: rev_induct)
  case (snoc t ts)
  let ?f = "fold (alloc_step keep) ts (L, nf)" and ?k = "filter (\<lambda>(i, j, k). keep i j k) ts"
  from snoc have IH: "dims3 n (fst ?f)" "snd ?f = nf + int (length ?k)"
    "\<And>p. p < length ?k \<Longrightarrow> lit_at (fst ?f) (?k ! p) = nf + int p"
    "\<And>t. t \<in> {..<n} \<times> {..<n} \<times> {..<n} - set ?k \<Longrightarrow> lit_at (fst ?f) t = lit_at L t"
    by auto
  obtain i j k where t: "t = (i, j, k)" "i < n" "j < n" "k < n"
    using snoc.prems(1) by (cases t) auto
  show ?case
  proof (cases "keep i j k")
    case False
    then have "fold (alloc_step keep) (ts @ [t]) (L, nf) = ?f" "filter (\<lambda>(i, j, k). keep i j k) (ts @ [t]) = ?k"
      using t by (simp_all add: alloc_step_def)
    with IH show ?thesis by simp
  next
    case True
    let ?L = "upd3 (fst ?f) i j k (snd ?f)"
    have at: "lit_at ?L t' = (if t' = t then snd ?f else lit_at (fst ?f) t')"
      if "t' \<in> {..<n} \<times> {..<n} \<times> {..<n}" for t'
      using that t IH(1) by (cases t') (auto simp: lit_at_def upd3_nth)
    have res: "fold (alloc_step keep) (ts @ [t]) (L, nf) = (?L, snd ?f + 1)"
      using True t by (simp add: alloc_step_def)
    have kept: "filter (\<lambda>(i, j, k). keep i j k) (ts @ [t]) = ?k @ [t]" using True t by simp
    have nin: "t \<notin> set ?k" using snoc.prems(2) by auto
    have "lit_at ?L ((?k @ [t]) ! p) = nf + int p" if "p < Suc (length ?k)" for p
    proof (cases "p = length ?k")
      case False
      with that have p: "p < length ?k" by simp
      have mem: "?k ! p \<in> set ?k" by (rule nth_mem[OF p])
      then have "?k ! p \<in> {..<n} \<times> {..<n} \<times> {..<n}" using snoc.prems(1) by auto
      with at IH(3)[OF p] p mem nin show ?thesis by (auto simp: nth_append)
    qed (use at t IH(2) in \<open>simp add: nth_append\<close>)
    moreover have "lit_at ?L t' = lit_at L t'" if "t' \<in> {..<n} \<times> {..<n} \<times> {..<n} - set (?k @ [t])" for t'
      using that at[of t'] IH(4)[of t'] by simp
    ultimately show ?thesis using IH(1,2) unfolding res kept by simp
  qed
qed (use assms(1) in simp)

text \<open>What the other components use of an allocation.\<close>

definition alloc_ok :: "nat \<Rightarrow> (nat \<Rightarrow> nat \<Rightarrow> nat \<Rightarrow> bool) \<Rightarrow> int \<Rightarrow> lits3 \<Rightarrow> int \<Rightarrow> bool" where
  "alloc_ok n keep nf L nf' \<longleftrightarrow> dims3 n L \<and> nf \<le> nf' \<and>
     (\<forall>i<n. \<forall>j<n. \<forall>k<n. if keep i j k then nf \<le> L ! i ! j ! k \<and> L ! i ! j ! k < nf' else L ! i ! j ! k = 0)"

lemma alloc_fold_ok:
  assumes "r = fold (alloc_step keep) (triples n) (const3 n 0, nf)"
  shows "alloc_ok n keep nf (fst r) (snd r)"
proof -
  let ?k = "filter (\<lambda>(i, j, k). keep i j k) (triples n)"
  have F: "dims3 n (fst r)" "snd r = nf + int (length ?k)"
    "\<And>p. p < length ?k \<Longrightarrow> lit_at (fst r) (?k ! p) = nf + int p"
    "\<And>t. t \<in> {..<n} \<times> {..<n} \<times> {..<n} - set ?k \<Longrightarrow> lit_at (fst r) t = lit_at (const3 n 0) t"
    using alloc_fold[of n "const3 n 0" "triples n" keep nf] assms by auto
  have "if keep i j k then nf \<le> fst r ! i ! j ! k \<and> fst r ! i ! j ! k < snd r else fst r ! i ! j ! k = 0"
    if ijk: "i < n" "j < n" "k < n" for i j k
  proof (cases "keep i j k")
    case True
    then have "(i, j, k) \<in> set ?k" using ijk by simp
    then obtain p where "p < length ?k" "?k ! p = (i, j, k)" by (meson in_set_conv_nth)
    then have "fst r ! i ! j ! k = nf + int p" using F(3)[of p] by (simp add: lit_at_def)
    with F(2) True \<open>p < length ?k\<close> show ?thesis by simp
  next
    case False
    with F(4)[of "(i, j, k)"] ijk show ?thesis by (simp add: lit_at_def)
  qed
  moreover have "nf \<le> snd r" using F(2) by simp
  ultimately show ?thesis using F(1) unfolding alloc_ok_def by blast
qed

lemma alloc_fold_inj:
  assumes "r = fold (alloc_step keep) (triples n) (const3 n 0, nf)"
    and "i < n" "j < n" "k < n" "keep i j k" "i' < n" "j' < n" "k' < n" "keep i' j' k'"
    and eq: "fst r ! i ! j ! k = fst r ! i' ! j' ! k'"
  shows "(i, j, k) = (i', j', k')"
proof -
  let ?k = "filter (\<lambda>(i, j, k). keep i j k) (triples n)"
  have at: "lit_at (fst r) (?k ! p) = nf + int p" if "p < length ?k" for p
    using alloc_fold[of n "const3 n 0" "triples n" keep nf] assms(1) that by auto
  have "(i, j, k) \<in> set ?k" "(i', j', k') \<in> set ?k" using assms by auto
  then obtain p q where pq: "p < length ?k" "?k ! p = (i, j, k)" "q < length ?k" "?k ! q = (i', j', k')"
    by (meson in_set_conv_nth)
  then have "nf + int p = nf + int q" using at[OF pq(1)] at[OF pq(3)] eq by (simp add: lit_at_def)
  then show ?thesis using pq by simp
qed

section \<open>Reading a valuation as a table\<close>

definition entry_holds :: "lits3 \<Rightarrow> (nat \<Rightarrow> nat) \<Rightarrow> valuation \<Rightarrow> nat \<Rightarrow> nat \<Rightarrow> nat \<Rightarrow> bool" where
  "entry_holds L t v i j k = (if L ! i ! j ! k = 0 then i = j \<and> k = t i else lit_holds v (L ! i ! j ! k))"

definition reads :: "nat \<Rightarrow> lits3 \<Rightarrow> (nat \<Rightarrow> nat) \<Rightarrow> valuation \<Rightarrow> cmat \<Rightarrow> bool" where
  "reads n L t v N \<longleftrightarrow> (\<forall>i<n. \<forall>j<n. N i j < n \<and> (\<forall>k<n. entry_holds L t v i j k \<longleftrightarrow> N i j = k))"

lemma readsD:
  assumes "reads n L t v N" "i < n" "j < n"
  shows "N i j < n" "k < n \<Longrightarrow> entry_holds L t v i j k \<longleftrightarrow> N i j = k"
  using assms by (auto simp: reads_def)

lemma reads_unique:
  "reads n L t v N \<Longrightarrow> reads n L t v M \<Longrightarrow> i < n \<Longrightarrow> j < n \<Longrightarrow> N i j = M i j"
  using readsD(2)[of n L t v N i j "M i j"] readsD(2)[of n L t v M i j "M i j"] readsD(1)[of n L t v M i j]
  by simp

lemma reads_cycle_law:
  assumes "reads n L t v N" "reads n L t v M" "cycle_law n M"
  shows "cycle_law n N"
proof -
  have "N i j = M i j" "M i j < n" if "i < n" "j < n" for i j
    using reads_unique[OF assms(1,2) that] readsD(1)[OF assms(2) that] by simp_all
  then show ?thesis using assms(3) by (simp add: cycle_law_def)
qed

lemma one_of_map:
  assumes "distinct is"
  shows "one_of (map f is) v \<longleftrightarrow> (\<exists>!i. i \<in> set is \<and> f i \<noteq> 0 \<and> lit_holds v (f i))"
proof -
  have "filter (\<lambda>l. l \<noteq> 0) (map f is) = map f (filter (\<lambda>i. f i \<noteq> 0) is)"
    by (simp add: filter_map comp_def)
  then have "one_of (map f is) v \<longleftrightarrow> (\<exists>!i. i \<in> set (filter (\<lambda>i. f i \<noteq> 0) is) \<and> lit_holds v (f i))"
    using holding_one_map[of "filter (\<lambda>i. f i \<noteq> 0) is" v f] assms by (simp add: one_of_def)
  then show ?thesis by (simp add: conj_assoc)
qed

lemma one_of_row:
  assumes "dims3 n L" "i < n" "j < n"
  shows "one_of (L ! i ! j) v \<longleftrightarrow> (\<exists>!k. k < n \<and> L ! i ! j ! k \<noteq> 0 \<and> lit_holds v (L ! i ! j ! k))"
proof -
  have "L ! i ! j = map (\<lambda>k. L ! i ! j ! k) [0..<n]"
    using dims3D(4)[OF assms] by (intro nth_equalityI) auto
  then show ?thesis using one_of_map[of "[0..<n]" "\<lambda>k. L ! i ! j ! k" v] by simp
qed

text \<open>The table read off where every row entry has exactly one value.\<close>

definition table_of :: "nat \<Rightarrow> lits3 \<Rightarrow> (nat \<Rightarrow> nat) \<Rightarrow> valuation \<Rightarrow> cmat" where
  "table_of n L t v i j = (case List.find (entry_holds L t v i j) [0..<n] of Some k \<Rightarrow> k | None \<Rightarrow> 0)"

lemma reads_table_of:
  assumes "\<And>i j. i < n \<Longrightarrow> j < n \<Longrightarrow> \<exists>!k. k < n \<and> entry_holds L t v i j k"
  shows "reads n L t v (table_of n L t v)"
  unfolding reads_def
proof (intro allI impI)
  fix i j assume ij: "i < n" "j < n"
  obtain k where k: "k < n" "entry_holds L t v i j k"
    and uniq: "\<And>k'. k' < n \<Longrightarrow> entry_holds L t v i j k' \<Longrightarrow> k' = k"
    using assms[OF ij] by blast
  have fnd: "List.find (entry_holds L t v i j) [0..<n] = Some k"
    unfolding find_Some_iff
  proof (intro exI[of _ k] conjI allI impI)
    fix j' assume "j' < k"
    then show "\<not> entry_holds L t v i j ([0..<n] ! j')" using uniq[of j'] k(1) by auto
  qed (use k in simp_all)
  have "table_of n L t v i j = k" by (simp add: table_of_def fnd)
  then show "table_of n L t v i j < n \<and> (\<forall>k<n. entry_holds L t v i j k \<longleftrightarrow> table_of n L t v i j = k)"
    using k uniq by metis
qed

section \<open>Meaning of the constraints without a diagonal\<close>

definition table_constraints :: "nat \<Rightarrow> lits3 \<Rightarrow> valuation \<Rightarrow> bool" where
  "table_constraints n L v \<longleftrightarrow>
     (\<forall>x\<in>set (cells n). one_of (L ! fst x ! snd x) v) \<and>
     (\<forall>x\<in>set (cells n). one_of (map (\<lambda>j. L ! fst x ! j ! snd x) [0..<n]) v) \<and>
     (\<forall>i\<in>set [0..<n]. one_of (map (\<lambda>k. L ! k ! k ! i) [0..<n]) v)"

lemma table_constraints_iff:
  assumes dim: "dims3 n L" and nz: "\<And>i j k. i < n \<Longrightarrow> j < n \<Longrightarrow> k < n \<Longrightarrow> L ! i ! j ! k \<noteq> 0"
  shows "table_constraints n L v \<longleftrightarrow> (\<exists>N. reads n L t v N \<and> row_perms n N \<and> diag_perm n N)"
proof -
  have ent: "entry_holds L t v i j k = lit_holds v (L ! i ! j ! k)" if "i < n" "j < n" "k < n" for i j k
    using nz[OF that] by (simp add: entry_holds_def)
  have o1: "one_of (L ! i ! j) v \<longleftrightarrow> (\<exists>!k. k < n \<and> entry_holds L t v i j k)" if "i < n" "j < n" for i j
    unfolding one_of_row[OF dim that] by (rule ex1_cong) (use nz[OF that] ent[OF that] in blast)
  have o2: "one_of (map (\<lambda>j. L ! i ! j ! k) [0..<n]) v \<longleftrightarrow> (\<exists>!j. j < n \<and> entry_holds L t v i j k)"
    if "i < n" "k < n" for i k
    unfolding one_of_map[OF distinct_upt] by (rule ex1_cong) (use nz[OF that(1) _ that(2)] ent[OF that(1) _ that(2)] in auto)
  have o3: "one_of (map (\<lambda>i. L ! i ! i ! k) [0..<n]) v \<longleftrightarrow> (\<exists>!i. i < n \<and> entry_holds L t v i i k)"
    if "k < n" for k
    unfolding one_of_map[OF distinct_upt] by (rule ex1_cong) (use nz[OF _ _ that] ent[OF _ _ that] in auto)
  have tc: "table_constraints n L v \<longleftrightarrow>
      (\<forall>i<n. \<forall>j<n. \<exists>!k. k < n \<and> entry_holds L t v i j k) \<and>
      (\<forall>i<n. \<forall>k<n. \<exists>!j. j < n \<and> entry_holds L t v i j k) \<and>
      (\<forall>k<n. \<exists>!i. i < n \<and> entry_holds L t v i i k)"
    unfolding table_constraints_def ball_cells ball_upt fst_conv snd_conv
    by (intro arg_cong2[where f = "(\<and>)"] all_cong1 imp_cong refl; rule o1 o2 o3; assumption)
  show ?thesis
  proof
    assume "table_constraints n L v"
    note t = this[unfolded tc]
    note c = t[THEN conjunct1, rule_format] t[THEN conjunct2, THEN conjunct1, rule_format]
      t[THEN conjunct2, THEN conjunct2, rule_format]
    define N where "N = table_of n L t v"
    have N: "reads n L t v N" unfolding N_def by (rule reads_table_of[OF c(1)])
    have "row_perms n N"
      unfolding row_perms_def
    proof (intro allI impI perm_onI)
      fix i j j' assume "i < n" "j < n" "j' < n" "N i j = N i j'"
      then show "j = j'" using c(2)[of i "N i j"] readsD[OF N] by metis
    qed (use readsD(1)[OF N] in blast)
    moreover have "diag_perm n N"
      unfolding diag_perm_def
    proof (intro perm_onI)
      fix i j assume "i < n" "j < n" "N i i = N j j"
      then show "i = j" using c(3)[of "N i i"] readsD[OF N] by metis
    qed (use readsD(1)[OF N] in blast)
    ultimately show "\<exists>N. reads n L t v N \<and> row_perms n N \<and> diag_perm n N" using N by blast
  next
    assume "\<exists>N. reads n L t v N \<and> row_perms n N \<and> diag_perm n N"
    then obtain N where N: "reads n L t v N" "row_perms n N" "diag_perm n N" by blast
    have a1: "\<exists>!k. k < n \<and> entry_holds L t v i j k" if "i < n" "j < n" for i j
      using readsD[OF N(1) that] by metis
    have a2: "\<exists>!j. j < n \<and> entry_holds L t v i j k" if ik: "i < n" "k < n" for i k
    proof -
      obtain j where j: "j < n" "N i j = k" using perm_on_surj[of n "N i" k] N(2) ik by (auto simp: row_perms_def)
      show ?thesis
        using j readsD(2)[OF N(1) ik(1) _ ik(2)] row_perms_inj[OF N(2) ik(1)] by (intro ex1I[of _ j]) auto
    qed
    have a3: "\<exists>!i. i < n \<and> entry_holds L t v i i k" if k: "k < n" for k
    proof -
      obtain i where i: "i < n" "N i i = k" using perm_on_surj[of n _ k] N(3) k by (auto simp: diag_perm_def)
      show ?thesis
        using i readsD(2)[OF N(1) _ _ k] perm_on_inj[of n "\<lambda>i. N i i"] N(3)
        by (intro ex1I[of _ i]) (auto simp: diag_perm_def)
    qed
    show "table_constraints n L v" unfolding tc by (intro conjI allI impI a1 a2 a3)
  qed
qed

text \<open>All literals of a tensor are ready once the counter has passed them.\<close>

lemma alloc_ready:
  assumes "alloc_ok n keep nf L nf'" "0 < nf"
  shows "i < n \<Longrightarrow> j < n \<Longrightarrow> lits_ready nf' (L ! i ! j)"
    "set is \<subseteq> {..<n} \<times> {..<n} \<times> {..<n} \<Longrightarrow> lits_ready nf' (map (lit_at L) is)"
    "local_to nf' (\<lambda>v. reads n L t v N)"
proof -
  have lit: "L ! i ! j ! k = 0 \<or> lit_below nf' (L ! i ! j ! k)" if "i < n" "j < n" "k < n" for i j k
  proof -
    have "if keep i j k then nf \<le> L ! i ! j ! k \<and> L ! i ! j ! k < nf' else L ! i ! j ! k = 0"
      using assms(1) that by (simp add: alloc_ok_def)
    with assms(2) show ?thesis by (auto simp: lit_below_def split: if_splits)
  qed
  have dim: "dims3 n L" using assms(1) by (simp add: alloc_ok_def)
  show "lits_ready nf' (L ! i ! j)" if "i < n" "j < n"
    unfolding lits_ready_def
  proof (intro ballI impI)
    fix l assume l: "l \<in> set (L ! i ! j)" "l \<noteq> 0"
    then obtain k where "k < n" "l = L ! i ! j ! k" using dims3D(4)[OF dim \<open>i < n\<close> \<open>j < n\<close>] by (metis in_set_conv_nth)
    with lit[of i j k] that l show "lit_below nf' l" by blast
  qed
  show "lits_ready nf' (map (lit_at L) is)" if "set is \<subseteq> {..<n} \<times> {..<n} \<times> {..<n}"
    using lit that by (auto simp: lits_ready_def lit_at_def)
  have "entry_holds L t v i j k = entry_holds L t w i j k" if "agree nf' v w" "i < n" "j < n" "k < n" for v w i j k
    using lit[OF that(2-4)] agree_lit[OF that(1)] by (auto simp: entry_holds_def)
  then show "local_to nf' (\<lambda>v. reads n L t v N)" by (simp add: local_to_def reads_def)
qed

theorem encodeEntries_encodes:
  assumes al: "alloc_ok n (\<lambda>i j k. True) nf L nf'" and nf: "0 < nf" and wf: "wf_enc (F, nf')"
  shows "encodes (\<lambda>v. \<exists>N. reads n L t v N \<and> row_perms n N \<and> diag_perm n N) (F, nf') (encodeEntries nc n L (F, nf'))"
proof -
  let ?s = "(F, nf')"
  let ?s1 = "fold (\<lambda>x. exactlyOne nc (L ! fst x ! snd x)) (cells n) ?s"
  let ?s2 = "fold (\<lambda>x. exactlyOne nc (map (\<lambda>j. L ! fst x ! j ! snd x) [0..<n])) (cells n) ?s1"
  let ?s3 = "fold (\<lambda>i. exactlyOne nc (map (\<lambda>k. L ! k ! k ! i) [0..<n])) [0..<n] ?s2"
  have dim: "dims3 n L" using al by (simp add: alloc_ok_def)
  have nz: "L ! i ! j ! k \<noteq> 0" if "i < n" "j < n" "k < n" for i j k
    using al nf that by (fastforce simp: alloc_ok_def)
  have r1: "lits_ready nf' (L ! fst x ! snd x)" if "x \<in> set (cells n)" for x
    using alloc_ready(1)[OF al nf] that by auto
  have r2: "lits_ready nf' (map (\<lambda>j. L ! fst x ! j ! snd x) [0..<n])" if "x \<in> set (cells n)" for x
  proof -
    have "set (map (\<lambda>j. (fst x, j, snd x)) [0..<n]) \<subseteq> {..<n} \<times> {..<n} \<times> {..<n}" using that by auto
    from alloc_ready(2)[OF al nf this] show ?thesis by (simp add: lit_at_def comp_def)
  qed
  have r3: "lits_ready nf' (map (\<lambda>k. L ! k ! k ! i) [0..<n])" if "i < n" for i
  proof -
    have "set (map (\<lambda>k. (k, k, i)) [0..<n]) \<subseteq> {..<n} \<times> {..<n} \<times> {..<n}" using that by auto
    from alloc_ready(2)[OF al nf this] show ?thesis by (simp add: lit_at_def comp_def)
  qed
  have le0: "nf' \<le> snd ?s" by simp
  have e1: "encodes (\<lambda>v. \<forall>x\<in>set (cells n). one_of (L ! fst x ! snd x) v) ?s ?s1"
    by (rule eo.map_loop_encodes[OF wf r1 le0])
  have le1: "nf' \<le> snd ?s1" using encodesD(2)[OF e1] by simp
  have e2: "encodes (\<lambda>v. \<forall>x\<in>set (cells n). one_of (map (\<lambda>j. L ! fst x ! j ! snd x) [0..<n]) v) ?s1 ?s2"
    by (rule eo.map_loop_encodes[OF encodesD(1)[OF e1] r2 le1])
  have le2: "nf' \<le> snd ?s2" using encodesD(2)[OF e2] le1 by simp
  have r3': "\<And>i. i \<in> set [0..<n] \<Longrightarrow> lits_ready nf' (map (\<lambda>k. L ! k ! k ! i) [0..<n])" using r3 by simp
  have e3: "encodes (\<lambda>v. \<forall>i\<in>set [0..<n]. one_of (map (\<lambda>k. L ! k ! k ! i) [0..<n]) v) ?s2 ?s3"
    by (rule eo.map_loop_encodes[OF encodesD(1)[OF e2] r3' le2])
  have s3: "encodeEntries nc n L ?s = ?s3"
    by (simp add: encodeEntries_def Let_def case_prod_beta')
  have "encodes (table_constraints n L) ?s ?s3"
    using encodes_then[OF encodes_then[OF e1 e2 eo.map_loop_local[OF r2] le0] e3 eo.map_loop_local[OF r3'] le0]
    by (simp add: table_constraints_def[abs_def] conj_assoc)
  then show ?thesis unfolding s3 by (rule encodes_cong) (rule table_constraints_iff[OF dim nz])
qed

section \<open>Meaning of the constraints with a diagonal\<close>

text \<open>\<open>on_lit L v i j k\<close>: the entry has a variable and it holds.\<close>

definition on_lit :: "lits3 \<Rightarrow> valuation \<Rightarrow> nat \<Rightarrow> nat \<Rightarrow> nat \<Rightarrow> bool" where
  "on_lit L v i j k \<longleftrightarrow> L ! i ! j ! k \<noteq> 0 \<and> lit_holds v (L ! i ! j ! k)"

definition diag_constraints :: "bool \<Rightarrow> nat \<Rightarrow> nat list \<Rightarrow> lits3 \<Rightarrow> valuation \<Rightarrow> bool" where
  "diag_constraints smaller n d L v \<longleftrightarrow>
     (\<forall>i<n. \<forall>j<n. i \<noteq> j \<longrightarrow> (\<exists>!k. k < n \<and> on_lit L v i j k)) \<and>
     (\<forall>i<n. \<forall>k<n. d ! i \<noteq> k \<longrightarrow> (\<exists>!j. j < n \<and> j \<noteq> i \<and> on_lit L v i j k)) \<and>
     (\<not> smaller \<longrightarrow> (\<forall>x<n. on_lit L v x x (d ! x) \<and> (\<exists>!i. i < n \<and> on_lit L v i i x)))"

lemma diag_constraintsD:
  assumes "diag_constraints smaller n d L v" "i < n"
  shows "j < n \<Longrightarrow> i \<noteq> j \<Longrightarrow> \<exists>!k. k < n \<and> on_lit L v i j k"
    "k < n \<Longrightarrow> d ! i \<noteq> k \<Longrightarrow> \<exists>!j. j < n \<and> j \<noteq> i \<and> on_lit L v i j k"
    "\<not> smaller \<Longrightarrow> on_lit L v i i (d ! i)" "\<not> smaller \<Longrightarrow> \<exists>!k. k < n \<and> on_lit L v k k i"
proof -
  note c = assms(1)[unfolded diag_constraints_def]
  show "j < n \<Longrightarrow> i \<noteq> j \<Longrightarrow> \<exists>!k. k < n \<and> on_lit L v i j k"
    by (rule c[THEN conjunct1, rule_format, OF assms(2)])
  show "k < n \<Longrightarrow> d ! i \<noteq> k \<Longrightarrow> \<exists>!j. j < n \<and> j \<noteq> i \<and> on_lit L v i j k"
    by (rule c[THEN conjunct2, THEN conjunct1, rule_format, OF assms(2)])
  note c3 = c[THEN conjunct2, THEN conjunct2, rule_format, OF _ assms(2)]
  show "\<not> smaller \<Longrightarrow> on_lit L v i i (d ! i)" by (rule c3[THEN conjunct1])
  show "\<not> smaller \<Longrightarrow> \<exists>!k. k < n \<and> on_lit L v k k i" by (rule c3[THEN conjunct2])
qed

lemma on_lit_entry:
  assumes al: "alloc_ok n (diag_keep smaller d) nf L nf'" and nf: "0 < nf" and ijk: "i < n" "j < n" "k < n"
  shows "i \<noteq> j \<Longrightarrow> entry_holds L t v i j k \<longleftrightarrow> on_lit L v i j k"
    "\<not> smaller \<Longrightarrow> entry_holds L t v i j k \<longleftrightarrow> on_lit L v i j k"
    "smaller \<Longrightarrow> entry_holds L t v i i k \<longleftrightarrow> k = t i"
proof -
  have keep: "if diag_keep smaller d i j k then nf \<le> L ! i ! j ! k else L ! i ! j ! k = 0"
    "if diag_keep smaller d i i k then nf \<le> L ! i ! i ! k else L ! i ! i ! k = 0"
    using al ijk unfolding alloc_ok_def by (metis (full_types))+
  show "i \<noteq> j \<Longrightarrow> entry_holds L t v i j k \<longleftrightarrow> on_lit L v i j k"
    by (simp add: entry_holds_def on_lit_def)
  show "\<not> smaller \<Longrightarrow> entry_holds L t v i j k \<longleftrightarrow> on_lit L v i j k"
    using keep(1) nf by (simp add: entry_holds_def on_lit_def diag_keep_def)
  show "smaller \<Longrightarrow> entry_holds L t v i i k \<longleftrightarrow> k = t i"
    using keep(2) by (simp add: entry_holds_def diag_keep_def)
qed

lemma diag_constraints_diag:
  assumes al: "alloc_ok n (diag_keep smaller d) nf L nf'" and nf: "0 < nf"
    and d: "perm_on n (\<lambda>i. d ! i)" and c: "diag_constraints smaller n d L v" and ik: "i < n" "k < n"
  shows "entry_holds L (\<lambda>i. d ! i) v i i k \<longleftrightarrow> k = d ! i"
proof (cases smaller)
  case False
  obtain j where j: "j < n" "d ! j = k" using perm_on_surj[OF d ik(2)] by blast
  have "i' = j" if "i' < n" "on_lit L v i' i' k" for i'
    using diag_constraintsD(4)[OF c ik(2) False] diag_constraintsD(3)[OF c j(1) False] j that by metis
  then show ?thesis
    using on_lit_entry(2)[OF al nf ik(1,1,2) False] diag_constraintsD(3)[OF c ik(1) False] ik j perm_on_inj[OF d] by metis
qed (use on_lit_entry(3)[OF al nf ik(1,1,2)] in simp)

lemma diag_constraints_sound:
  assumes al: "alloc_ok n (diag_keep smaller d) nf L nf'" and nf: "0 < nf"
    and d: "perm_on n (\<lambda>i. d ! i)" and c: "diag_constraints smaller n d L v"
  shows "\<exists>N. reads n L (\<lambda>i. d ! i) v N \<and> row_perms n N \<and> has_diag n (Some (\<lambda>i. d ! i)) N"
proof -
  let ?N = "table_of n L (\<lambda>i. d ! i) v"
  note diag = diag_constraints_diag[OF al nf d c]
  have "\<exists>!k. k < n \<and> entry_holds L (\<lambda>i. d ! i) v i j k" if ij: "i < n" "j < n" for i j
  proof (cases "i = j")
    case True
    then show ?thesis using diag ij perm_on_less[OF d] by (intro ex1I[of _ "d ! i"]) auto
  next
    case False
    show ?thesis
      using diag_constraintsD(1)[OF c ij False] on_lit_entry(1)[OF al nf ij _ False] by metis
  qed
  then have N: "reads n L (\<lambda>i. d ! i) v ?N" by (rule reads_table_of)
  have nd: "?N i i = d ! i" if "i < n" for i
    using readsD(2)[OF N that that, of "d ! i"] diag[OF that] perm_on_less[OF d that] by simp
  have "perm_on n (?N i)" if i: "i < n" for i
  proof (rule perm_on_surjI)
    fix k assume k: "k < n"
    show "\<exists>j<n. ?N i j = k"
    proof (cases "d ! i = k")
      case False
      then obtain j where "j < n" "j \<noteq> i" "on_lit L v i j k" using diag_constraintsD(2)[OF c i k] by blast
      then show ?thesis using on_lit_entry(1)[OF al nf i _ k] readsD(2)[OF N i _ k] by metis
    qed (use nd i in blast)
  qed (use readsD(1)[OF N i] in simp)
  then show ?thesis using N nd unfolding row_perms_def has_diag_def option.case by blast
qed

lemma diag_constraints_complete:
  assumes al: "alloc_ok n (diag_keep smaller d) nf L nf'" and nf: "0 < nf"
    and d: "perm_on n (\<lambda>i. d ! i)"
    and N: "reads n L (\<lambda>i. d ! i) v N" "row_perms n N" "has_diag n (Some (\<lambda>i. d ! i)) N"
  shows "diag_constraints smaller n d L v"
  unfolding diag_constraints_def
proof (intro conjI allI impI)
  have nd: "N i i = d ! i" if "i < n" for i using N(3) that by (simp add: has_diag_def)
  fix i assume i: "i < n"
  show "\<exists>!k. k < n \<and> on_lit L v i j k" if j: "j < n" "i \<noteq> j" for j
    using readsD[OF N(1) i j(1)] on_lit_entry(1)[OF al nf i j(1) _ j(2)] by metis
  show "\<exists>!j. j < n \<and> j \<noteq> i \<and> on_lit L v i j k" if k: "k < n" "d ! i \<noteq> k" for k
  proof -
    obtain j where j: "j < n" "N i j = k" using perm_on_surj[of n "N i" k] N(2) i k by (auto simp: row_perms_def)
    have "on_lit L v i j' k \<longleftrightarrow> N i j' = k" if "j' < n" "j' \<noteq> i" for j'
      using readsD(2)[OF N(1) i that(1) k(1)] on_lit_entry(1)[OF al nf i that(1) k(1)] that(2) by metis
    moreover have "j \<noteq> i" using j k nd[OF i] by auto
    ultimately show ?thesis using j row_perms_inj[OF N(2) i] by (intro ex1I[of _ j]) auto
  qed
  assume sm: "\<not> smaller"
  have on: "on_lit L v a a b \<longleftrightarrow> d ! a = b" if "a < n" "b < n" for a b
    using readsD(2)[OF N(1) that(1,1,2)] on_lit_entry(2)[OF al nf that(1,1,2) sm] nd[OF that(1)] by metis
  show "on_lit L v i i (d ! i)" using on[OF i perm_on_less[OF d i]] by simp
  obtain j where "j < n" "d ! j = i" using perm_on_surj[OF d i] by blast
  then show "\<exists>!k. k < n \<and> on_lit L v k k i" using on[OF _ i] perm_on_inj[OF d] by metis
qed

lemma one_of_on_lit:
  "dims3 n L \<Longrightarrow> i < n \<Longrightarrow> j < n \<Longrightarrow> one_of (L ! i ! j) v \<longleftrightarrow> (\<exists>!k. k < n \<and> on_lit L v i j k)"
  "one_of (map (\<lambda>j. L ! i ! j ! k) (filter (\<lambda>j. j \<noteq> i) [0..<n])) v \<longleftrightarrow> (\<exists>!j. j < n \<and> j \<noteq> i \<and> on_lit L v i j k)"
  "one_of (map (\<lambda>k. L ! k ! k ! i) [0..<n]) v \<longleftrightarrow> (\<exists>!k. k < n \<and> on_lit L v k k i)"
proof -
  show "dims3 n L \<Longrightarrow> i < n \<Longrightarrow> j < n \<Longrightarrow> one_of (L ! i ! j) v \<longleftrightarrow> (\<exists>!k. k < n \<and> on_lit L v i j k)"
    by (simp only: one_of_row on_lit_def)
  show "one_of (map (\<lambda>j. L ! i ! j ! k) (filter (\<lambda>j. j \<noteq> i) [0..<n])) v \<longleftrightarrow> (\<exists>!j. j < n \<and> j \<noteq> i \<and> on_lit L v i j k)"
    unfolding one_of_map[OF distinct_filter_upt] by (rule ex1_cong) (auto simp: on_lit_def)
  show "one_of (map (\<lambda>k. L ! k ! k ! i) [0..<n]) v \<longleftrightarrow> (\<exists>!k. k < n \<and> on_lit L v k k i)"
    unfolding one_of_map[OF distinct_upt] by (rule ex1_cong) (auto simp: on_lit_def)
qed

text \<open>The body of the diagonal loop is itself an encoding routine.\<close>

definition diag_value_meaning :: "nat \<Rightarrow> nat list \<Rightarrow> lits3 \<Rightarrow> nat \<Rightarrow> valuation \<Rightarrow> bool" where
  "diag_value_meaning n d L i v \<longleftrightarrow>
     clause_holds v [L ! i ! i ! (d ! i)] \<and> one_of (map (\<lambda>k. L ! k ! k ! i) [0..<n]) v"

definition diag_value_ready :: "nat \<Rightarrow> nat list \<Rightarrow> lits3 \<Rightarrow> int \<Rightarrow> nat \<Rightarrow> bool" where
  "diag_value_ready n d L m i \<longleftrightarrow>
     clause_ready m [L ! i ! i ! (d ! i)] \<and> lits_ready m (map (\<lambda>k. L ! k ! k ! i) [0..<n])"

interpretation dv: encoder "diag_value_step nc n d L" "diag_value_meaning n d L" "diag_value_ready n d L"
  for nc n d L
proof unfold_locales
  fix s i assume s: "wf_enc s" "diag_value_ready n d L (snd s) i"
  then have r: "clause_ready (snd s) [L ! i ! i ! (d ! i)]" "lits_ready (snd s) (map (\<lambda>k. L ! k ! k ! i) [0..<n])"
    by (simp_all add: diag_value_ready_def)
  have c: "encodes (\<lambda>v. clause_holds v [L ! i ! i ! (d ! i)]) s (add_clause [L ! i ! i ! (d ! i)] s)"
    by (rule cl.op_encodes[OF s(1) r(1)])
  have le: "snd (add_clause [L ! i ! i ! (d ! i)] s) = snd s" by (simp add: add_clause_def)
  have o: "encodes (one_of (map (\<lambda>k. L ! k ! k ! i) [0..<n])) (add_clause [L ! i ! i ! (d ! i)] s) (diag_value_step nc n d L i s)"
    using eo.op_encodes[OF encodesD(1)[OF c]] r(2) le by (simp add: diag_value_step_def)
  show "encodes (diag_value_meaning n d L i) s (diag_value_step nc n d L i s)"
    unfolding diag_value_meaning_def[abs_def] by (rule encodes_then[OF c o eo.meaning_local[OF r(2)] order_refl])
next
  show "local_to m (diag_value_meaning n d L i)" if "diag_value_ready n d L m i" for m i
    using that cl.meaning_local eo.meaning_local
    unfolding diag_value_ready_def diag_value_meaning_def local_to_def by blast
qed (auto simp: diag_value_ready_def intro: cl.ready_mono eo.ready_mono)

lemma diag_constraints_iff:
  assumes dim: "dims3 n L" and nz: "\<not> smaller \<Longrightarrow> \<forall>i<n. L ! i ! i ! (d ! i) \<noteq> 0"
  shows "diag_constraints smaller n d L v \<longleftrightarrow>
     (\<forall>x\<in>set (cells n). fst x \<noteq> snd x \<longrightarrow> one_of (L ! fst x ! snd x) v) \<and>
     (\<forall>x\<in>set (cells n). d ! fst x \<noteq> snd x \<longrightarrow>
        one_of (map (\<lambda>j. L ! fst x ! j ! snd x) (filter (\<lambda>j. j \<noteq> fst x) [0..<n])) v) \<and>
     (\<not> smaller \<longrightarrow> (\<forall>i\<in>set [0..<n]. diag_value_meaning n d L i v))"
  unfolding diag_constraints_def ball_cells ball_upt fst_conv snd_conv diag_value_meaning_def one_of_on_lit(2,3)
  by (intro arg_cong2[where f = "(\<and>)"] all_cong1 imp_cong refl; (rule one_of_on_lit(1)[OF dim, symmetric]; assumption)?)
    (use nz in \<open>auto simp: on_lit_def\<close>)

theorem encodeEntries_constraints_encodes:
  assumes al: "alloc_ok n (diag_keep smaller d) nf L nf'" and nf: "0 < nf" and wf: "wf_enc (F, nf')"
    and d: "perm_on n (\<lambda>i. d ! i)"
  shows "encodes (\<lambda>v. \<exists>N. reads n L (\<lambda>i. d ! i) v N \<and> row_perms n N \<and> has_diag n (Some (\<lambda>i. d ! i)) N)
    (F, nf') (encodeEntries_constraints nc smaller n d L (F, nf'))"
proof -
  let ?s = "(F, nf')"
  let ?col = "\<lambda>x. map (\<lambda>j. L ! fst x ! j ! snd x) (filter (\<lambda>j. j \<noteq> fst x) [0..<n])"
  let ?P1 = "\<lambda>v. \<forall>x\<in>set (cells n). fst x \<noteq> snd x \<longrightarrow> one_of (L ! fst x ! snd x) v"
  let ?P2 = "\<lambda>v. \<forall>x\<in>set (cells n). d ! fst x \<noteq> snd x \<longrightarrow> one_of (?col x) v"
  let ?P3 = "\<lambda>v. \<forall>i\<in>set [0..<n]. diag_value_meaning n d L i v"
  let ?s1 = "fold (\<lambda>x s. if fst x \<noteq> snd x then exactlyOne nc (L ! fst x ! snd x) s else s) (cells n) ?s"
  let ?s2 = "fold (\<lambda>x s. if d ! fst x \<noteq> snd x then exactlyOne nc (?col x) s else s) (cells n) ?s1"
  let ?s3 = "fold (diag_value_step nc n d L) [0..<n] ?s2"
  have dim: "dims3 n L" using al by (simp add: alloc_ok_def)
  have keep: "if diag_keep smaller d i j k then nf \<le> L ! i ! j ! k \<and> L ! i ! j ! k < nf' else L ! i ! j ! k = 0"
    if "i < n" "j < n" "k < n" for i j k
    using al that by (simp add: alloc_ok_def)
  have lit: "lit_below nf' (L ! i ! i ! (d ! i))" if "\<not> smaller" "i < n" for i
    using keep[of i i "d ! i"] that perm_on_less[OF d] nf by (auto simp: lit_below_def diag_keep_def)
  have nz: "\<not> smaller \<Longrightarrow> \<forall>i<n. L ! i ! i ! (d ! i) \<noteq> 0" using lit by (simp add: lit_below_def)
  have le0: "nf' \<le> snd ?s" by simp
  have r1: "lits_ready nf' (L ! fst x ! snd x)" if "x \<in> set (cells n)" for x
    using alloc_ready(1)[OF al nf] that by auto
  have r2: "lits_ready nf' (?col x)" if "x \<in> set (cells n)" for x
  proof -
    have "set (map (\<lambda>j. (fst x, j, snd x)) (filter (\<lambda>j. j \<noteq> fst x) [0..<n])) \<subseteq> {..<n} \<times> {..<n} \<times> {..<n}"
      using that by auto
    from alloc_ready(2)[OF al nf this] show ?thesis by (simp add: lit_at_def comp_def)
  qed
  have r3: "diag_value_ready n d L nf' i" if "i \<in> set [0..<n]" "\<not> smaller" for i
  proof -
    have "set (map (\<lambda>k. (k, k, i)) [0..<n]) \<subseteq> {..<n} \<times> {..<n} \<times> {..<n}" using that by auto
    from alloc_ready(2)[OF al nf this] lit[OF that(2), of i] that show ?thesis
      by (simp add: lit_at_def comp_def diag_value_ready_def clause_ready_def)
  qed
  have e1: "encodes ?P1 ?s ?s1" by (rule eo.guarded_loop_encodes[OF wf r1 le0])
  have le1: "nf' \<le> snd ?s1" using encodesD(2)[OF e1] by simp
  have e2: "encodes ?P2 ?s1 ?s2" by (rule eo.guarded_loop_encodes[OF encodesD(1)[OF e1] r2 le1])
  have le2: "nf' \<le> snd ?s2" using encodesD(2)[OF e2] le1 by simp
  have e12: "encodes (\<lambda>v. ?P1 v \<and> ?P2 v) ?s ?s2"
    by (rule encodes_then[OF e1 e2 eo.guarded_loop_local[OF r2] le0])
  have "encodes (\<lambda>v. ?P1 v \<and> ?P2 v \<and> (\<not> smaller \<longrightarrow> ?P3 v)) ?s (if \<not> smaller then ?s3 else ?s2)"
  proof (cases smaller)
    case False
    note r3' = r3[OF _ False]
    have e3: "encodes ?P3 ?s2 ?s3"
      using dv.map_loop_encodes[OF encodesD(1)[OF e12], of "[0..<n]" n d L nf' "\<lambda>x. x" nc] r3' le2 by simp
    have "local_to nf' ?P3" using dv.map_loop_local[of "[0..<n]" n d L nf' "\<lambda>x. x"] r3' by simp
    from encodes_then[OF e12 e3 this le0] show ?thesis using False by (simp add: conj_assoc)
  qed (use e12 in simp)
  moreover have "encodeEntries_constraints nc smaller n d L ?s = (if \<not> smaller then ?s3 else ?s2)"
    by (simp add: encodeEntries_constraints_def Let_def case_prod_beta')
  ultimately have "encodes (\<lambda>v. ?P1 v \<and> ?P2 v \<and> (\<not> smaller \<longrightarrow> ?P3 v)) ?s (encodeEntries_constraints nc smaller n d L ?s)"
    by simp
  then have "encodes (diag_constraints smaller n d L) ?s (encodeEntries_constraints nc smaller n d L ?s)"
    by (rule encodes_cong) (rule diag_constraints_iff[OF dim nz, symmetric])
  then show ?thesis
    by (rule encodes_cong) (use diag_constraints_sound[OF al nf d] diag_constraints_complete[OF al nf d] in blast)
qed

end
