(* ===== verification/Encode_YBE.thy ===== *)
theory Encode_YBE
  imports Encode_Entries
begin

text \<open>
  The clauses of the cycle-set law (\<^verbatim>\<open>clause.cpp\<close>, the two overloads of
  \<open>YBEClausesNew\<close>): for every \<open>i < j\<close> and \<open>k\<close> a vector of auxiliary literals names the common
  value of \<open>(i \<cdot> j) \<cdot> (i \<cdot> k)\<close> and \<open>(j \<cdot> i) \<cdot> (j \<cdot> k)\<close>. Without a diagonal the
  vectors are allocated first, with the commander variables of their exactly-one constraints
  between them; with a diagonal they are allocated on first use, behind the side conditions of
  the smaller encoding, and constrained at the end.
\<close>

section \<open>The four-dimensional vector of auxiliary literals\<close>

type_synonym lits4 = "int list list list list"

definition const4 :: "nat \<Rightarrow> 'a \<Rightarrow> 'a list list list list" where
  "const4 n x = replicate n (const3 n x)"

definition dims4 :: "nat \<Rightarrow> 'a list list list list \<Rightarrow> bool" where
  "dims4 n Y \<longleftrightarrow> length Y = n \<and> (\<forall>i<n. dims3 n (Y ! i))"

definition upd4 :: "lits4 \<Rightarrow> nat \<Rightarrow> nat \<Rightarrow> nat \<Rightarrow> nat \<Rightarrow> int \<Rightarrow> lits4" where
  "upd4 Y i j k b x = Y[i := upd3 (Y ! i) j k b x]"

lemma dims4_const4 [simp]: "dims4 n (const4 n x)"
  by (simp add: dims4_def const4_def)

lemma const4_nth [simp]: "i < n \<Longrightarrow> j < n \<Longrightarrow> k < n \<Longrightarrow> b < n \<Longrightarrow> const4 n x ! i ! j ! k ! b = x"
  by (simp add: const4_def)

lemma dims4_upd4 [simp]: "dims4 n Y \<Longrightarrow> dims4 n (upd4 Y i j k b x)"
  unfolding dims4_def upd4_def by (cases "i < n") (auto simp: nth_list_update)

lemma upd4_nth:
  "dims4 n Y \<Longrightarrow> i < n \<Longrightarrow> j < n \<Longrightarrow> k < n \<Longrightarrow> b < n \<Longrightarrow> i' < n \<Longrightarrow> j' < n \<Longrightarrow> k' < n \<Longrightarrow> b' < n \<Longrightarrow>
   upd4 Y i j k b x ! i' ! j' ! k' ! b' = (if i' = i \<and> j' = j \<and> k' = k \<and> b' = b then x else Y ! i' ! j' ! k' ! b')"
  by (auto simp: dims4_def upd4_def nth_list_update upd3_nth)

lemma dims4D: "dims4 n Y \<Longrightarrow> i < n \<Longrightarrow> j < n \<Longrightarrow> k < n \<Longrightarrow> length (Y ! i ! j ! k) = n"
  by (auto simp: dims4_def intro: dims3D)

section \<open>The loops of the code\<close>

definition ybe_triples :: "nat \<Rightarrow> (nat \<times> nat \<times> nat) list" where
  "ybe_triples n = concat (map (\<lambda>i. List.product [i] (List.product [Suc i..<n] [0..<n])) [0..<n])"

definition ybe_tuples :: "nat \<Rightarrow> ((nat \<times> nat \<times> nat) \<times> (nat \<times> nat \<times> nat)) list" where
  "ybe_tuples n = List.product (ybe_triples n) (triples n)"

lemma set_ybe_triples [simp]: "set (ybe_triples n) = {(i, j, k). i < j \<and> j < n \<and> k < n}"
  unfolding ybe_triples_def by (fastforce simp: set_product)

lemma set_ybe_tuples [simp]:
  "set (ybe_tuples n) = {((i, j, k), (x, y, b)). i < j \<and> j < n \<and> k < n \<and> x < n \<and> y < n \<and> b < n}"
  by (auto simp: ybe_tuples_def)

text \<open>Without a diagonal.\<close>

definition ybe_vars :: "nat \<Rightarrow> nat \<times> nat \<times> nat \<Rightarrow> lits4 \<times> int \<Rightarrow> lits4 \<times> int" where
  "ybe_vars n t s = (case t of (i, j, k) \<Rightarrow>
     fold (\<lambda>b (Y, nf). (upd4 Y i j k b nf, nf + 1)) [0..<n] s)"

definition ybe_alloc_step :: "bool \<Rightarrow> nat \<Rightarrow> nat \<times> nat \<times> nat \<Rightarrow> lits4 \<times> enc \<Rightarrow> lits4 \<times> enc" where
  "ybe_alloc_step nc n t s = (case t of (i, j, k) \<Rightarrow>
     (case ybe_vars n t (fst s, snd (snd s)) of
        (Y, nf) \<Rightarrow> (Y, exactlyOne nc (Y ! i ! j ! k) (fst (snd s), nf))))"

definition ybe_clause_step :: "lits3 \<Rightarrow> lits4 \<Rightarrow> (nat \<times> nat \<times> nat) \<times> (nat \<times> nat \<times> nat) \<Rightarrow> enc \<Rightarrow> enc" where
  "ybe_clause_step L Y t s = (case t of ((i, j, k), (x, y, b)) \<Rightarrow>
     add_clause [- (L ! j ! i ! x), - (L ! j ! k ! y), - (L ! x ! y ! b), Y ! i ! j ! k ! b]
       (add_clause [- (L ! i ! j ! x), - (L ! i ! k ! y), - (L ! x ! y ! b), Y ! i ! j ! k ! b] s))"

definition YBEClausesNew :: "bool \<Rightarrow> nat \<Rightarrow> lits3 \<Rightarrow> enc \<Rightarrow> enc" where
  "YBEClausesNew nc n L s =
     (case fold (ybe_alloc_step nc n) (ybe_triples n) (const4 n 0, s) of
        (Y, s1) \<Rightarrow> fold (ybe_clause_step L Y) (ybe_tuples n) s1)"

text \<open>
  With a diagonal: \<open>ybe_side\<close> is the condition of the \<^theory_text>\<open>if\<close>, \<open>ybe_pre\<close> the
  literals pushed before the auxiliary one; the first half of the loop body has
  \<open>(i', j') = (i, j)\<close>, the second \<open>(j, i)\<close>.
\<close>

definition ybe_side :: "bool \<Rightarrow> nat list \<Rightarrow> nat \<Rightarrow> nat \<Rightarrow> nat \<Rightarrow> nat \<Rightarrow> nat \<Rightarrow> bool" where
  "ybe_side smaller d i' k x y b \<longleftrightarrow> \<not> smaller \<or>
     (x \<noteq> d ! i' \<and> (i' \<noteq> k \<and> d ! i' \<noteq> y \<or> i' = k \<and> d ! i' = y) \<and>
      (x \<noteq> y \<and> d ! x \<noteq> b \<or> x = y \<and> d ! x = b))"

definition ybe_pre :: "bool \<Rightarrow> lits3 \<Rightarrow> nat \<Rightarrow> nat \<Rightarrow> nat \<Rightarrow> nat \<Rightarrow> nat \<Rightarrow> nat \<Rightarrow> clause" where
  "ybe_pre smaller L i' j' k x y b =
     [- (L ! i' ! j' ! x)] @ (if \<not> smaller \<or> i' \<noteq> k then [- (L ! i' ! k ! y)] else []) @
     (if \<not> smaller \<or> x \<noteq> y then [- (L ! x ! y ! b)] else [])"

type_synonym ybe_item = "((nat \<times> nat \<times> nat) \<times> (nat \<times> nat \<times> nat)) \<times> bool"

definition ybe_half :: "bool \<Rightarrow> nat list \<Rightarrow> lits3 \<Rightarrow> ybe_item \<Rightarrow> lits4 \<times> enc \<Rightarrow> lits4 \<times> enc" where
  "ybe_half smaller d L it s = (case it of (((i, j, k), (x, y, b)), second) \<Rightarrow>
     (let i' = (if second then j else i); j' = (if second then i else j)
      in if ybe_side smaller d i' k x y b
         then (let Y = fst s; nf = snd (snd s);
                   (Y', nf') = (if Y ! i ! j ! k ! b = 0 then (upd4 Y i j k b nf, nf + 1) else (Y, nf))
               in (Y', add_clause (ybe_pre smaller L i' j' k x y b @ [Y' ! i ! j ! k ! b]) (fst (snd s), nf')))
         else s))"

definition ybe_diag_step :: "bool \<Rightarrow> nat list \<Rightarrow> lits3 \<Rightarrow> (nat \<times> nat \<times> nat) \<times> (nat \<times> nat \<times> nat) \<Rightarrow> lits4 \<times> enc \<Rightarrow> lits4 \<times> enc" where
  "ybe_diag_step smaller d L t s = ybe_half smaller d L (t, True) (ybe_half smaller d L (t, False) s)"

definition YBEClausesNew_diag :: "bool \<Rightarrow> bool \<Rightarrow> nat \<Rightarrow> nat list \<Rightarrow> lits3 \<Rightarrow> enc \<Rightarrow> enc" where
  "YBEClausesNew_diag nc smaller n d L s =
     (case fold (ybe_diag_step smaller d L) (ybe_tuples n) (const4 n 0, s) of
        (Y, s1) \<Rightarrow> fold (\<lambda>(i, j, k). exactlyOne nc (filter (\<lambda>l. l \<noteq> 0) (Y ! i ! j ! k))) (ybe_triples n) s1)"

section \<open>What the literals of one clause say\<close>

lemma ybe_side_table:
  assumes N: "row_perms n N" "smaller \<Longrightarrow> has_diag n (Some (\<lambda>i. d ! i)) N"
    and ijk: "i < n" "j < n" "k < n" "i \<noteq> j"
  shows "ybe_side smaller d i k (N i j) (N i k) (N (N i j) (N i k))"
proof (cases smaller)
  case True
  then have nd: "d ! i' = N i' i'" if "i' < n" for i' using N(2) that by (simp add: has_diag_def)
  note less = row_perms_less[OF N(1)]
  show ?thesis
    using ijk less[OF ijk(1,2)] less[OF ijk(1,3)] row_perms_inj[OF N(1)] row_perms_inj[OF N(1) less[OF ijk(1,2)]]
    by (auto simp: ybe_side_def nd)
qed (simp add: ybe_side_def)

lemma ybe_pre_holds:
  assumes al: "alloc_ok n (diag_keep smaller d) nf L nf'" and nf: "0 < nf"
    and N: "reads n L t v N" "smaller \<Longrightarrow> has_diag n (Some (\<lambda>i. d ! i)) N"
    and lt: "i < n" "j < n" "k < n" "x < n" "y < n" "b < n" "i \<noteq> j"
    and side: "ybe_side smaller d i k x y b"
  shows "clause_holds v (ybe_pre smaller L i j k x y b) \<longleftrightarrow> \<not> (N i j = x \<and> N i k = y \<and> N x y = b)"
proof -
  have nd: "N i' i' = d ! i'" if "smaller" "i' < n" for i' using N(2) that by (simp add: has_diag_def)
  have lit: "lit_holds v (- (L ! p ! q ! r)) \<longleftrightarrow> N p q \<noteq> r"
    if "p < n" "q < n" "r < n" "smaller \<Longrightarrow> p \<noteq> q \<and> r \<noteq> d ! p" for p q r
  proof -
    have "diag_keep smaller d p q r" using that(4) by (simp add: diag_keep_def)
    moreover have "if diag_keep smaller d p q r then nf \<le> L ! p ! q ! r else L ! p ! q ! r = 0"
      using al that(1-3) unfolding alloc_ok_def by (metis (full_types))
    ultimately have nz: "L ! p ! q ! r \<noteq> 0" using nf by auto
    then show ?thesis using readsD(2)[OF N(1) that(1-3)] by (simp add: entry_holds_def)
  qed
  have 1: "lit_holds v (- (L ! i ! j ! x)) \<longleftrightarrow> N i j \<noteq> x"
    using lt side by (intro lit) (auto simp: ybe_side_def)
  have 2: "clause_holds v (if \<not> smaller \<or> i \<noteq> k then [- (L ! i ! k ! y)] else []) \<longleftrightarrow> N i k \<noteq> y"
  proof (cases "\<not> smaller \<or> i \<noteq> k")
    case True
    then have "lit_holds v (- (L ! i ! k ! y)) \<longleftrightarrow> N i k \<noteq> y" using lt side by (intro lit) (auto simp: ybe_side_def)
    with True show ?thesis by simp
  qed (use nd lt side in \<open>auto simp: ybe_side_def\<close>)
  have 3: "clause_holds v (if \<not> smaller \<or> x \<noteq> y then [- (L ! x ! y ! b)] else []) \<longleftrightarrow> N x y \<noteq> b"
  proof (cases "\<not> smaller \<or> x \<noteq> y")
    case True
    then have "lit_holds v (- (L ! x ! y ! b)) \<longleftrightarrow> N x y \<noteq> b" using lt side by (intro lit) (auto simp: ybe_side_def)
    with True show ?thesis by simp
  qed (use nd lt side in \<open>auto simp: ybe_side_def\<close>)
  have app: "clause_holds v (xs @ ys) \<longleftrightarrow> clause_holds v xs \<or> clause_holds v ys" for xs ys
    by (auto simp: clause_holds_def)
  show ?thesis unfolding ybe_pre_def app 2 3 using 1 by simp
qed

lemma ybe_pre_ready:
  assumes al: "alloc_ok n (diag_keep smaller d) nf L nf'" and nf: "0 < nf"
    and lt: "i < n" "j < n" "k < n" "x < n" "y < n" "b < n" "i \<noteq> j"
    and side: "ybe_side smaller d i k x y b"
  shows "clause_ready nf' (ybe_pre smaller L i j k x y b)"
proof -
  have lit: "lit_below nf' (L ! p ! q ! r)" if "p < n" "q < n" "r < n" "smaller \<Longrightarrow> p \<noteq> q \<and> r \<noteq> d ! p" for p q r
  proof -
    have "diag_keep smaller d p q r" using that(4) by (simp add: diag_keep_def)
    moreover have "if diag_keep smaller d p q r then nf \<le> L ! p ! q ! r \<and> L ! p ! q ! r < nf' else L ! p ! q ! r = 0"
      using al that(1-3) by (simp add: alloc_ok_def)
    ultimately show ?thesis using nf by (auto simp: lit_below_def)
  qed
  have "lit_below nf' (L ! i ! j ! x)" using lt side by (intro lit) (auto simp: ybe_side_def)
  moreover have "\<not> smaller \<or> i \<noteq> k \<Longrightarrow> lit_below nf' (L ! i ! k ! y)"
    using lt side by (intro lit) (auto simp: ybe_side_def)
  moreover have "\<not> smaller \<or> x \<noteq> y \<Longrightarrow> lit_below nf' (L ! x ! y ! b)"
    using lt side by (intro lit) (auto simp: ybe_side_def)
  ultimately show ?thesis by (auto simp: clause_ready_def ybe_pre_def)
qed

lemma cycle_lawI:
  assumes "\<And>i j k. i < j \<Longrightarrow> j < n \<Longrightarrow> k < n \<Longrightarrow> N (N i j) (N i k) = N (N j i) (N j k)"
  shows "cycle_law n N"
  unfolding cycle_law_def using assms by (metis linorder_neqE_nat)

lemma fold_add_clause: "fold add_clause cs s = (fst s @ cs, snd s)"
  by (induction cs arbitrary: s) (simp_all add: add_clause_def)

lemma fold_pairs:
  "fold (\<lambda>t s. g (b t) (g (a t) s)) ts s = fold g (concat (map (\<lambda>t. [a t, b t]) ts)) s"
  by (induction ts arbitrary: s) simp_all

section \<open>Without a diagonal\<close>

lemma ybe_vars_ok:
  fixes nf :: int
  assumes "dims4 n Y" "i < n" "j < n" "k < n"
  defines "r \<equiv> ybe_vars n (i, j, k) (Y, nf)"
  shows "dims4 n (fst r)" "snd r = nf + int n" "b < n \<Longrightarrow> fst r ! i ! j ! k ! b = nf + int b"
    "i' < n \<Longrightarrow> j' < n \<Longrightarrow> k' < n \<Longrightarrow> b < n \<Longrightarrow> (i', j', k') \<noteq> (i, j, k) \<Longrightarrow> fst r ! i' ! j' ! k' ! b = Y ! i' ! j' ! k' ! b"
proof -
  let ?f = "\<lambda>b (Y, nf). (upd4 Y i j k b nf, nf + 1)"
  let ?P = "\<lambda>m s. dims4 n (fst s) \<and> snd s = nf + int m \<and> (\<forall>b<m. fst s ! i ! j ! k ! b = nf + int b) \<and>
    (\<forall>i'<n. \<forall>j'<n. \<forall>k'<n. \<forall>b<n. (i', j', k') \<noteq> (i, j, k) \<longrightarrow> fst s ! i' ! j' ! k' ! b = Y ! i' ! j' ! k' ! b)"
  have "?P n (fold ?f [0..<n] (Y, nf))"
  proof (rule fold_upt_inv[where P = ?P])
    fix m s assume m: "0 \<le> m" "m < n" and s: "?P m s"
    then show "?P (Suc m) (?f m s)"
      using assms(2-4) by (auto simp: split_beta upd4_nth less_Suc_eq)
  qed (use assms(1) in auto)
  then show "dims4 n (fst r)" "snd r = nf + int n" "b < n \<Longrightarrow> fst r ! i ! j ! k ! b = nf + int b"
    "i' < n \<Longrightarrow> j' < n \<Longrightarrow> k' < n \<Longrightarrow> b < n \<Longrightarrow> (i', j', k') \<noteq> (i, j, k) \<Longrightarrow> fst r ! i' ! j' ! k' ! b = Y ! i' ! j' ! k' ! b"
    by (auto simp: r_def ybe_vars_def)
qed

lemma one_of_named:
  assumes "length xs = n" "\<And>b. b < n \<Longrightarrow> xs ! b \<noteq> 0" "\<And>b. b < n \<Longrightarrow> lit_holds w (xs ! b) \<longleftrightarrow> b = c" "c < n"
  shows "one_of xs w"
proof -
  have "xs = map (\<lambda>b. xs ! b) [0..<n]" using assms(1) by (intro nth_equalityI) auto
  moreover have "one_of (map (\<lambda>b. xs ! b) [0..<n]) w"
    unfolding one_of_map[OF distinct_upt] using assms(2-4) by (intro ex1I[of _ c]) auto
  ultimately show ?thesis by simp
qed

lemma one_ofD:
  assumes "one_of xs v" "length xs = n" "b < n" "c < n" "xs ! b \<noteq> 0" "xs ! c \<noteq> 0" "lit_holds v (xs ! b)" "lit_holds v (xs ! c)"
  shows "b = c"
proof -
  have "xs = map (\<lambda>b. xs ! b) [0..<n]" using assms(2) by (intro nth_equalityI) auto
  then have "one_of (map (\<lambda>b. xs ! b) [0..<n]) v" using assms(1) by simp
  then show ?thesis unfolding one_of_map[OF distinct_upt] using assms(3-) by (metis atLeastLessThan_iff le0 set_upt)
qed

text \<open>What the allocation loop has established after the triples \<open>ts\<close>.\<close>

definition ybe_rows_ok :: "nat \<Rightarrow> enc \<Rightarrow> (nat \<times> nat \<times> nat) set \<Rightarrow> lits4 \<times> enc \<Rightarrow> bool" where
  "ybe_rows_ok n s0 ts s \<longleftrightarrow> dims4 n (fst s) \<and> wf_enc (snd s) \<and> snd s0 \<le> snd (snd s) \<and>
     (\<forall>(i, j, k)\<in>ts. \<forall>b<n. snd s0 \<le> fst s ! i ! j ! k ! b \<and> fst s ! i ! j ! k ! b < snd (snd s)) \<and>
     (\<forall>v. cnf_holds v (fst (snd s)) \<longrightarrow> cnf_holds v (fst s0) \<and> (\<forall>(i, j, k)\<in>ts. one_of (fst s ! i ! j ! k) v)) \<and>
     (\<forall>v f. cnf_holds v (fst s0) \<longrightarrow> (\<forall>(i, j, k)\<in>ts. f i j k < n) \<longrightarrow>
        (\<exists>w. agree (snd s0) v w \<and> cnf_holds w (fst (snd s)) \<and>
             (\<forall>(i, j, k)\<in>ts. \<forall>b<n. lit_holds w (fst s ! i ! j ! k ! b) \<longleftrightarrow> b = f i j k)))"

lemma ybe_rows_step:
  assumes ok: "ybe_rows_ok n s0 ts s" and pos: "0 < snd s0"
    and ts: "ts \<subseteq> {..<n} \<times> {..<n} \<times> {..<n}" and t: "i < n" "j < n" "k < n" "(i, j, k) \<notin> ts"
  shows "ybe_rows_ok n s0 (insert (i, j, k) ts) (ybe_alloc_step nc n (i, j, k) s)"
proof -
  obtain Y F m where s: "s = (Y, (F, m))" by (metis prod.collapse)
  define Y' where "Y' = fst (ybe_vars n (i, j, k) (Y, m))"
  define u where "u = exactlyOne nc (Y' ! i ! j ! k) (F, m + int n)"
  have dY: "dims4 n Y" and wf: "wf_enc (F, m)" and le: "snd s0 \<le> m"
    and rng: "\<And>i j k b. (i, j, k) \<in> ts \<Longrightarrow> b < n \<Longrightarrow> snd s0 \<le> Y ! i ! j ! k ! b \<and> Y ! i ! j ! k ! b < m"
    and snd: "\<And>v. cnf_holds v F \<Longrightarrow> cnf_holds v (fst s0) \<and> (\<forall>(i, j, k)\<in>ts. one_of (Y ! i ! j ! k) v)"
    and cmp: "\<And>v f. cnf_holds v (fst s0) \<Longrightarrow> \<forall>(i, j, k)\<in>ts. f i j k < n \<Longrightarrow>
       \<exists>w. agree (snd s0) v w \<and> cnf_holds w F \<and> (\<forall>(i, j, k)\<in>ts. \<forall>b<n. lit_holds w (Y ! i ! j ! k ! b) \<longleftrightarrow> b = f i j k)"
    using ok unfolding ybe_rows_ok_def s by (auto simp del: split_paired_All)
  note vars = ybe_vars_ok[OF dY t(1-3), where nf = m, folded Y'_def]
  have step: "ybe_alloc_step nc n (i, j, k) s = (Y', u)"
    using vars(2) by (simp add: ybe_alloc_step_def s u_def Y'_def split_beta)
  have row: "length (Y' ! i ! j ! k) = n" by (rule dims4D[OF vars(1) t(1-3)])
  have old: "Y' ! i' ! j' ! k' ! b = Y ! i' ! j' ! k' ! b" if "(i', j', k') \<in> ts" "b < n" for i' j' k' b
    using vars(4)[of i' j' k' b] that ts t(4) by auto
  have oldrow: "Y' ! i' ! j' ! k' = Y ! i' ! j' ! k'" if "(i', j', k') \<in> ts" for i' j' k'
    using old[OF that] that ts dims4D[OF vars(1), of i' j' k'] dims4D[OF dY, of i' j' k']
    by (intro nth_equalityI) auto
  have wf1: "wf_enc (F, m + int n)" using wf by (auto simp: wf_enc_def intro: cnf_below_mono)
  have m: "0 < m" using pos le by simp
  have lit: "lit_below (m + int n) (Y' ! i ! j ! k ! b)" "Y' ! i ! j ! k ! b \<noteq> 0" if "b < n" for b
    using vars(3)[OF that] that m by (auto simp: lit_below_def)
  have "lits_ready (m + int n) (Y' ! i ! j ! k)"
    using lit row by (auto simp: lits_ready_def in_set_conv_nth)
  then have e: "encodes (one_of (Y' ! i ! j ! k)) (F, m + int n) u"
    unfolding u_def by (intro exactlyOne_encodes[OF wf1]) simp
  have le2: "m + int n \<le> snd u" using encodesD(2)[OF e] by simp
  have complete: "\<exists>w. agree (snd s0) v w \<and> cnf_holds w (fst u) \<and>
       (\<forall>(i, j, k)\<in>insert (i, j, k) ts. \<forall>b<n. lit_holds w (Y' ! i ! j ! k ! b) \<longleftrightarrow> b = f i j k)"
    if v: "cnf_holds v (fst s0)" and f: "\<forall>(i, j, k)\<in>insert (i, j, k) ts. f i j k < n" for v f
  proof -
    obtain w where w: "agree (snd s0) v w" "cnf_holds w F"
        "\<And>i j k b. (i, j, k) \<in> ts \<Longrightarrow> b < n \<Longrightarrow> lit_holds w (Y ! i ! j ! k ! b) \<longleftrightarrow> b = f i j k"
      using cmp[OF v, of f] f by fastforce
    define w2 where "w2 x = (if m \<le> x \<and> x < m + int n then x - m = int (f i j k) else w x)" for x
    have a2: "agree m w w2" by (simp add: agree_def w2_def)
    have F2: "cnf_holds w2 F" using agree_cnf[OF a2] wf w(2) by (simp add: wf_enc_def)
    have n2: "lit_holds w2 (Y' ! i ! j ! k ! b) \<longleftrightarrow> b = f i j k" if "b < n" for b
      using vars(3)[OF that] that m by (auto simp: lit_holds_def w2_def)
    have "one_of (Y' ! i ! j ! k) w2" using f by (intro one_of_named[OF row lit(2) n2]) auto
    then obtain w3 where w3: "agree (m + int n) w2 w3" "cnf_holds w3 (fst u)"
      using encodesD(4)[OF e, of w2] F2 by auto
    have "agree (snd s0) v w3"
      using agree_trans[OF agree_trans[OF w(1) a2 le] w3(1)] le by simp
    moreover have "lit_holds w3 (Y' ! i ! j ! k ! b) \<longleftrightarrow> b = f i j k" if "b < n" for b
      using agree_lit[OF w3(1) lit(1)[OF that]] n2[OF that] by simp
    moreover have "lit_holds w3 (Y' ! i' ! j' ! k' ! b) \<longleftrightarrow> b = f i' j' k'" if "(i', j', k') \<in> ts" "b < n" for i' j' k' b
    proof -
      have "lit_below m (Y ! i' ! j' ! k' ! b)" using rng[OF that] pos by (auto simp: lit_below_def)
      then have "lit_holds w3 (Y ! i' ! j' ! k' ! b) = lit_holds w (Y ! i' ! j' ! k' ! b)"
        using agree_lit[OF a2] agree_lit[OF w3(1)] lit_below_mono[of m _ "m + int n"] by simp
      then show ?thesis using w(3)[OF that] old[OF that] by simp
    qed
    ultimately show ?thesis using w3(2) by (intro exI[of _ w3]) auto
  qed
  have sound: "cnf_holds v (fst s0) \<and> (\<forall>(i, j, k)\<in>insert (i, j, k) ts. one_of (Y' ! i ! j ! k) v)"
    if "cnf_holds v (fst u)" for v
    using encodesD(3)[OF e that] snd[of v] oldrow by auto
  have range: "snd s0 \<le> Y' ! i' ! j' ! k' ! b \<and> Y' ! i' ! j' ! k' ! b < snd u"
    if "(i', j', k') \<in> insert (i, j, k) ts" "b < n" for i' j' k' b
  proof (cases "(i', j', k') = (i, j, k)")
    case True
    then show ?thesis using vars(3)[OF that(2)] that(2) le le2 by auto
  next
    case False
    then have "(i', j', k') \<in> ts" using that(1) by blast
    from rng[OF this that(2)] old[OF this that(2)] show ?thesis using le2 by simp
  qed
  show ?thesis
    unfolding ybe_rows_ok_def step fst_conv snd_conv
    using vars(1) encodesD(1)[OF e] le le2 range sound complete by (auto simp del: split_paired_All)
qed

lemma ybe_rows_loop:
  assumes "wf_enc s0" "set ts \<subseteq> {..<n} \<times> {..<n} \<times> {..<n}" "distinct ts"
  shows "ybe_rows_ok n s0 (set ts) (fold (ybe_alloc_step nc n) ts (const4 n 0, s0))"
  using assms(2,3)
proof (induction ts rule: rev_induct)
  case Nil
  then show ?case using assms(1) by (auto simp: ybe_rows_ok_def intro: agree_ex)
next
  case (snoc t ts)
  obtain i j k where t: "t = (i, j, k)" by (cases t)
  have "ybe_rows_ok n s0 (insert (i, j, k) (set ts)) (ybe_alloc_step nc n (i, j, k) (fold (ybe_alloc_step nc n) ts (const4 n 0, s0)))"
    using snoc assms(1) t by (intro ybe_rows_step) (auto simp: wf_enc_def)
  then show ?case by (simp add: t)
qed

lemma distinct_ybe_triples: "distinct (ybe_triples n)"
  unfolding ybe_triples_def
proof (rule distinct_concat)
  show "distinct (map (\<lambda>i. List.product [i] (List.product [Suc i..<n] [0..<n])) [0..<n])"
  proof (rule distinct_map[THEN iffD2], intro conjI inj_onI)
    fix x y assume xy: "x \<in> set [0..<n]" "y \<in> set [0..<n]"
      "List.product [x] (List.product [Suc x..<n] [0..<n]) = List.product [y] (List.product [Suc y..<n] [0..<n])"
    have "(n - Suc x) * n = (n - Suc y) * n"
      using arg_cong[OF xy(3), of length] unfolding length_product by simp
    then have "n - Suc x = n - Suc y" using xy(1) by (cases "n = 0") auto
    then show "x = y" using xy(1,2) by auto
  qed simp
qed (auto simp: distinct_product distinct_map inj_on_def)

definition ybe_clauses :: "lits3 \<Rightarrow> lits4 \<Rightarrow> (nat \<times> nat \<times> nat) \<times> (nat \<times> nat \<times> nat) \<Rightarrow> clause list" where
  "ybe_clauses L Y t = (case t of ((i, j, k), (x, y, b)) \<Rightarrow>
     [ybe_pre False L i j k x y b @ [Y ! i ! j ! k ! b], ybe_pre False L j i k x y b @ [Y ! i ! j ! k ! b]])"

lemma ybe_clause_fold:
  "fold (ybe_clause_step L Y) ts s = (fst s @ concat (map (ybe_clauses L Y) ts), snd s)"
  by (induction ts arbitrary: s)
    (auto simp: ybe_clause_step_def ybe_clauses_def ybe_pre_def add_clause_def split: prod.splits)

lemma ybe_clauses_holds:
  assumes al: "alloc_ok n (diag_keep False d) nf L nf'" and nf: "0 < nf" and N: "reads n L t v N"
    and t: "i < j" "j < n" "k < n" "x < n" "y < n" "b < n"
  shows "cnf_holds v (ybe_clauses L Y ((i, j, k), (x, y, b))) \<longleftrightarrow>
    (N i j = x \<and> N i k = y \<and> N x y = b \<longrightarrow> lit_holds v (Y ! i ! j ! k ! b)) \<and>
    (N j i = x \<and> N j k = y \<and> N x y = b \<longrightarrow> lit_holds v (Y ! i ! j ! k ! b))"
proof -
  have app: "clause_holds v (xs @ [l]) \<longleftrightarrow> clause_holds v xs \<or> lit_holds v l" for xs l
    by (auto simp: clause_holds_def)
  have p: "clause_holds v (ybe_pre False L i' j' k x y b) \<longleftrightarrow> \<not> (N i' j' = x \<and> N i' k = y \<and> N x y = b)"
    if "i' < n" "j' < n" "i' \<noteq> j'" for i' j'
    by (rule ybe_pre_holds[OF al nf N]) (use t that in \<open>simp_all add: ybe_side_def\<close>)
  have "clause_holds v (ybe_pre False L i j k x y b) \<longleftrightarrow> \<not> (N i j = x \<and> N i k = y \<and> N x y = b)"
    "clause_holds v (ybe_pre False L j i k x y b) \<longleftrightarrow> \<not> (N j i = x \<and> N j k = y \<and> N x y = b)"
    using t by (simp_all add: p)
  then show ?thesis by (auto simp: ybe_clauses_def app)
qed

theorem YBEClausesNew_encodes:
  assumes al: "alloc_ok n (\<lambda>i j k. True) nf0 L nf1" and nf0: "0 < nf0" and wf: "wf_enc (F, nf)" and le: "nf1 \<le> nf"
    and given: "\<And>v. cnf_holds v F \<Longrightarrow> \<exists>N. reads n L t v N \<and> row_perms n N"
  shows "encodes (\<lambda>v. \<exists>N. reads n L t v N \<and> cycle_law n N) (F, nf) (YBEClausesNew nc n L (F, nf))"
proof -
  have al': "alloc_ok n (diag_keep False []) nf0 L nf1"
    using al by (simp add: diag_keep_def[abs_def])
  obtain Y F1 m where r: "fold (ybe_alloc_step nc n) (ybe_triples n) (const4 n 0, (F, nf)) = (Y, (F1, m))"
    by (metis prod.collapse)
  have rows: "ybe_rows_ok n (F, nf) (set (ybe_triples n)) (Y, (F1, m))"
  proof -
    have "set (ybe_triples n) \<subseteq> {..<n} \<times> {..<n} \<times> {..<n}" by auto
    from ybe_rows_loop[OF wf this distinct_ybe_triples, of nc] show ?thesis by (simp add: r)
  qed
  have dY: "dims4 n Y" and wf1: "wf_enc (F1, m)" and lem: "nf \<le> m"
    and rng: "\<And>i j k b. i < j \<Longrightarrow> j < n \<Longrightarrow> k < n \<Longrightarrow> b < n \<Longrightarrow> nf \<le> Y ! i ! j ! k ! b \<and> Y ! i ! j ! k ! b < m"
    and snd1: "\<And>v. cnf_holds v F1 \<Longrightarrow> cnf_holds v F"
    and snd2: "\<And>v i j k. cnf_holds v F1 \<Longrightarrow> i < j \<Longrightarrow> j < n \<Longrightarrow> k < n \<Longrightarrow> one_of (Y ! i ! j ! k) v"
    and cmp: "\<And>v f. cnf_holds v F \<Longrightarrow> \<forall>(i, j, k)\<in>set (ybe_triples n). f i j k < n \<Longrightarrow>
       \<exists>w. agree nf v w \<and> cnf_holds w F1 \<and> (\<forall>(i, j, k)\<in>set (ybe_triples n). \<forall>b<n. lit_holds w (Y ! i ! j ! k ! b) \<longleftrightarrow> b = f i j k)"
    using rows unfolding ybe_rows_ok_def by auto
  let ?G = "concat (map (ybe_clauses L Y) (ybe_tuples n))"
  have res: "YBEClausesNew nc n L (F, nf) = (F1 @ ?G, m)"
    by (simp add: YBEClausesNew_def r ybe_clause_fold)
  have G: "cnf_holds v ?G \<longleftrightarrow> (\<forall>i j k x y b. i < j \<longrightarrow> j < n \<longrightarrow> k < n \<longrightarrow> x < n \<longrightarrow> y < n \<longrightarrow> b < n \<longrightarrow>
      cnf_holds v (ybe_clauses L Y ((i, j, k), (x, y, b))))" for v
    by (auto simp: cnf_holds_def)
  have litL: "lit_below m (L ! i ! j ! k)" if "i < n" "j < n" "k < n" for i j k
    using al that nf0 le lem by (fastforce simp: alloc_ok_def lit_below_def)
  have litY: "lit_below m (Y ! i ! j ! k ! b)" "Y ! i ! j ! k ! b \<noteq> 0" if "i < j" "j < n" "k < n" "b < n" for i j k b
    using rng[OF that] wf by (auto simp: lit_below_def wf_enc_def)
  have bel: "cnf_below m ?G"
    using litL litY by (auto simp: cnf_below_def ybe_clauses_def ybe_pre_def)
  have wf2: "wf_enc (F1 @ ?G, m)" using wf1 bel by (simp add: wf_enc_def)
  have sound: "cnf_holds v F \<and> (\<exists>N. reads n L t v N \<and> cycle_law n N)" if v: "cnf_holds v (F1 @ ?G)" for v
  proof -
    have F1: "cnf_holds v F1" and Gv: "cnf_holds v ?G" using v by simp_all
    obtain N where N: "reads n L t v N" "row_perms n N" using given[OF snd1[OF F1]] by blast
    have "N (N i j) (N i k) = N (N j i) (N j k)" if t: "i < j" "j < n" "k < n" for i j k
    proof -
      note l = row_perms_less[OF N(2)]
      have lt: "i < n" "N i j < n" "N i k < n" "N j i < n" "N j k < n" using t l by auto
      have lt2: "N (N i j) (N i k) < n" "N (N j i) (N j k) < n" using lt l by auto
      note Gt = Gv[unfolded G, rule_format, OF t]
      have "lit_holds v (Y ! i ! j ! k ! N (N i j) (N i k))"
        using ybe_clauses_holds[OF al' nf0 N(1) t lt(2,3) lt2(1)] Gt[OF lt(2,3) lt2(1)] by simp
      moreover have "lit_holds v (Y ! i ! j ! k ! N (N j i) (N j k))"
        using ybe_clauses_holds[OF al' nf0 N(1) t lt(4,5) lt2(2)] Gt[OF lt(4,5) lt2(2)] by simp
      ultimately show ?thesis
        by (rule one_ofD[OF snd2[OF F1 t] dims4D[OF dY lt(1) t(2,3)] lt2 litY(2)[OF t lt2(1)] litY(2)[OF t lt2(2)]])
    qed
    then have "cycle_law n N" by (rule cycle_lawI)
    then show ?thesis using N(1) snd1[OF F1] by blast
  qed
  have complete: "\<exists>w. agree nf v w \<and> cnf_holds w (F1 @ ?G)" if v: "cnf_holds v F" "reads n L t v N" "cycle_law n N" for v N
  proof -
    have l: "N i j < n" if "i < n" "j < n" for i j using readsD(1)[OF v(2) that] .
    obtain w where w: "agree nf v w" "cnf_holds w F1"
        "\<And>i j k b. i < j \<Longrightarrow> j < n \<Longrightarrow> k < n \<Longrightarrow> b < n \<Longrightarrow> lit_holds w (Y ! i ! j ! k ! b) \<longleftrightarrow> b = N (N i j) (N i k)"
      using cmp[OF v(1), of "\<lambda>i j k. N (N i j) (N i k)"] l by fastforce
    have Nw: "reads n L t w N"
      using alloc_ready(3)[OF al nf0, of t N] agree_mono[OF w(1) le] v(2) unfolding local_to_def by blast
    have "cnf_holds w (ybe_clauses L Y ((i, j, k), (x, y, b)))" if t: "i < j" "j < n" "k < n" "x < n" "y < n" "b < n" for i j k x y b
    proof -
      have "N (N j i) (N j k) = N (N i j) (N i k)" using v(3) t unfolding cycle_law_def by simp
      then show ?thesis unfolding ybe_clauses_holds[OF al' nf0 Nw t] w(3)[OF t(1-3) t(6)] by auto
    qed
    then have "cnf_holds w ?G" unfolding G by blast
    with w(1,2) show ?thesis by auto
  qed
  show ?thesis unfolding encodes_def res fst_conv snd_conv using wf2 lem sound complete by blast
qed

section \<open>With a diagonal\<close>

text \<open>An item of the first loop: its key in the vector, its side condition, its literals.\<close>

definition item_key :: "ybe_item \<Rightarrow> nat \<times> nat \<times> nat \<times> nat" where
  "item_key it = (case it of (((i, j, k), (x, y, b)), sw) \<Rightarrow> (i, j, k, b))"

definition item_side :: "bool \<Rightarrow> nat list \<Rightarrow> ybe_item \<Rightarrow> bool" where
  "item_side smaller d it = (case it of (((i, j, k), (x, y, b)), sw) \<Rightarrow>
     ybe_side smaller d (if sw then j else i) k x y b)"

definition item_pre :: "bool \<Rightarrow> lits3 \<Rightarrow> ybe_item \<Rightarrow> clause" where
  "item_pre smaller L it = (case it of (((i, j, k), (x, y, b)), sw) \<Rightarrow>
     ybe_pre smaller L (if sw then j else i) (if sw then i else j) k x y b)"

definition at4 :: "lits4 \<Rightarrow> nat \<times> nat \<times> nat \<times> nat \<Rightarrow> int" where
  "at4 Y q = (case q of (i, j, k, b) \<Rightarrow> Y ! i ! j ! k ! b)"

definition set4 :: "lits4 \<Rightarrow> nat \<times> nat \<times> nat \<times> nat \<Rightarrow> int \<Rightarrow> lits4" where
  "set4 Y q x = (case q of (i, j, k, b) \<Rightarrow> upd4 Y i j k b x)"

definition quads :: "nat \<Rightarrow> (nat \<times> nat \<times> nat \<times> nat) set" where
  "quads n = {..<n} \<times> {..<n} \<times> {..<n} \<times> {..<n}"

lemma at4_set4: "dims4 n Y \<Longrightarrow> q \<in> quads n \<Longrightarrow> q' \<in> quads n \<Longrightarrow> at4 (set4 Y q x) q' = (if q' = q then x else at4 Y q')"
  by (cases q; cases q') (simp add: quads_def at4_def set4_def upd4_nth)

lemma dims4_set4: "dims4 n Y \<Longrightarrow> dims4 n (set4 Y q x)"
  by (simp add: set4_def split: prod.split)

lemma ybe_half_alt:
  "ybe_half smaller d L it (Y, s) =
     (if item_side smaller d it
      then (let Y' = (if at4 Y (item_key it) = 0 then set4 Y (item_key it) (snd s) else Y);
                nf' = (if at4 Y (item_key it) = 0 then snd s + 1 else snd s)
            in (Y', add_clause (item_pre smaller L it @ [at4 Y' (item_key it)]) (fst s, nf')))
      else (Y, s))"
  by (auto simp: ybe_half_def item_side_def item_key_def item_pre_def at4_def set4_def Let_def split: prod.splits)

definition lazy_ok :: "nat \<Rightarrow> bool \<Rightarrow> nat list \<Rightarrow> lits3 \<Rightarrow> enc \<Rightarrow> ybe_item list \<Rightarrow> lits4 \<times> enc \<Rightarrow> bool" where
  "lazy_ok n smaller d L s0 its s \<longleftrightarrow> dims4 n (fst s) \<and> snd s0 \<le> snd (snd s) \<and>
     (\<forall>q\<in>quads n. at4 (fst s) q \<noteq> 0 \<longrightarrow> snd s0 \<le> at4 (fst s) q \<and> at4 (fst s) q < snd (snd s)) \<and>
     (\<forall>q\<in>quads n. \<forall>q'\<in>quads n. at4 (fst s) q \<noteq> 0 \<longrightarrow> at4 (fst s) q = at4 (fst s) q' \<longrightarrow> q = q') \<and>
     (\<forall>q\<in>quads n. at4 (fst s) q \<noteq> 0 \<longleftrightarrow> (\<exists>it\<in>set its. item_side smaller d it \<and> item_key it = q)) \<and>
     fst (snd s) = fst s0 @ map (\<lambda>it. item_pre smaller L it @ [at4 (fst s) (item_key it)]) (filter (item_side smaller d) its)"

lemma lazy_ok_step:
  assumes ok: "lazy_ok n smaller d L s0 its s" and pos: "0 < snd s0"
    and its: "\<forall>it\<in>set its. item_key it \<in> quads n" and it: "item_key it \<in> quads n"
  shows "lazy_ok n smaller d L s0 (its @ [it]) (ybe_half smaller d L it s)"
proof (cases "item_side smaller d it")
  case False
  then have "ybe_half smaller d L it s = s" by (cases s) (simp add: ybe_half_alt)
  moreover have "lazy_ok n smaller d L s0 (its @ [it]) s = lazy_ok n smaller d L s0 its s"
    using False by (simp add: lazy_ok_def)
  ultimately show ?thesis using ok by simp
next
  case True
  obtain Y F nf where s: "s = (Y, (F, nf))" by (metis prod.collapse)
  let ?q = "item_key it"
  have o: "dims4 n Y" "snd s0 \<le> nf"
    "\<And>q. q \<in> quads n \<Longrightarrow> at4 Y q \<noteq> 0 \<Longrightarrow> snd s0 \<le> at4 Y q \<and> at4 Y q < nf"
    "\<And>q q'. q \<in> quads n \<Longrightarrow> q' \<in> quads n \<Longrightarrow> at4 Y q \<noteq> 0 \<Longrightarrow> at4 Y q = at4 Y q' \<Longrightarrow> q = q'"
    "\<And>q. q \<in> quads n \<Longrightarrow> at4 Y q \<noteq> 0 \<longleftrightarrow> (\<exists>it\<in>set its. item_side smaller d it \<and> item_key it = q)"
    "F = fst s0 @ map (\<lambda>it. item_pre smaller L it @ [at4 Y (item_key it)]) (filter (item_side smaller d) its)"
    using ok unfolding lazy_ok_def s fst_conv snd_conv by blast+
  show ?thesis
  proof (cases "at4 Y ?q = 0")
    case False
    then have res: "ybe_half smaller d L it s = (Y, (F @ [item_pre smaller L it @ [at4 Y ?q]], nf))"
      using True by (simp add: s ybe_half_alt add_clause_def Let_def)
    have nz: "at4 Y q \<noteq> 0 \<longleftrightarrow> (\<exists>it\<in>set (its @ [it]). item_side smaller d it \<and> item_key it = q)" if "q \<in> quads n" for q
      using o(5)[OF that] False True by auto
    show ?thesis
      unfolding lazy_ok_def res fst_conv snd_conv
    proof (intro conjI ballI impI)
      show "F @ [item_pre smaller L it @ [at4 Y ?q]] = fst s0 @
          map (\<lambda>it. item_pre smaller L it @ [at4 Y (item_key it)]) (filter (item_side smaller d) (its @ [it]))"
        using True o(6) by simp
    qed (use o(1-4) nz in auto)
  next
    case zero: True
    let ?Y = "set4 Y ?q nf"
    have at: "at4 ?Y q = (if q = ?q then nf else at4 Y q)" if "q \<in> quads n" for q
      by (rule at4_set4[OF o(1) it that])
    have res: "ybe_half smaller d L it s = (?Y, (F @ [item_pre smaller L it @ [at4 ?Y ?q]], nf + 1))"
      using True zero by (simp add: s ybe_half_alt add_clause_def Let_def)
    have nf: "nf \<noteq> 0" using o(2) pos by simp
    have old: "at4 ?Y (item_key it') = at4 Y (item_key it')" if "it' \<in> set its" "item_side smaller d it'" for it'
    proof -
      have "item_key it' \<in> quads n" using its that(1) by blast
      moreover have "at4 Y (item_key it') \<noteq> 0" using o(5)[OF calculation] that by blast
      ultimately show ?thesis using at zero by auto
    qed
    have inj: "q = q'" if "q \<in> quads n" "q' \<in> quads n" "at4 ?Y q \<noteq> 0" "at4 ?Y q = at4 ?Y q'" for q q'
      using that o(3)[OF that(1)] o(3)[OF that(2)] o(4)[OF that(1,2)] nf unfolding at[OF that(1)] at[OF that(2)]
      by (auto split: if_splits)
    have nz: "at4 ?Y q \<noteq> 0 \<longleftrightarrow> (\<exists>it\<in>set (its @ [it]). item_side smaller d it \<and> item_key it = q)" if "q \<in> quads n" for q
      unfolding at[OF that] using o(5)[OF that] nf True by auto
    have F: "F = fst s0 @ map (\<lambda>it. item_pre smaller L it @ [at4 ?Y (item_key it)]) (filter (item_side smaller d) its)"
      using o(6) old by simp
    have rng: "snd s0 \<le> at4 ?Y q \<and> at4 ?Y q < nf + 1" if "q \<in> quads n" "at4 ?Y q \<noteq> 0" for q
      using that(2) o(2) o(3)[OF that(1)] unfolding at[OF that(1)] by (auto split: if_splits)
    show ?thesis
      unfolding lazy_ok_def res fst_conv snd_conv
    proof (intro conjI ballI impI)
      show "F @ [item_pre smaller L it @ [at4 ?Y ?q]] = fst s0 @
          map (\<lambda>it. item_pre smaller L it @ [at4 ?Y (item_key it)]) (filter (item_side smaller d) (its @ [it]))"
        using True F by simp
    qed (use dims4_set4[OF o(1)] o(2) rng inj nz in auto)
  qed
qed

lemma lazy_ok_loop:
  assumes "0 < snd s0" "\<forall>it\<in>set its. item_key it \<in> quads n"
  shows "lazy_ok n smaller d L s0 its (fold (ybe_half smaller d L) its (const4 n 0, s0))"
  using assms(2)
proof (induction its rule: rev_induct)
  case Nil
  have "at4 (const4 n 0) q = 0" if "q \<in> quads n" for q using that by (auto simp: at4_def quads_def)
  then show ?case by (simp add: lazy_ok_def)
next
  case (snoc it its)
  then show ?case using lazy_ok_step[OF _ assms(1)] by simp
qed

definition ybe_items :: "nat \<Rightarrow> ybe_item list" where
  "ybe_items n = concat (map (\<lambda>t. [(t, False), (t, True)]) (ybe_tuples n))"

lemma set_ybe_items: "(((i, j, k), (x, y, b)), sw) \<in> set (ybe_items n) \<longleftrightarrow>
    i < j \<and> j < n \<and> k < n \<and> x < n \<and> y < n \<and> b < n"
  by (cases sw) (auto simp: ybe_items_def)

lemma ybe_diag_fold:
  "fold (ybe_diag_step smaller d L) (ybe_tuples n) s = fold (ybe_half smaller d L) (ybe_items n) s"
  unfolding ybe_items_def fold_pairs[symmetric] by (simp add: ybe_diag_step_def[abs_def])

lemma one_of_filter: "one_of (filter (\<lambda>l. l \<noteq> 0) xs) v = one_of xs v"
  by (simp add: one_of_def)

lemma item_clause_holds:
  assumes al: "alloc_ok n (diag_keep smaller d) nf L nf'" and nf: "0 < nf" and N: "reads n L t v N"
    and dg: "has_diag n (Some (\<lambda>i. d ! i)) N"
    and it: "(((i, j, k), (x, y, b)), sw) \<in> set (ybe_items n)" "item_side smaller d (((i, j, k), (x, y, b)), sw)"
  defines "i' \<equiv> if sw then j else i" and "j' \<equiv> if sw then i else j"
  shows "clause_holds v (item_pre smaller L (((i, j, k), (x, y, b)), sw) @ [l]) \<longleftrightarrow>
    (N i' j' = x \<and> N i' k = y \<and> N x y = b \<longrightarrow> lit_holds v l)"
proof -
  have t: "i < j" "j < n" "k < n" "x < n" "y < n" "b < n" using it(1) unfolding set_ybe_items by blast+
  have "clause_holds v (ybe_pre smaller L i' j' k x y b) \<longleftrightarrow> \<not> (N i' j' = x \<and> N i' k = y \<and> N x y = b)"
  proof (rule ybe_pre_holds[OF al nf N dg])
    show "i' < n" "j' < n" "i' \<noteq> j'" using t by (auto simp: i'_def j'_def)
    show "ybe_side smaller d i' k x y b" using it(2) by (simp add: item_side_def i'_def)
  qed (use t in simp_all)
  moreover have "clause_holds v (xs @ [l]) \<longleftrightarrow> clause_holds v xs \<or> lit_holds v l" for xs
    by (auto simp: clause_holds_def)
  ultimately show ?thesis by (auto simp: item_pre_def i'_def j'_def)
qed

text \<open>The item that forces the auxiliary literal of the value in a table.\<close>

definition forcing :: "cmat \<Rightarrow> nat \<Rightarrow> nat \<Rightarrow> nat \<Rightarrow> bool \<Rightarrow> ybe_item" where
  "forcing N i j k sw = (let p = (if sw then N j i else N i j); q = (if sw then N j k else N i k)
     in (((i, j, k), (p, q, N p q)), sw))"

lemma forcing_item:
  assumes N: "row_perms n N" and dg: "has_diag n (Some (\<lambda>i. d ! i)) N" and t: "i < j" "j < n" "k < n"
  shows "forcing N i j k sw \<in> set (ybe_items n)" "item_side smaller d (forcing N i j k sw)"
    "item_key (forcing N i j k sw) = (i, j, k, if sw then N (N j i) (N j k) else N (N i j) (N i k))"
proof -
  note l = row_perms_less[OF N]
  show "forcing N i j k sw \<in> set (ybe_items n)" using t l by (auto simp: forcing_def Let_def set_ybe_items)
  show "item_side smaller d (forcing N i j k sw)"
    using ybe_side_table[OF N dg, of i j k smaller] ybe_side_table[OF N dg, of j i k smaller] t
    by (simp add: forcing_def item_side_def Let_def)
  show "item_key (forcing N i j k sw) = (i, j, k, if sw then N (N j i) (N j k) else N (N i j) (N i k))"
    by (simp add: forcing_def item_key_def Let_def)
qed

lemma lazy_sound:
  assumes al: "alloc_ok n (diag_keep smaller d) nf0 L nf1" and nf0: "0 < nf0" and pos: "0 < snd s0"
    and ok: "lazy_ok n smaller d L s0 (ybe_items n) (Y, (F1, m))"
    and N: "reads n L t v N" "row_perms n N" "has_diag n (Some (\<lambda>i. d ! i)) N"
    and v: "cnf_holds v F1" and one: "\<And>i j k. i < j \<Longrightarrow> j < n \<Longrightarrow> k < n \<Longrightarrow> one_of (Y ! i ! j ! k) v"
  shows "cycle_law n N"
proof (rule cycle_lawI)
  fix i j k assume t: "i < j" "j < n" "k < n"
  note l = row_perms_less[OF N(2)]
  have lt: "i < n" "N (N i j) (N i k) < n" "N (N j i) (N j k) < n" using t l by auto
  have dY: "dims4 n Y"
    and nz: "\<And>q. q \<in> quads n \<Longrightarrow> at4 Y q \<noteq> 0 \<longleftrightarrow> (\<exists>it\<in>set (ybe_items n). item_side smaller d it \<and> item_key it = q)"
    and F: "F1 = fst s0 @ map (\<lambda>it. item_pre smaller L it @ [at4 Y (item_key it)]) (filter (item_side smaller d) (ybe_items n))"
    using ok unfolding lazy_ok_def fst_conv snd_conv by blast+
  have h: "lit_holds v (Y ! i ! j ! k ! b) \<and> Y ! i ! j ! k ! b \<noteq> 0"
    if b: "b = (if sw then N (N j i) (N j k) else N (N i j) (N i k))" for b sw
  proof -
    let ?it = "forcing N i j k sw"
    note fi = forcing_item[OF N(2,3) t, where sw = sw, folded b]
    have q: "(i, j, k, b) \<in> quads n" using t lt b by (simp add: quads_def)
    then have "at4 Y (i, j, k, b) \<noteq> 0" using nz[OF q] fi by blast
    have "item_pre smaller L ?it @ [at4 Y (item_key ?it)] \<in> set F1" using F fi(1,2) by auto
    then have "clause_holds v (item_pre smaller L ?it @ [at4 Y (item_key ?it)])" using v by (simp add: cnf_holds_def)
    then have "lit_holds v (at4 Y (item_key ?it))"
      using item_clause_holds[OF al nf0 N(1,3) fi(1,2)[unfolded forcing_def Let_def]] by (simp add: forcing_def Let_def split: if_splits)
    with \<open>at4 Y (i, j, k, b) \<noteq> 0\<close> show ?thesis unfolding fi(3) by (simp add: at4_def)
  qed
  show "N (N i j) (N i k) = N (N j i) (N j k)"
    by (rule one_ofD[OF one[OF t] dims4D[OF dY lt(1) t(2,3)] lt(2,3)]) (use h[of _ False] h[of _ True] in simp_all)
qed

text \<open>The valuation that names the values of a table.\<close>

definition named :: "nat \<Rightarrow> cmat \<Rightarrow> lits4 \<Rightarrow> int \<Rightarrow> int \<Rightarrow> valuation \<Rightarrow> valuation" where
  "named n N Y nf m v x = (if nf \<le> x \<and> x < m
     then \<exists>(i, j, k, b)\<in>quads n. Y ! i ! j ! k ! b = x \<and> b = N (N i j) (N i k) else v x)"

lemma lazy_complete:
  assumes al: "alloc_ok n (diag_keep smaller d) nf0 L nf1" and nf0: "0 < nf0" and pos: "0 < nf" and le: "nf1 \<le> nf"
    and ok: "lazy_ok n smaller d L (F, nf) (ybe_items n) (Y, (F1, m))" and wf: "cnf_below nf F"
    and N: "reads n L t v N" "row_perms n N" "has_diag n (Some (\<lambda>i. d ! i)) N" "cycle_law n N"
    and v: "cnf_holds v F"
  defines "w \<equiv> named n N Y nf m v"
  shows "agree nf v w" "cnf_holds w F1" "i < j \<Longrightarrow> j < n \<Longrightarrow> k < n \<Longrightarrow> one_of (Y ! i ! j ! k) w"
proof -
  have dY: "dims4 n Y"
    and rng: "\<And>q. q \<in> quads n \<Longrightarrow> at4 Y q \<noteq> 0 \<Longrightarrow> nf \<le> at4 Y q \<and> at4 Y q < m"
    and inj: "\<And>q q'. q \<in> quads n \<Longrightarrow> q' \<in> quads n \<Longrightarrow> at4 Y q \<noteq> 0 \<Longrightarrow> at4 Y q = at4 Y q' \<Longrightarrow> q = q'"
    and nz: "\<And>q. q \<in> quads n \<Longrightarrow> at4 Y q \<noteq> 0 \<longleftrightarrow> (\<exists>it\<in>set (ybe_items n). item_side smaller d it \<and> item_key it = q)"
    and F: "F1 = F @ map (\<lambda>it. item_pre smaller L it @ [at4 Y (item_key it)]) (filter (item_side smaller d) (ybe_items n))"
    using ok unfolding lazy_ok_def fst_conv snd_conv by blast+
  note l = row_perms_less[OF N(2)]
  show ag: "agree nf v w" by (simp add: agree_def w_def named_def)
  have Yw: "lit_holds w (Y ! i ! j ! k ! b) \<longleftrightarrow> b = N (N i j) (N i k)"
    if t: "i < n" "j < n" "k < n" "b < n" "Y ! i ! j ! k ! b \<noteq> 0" for i j k b
  proof -
    have q: "(i, j, k, b) \<in> quads n" using t by (simp add: quads_def)
    have r: "nf \<le> Y ! i ! j ! k ! b" "Y ! i ! j ! k ! b < m" using rng[OF q] t(5) by (simp_all add: at4_def)
    have "lit_holds w (Y ! i ! j ! k ! b) \<longleftrightarrow> (\<exists>(i', j', k', b')\<in>quads n. Y ! i' ! j' ! k' ! b' = Y ! i ! j ! k ! b \<and> b' = N (N i' j') (N i' k'))"
      using r pos by (simp add: lit_holds_def w_def named_def)
    also have "\<dots> \<longleftrightarrow> b = N (N i j) (N i k)"
    proof
      assume "\<exists>(i', j', k', b')\<in>quads n. Y ! i' ! j' ! k' ! b' = Y ! i ! j ! k ! b \<and> b' = N (N i' j') (N i' k')"
      then obtain i' j' k' b' where q': "(i', j', k', b') \<in> quads n" "Y ! i' ! j' ! k' ! b' = Y ! i ! j ! k ! b"
          "b' = N (N i' j') (N i' k')" by blast
      have "(i, j, k, b) = (i', j', k', b')" by (rule inj[OF q q'(1)]) (use t(5) q'(2) in \<open>simp_all add: at4_def\<close>)
      with q'(3) show "b = N (N i j) (N i k)" by simp
    next
      assume "b = N (N i j) (N i k)"
      then show "\<exists>(i', j', k', b')\<in>quads n. Y ! i' ! j' ! k' ! b' = Y ! i ! j ! k ! b \<and> b' = N (N i' j') (N i' k')"
        using q by blast
    qed
    finally show ?thesis .
  qed
  have Nw: "reads n L t w N"
    using alloc_ready(3)[OF al nf0, of t N] agree_mono[OF ag le] N(1) unfolding local_to_def by blast
  have cl: "clause_holds w (item_pre smaller L it @ [at4 Y (item_key it)])"
    if it: "it \<in> set (ybe_items n)" "item_side smaller d it" for it
  proof -
    obtain i j k x y b sw where e: "it = (((i, j, k), (x, y, b)), sw)" by (metis prod.collapse)
    have t: "i < j" "j < n" "k < n" "x < n" "y < n" "b < n" using it(1) unfolding e set_ybe_items by blast+
    have "N (N i j) (N i k) = N (N j i) (N j k)" using N(4) t unfolding cycle_law_def by simp
    moreover have q: "(i, j, k, b) \<in> quads n" using t by (simp add: quads_def)
    moreover have "at4 Y (i, j, k, b) \<noteq> 0" using nz[OF q] it by (auto simp: e item_key_def)
    ultimately show ?thesis
      unfolding e item_clause_holds[OF al nf0 Nw N(3) it[unfolded e]] using Yw[of i j k b] t
      by (cases sw) (auto simp: item_key_def at4_def)
  qed
  have "cnf_holds w F" using agree_cnf[OF ag wf] v by simp
  with cl show "cnf_holds w F1" unfolding F cnf_holds_simps by (auto simp: cnf_holds_def)
  show "one_of (Y ! i ! j ! k) w" if t: "i < j" "j < n" "k < n"
  proof -
    let ?b = "N (N i j) (N i k)"
    have lt: "i < n" "?b < n" using t l by auto
    have row: "Y ! i ! j ! k = map (\<lambda>b. Y ! i ! j ! k ! b) [0..<n]"
      using dims4D[OF dY lt(1) t(2,3)] by (intro nth_equalityI) auto
    have q: "(i, j, k, ?b) \<in> quads n" using t lt by (simp add: quads_def)
    have "at4 Y (i, j, k, ?b) \<noteq> 0"
      using nz[OF q] forcing_item[OF N(2,3) t, where sw = False] by auto
    then have "one_of (map (\<lambda>b. Y ! i ! j ! k ! b) [0..<n]) w"
      unfolding one_of_map[OF distinct_upt] using Yw[OF lt(1) t(2,3)] lt by (intro ex1I[of _ ?b]) (auto simp: at4_def)
    then show ?thesis using row by simp
  qed
qed

theorem YBEClausesNew_diag_encodes:
  assumes al: "alloc_ok n (diag_keep smaller d) nf0 L nf1" and nf0: "0 < nf0" and wf: "wf_enc (F, nf)" and le: "nf1 \<le> nf"
    and given: "\<And>v. cnf_holds v F \<Longrightarrow> \<exists>N. reads n L t v N \<and> row_perms n N \<and> has_diag n (Some (\<lambda>i. d ! i)) N"
  shows "encodes (\<lambda>v. \<exists>N. reads n L t v N \<and> cycle_law n N) (F, nf) (YBEClausesNew_diag nc smaller n d L (F, nf))"
proof -
  have pos: "0 < nf" "cnf_below nf F" using wf by (simp_all add: wf_enc_def)
  have keys: "\<forall>it\<in>set (ybe_items n). item_key it \<in> quads n"
    by (auto simp: set_ybe_items item_key_def quads_def)
  obtain Y F1 m where r: "fold (ybe_half smaller d L) (ybe_items n) (const4 n 0, (F, nf)) = (Y, (F1, m))"
    by (metis prod.collapse)
  have ok: "lazy_ok n smaller d L (F, nf) (ybe_items n) (Y, (F1, m))"
    using lazy_ok_loop[of "(F, nf)" "ybe_items n" n smaller d L] keys pos r by simp
  have lem: "nf \<le> m" and dY: "dims4 n Y"
    and rng: "\<And>q. q \<in> quads n \<Longrightarrow> at4 Y q \<noteq> 0 \<Longrightarrow> nf \<le> at4 Y q \<and> at4 Y q < m"
    and F1: "F1 = F @ map (\<lambda>it. item_pre smaller L it @ [at4 Y (item_key it)]) (filter (item_side smaller d) (ybe_items n))"
    and nz: "\<And>q. q \<in> quads n \<Longrightarrow> at4 Y q \<noteq> 0 \<longleftrightarrow> (\<exists>it\<in>set (ybe_items n). item_side smaller d it \<and> item_key it = q)"
    using ok unfolding lazy_ok_def fst_conv snd_conv by blast+
  have ready: "lits_ready m (filter (\<lambda>l. l \<noteq> 0) (Y ! fst t ! fst (snd t) ! snd (snd t)))" if tt: "t \<in> set (ybe_triples n)" for t
  proof -
    obtain i j k where e: "t = (i, j, k)" by (metis prod.collapse)
    have t: "t = (i, j, k)" "i < n" "j < n" "k < n" using tt e by auto
    have "lit_below m (Y ! i ! j ! k ! b)" if "b < n" "Y ! i ! j ! k ! b \<noteq> 0" for b
      using rng[of "(i, j, k, b)"] that t pos by (auto simp: at4_def quads_def lit_below_def)
    then show ?thesis using dims4D[OF dY t(2-4)] by (auto simp: lits_ready_def t in_set_conv_nth)
  qed
  have "clause_ready m (item_pre smaller L it @ [at4 Y (item_key it)])"
    if it: "it \<in> set (ybe_items n)" "item_side smaller d it" for it
  proof -
    obtain i j k x y b sw where e: "it = (((i, j, k), (x, y, b)), sw)" by (metis prod.collapse)
    have t: "i < j" "j < n" "k < n" "x < n" "y < n" "b < n" using it(1) unfolding e set_ybe_items by blast+
    have q: "item_key it \<in> quads n" using keys it(1) by blast
    then have "at4 Y (item_key it) \<noteq> 0" using nz[OF q] it by blast
    then have Yl: "lit_below m (at4 Y (item_key it))" using rng[OF q] pos by (auto simp: lit_below_def)
    have "clause_ready nf1 (item_pre smaller L it)"
      unfolding e item_pre_def prod.case
      by (rule ybe_pre_ready[OF al nf0]) (use it(2) t in \<open>auto simp: e item_side_def\<close>)
    moreover have "nf1 \<le> m" using le lem by simp
    ultimately show ?thesis using Yl lit_below_mono by (auto simp: clause_ready_def)
  qed
  then have wf1: "wf_enc (F1, m)"
    using pos lem cnf_below_mono[OF pos(2) lem] by (auto simp: wf_enc_def F1 cnf_below_def clause_ready_def)
  let ?s2 = "fold (\<lambda>t. exactlyOne nc (filter (\<lambda>l. l \<noteq> 0) (Y ! fst t ! fst (snd t) ! snd (snd t)))) (ybe_triples n) (F1, m)"
  have le0: "m \<le> snd (F1, m)" by simp
  have e: "encodes (\<lambda>v. \<forall>t\<in>set (ybe_triples n). one_of (filter (\<lambda>l. l \<noteq> 0) (Y ! fst t ! fst (snd t) ! snd (snd t))) v) (F1, m) ?s2"
    by (rule eo.map_loop_encodes[OF wf1 ready le0])
  have res: "YBEClausesNew_diag nc smaller n d L (F, nf) = ?s2"
    by (simp add: YBEClausesNew_diag_def ybe_diag_fold r case_prod_beta')
  have rows: "(\<forall>t\<in>set (ybe_triples n). one_of (filter (\<lambda>l. l \<noteq> 0) (Y ! fst t ! fst (snd t) ! snd (snd t))) v) \<longleftrightarrow>
      (\<forall>i j k. i < j \<longrightarrow> j < n \<longrightarrow> k < n \<longrightarrow> one_of (Y ! i ! j ! k) v)" for v
    by (auto simp: one_of_filter)
  have sound: "cnf_holds v F \<and> (\<exists>N. reads n L t v N \<and> cycle_law n N)" if v: "cnf_holds v (fst ?s2)" for v
  proof -
    have v1: "cnf_holds v F1" and one: "\<And>i j k. i < j \<Longrightarrow> j < n \<Longrightarrow> k < n \<Longrightarrow> one_of (Y ! i ! j ! k) v"
      using encodesD(3)[OF e v] unfolding rows by auto
    have vF: "cnf_holds v F" using v1 by (simp add: F1)
    obtain N where N: "reads n L t v N" "row_perms n N" "has_diag n (Some (\<lambda>i. d ! i)) N" using given[OF vF] by blast
    have "cycle_law n N" by (rule lazy_sound[OF al nf0 _ ok N v1 one]) (use pos in simp)
    then show ?thesis using N(1) vF by blast
  qed
  have complete: "\<exists>w. agree nf v w \<and> cnf_holds w (fst ?s2)" if v: "cnf_holds v F" "reads n L t v N" "cycle_law n N" for v N
  proof -
    obtain M where M: "reads n L t v M" "row_perms n M" "has_diag n (Some (\<lambda>i. d ! i)) M" using given[OF v(1)] by blast
    have eq: "M i j = N i j" "N i j < n" if "i < n" "j < n" for i j
      using reads_unique[OF M(1) v(2) that] readsD(1)[OF v(2) that] by simp_all
    have "cycle_law n M" using v(3) by (simp add: cycle_law_def eq)
    note c = lazy_complete[OF al nf0 pos(1) le ok pos(2) M this v(1)]
    obtain w where "agree m (named n M Y nf m v) w" "cnf_holds w (fst ?s2)"
      using encodesD(4)[OF e, of "named n M Y nf m v"] c(2,3) unfolding rows by auto
    then show ?thesis using agree_trans[OF c(1) _ lem] by blast
  qed
  show ?thesis
    unfolding encodes_def res fst_conv snd_conv
    using encodesD(1,2)[OF e] lem sound complete by auto
qed

end
