(* ===== verification/Encoding.thy ===== *)
theory Encoding
  imports Encode_YBE
begin

text \<open>
  The formulas the three modes of \<^verbatim>\<open>main.cpp\<close> hand to the solver, and their
  correctness: the tables their models are read as are exactly the cycle sets (with the given
  diagonal, where there is one).
\<close>

section \<open>The formulas\<close>

definition no_lits :: "nat \<Rightarrow> lits3" where
  "no_lits n = const3 n 0"

text \<open>The mode without a diagonal.\<close>

definition encode_all :: "bool \<Rightarrow> nat \<Rightarrow> lits3 \<times> enc" where
  "encode_all nc n =
     (case alloc_all n (no_lits n, 1) of
        (L, nf) \<Rightarrow> (L, YBEClausesNew nc n L (encodeEntries nc n L ([], nf))))"

text \<open>One diagonal of the mode that goes through all of them.\<close>

definition encode_diag :: "bool \<Rightarrow> bool \<Rightarrow> nat \<Rightarrow> nat list \<Rightarrow> lits3 \<times> enc" where
  "encode_diag nc smaller n d =
     (case encodeEntries_diag nc smaller n d (no_lits n) ([], 1) of
        (L, s) \<Rightarrow> (L, YBEClausesNew_diag nc smaller n d L s))"

text \<open>
  The check before the solver is created, and the highest variable it is told. The clauses
  hold no literal 0, or the program exits.
\<close>

definition has_zero :: "cnf \<Rightarrow> bool" where
  "has_zero F \<longleftrightarrow> list_ex (list_ex (\<lambda>l. l = 0)) F"

definition highest_variable :: "cnf \<Rightarrow> int" where
  "highest_variable F = fold (fold (\<lambda>l h. max h \<bar>l\<bar>)) F 0"

definition prepare :: "lits3 \<times> enc \<Rightarrow> (lits3 \<times> cnf \<times> int) res" where
  "prepare r = (if has_zero (fst (snd r)) then Inl ExitFailure
     else Inr (fst r, fst (snd r), highest_variable (fst (snd r))))"

section \<open>The valuation of a table\<close>

definition val_of :: "nat \<Rightarrow> lits3 \<Rightarrow> cmat \<Rightarrow> valuation" where
  "val_of n L N x \<longleftrightarrow> (\<exists>i<n. \<exists>j<n. \<exists>k<n. L ! i ! j ! k = x \<and> N i j = k)"

lemma reads_val_of:
  assumes r: "r = fold (alloc_step keep) (triples n) (no_lits n, nf)" and nf: "0 < nf"
    and N: "\<And>i j. i < n \<Longrightarrow> j < n \<Longrightarrow> N i j < n"
    and skip: "\<And>i j k. i < n \<Longrightarrow> j < n \<Longrightarrow> k < n \<Longrightarrow> \<not> keep i j k \<Longrightarrow> N i j = k \<longleftrightarrow> i = j \<and> k = t i"
  shows "reads n (fst r) t (val_of n (fst r) N) N"
  unfolding reads_def
proof (intro allI impI conjI)
  fix i j assume ij: "i < n" "j < n"
  show "N i j < n" by (rule N[OF ij])
  fix k assume k: "k < n"
  have ok: "alloc_ok n keep nf (fst r) (snd r)" using alloc_fold_ok[of r keep n nf] r by (simp add: no_lits_def)
  have c: "if keep i j k then nf \<le> fst r ! i ! j ! k else fst r ! i ! j ! k = 0"
    using ok ij k unfolding alloc_ok_def by (metis (full_types))
  show "entry_holds (fst r) t (val_of n (fst r) N) i j k \<longleftrightarrow> N i j = k"
  proof (cases "keep i j k")
    case True
    then have pos: "0 < fst r ! i ! j ! k" using c nf by simp
    have "val_of n (fst r) N (fst r ! i ! j ! k) \<longleftrightarrow> N i j = k"
    proof
      assume "val_of n (fst r) N (fst r ! i ! j ! k)"
      then obtain i' j' where e: "i' < n" "j' < n" "N i' j' < n" "fst r ! i' ! j' ! N i' j' = fst r ! i ! j ! k"
        unfolding val_of_def by blast
      have "if keep i' j' (N i' j') then nf \<le> fst r ! i' ! j' ! N i' j' else fst r ! i' ! j' ! N i' j' = 0"
        using ok e unfolding alloc_ok_def by (metis (full_types))
      then have "keep i' j' (N i' j')" using e(4) pos by (auto split: if_splits)
      then show "N i j = k"
        using alloc_fold_inj[OF r[unfolded no_lits_def] e(1-3) _ ij k True e(4)] by blast
    next
      assume "N i j = k"
      then show "val_of n (fst r) N (fst r ! i ! j ! k)" using ij k unfolding val_of_def by blast
    qed
    with pos show ?thesis by (simp add: entry_holds_def lit_holds_pos)
  next
    case False
    then show ?thesis using c skip[OF ij k] by (auto simp: entry_holds_def)
  qed
qed

lemma alloc_all_ok:
  assumes "(L, nf) = alloc_all n (no_lits n, 1)"
  shows "alloc_ok n (\<lambda>i j k. True) 1 L nf"
  using alloc_fold_ok[of "(L, nf)" "\<lambda>i j k. True" n 1, OF assms[unfolded alloc_all_def no_lits_def]] by simp

lemma alloc_diag_ok:
  assumes "(L, nf) = alloc_diag smaller n d (no_lits n, 1)"
  shows "alloc_ok n (diag_keep smaller d) 1 L nf"
  using alloc_fold_ok[of "(L, nf)" "diag_keep smaller d" n 1, OF assms[unfolded alloc_diag_def no_lits_def]] by simp

section \<open>Models are cycle sets\<close>

lemma encode_all_encodes:
  assumes r: "encode_all nc n = (L, s)"
  shows "\<exists>nf. (L, nf) = alloc_all n (no_lits n, 1) \<and>
    encodes (\<lambda>v. \<exists>N. reads n L t v N \<and> cycle_set n N) ([], nf) s"
proof -
  obtain nf where a: "alloc_all n (no_lits n, 1) = (L, nf)" and s: "s = YBEClausesNew nc n L (encodeEntries nc n L ([], nf))"
    using r by (auto simp: encode_all_def split: prod.splits)
  have al: "alloc_ok n (\<lambda>i j k. True) 1 L nf"
    by (rule alloc_all_ok) (simp add: a)
  have le: "1 \<le> nf" using al by (simp add: alloc_ok_def)
  have wf: "wf_enc ([], nf)" using le by (simp add: wf_enc_def)
  let ?P = "\<lambda>v. \<exists>N. reads n L t v N \<and> row_perms n N \<and> diag_perm n N"
  obtain F m where e: "encodeEntries nc n L ([], nf) = (F, m)" by (metis prod.collapse)
  have e1: "encodes ?P ([], nf) (F, m)"
    using encodeEntries_encodes[OF al _ wf, of t nc] e by simp
  have lem: "nf \<le> m" using encodesD(2)[OF e1] by simp
  have e2: "encodes (\<lambda>v. \<exists>N. reads n L t v N \<and> cycle_law n N) (F, m) s"
    unfolding s e using encodesD(1)[OF e1] lem encodesD(3)[OF e1]
    by (intro YBEClausesNew_encodes[OF al]) auto
  have loc: "local_to nf (\<lambda>v. \<exists>N. reads n L t v N \<and> cycle_law n N)"
    using alloc_ready(3)[OF al] unfolding local_to_def by (metis zero_less_one)
  have "encodes (\<lambda>v. ?P v \<and> (\<exists>N. reads n L t v N \<and> cycle_law n N)) ([], nf) s"
    by (rule encodes_then[OF e1 e2 loc]) simp
  then have "encodes (\<lambda>v. \<exists>N. reads n L t v N \<and> cycle_set n N) ([], nf) s"
  proof (rule encodes_cong)
    fix v
    show "(?P v \<and> (\<exists>N. reads n L t v N \<and> cycle_law n N)) = (\<exists>N. reads n L t v N \<and> cycle_set n N)"
      using reads_cycle_law unfolding cycle_set_def by blast
  qed
  with a show ?thesis by auto
qed

lemma cnf_below_no_zero: "cnf_below m F \<Longrightarrow> \<not> has_zero F"
  by (auto simp: cnf_below_def has_zero_def list_ex_iff lit_below_def)

lemma highest_variable_bound:
  assumes "cnf_below m F" "0 < m"
  shows "highest_variable F < m"
proof -
  have inner: "fold (\<lambda>l h. max h \<bar>l\<bar>) c h < m" if "\<forall>l\<in>set c. lit_below m l" "h < m" for c h
    using fold_set_inv[of "\<lambda>h. h < m" h c "\<lambda>l h. max h \<bar>l\<bar>"] that by (simp add: lit_below_def)
  show ?thesis
    unfolding highest_variable_def
    by (rule fold_set_inv[where P = "\<lambda>h. h < m"]) (use assms inner in \<open>auto simp: cnf_below_def\<close>)
qed

lemma encodes_prepare:
  assumes "encodes P s t"
  shows "prepare (L, t) = Inr (L, fst t, highest_variable (fst t))" "highest_variable (fst t) < snd t"
proof -
  have "cnf_below (snd t) (fst t)" "0 < snd t" using encodesD(1)[OF assms] by (simp_all add: wf_enc_def)
  then show "prepare (L, t) = Inr (L, fst t, highest_variable (fst t))" "highest_variable (fst t) < snd t"
    using cnf_below_no_zero highest_variable_bound by (auto simp: prepare_def)
qed

lemma encode_diag_encodes:
  assumes r: "encode_diag nc smaller n d = (L, s)" and d: "perm_on n (\<lambda>i. d ! i)"
  shows "\<exists>nf. (L, nf) = alloc_diag smaller n d (no_lits n, 1) \<and>
    encodes (\<lambda>v. \<exists>N. reads n L (\<lambda>i. d ! i) v N \<and> cycle_set n N \<and> has_diag n (Some (\<lambda>i. d ! i)) N) ([], nf) s"
proof -
  let ?t = "\<lambda>i. d ! i"
  obtain nf where a: "alloc_diag smaller n d (no_lits n, 1) = (L, nf)"
    and s: "s = YBEClausesNew_diag nc smaller n d L (encodeEntries_constraints nc smaller n d L ([], nf))"
    using r by (auto simp: encode_diag_def encodeEntries_diag_def split: prod.splits)
  have al: "alloc_ok n (diag_keep smaller d) 1 L nf"
    by (rule alloc_diag_ok) (simp add: a)
  have le: "1 \<le> nf" using al by (simp add: alloc_ok_def)
  have wf: "wf_enc ([], nf)" using le by (simp add: wf_enc_def)
  let ?P = "\<lambda>v. \<exists>N. reads n L ?t v N \<and> row_perms n N \<and> has_diag n (Some ?t) N"
  obtain F m where e: "encodeEntries_constraints nc smaller n d L ([], nf) = (F, m)" by (metis prod.collapse)
  have e1: "encodes ?P ([], nf) (F, m)"
    using encodeEntries_constraints_encodes[OF al _ wf d, of nc] e by simp
  have lem: "nf \<le> m" using encodesD(2)[OF e1] by simp
  have e2: "encodes (\<lambda>v. \<exists>N. reads n L ?t v N \<and> cycle_law n N) (F, m) s"
    unfolding s e using encodesD(1)[OF e1] lem encodesD(3)[OF e1]
    by (intro YBEClausesNew_diag_encodes[OF al]) auto
  have loc: "local_to nf (\<lambda>v. \<exists>N. reads n L ?t v N \<and> cycle_law n N)"
    using alloc_ready(3)[OF al] unfolding local_to_def by (metis zero_less_one)
  have "encodes (\<lambda>v. ?P v \<and> (\<exists>N. reads n L ?t v N \<and> cycle_law n N)) ([], nf) s"
    by (rule encodes_then[OF e1 e2 loc]) simp
  then have "encodes (\<lambda>v. \<exists>N. reads n L ?t v N \<and> cycle_set n N \<and> has_diag n (Some ?t) N) ([], nf) s"
  proof (rule encodes_cong)
    fix v
    have "diag_perm n N" if "has_diag n (Some ?t) N" for N
      using that d perm_on_cong[of n "\<lambda>i. N i i" ?t] by (simp add: has_diag_def diag_perm_def)
    then show "(?P v \<and> (\<exists>N. reads n L ?t v N \<and> cycle_law n N)) =
        (\<exists>N. reads n L ?t v N \<and> cycle_set n N \<and> has_diag n (Some ?t) N)"
      using reads_cycle_law unfolding cycle_set_def by blast
  qed
  with a show ?thesis by auto
qed

text \<open>Every cycle set is the table of a model.\<close>

lemma encode_all_models:
  assumes "encode_all nc n = (L, s)" and N: "cycle_set n N"
  shows "\<exists>v. cnf_holds v (fst s) \<and> reads n L t v N"
proof -
  obtain nf where a: "(L, nf) = alloc_all n (no_lits n, 1)"
    and e: "encodes (\<lambda>v. \<exists>N. reads n L t v N \<and> cycle_set n N) ([], nf) s"
    using encode_all_encodes[OF assms(1)] by blast
  have al: "alloc_ok n (\<lambda>i j k. True) 1 L nf"
    by (rule alloc_all_ok) (simp add: a)
  have "reads n L t (val_of n L N) N"
    using reads_val_of[OF a[unfolded alloc_all_def], of N t] N row_perms_less[of n N] by (simp add: cycle_set_def)
  moreover from this obtain w where "agree nf (val_of n L N) w" "cnf_holds w (fst s)"
    using encodesD(4)[OF e, of "val_of n L N"] N by auto
  ultimately show ?thesis
    using alloc_ready(3)[OF al, of t N] unfolding local_to_def by (metis zero_less_one)
qed

text \<open>
  C8: without a diagonal, the models of the formula are read as exactly the cycle sets of size
  \<open>n\<close>: every model is the table of one, every one is the table of a model, and the program
  does not leave at the check for literal 0.
\<close>

theorem encode_all_correct:
  assumes "encode_all nc n = (L, s)"
  shows "(\<forall>v. cnf_holds v (fst s) \<longrightarrow> (\<exists>N. reads n L t v N \<and> cycle_set n N)) \<and>
    (\<forall>N. cycle_set n N \<longrightarrow> (\<exists>v. cnf_holds v (fst s) \<and> reads n L t v N)) \<and>
    prepare (L, s) = Inr (L, fst s, highest_variable (fst s)) \<and> highest_variable (fst s) < snd s"
proof -
  obtain nf where e: "encodes (\<lambda>v. \<exists>N. reads n L t v N \<and> cycle_set n N) ([], nf) s"
    using encode_all_encodes[OF assms] by blast
  then show ?thesis using encode_all_models[OF assms] encodesD(3)[OF e] encodes_prepare[OF e] by blast
qed

lemma swap_table:
  "cycle_set 2 (\<lambda>i j. 1 - j)" "perm_on 2 (\<lambda>i. [1, 0] ! i)" "has_diag 2 (Some (\<lambda>i. [1, 0] ! i)) (\<lambda>i j. 1 - j)"
proof -
  have two: "i < (2::nat) \<longleftrightarrow> i = 0 \<or> i = 1" for i by auto
  show "cycle_set 2 (\<lambda>i j. 1 - j)"
    unfolding cycle_set_def row_perms_def diag_perm_def cycle_law_def
    by (intro conjI allI impI perm_onI) (auto simp: two)
  show "perm_on 2 (\<lambda>i. [1, 0] ! i)" by (rule perm_onI) (auto simp: two)
  show "has_diag 2 (Some (\<lambda>i. [1, 0] ! i)) (\<lambda>i j. 1 - j)" by (auto simp: has_diag_def two)
qed

theorem encode_all_correct_witness:
  "\<exists>v. cnf_holds v (fst (snd (encode_all True 2))) \<and> reads 2 (fst (encode_all True 2)) (\<lambda>i. i) v (\<lambda>i j. 1 - j)"
  using encode_all_correct[of True 2 "fst (encode_all True 2)" "snd (encode_all True 2)" "\<lambda>i. i"] swap_table(1) by simp

lemma encode_diag_models:
  assumes "encode_diag nc smaller n d = (L, s)" and d: "perm_on n (\<lambda>i. d ! i)"
    and N: "cycle_set n N" "has_diag n (Some (\<lambda>i. d ! i)) N"
  shows "\<exists>v. cnf_holds v (fst s) \<and> reads n L (\<lambda>i. d ! i) v N"
proof -
  let ?t = "\<lambda>i. d ! i"
  obtain nf where a: "(L, nf) = alloc_diag smaller n d (no_lits n, 1)"
    and e: "encodes (\<lambda>v. \<exists>N. reads n L ?t v N \<and> cycle_set n N \<and> has_diag n (Some ?t) N) ([], nf) s"
    using encode_diag_encodes[OF assms(1,2)] by blast
  have al: "alloc_ok n (diag_keep smaller d) 1 L nf"
    by (rule alloc_diag_ok) (simp add: a)
  have rp: "row_perms n N" and nd: "\<And>i. i < n \<Longrightarrow> N i i = d ! i"
    using N by (simp_all add: cycle_set_def has_diag_def)
  have "N i j = k \<longleftrightarrow> i = j \<and> k = d ! i" if "i < n" "j < n" "\<not> diag_keep smaller d i j k" for i j k
    using that nd row_perms_inj[OF rp, of i j i] by (auto simp: diag_keep_def split: if_splits)
  then have rd: "reads n L ?t (val_of n L N) N"
    using reads_val_of[OF a[unfolded alloc_diag_def], of N ?t] row_perms_less[OF rp] by simp
  then obtain w where "agree nf (val_of n L N) w" "cnf_holds w (fst s)"
    using encodesD(4)[OF e, of "val_of n L N"] N by auto
  then show ?thesis
    using rd alloc_ready(3)[OF al, of ?t N] unfolding local_to_def by (metis zero_less_one)
qed

text \<open>
  C9: with a diagonal that is a permutation, in both encodings: the models are read as exactly
  the cycle sets with that diagonal.
\<close>

theorem encode_diag_correct:
  assumes "encode_diag nc smaller n d = (L, s)" and d: "perm_on n (\<lambda>i. d ! i)"
  shows "(\<forall>v. cnf_holds v (fst s) \<longrightarrow> (\<exists>N. reads n L (\<lambda>i. d ! i) v N \<and> cycle_set n N \<and> has_diag n (Some (\<lambda>i. d ! i)) N)) \<and>
    (\<forall>N. cycle_set n N \<longrightarrow> has_diag n (Some (\<lambda>i. d ! i)) N \<longrightarrow> (\<exists>v. cnf_holds v (fst s) \<and> reads n L (\<lambda>i. d ! i) v N)) \<and>
    prepare (L, s) = Inr (L, fst s, highest_variable (fst s)) \<and> highest_variable (fst s) < snd s"
proof -
  obtain nf where e: "encodes (\<lambda>v. \<exists>N. reads n L (\<lambda>i. d ! i) v N \<and> cycle_set n N \<and> has_diag n (Some (\<lambda>i. d ! i)) N) ([], nf) s"
    using encode_diag_encodes[OF assms] by blast
  then show ?thesis using encode_diag_models[OF assms] encodesD(3)[OF e] encodes_prepare[OF e] by blast
qed

theorem encode_diag_correct_witness:
  "\<exists>v. cnf_holds v (fst (snd (encode_diag False True 2 [1, 0]))) \<and>
     reads 2 (fst (encode_diag False True 2 [1, 0])) (\<lambda>i. [1, 0] ! i) v (\<lambda>i j. 1 - j)"
  using encode_diag_correct[of False True 2 "[1, 0]" "fst (encode_diag False True 2 [1, 0])" "snd (encode_diag False True 2 [1, 0])",
      OF prod.collapse[symmetric] swap_table(2)] swap_table by blast

end
