(* ===== verification/Encode_Rows.thy ===== *)
theory Encode_Rows
  imports Encoding
begin

text \<open>
  The optional parts of the encoding (\<^verbatim>\<open>clause.cpp\<close>): \<open>fixFirstRows\<close> and
  \<open>unfixFirstRows\<close>, which split the search space by the values of the first rows
  (\<^verbatim>\<open>main.cpp\<close>, options \<open>--fixFR\<close> and \<open>--unfixFR\<close>).
\<close>

section \<open>First rows\<close>

text \<open>
  The values of the first row and the number of rows come from the command line, so all accesses
  they index are checked.
\<close>

definition row_cells :: "bool \<Rightarrow> nat \<Rightarrow> nat \<Rightarrow> (nat \<times> nat) list" where
  "row_cells diagPart m n = filter (\<lambda>(j, i). \<not> (diagPart \<and> i = j)) (List.product [0..<m] [0..<n])"

definition row_lit :: "lits3 \<Rightarrow> int list \<Rightarrow> nat \<times> nat \<Rightarrow> int res" where
  "row_lit L firstRow c = (case c of (j, i) \<Rightarrow>
     bindE (vget L (int j)) (\<lambda>row. bindE (vget firstRow (int i)) (\<lambda>x.
     bindE (vget row (int i)) (\<lambda>vals. vget vals x))))"

definition fixFirstRows :: "bool \<Rightarrow> nat \<Rightarrow> lits3 \<Rightarrow> int list \<Rightarrow> nat \<Rightarrow> enc \<Rightarrow> enc res" where
  "fixFirstRows diagPart n L firstRow m s =
     foldE (\<lambda>c s. bindE (row_lit L firstRow c) (\<lambda>l. Inr (add_clause [l] s))) (row_cells diagPart m n) s"

definition unfixFirstRows :: "bool \<Rightarrow> nat \<Rightarrow> lits3 \<Rightarrow> int list \<Rightarrow> nat \<Rightarrow> enc \<Rightarrow> enc res" where
  "unfixFirstRows diagPart n L firstRow m s =
     bindE (foldE (\<lambda>c cl. bindE (row_lit L firstRow c) (\<lambda>l. Inr (cl @ [- l]))) (row_cells diagPart m n) [])
       (\<lambda>cl. Inr (add_clause cl s))"

text \<open>The third mode of \<^verbatim>\<open>main.cpp\<close>: one diagonal, with rows fixed, excluded or neither.\<close>

definition encode_fixed ::
  "bool \<Rightarrow> bool \<Rightarrow> nat \<Rightarrow> nat list \<Rightarrow> int \<Rightarrow> int list \<Rightarrow> nat \<Rightarrow> (lits3 \<times> enc) res" where
  "encode_fixed nc smaller n d fixedRow firstRow numToFix =
     (case encode_diag nc smaller n d of (L, s) \<Rightarrow>
        bindE (if 0 < fixedRow then fixFirstRows True n L firstRow numToFix s
               else if fixedRow < 0 then unfixFirstRows True n L firstRow numToFix s else Inr s)
          (\<lambda>t. Inr (L, t)))"

definition row_value :: "int list \<Rightarrow> nat \<Rightarrow> nat" where
  "row_value firstRow i = nat (firstRow ! i)"

definition rows_match :: "bool \<Rightarrow> nat \<Rightarrow> int list \<Rightarrow> nat \<Rightarrow> cmat \<Rightarrow> bool" where
  "rows_match diagPart n firstRow m N \<longleftrightarrow>
     (\<forall>j<m. \<forall>i<n. \<not> (diagPart \<and> i = j) \<longrightarrow> N j i = row_value firstRow i)"

definition row_ok :: "nat \<Rightarrow> int list \<Rightarrow> bool" where
  "row_ok n firstRow \<longleftrightarrow> length firstRow = n \<and> (\<forall>x\<in>set firstRow. 0 \<le> x \<and> x < int n)"

lemma row_cells_mem: "(j, i) \<in> set (row_cells diagPart m n) \<longleftrightarrow> j < m \<and> i < n \<and> \<not> (diagPart \<and> i = j)"
  by (auto simp: row_cells_def)

lemma row_lit_ok:
  assumes "dims3 n L" "row_ok n firstRow" "j < n" "i < n"
  shows "row_lit L firstRow (j, i) = Inr (L ! j ! i ! row_value firstRow i)" "row_value firstRow i < n"
proof -
  have x: "0 \<le> firstRow ! i" "firstRow ! i < int n" using assms by (auto simp: row_ok_def)
  then show "row_value firstRow i < n" by (simp add: row_value_def)
  have "firstRow ! i = int (row_value firstRow i)" using x by (simp add: row_value_def)
  then show "row_lit L firstRow (j, i) = Inr (L ! j ! i ! row_value firstRow i)"
    using assms x dims3D(1,3,4)[OF assms(1)] by (simp add: row_lit_def row_ok_def row_value_def vget_def)
qed

lemma foldE_pure:
  assumes "\<And>x s. x \<in> set xs \<Longrightarrow> f x s = Inr (g x s)"
  shows "foldE f xs s = Inr (fold g xs s)"
  using assms by (induction xs arbitrary: s) simp_all

definition row_lits :: "bool \<Rightarrow> nat \<Rightarrow> lits3 \<Rightarrow> int list \<Rightarrow> nat \<Rightarrow> int list" where
  "row_lits diagPart n L firstRow m = map (\<lambda>(j, i). L ! j ! i ! row_value firstRow i) (row_cells diagPart m n)"

lemma fixFirstRows_eq:
  assumes "dims3 n L" "row_ok n firstRow" "m \<le> n"
  shows "fixFirstRows diagPart n L firstRow m s = Inr (fst s @ map (\<lambda>l. [l]) (row_lits diagPart n L firstRow m), snd s)"
    "unfixFirstRows diagPart n L firstRow m s = Inr (fst s @ [map uminus (row_lits diagPart n L firstRow m)], snd s)"
proof -
  have lit: "row_lit L firstRow c = Inr (L ! fst c ! snd c ! row_value firstRow (snd c))"
    if "c \<in> set (row_cells diagPart m n)" for c
    using row_lit_ok(1)[OF assms(1,2)] that assms(3) by (cases c) (auto simp: row_cells_mem)
  have "fixFirstRows diagPart n L firstRow m s =
      Inr (fold (\<lambda>c. add_clause [L ! fst c ! snd c ! row_value firstRow (snd c)]) (row_cells diagPart m n) s)"
    unfolding fixFirstRows_def by (rule foldE_pure) (simp add: lit)
  moreover have "fold (\<lambda>c. add_clause [f c]) cs s = (fst s @ map (\<lambda>l. [l]) (map f cs), snd s)" for f :: "nat \<times> nat \<Rightarrow> int" and cs
    by (induction cs arbitrary: s) (simp_all add: add_clause_def)
  ultimately show "fixFirstRows diagPart n L firstRow m s = Inr (fst s @ map (\<lambda>l. [l]) (row_lits diagPart n L firstRow m), snd s)"
    by (simp add: row_lits_def case_prod_beta')
  have "foldE (\<lambda>c cl. bindE (row_lit L firstRow c) (\<lambda>l. Inr (cl @ [- l]))) (row_cells diagPart m n) [] =
      Inr (fold (\<lambda>c cl. cl @ [- (L ! fst c ! snd c ! row_value firstRow (snd c))]) (row_cells diagPart m n) [])"
    by (rule foldE_pure) (simp add: lit)
  moreover have "fold (\<lambda>c cl. cl @ [- f c]) cs a = a @ map uminus (map f cs)" for f :: "nat \<times> nat \<Rightarrow> int" and cs a
    by (induction cs arbitrary: a) simp_all
  ultimately show "unfixFirstRows diagPart n L firstRow m s = Inr (fst s @ [map uminus (row_lits diagPart n L firstRow m)], snd s)"
    by (simp add: unfixFirstRows_def row_lits_def case_prod_beta' add_clause_def)
qed

lemma row_lits_hold:
  assumes "reads n L t v N" "row_ok n firstRow" "m \<le> n" "dims3 n L"
    and nz: "0 \<notin> set (row_lits diagPart n L firstRow m)"
  shows "(\<forall>l\<in>set (row_lits diagPart n L firstRow m). lit_holds v l) \<longleftrightarrow> rows_match diagPart n firstRow m N"
proof -
  have lit: "lit_holds v (L ! j ! i ! row_value firstRow i) \<longleftrightarrow> N j i = row_value firstRow i"
    if "(j, i) \<in> set (row_cells diagPart m n)" for j i
  proof -
    have ji: "j < n" "i < n" using that assms(3) by (auto simp: row_cells_mem)
    have "L ! j ! i ! row_value firstRow i \<noteq> 0" using nz that by (force simp: row_lits_def)
    then show ?thesis
      using readsD(2)[OF assms(1) ji row_lit_ok(2)[OF assms(4,2) ji]] by (simp add: entry_holds_def)
  qed
  have "(\<forall>l\<in>set (row_lits diagPart n L firstRow m). lit_holds v l) \<longleftrightarrow>
      (\<forall>c\<in>set (row_cells diagPart m n). N (fst c) (snd c) = row_value firstRow (snd c))"
    using lit by (auto simp: row_lits_def)
  also have "\<dots> \<longleftrightarrow> rows_match diagPart n firstRow m N"
    by (auto simp: rows_match_def row_cells_def)
  finally show ?thesis .
qed

lemma encode_diag_dims:
  assumes "encode_diag nc smaller n d = (L, s)"
  shows "dims3 n L"
proof -
  obtain nf where "(L, nf) = alloc_diag smaller n d (no_lits n, 1)"
    using assms by (auto simp: encode_diag_def encodeEntries_diag_def split: prod.splits)
  from alloc_diag_ok[OF this] show ?thesis by (simp add: alloc_ok_def)
qed

text \<open>
  C23: \<open>--fixFR m\<close> and \<open>--unfixFR m\<close> split the cycle sets with the diagonal: those whose first
  \<open>m\<close> rows are the given row (off the diagonal) are the tables of the models of the first
  formula, the others those of the second. The hypothesis is that the program gets past its
  check for literal 0.
\<close>

theorem encode_fixed_splits:
  assumes d: "perm_on n (\<lambda>i. d ! i)" and r: "row_ok n firstRow" "m \<le> n"
    and fix1: "encode_fixed nc smaller n d 1 firstRow m = Inr (L, s1)" and live: "\<not> has_zero (fst s1)"
    and fix2: "encode_fixed nc smaller n d (- 1) firstRow m = Inr (L', s2)"
    and N: "cycle_set n N" "has_diag n (Some (\<lambda>i. d ! i)) N"
  shows "L' = L \<and>
    ((\<exists>v. cnf_holds v (fst s1) \<and> reads n L (\<lambda>i. d ! i) v N) \<longleftrightarrow> rows_match True n firstRow m N) \<and>
    ((\<exists>v. cnf_holds v (fst s2) \<and> reads n L (\<lambda>i. d ! i) v N) \<longleftrightarrow> \<not> rows_match True n firstRow m N)"
proof -
  obtain L0 s where e: "encode_diag nc smaller n d = (L0, s)" by (metis prod.collapse)
  have dim: "dims3 n L0" by (rule encode_diag_dims[OF e])
  let ?ls = "row_lits True n L0 firstRow m"
  have s1: "L = L0" "fst s1 = fst s @ map (\<lambda>l. [l]) ?ls"
    using fix1 e by (auto simp: encode_fixed_def fixFirstRows_eq[OF dim r])
  have s2: "L' = L0" "fst s2 = fst s @ [map uminus ?ls]"
    using fix2 e by (auto simp: encode_fixed_def fixFirstRows_eq[OF dim r])
  have nz: "0 \<notin> set ?ls"
  proof
    assume "0 \<in> set ?ls"
    then have "[0] \<in> set (fst s1)" unfolding s1(2) by (auto intro: image_eqI)
    then show False using live by (force simp: has_zero_def list_ex_iff)
  qed
  obtain v where v: "cnf_holds v (fst s)" "reads n L0 (\<lambda>i. d ! i) v N"
    using encode_diag_correct[OF e d] N by blast
  have h: "(\<forall>l\<in>set ?ls. lit_holds v l) \<longleftrightarrow> rows_match True n firstRow m N" if "reads n L0 (\<lambda>i. d ! i) v N" for v
    by (rule row_lits_hold[OF that r dim nz])
  have f1: "cnf_holds v (fst s1) \<longleftrightarrow> cnf_holds v (fst s) \<and> (\<forall>l\<in>set ?ls. lit_holds v l)" for v
    unfolding s1(2) cnf_holds_simps by (auto simp: cnf_holds_def)
  have f2: "cnf_holds v (fst s2) \<longleftrightarrow> cnf_holds v (fst s) \<and> \<not> (\<forall>l\<in>set ?ls. lit_holds v l)" for v
  proof -
    have "lit_holds v (- l) \<longleftrightarrow> \<not> lit_holds v l" if "l \<in> set ?ls" for l using nz that by (metis lit_holds_neg)
    then show ?thesis unfolding s2(2) cnf_holds_simps by (auto simp: clause_holds_def)
  qed
  show ?thesis using s1(1) s2(1) v f1 f2 h by metis
qed

theorem encode_fixed_splits_witness:
  "\<exists>L s1 v. encode_fixed True True 2 [1, 0] 1 [1, 0] 1 = Inr (L, s1) \<and> cnf_holds v (fst s1) \<and>
     reads 2 L (\<lambda>i. [1, 0] ! i) v (\<lambda>i j. 1 - j)"
proof -
  let ?d = "[1, 0] :: nat list" and ?fr = "[1, 0] :: int list"
  obtain L s where e: "encode_diag True True 2 ?d = (L, s)" by (metis prod.collapse)
  have r: "row_ok 2 ?fr" "(1::nat) \<le> 2" by (auto simp: row_ok_def)
  have dim: "dims3 2 L" by (rule encode_diag_dims[OF e])
  have cells: "row_cells True 1 2 = [(0, 1)]" by (simp add: row_cells_def upt_rec)
  have ls: "row_lits True 2 L ?fr 1 = [L ! 0 ! 1 ! 0]" unfolding row_lits_def cells by (simp add: row_value_def)
  obtain nf where "(L, nf) = alloc_diag True 2 ?d (no_lits 2, 1)"
    using e by (auto simp: encode_diag_def encodeEntries_diag_def split: prod.splits)
  note al = alloc_diag_ok[OF this, unfolded alloc_ok_def, THEN conjunct2, THEN conjunct2, rule_format]
  have nz: "L ! 0 ! 1 ! 0 \<noteq> 0" using al[of 0 1 0]
    by (simp add: diag_keep_def)
  let ?s1 = "(fst s @ [[L ! 0 ! 1 ! 0]], snd s)" and ?s2 = "(fst s @ [[- (L ! 0 ! 1 ! 0)]], snd s)"
  have f1: "encode_fixed True True 2 ?d 1 ?fr 1 = Inr (L, ?s1)"
    and f2: "encode_fixed True True 2 ?d (- 1) ?fr 1 = Inr (L, ?s2)"
    unfolding encode_fixed_def e prod.case fixFirstRows_eq[OF dim r] ls by simp_all
  have "\<not> has_zero (fst s)"
    using encode_diag_correct[OF e swap_table(2)] by (auto simp: prepare_def split: if_splits)
  then have live: "\<not> has_zero (fst ?s1)" using nz by (auto simp: has_zero_def)
  have "rows_match True 2 ?fr 1 (\<lambda>i j. 1 - j)"
    by (auto simp: rows_match_def row_value_def less_2_cases_iff)
  then show ?thesis
    using encode_fixed_splits[OF swap_table(2) r f1 live f2 swap_table(1,3)] f1 by blast
qed

end
