(* ===== verification/Partitions.thy ===== *)
theory Partitions
  imports Cycle_Set
begin

text \<open>
  The diagonals the program goes through (\<^verbatim>\<open>useful.cpp\<close>, \<open>part\<close> and
  \<open>makeDiagonals\<close>; \<^verbatim>\<open>main.cpp\<close>, the loop that fills \<open>diags\<close>): \<open>part\<close> enumerates the
  integer partitions of the size with the ones left out, \<open>makeDiagonals\<close> turns each into the
  permutation whose cycles are consecutive blocks of these lengths.
\<close>

section \<open>Integer partitions\<close>

text \<open>
  The recursion writes \<open>v[level]\<close>, so its depth is bounded by the cells of \<open>v\<close> that are left;
  that number is the first argument of \<open>part_aux\<close>, and with no cell left the write is out of
  range.
\<close>

primrec part_aux :: "nat \<Rightarrow> nat \<Rightarrow> nat list \<Rightarrow> nat \<Rightarrow> nat list list \<Rightarrow> (nat list \<times> nat list list) res" where
  "part_aux 0 n v level parts = (if n < 1 then Inr (v, parts) else Inl UB)"
| "part_aux (Suc r) n v level parts =
     (if n < 1 then Inr (v, parts)
      else let v1 = v[level := n];
               p = filter (\<lambda>x. x \<noteq> 1) (take (Suc level) v1);
               parts1 = (if length p \<noteq> 0 then parts @ [p] else parts);
               first = (if level = 0 then 1 else v1 ! (level - 1))
           in foldE (\<lambda>i s. part_aux r (n - i) ((fst s)[level := i]) (Suc level) (snd s))
                [first..<Suc (n div 2)] (v1, parts1))"

definition part :: "nat \<Rightarrow> nat list \<Rightarrow> nat \<Rightarrow> nat list list \<Rightarrow> (nat list \<times> nat list list) res" where
  "part n v level parts = part_aux (length v - level) n v level parts"

text \<open>The same enumeration as a function: the ascending lists of numbers from \<open>m\<close> on with sum \<open>n\<close>.\<close>

function asc :: "nat \<Rightarrow> nat \<Rightarrow> nat list list" where
  "asc m n = (if n < 1 \<or> m < 1 then []
     else [n] # concat (map (\<lambda>i. map (Cons i) (asc i (n - i))) [m..<Suc (n div 2)]))"
  by pat_completeness auto
termination by (relation "measure snd") auto

declare asc.simps [simp del]

lemma asc_mem:
  assumes "1 \<le> m" "m \<le> n"
  shows "q \<in> set (asc m n) \<longleftrightarrow> q \<noteq> [] \<and> sorted q \<and> (\<forall>x\<in>set q. m \<le> x) \<and> sum_list q = n"
  using assms
proof (induction m n arbitrary: q rule: asc.induct)
  case (1 m n)
  have IH: "q' \<in> set (asc i (n - i)) \<longleftrightarrow> q' \<noteq> [] \<and> sorted q' \<and> (\<forall>x\<in>set q'. i \<le> x) \<and> sum_list q' = n - i"
    if "m \<le> i" "i \<le> n div 2" for i q'
  proof -
    have "\<not> (n < 1 \<or> m < 1)" "i \<in> set [m..<Suc (n div 2)]" "1 \<le> i" "i \<le> n - i" using "1.prems" that by auto
    from "1.IH"[OF this] show ?thesis .
  qed
  have "q \<in> set (asc m n) \<longleftrightarrow> q = [n] \<or> (\<exists>i q'. q = i # q' \<and> m \<le> i \<and> i \<le> n div 2 \<and> q' \<in> set (asc i (n - i)))"
    using "1.prems" by (subst asc.simps) auto
  also have "\<dots> \<longleftrightarrow> q \<noteq> [] \<and> sorted q \<and> (\<forall>x\<in>set q. m \<le> x) \<and> sum_list q = n"
  proof (cases q)
    case (Cons i q')
    show ?thesis
    proof (cases q')
      case Nil
      then show ?thesis using Cons "1.prems" by (auto simp: asc.simps[of i "n - i"] split: if_splits)
    next
      case q': (Cons j q'')
      have half: "i \<le> n div 2" if "i \<le> j" "i + (j + sum_list q'') = n" using that by linarith
      have "i \<noteq> n \<or> q' \<noteq> []" using q' by simp
      then show ?thesis
        using Cons q' IH[of i q'] half by (auto dest: order_trans)
    qed
  qed simp
  finally show ?case .
qed

lemma asc_distinct: "distinct (asc m n)"
proof (induction m n rule: asc.induct)
  case (1 m n)
  show ?case
  proof (cases "n < 1 \<or> m < 1")
    case False
    have "distinct (concat (map (\<lambda>i. map (Cons i) (asc i (n - i))) [m..<Suc (n div 2)]))"
    proof (rule distinct_concat)
      show "distinct (map (\<lambda>i. map (Cons i) (asc i (n - i))) [m..<Suc (n div 2)])"
      proof (rule distinct_map[THEN iffD2], intro conjI inj_onI)
        fix x y assume "x \<in> set [m..<Suc (n div 2)]" "y \<in> set [m..<Suc (n div 2)]"
          "map (Cons x) (asc x (n - x)) = map (Cons y) (asc y (n - y))"
        moreover from this have "asc x (n - x) \<noteq> []" using False by (subst asc.simps) auto
        ultimately show "x = y" by (cases "asc x (n - x)"; cases "asc y (n - y)") auto
      qed simp
    qed (use 1 False in \<open>auto simp: distinct_map\<close>)
    moreover have "[n] \<noteq> i # q" if "m \<le> i" "i \<le> n div 2" "q \<in> set (asc i (n - i))" for i q
      using that False by auto
    ultimately show ?thesis using False by (subst asc.simps) auto
  qed (simp add: asc.simps)
qed

text \<open>What a call appends to \<open>parts\<close>: one list for every way to complete the prefix in \<open>v\<close>.\<close>

definition emitted :: "nat list \<Rightarrow> nat list list \<Rightarrow> nat list list" where
  "emitted w qs = filter (\<lambda>p. p \<noteq> []) (map (\<lambda>q. filter (\<lambda>x. x \<noteq> 1) (w @ q)) qs)"

lemma emitted_simps:
  "emitted w [] = []"
  "emitted w (q # qs) = (if filter (\<lambda>x. x \<noteq> 1) (w @ q) = [] then [] else [filter (\<lambda>x. x \<noteq> 1) (w @ q)]) @ emitted w qs"
  "emitted w (qs @ rs) = emitted w qs @ emitted w rs"
  "emitted w (map (Cons i) qs) = emitted (w @ [i]) qs"
  by (auto simp: emitted_def comp_def)

lemma emitted_concat: "emitted w (concat qss) = concat (map (emitted w) qss)"
  by (induction qss) (simp_all add: emitted_simps)

lemma part_aux_ok:
  assumes "level + r = length v" "n \<le> r" "1 \<le> n" "m = (if level = 0 then 1 else v ! (level - 1))" "1 \<le> m"
  shows "\<exists>v'. part_aux r n v level parts = Inr (v', parts @ emitted (take level v) (asc m n)) \<and>
    length v' = length v \<and> take level v' = take level v"
  using assms
proof (induction r arbitrary: n v level parts m)
  case (Suc r)
  have level: "level < length v" using Suc.prems(1) by simp
  let ?w = "take level v" and ?v1 = "v[level := n]"
  let ?p = "filter (\<lambda>x. x \<noteq> 1) (take (Suc level) ?v1)"
  let ?parts1 = "if length ?p \<noteq> 0 then parts @ [?p] else parts"
  let ?f = "\<lambda>i s. part_aux r (n - i) ((fst s)[level := i]) (Suc level) (snd s)"
  have w1: "take (Suc level) (u[level := i]) = take level u @ [i]" if "length u = length v" for u i
    using that level by (simp add: take_Suc_conv_app_nth)
  have parts1: "?parts1 = parts @ emitted ?w [[n]]" using w1[of v n] by (simp add: emitted_simps)
  have first: "(if level = 0 then 1 else ?v1 ! (level - 1)) = m" using Suc.prems(4) by simp
  have loop: "\<exists>v'. foldE ?f is (u, ps) = Inr (v', ps @ emitted ?w (concat (map (\<lambda>i. map (Cons i) (asc i (n - i))) is))) \<and>
      length v' = length v \<and> take level v' = ?w"
    if "set is \<subseteq> {m..n div 2}" "length u = length v" "take level u = ?w" for "is" u ps
    using that
  proof (induction "is" arbitrary: u ps)
    case (Cons i "is")
    have i: "m \<le> i" "i \<le> n div 2" using Cons.prems(1) by auto
    have "Suc level + r = length (u[level := i])" "n - i \<le> r" "1 \<le> n - i" "1 \<le> i"
      using Suc.prems Cons.prems(2) i by auto
    moreover have "i = (if Suc level = 0 then 1 else u[level := i] ! (Suc level - 1))"
      using level Cons.prems(2) by simp
    ultimately obtain v' where v': "part_aux r (n - i) (u[level := i]) (Suc level) ps =
        Inr (v', ps @ emitted (take (Suc level) (u[level := i])) (asc i (n - i)))"
      "length v' = length v" "take (Suc level) v' = take (Suc level) (u[level := i])"
      using Suc.IH[of "Suc level" "u[level := i]" "n - i" i ps] Cons.prems(2) by auto
    have wi: "take (Suc level) (u[level := i]) = ?w @ [i]" using w1[OF Cons.prems(2)] Cons.prems(3) by simp
    have "take level v' = take level (take (Suc level) v')" by (simp add: min_absorb1)
    also have "\<dots> = ?w" unfolding v'(3) wi using level by simp
    finally have tv': "take level v' = ?w" .
    show ?case
      using Cons.IH[OF _ v'(2) tv', of "ps @ emitted (?w @ [i]) (asc i (n - i))"] Cons.prems(1) v'(1)
      by (simp add: wi emitted_simps)
  qed (simp add: emitted_simps)
  have v1: "length ?v1 = length v" "take level ?v1 = ?w" by simp_all
  have range: "set [m..<Suc (n div 2)] \<subseteq> {m..n div 2}" by auto
  obtain v' where v': "foldE ?f [m..<Suc (n div 2)] (?v1, ?parts1) =
      Inr (v', ?parts1 @ emitted ?w (concat (map (\<lambda>i. map (Cons i) (asc i (n - i))) [m..<Suc (n div 2)])))"
    "length v' = length v" "take level v' = ?w"
    using loop[OF range v1, of ?parts1] by blast
  have e: "asc m n = [n] # concat (map (\<lambda>i. map (Cons i) (asc i (n - i))) [m..<Suc (n div 2)])"
    using Suc.prems by (subst asc.simps) simp
  have "part_aux (Suc r) n v level parts = foldE ?f [m..<Suc (n div 2)] (?v1, ?parts1)"
    using Suc.prems(3) first by (simp add: Let_def)
  also have "\<dots> = Inr (v', parts @ emitted ?w (asc m n))"
    unfolding v'(1) unfolding parts1 e by (simp add: emitted_simps)
  finally show ?case using v'(2,3) by blast
qed simp

lemma ones_first:
  assumes "sorted q" "\<forall>x\<in>set q. (1::nat) \<le> x"
  shows "q = replicate (length (filter (\<lambda>x. x = 1) q)) 1 @ filter (\<lambda>x. x \<noteq> 1) q"
  using assms
proof (induction q)
  case (Cons x q)
  show ?case
  proof (cases "x = 1")
    case False
    then have "\<forall>y\<in>set (x # q). y \<noteq> 1" using Cons.prems by fastforce
    then have "filter (\<lambda>x. x = 1) (x # q) = []" "filter (\<lambda>x. x \<noteq> 1) (x # q) = x # q"
      by (simp_all only: filter_empty_conv filter_id_conv not_False_eq_True)
    then show ?thesis by simp
  qed (use Cons in simp)
qed simp

lemma ones_count:
  assumes "sorted q" "\<forall>x\<in>set q. (1::nat) \<le> x"
  shows "q = replicate (sum_list q - sum_list (filter (\<lambda>x. x \<noteq> 1) q)) 1 @ filter (\<lambda>x. x \<noteq> 1) q"
    "sum_list (filter (\<lambda>x. x \<noteq> 1) q) \<le> sum_list q"
proof -
  let ?k = "length (filter (\<lambda>x. x = 1) q)" and ?p = "filter (\<lambda>x. x \<noteq> 1) q"
  note q = ones_first[OF assms]
  have "sum_list q = ?k + sum_list ?p" by (subst q) (simp add: sum_list_replicate)
  with q show "q = replicate (sum_list q - sum_list ?p) 1 @ ?p" "sum_list ?p \<le> sum_list q" by simp_all
qed

lemma part_parts:
  assumes "1 \<le> n"
  shows "\<exists>v parts. part n [0..<n] 0 [] = Inr (v, parts) \<and> distinct parts \<and>
    set parts = {p. p \<noteq> [] \<and> sorted p \<and> (\<forall>x\<in>set p. 2 \<le> x) \<and> sum_list p \<le> n}"
proof -
  let ?f = "filter (\<lambda>x. x \<noteq> (1::nat))"
  obtain v where v: "part n [0..<n] 0 [] = Inr (v, emitted [] (asc 1 n))"
    using part_aux_ok[of 0 n "[0..<n]" n 1 "[]"] assms by (auto simp: part_def)
  have q: "sorted q" "\<forall>x\<in>set q. 1 \<le> x" "sum_list q = n" if "q \<in> set (asc 1 n)" for q
    using that asc_mem[of 1 n q] assms by auto
  have "inj_on ?f (set (asc 1 n))"
    by (rule inj_onI) (metis q ones_count(1))
  then have "distinct (emitted [] (asc 1 n))"
    by (simp add: emitted_def distinct_map asc_distinct)
  moreover have "p \<in> set (emitted [] (asc 1 n)) \<longleftrightarrow>
      p \<noteq> [] \<and> sorted p \<and> (\<forall>x\<in>set p. 2 \<le> x) \<and> sum_list p \<le> n" for p
  proof
    assume "p \<in> set (emitted [] (asc 1 n))"
    then obtain u where u: "u \<in> set (asc 1 n)" "p = ?f u" "p \<noteq> []" by (auto simp: emitted_def)
    have "2 \<le> x" if "x \<in> set p" for x
    proof -
      have "x \<noteq> 1" "1 \<le> x" using that u(2) q(2)[OF u(1)] by auto
      then show ?thesis by simp
    qed
    moreover have "sorted p" using q(1)[OF u(1)] u(2) by (simp add: sorted_wrt_filter)
    ultimately show "p \<noteq> [] \<and> sorted p \<and> (\<forall>x\<in>set p. 2 \<le> x) \<and> sum_list p \<le> n"
      using ones_count(2)[OF q(1,2)[OF u(1)]] q(3)[OF u(1)] u(2,3) by simp
  next
    assume p: "p \<noteq> [] \<and> sorted p \<and> (\<forall>x\<in>set p. 2 \<le> x) \<and> sum_list p \<le> n"
    let ?u = "replicate (n - sum_list p) 1 @ p"
    have ge: "x \<noteq> 1 \<and> 1 \<le> x" if "x \<in> set p" for x using p that by fastforce
    then have "?f p = p" by (simp add: filter_id_conv)
    moreover have "?u \<in> set (asc 1 n)"
      using p ge assms by (auto simp: asc_mem sorted_append sum_list_replicate)
    ultimately show "p \<in> set (emitted [] (asc 1 n))"
      using p by (force simp: emitted_def intro!: image_eqI[of _ _ ?u])
  qed
  ultimately show ?thesis using v by blast
qed

text \<open>
  C25: \<open>part\<close>, called the way \<^verbatim>\<open>main.cpp\<close> calls it for size \<open>n\<close>, ends without leaving
  its vector and lists every integer partition of \<open>n\<close> other than \<open>1 + ... + 1\<close> exactly once, as
  the increasing list of its parts greater than one.
\<close>

theorem part_enumerates:
  assumes "1 \<le> n"
  shows "\<exists>v parts. part n [0..<n] 0 [] = Inr (v, parts) \<and> distinct parts \<and>
    set parts = {p. p \<noteq> [] \<and> sorted p \<and> (\<forall>x\<in>set p. 2 \<le> x) \<and> sum_list p \<le> n}"
  using part_parts[OF assms] .

theorem part_enumerates_witness:
  "\<exists>v parts. part 4 [0..<4] 0 [] = Inr (v, parts) \<and> [2, 2] \<in> set parts \<and> [1, 3] \<notin> set parts"
  using part_enumerates[of 4] by fastforce

section \<open>Diagonals\<close>

definition vset :: "'a list \<Rightarrow> nat \<Rightarrow> 'a \<Rightarrow> 'a list res" where
  "vset xs i x = (if i < length xs then Inr (xs[i := x]) else Inl UB)"

text \<open>The cycles of one partition; \<open>toAdd\<close> is the first element of the next block.\<close>

definition cycles_of :: "nat list \<Rightarrow> nat list list" where
  "cycles_of p = (if length p = 1 then [[0..<p ! 0]]
     else snd (fold (\<lambda>l (toAdd, cycs). (toAdd + l, cycs @ [map (\<lambda>k. k + toAdd) [0..<l]])) p (0, [])))"

text \<open>The size of a cycle is unsigned, so the loop over an empty one leaves the vector.\<close>

definition write_cycle :: "nat list \<Rightarrow> nat list \<Rightarrow> nat list res" where
  "write_cycle p perm = (if p = [] then Inl UB
     else bindE (foldE (\<lambda>i perm. vset perm (p ! i) (p ! Suc i)) [0..<length p - 1] perm)
       (\<lambda>perm. vset perm (p ! (length p - 1)) (p ! 0)))"

definition makeDiagonals :: "nat \<Rightarrow> nat list list \<Rightarrow> nat list list \<Rightarrow> nat list list res" where
  "makeDiagonals n parts permutations =
     foldE (\<lambda>cycs perms. bindE (foldE write_cycle cycs [0..<n]) (\<lambda>perm. Inr (perms @ [perm])))
       (map cycles_of parts) permutations"

text \<open>The list \<open>diags\<close> of \<^verbatim>\<open>main.cpp\<close>.\<close>

definition all_diagonals :: "nat \<Rightarrow> nat list list res" where
  "all_diagonals n = bindE (part n [0..<n] 0 []) (\<lambda>r. makeDiagonals n (snd r) [[0..<n]])"

text \<open>The permutation with consecutive cycles of the given lengths, from \<open>off\<close> on.\<close>

fun block_perm :: "nat list \<Rightarrow> nat \<Rightarrow> nat \<Rightarrow> nat" where
  "block_perm [] off x = x"
| "block_perm (l # ls) off x =
     (if x < off + l then (if x < off then x else if Suc x = off + l then off else Suc x)
      else block_perm ls (off + l) x)"

fun blocks :: "nat list \<Rightarrow> nat \<Rightarrow> nat list list" where
  "blocks [] off = []"
| "blocks (l # ls) off = [off..<off + l] # blocks ls (off + l)"

lemma cycles_of_blocks: "cycles_of p = blocks p 0"
proof -
  have shift: "map (\<lambda>k. k + off) [0..<l] = [off..<off + l]" for off l :: nat
    by (rule nth_equalityI) simp_all
  have "snd (fold (\<lambda>l (toAdd, cycs). (toAdd + l, cycs @ [map (\<lambda>k. k + toAdd) [0..<l]])) p (off, cs)) = cs @ blocks p off"
    for off cs by (induction p arbitrary: off cs) (simp_all add: shift)
  moreover have "[[0..<p ! 0]] = blocks p 0" if "length p = 1"
    using that by (cases p) auto
  ultimately show ?thesis by (simp add: cycles_of_def)
qed

lemma write_cycle_block:
  assumes "1 \<le> l" "off + l \<le> length perm"
  shows "\<exists>d. write_cycle [off..<off + l] perm = Inr d \<and> length d = length perm \<and>
    (\<forall>x<length perm. d ! x = (if off \<le> x \<and> x < off + l then (if Suc x = off + l then off else Suc x) else perm ! x))"
proof -
  let ?p = "[off..<off + l]"
  let ?f = "\<lambda>i perm. vset perm (?p ! i) (?p ! Suc i)"
  have "\<exists>d. foldE ?f [0..<m] perm = Inr d \<and> length d = length perm \<and>
      (\<forall>x<length perm. d ! x = (if off \<le> x \<and> x < off + m then Suc x else perm ! x))" if "m < l" for m
    using that
  proof (induction m)
    case (Suc m)
    then obtain d where d: "foldE ?f [0..<m] perm = Inr d" "length d = length perm"
      "\<And>x. x < length perm \<Longrightarrow> d ! x = (if off \<le> x \<and> x < off + m then Suc x else perm ! x)" by auto
    have "?f m d = Inr (d[off + m := Suc (off + m)])" using Suc.prems assms(2) d(2) by (simp add: vset_def)
    then have "foldE ?f [0..<Suc m] perm = Inr (d[off + m := Suc (off + m)])"
      using d(1) by (simp add: foldE_append)
    then show ?case using d(2,3) Suc.prems assms(2) by (auto simp: nth_list_update)
  qed simp
  from this[of "l - 1"] assms(1) obtain d where d: "foldE ?f [0..<l - 1] perm = Inr d" "length d = length perm"
    "\<And>x. x < length perm \<Longrightarrow> d ! x = (if off \<le> x \<and> x < off + (l - 1) then Suc x else perm ! x)" by auto
  have "write_cycle ?p perm = Inr (d[off + (l - 1) := off])"
    using assms d(1,2) by (simp add: write_cycle_def vset_def)
  then show ?thesis using assms d(2,3) by (auto simp: nth_list_update)
qed

lemma write_blocks:
  assumes "\<forall>l\<in>set p. 1 \<le> l" "off + sum_list p \<le> length perm"
  shows "\<exists>d. foldE write_cycle (blocks p off) perm = Inr d \<and> length d = length perm \<and>
    (\<forall>x<length perm. d ! x = (if off \<le> x \<and> x < off + sum_list p then block_perm p off x else perm ! x))"
  using assms
proof (induction p arbitrary: off perm)
  case (Cons l p)
  obtain d where d: "write_cycle [off..<off + l] perm = Inr d" "length d = length perm"
      "\<And>x. x < length perm \<Longrightarrow> d ! x = (if off \<le> x \<and> x < off + l then (if Suc x = off + l then off else Suc x) else perm ! x)"
    using write_cycle_block[of l off perm] Cons.prems by auto
  obtain e where e: "foldE write_cycle (blocks p (off + l)) d = Inr e" "length e = length perm"
      "\<And>x. x < length perm \<Longrightarrow> e ! x =
        (if off + l \<le> x \<and> x < off + l + sum_list p then block_perm p (off + l) x else d ! x)"
    using Cons.IH[of "off + l" d] Cons.prems d(2) by auto
  show ?case using d e by auto
qed simp

lemma block_perm_low: "x < off \<Longrightarrow> block_perm p off x = x"
  by (induction p arbitrary: off) auto

lemma block_perm_high: "off + sum_list p \<le> x \<Longrightarrow> block_perm p off x = x"
  by (induction p arbitrary: off) auto

lemma block_perm_ge: "off \<le> x \<Longrightarrow> off \<le> block_perm p off x"
proof (induction p arbitrary: off)
  case (Cons l p)
  have "off + l \<le> block_perm p (off + l) x" if "\<not> x < off + l" using Cons.IH[of "off + l"] that by simp
  then show ?case using Cons.prems by (cases "x < off + l") auto
qed simp

lemma block_perm_head:
  "k < l \<Longrightarrow> block_perm (l # p) off (off + k) = (if Suc k = l then off else off + Suc k)"
  by auto

lemma block_perm_less: "x < n \<Longrightarrow> off + sum_list p \<le> n \<Longrightarrow> block_perm p off x < n"
  by (induction p arbitrary: off) auto

lemma block_perm_inj: "block_perm p off x = block_perm p off y \<Longrightarrow> x = y"
proof (induction p arbitrary: off)
  case (Cons l p)
  have tail: "off + l \<le> block_perm p (off + l) z" if "off + l \<le> z" for z
    using block_perm_ge that by blast
  show ?case
    using Cons.prems Cons.IH[of "off + l"] tail[of x] tail[of y] by (auto split: if_splits)
qed simp

lemma block_perm_perm: "sum_list p \<le> n \<Longrightarrow> perm_on n (block_perm p 0)"
  using block_perm_less[of _ n 0 p] block_perm_inj by (intro perm_onI) auto

lemma block_perm_parts:
  assumes "\<forall>l\<in>set p. 2 \<le> l" "\<forall>l\<in>set q. 2 \<le> l" "off + sum_list p \<le> n" "off + sum_list q \<le> n"
    and "\<And>x. x < n \<Longrightarrow> block_perm p off x = block_perm q off x"
  shows "p = q"
  using assms
proof (induction p arbitrary: q off)
  case Nil
  then show ?case
  proof (cases q)
    case (Cons m q')
    then have "block_perm q off off = Suc off" using Nil.prems by auto
    moreover have "off < n" using Nil.prems Cons by auto
    ultimately show ?thesis using Nil.prems(5)[of off] by simp
  qed simp
next
  case (Cons l p)
  note P = Cons.prems
  show ?case
  proof (cases q)
    case Nil
    then have "block_perm (l # p) off off = Suc off" using P by auto
    then show ?thesis using P(5)[of off] P(1,3) Nil by auto
  next
    case q: (Cons m q')
    have "l = m"
    proof (rule ccontr)
      assume "l \<noteq> m"
      have pos: "1 \<le> l" "1 \<le> m" using P(1,2) q by fastforce+
      have bnd: "off + (l - 1) < n" "off + (m - 1) < n" using P(3,4) pos by (auto simp: q)
      from \<open>l \<noteq> m\<close> consider "l < m" | "m < l" by linarith
      then show False
      proof cases
        case 1
        then show False
          using P(5)[OF bnd(1)] block_perm_head[of "l - 1" l p off] block_perm_head[of "l - 1" m q' off] pos
          by (simp only: q) (simp split: if_splits)
      next
        case 2
        then show False
          using P(5)[OF bnd(2)] block_perm_head[of "m - 1" l p off] block_perm_head[of "m - 1" m q' off] pos
          by (simp only: q) (simp split: if_splits)
      qed
    qed
    have "block_perm p (off + l) x = block_perm q' (off + l) x" if x: "x < n" for x
    proof (cases "x < off + l")
      case False
      then show ?thesis using P(5)[OF x] by (simp add: q \<open>l = m\<close>)
    qed (simp add: block_perm_low)
    then have "p = q'" using P by (intro Cons.IH[of q' "off + l"]) (auto simp: q \<open>l = m\<close>)
    then show ?thesis by (simp add: q \<open>l = m\<close>)
  qed
qed

definition diag_list :: "nat \<Rightarrow> nat list \<Rightarrow> nat list" where
  "diag_list n p = map (block_perm p 0) [0..<n]"

lemma makeDiagonals_eq:
  assumes "\<And>p. p \<in> set ps \<Longrightarrow> (\<forall>l\<in>set p. 2 \<le> l) \<and> sum_list p \<le> n"
  shows "makeDiagonals n ps ds = Inr (ds @ map (diag_list n) ps)"
proof -
  have one: "foldE write_cycle (cycles_of p) [0..<n] = Inr (diag_list n p)" if p: "p \<in> set ps" for p
  proof -
    have "\<forall>l\<in>set p. 1 \<le> l" "0 + sum_list p \<le> length [0..<n]" using assms[OF p] by fastforce+
    then obtain d where d: "foldE write_cycle (blocks p 0) [0..<n] = Inr d" "length d = n"
      "\<forall>x<n. d ! x = (if x < sum_list p then block_perm p 0 x else [0..<n] ! x)"
      using write_blocks[of p 0 "[0..<n]"] by auto
    have "d = diag_list n p"
      using d(2,3) by (intro nth_equalityI) (auto simp: diag_list_def block_perm_high)
    then show ?thesis using d(1) by (simp add: cycles_of_blocks)
  qed
  let ?g = "\<lambda>cycs perms. bindE (foldE write_cycle cycs [0..<n]) (\<lambda>perm. Inr (perms @ [perm]))"
  have "foldE ?g (map cycles_of qs) es = Inr (es @ map (diag_list n) qs)" if "set qs \<subseteq> set ps" for qs es
    using that one by (induction qs arbitrary: es) auto
  then show ?thesis by (simp add: makeDiagonals_def)
qed

lemma all_diagonals_all:
  assumes "1 \<le> n"
  shows "\<exists>ds. all_diagonals n = Inr ds \<and> hd ds = [0..<n] \<and> distinct ds \<and>
    set ds = diag_list n ` {p. sorted p \<and> (\<forall>l\<in>set p. 2 \<le> l) \<and> sum_list p \<le> n} \<and>
    (\<forall>d\<in>set ds. length d = n \<and> perm_on n (\<lambda>i. d ! i))"
proof -
  obtain v ps where ps: "part n [0..<n] 0 [] = Inr (v, ps)" "distinct ps"
    "set ps = {p. p \<noteq> [] \<and> sorted p \<and> (\<forall>x\<in>set p. 2 \<le> x) \<and> sum_list p \<le> n}"
    using part_parts[OF assms] by blast
  have id: "[0..<n] = diag_list n []" unfolding diag_list_def by (rule nth_equalityI) simp_all
  have e: "all_diagonals n = Inr (map (diag_list n) ([] # ps))"
    using makeDiagonals_eq[of ps n "[[0..<n]]"] ps(3) unfolding all_diagonals_def ps(1) by (simp add: id)
  have inj: "inj_on (diag_list n) (set ([] # ps))"
  proof (rule inj_onI)
    fix p q assume pq: "p \<in> set ([] # ps)" "q \<in> set ([] # ps)" "diag_list n p = diag_list n q"
    then have "block_perm p 0 x = block_perm q 0 x" if "x < n" for x
      using that by (auto simp: diag_list_def)
    then show "p = q" using pq(1,2) ps(3) by (intro block_perm_parts[of p q 0 n]) auto
  qed
  have perm: "perm_on n (\<lambda>i. diag_list n p ! i)" if "sum_list p \<le> n" for p
    using block_perm_perm[OF that] perm_on_cong[of n "\<lambda>i. diag_list n p ! i" "block_perm p 0"]
    by (simp add: diag_list_def)
  have S: "set ([] # ps) = {p. sorted p \<and> (\<forall>l\<in>set p. 2 \<le> l) \<and> sum_list p \<le> n}" using ps(3) by auto
  have "distinct ([] # ps)" using ps(2,3) by simp
  then have "distinct (map (diag_list n) ([] # ps))" using inj by (simp only: distinct_map)
  moreover have "hd (map (diag_list n) ([] # ps)) = [0..<n]" using id by simp
  moreover have "set (map (diag_list n) ([] # ps)) = diag_list n ` {p. sorted p \<and> (\<forall>l\<in>set p. 2 \<le> l) \<and> sum_list p \<le> n}"
    unfolding set_map S ..
  moreover have "\<forall>d\<in>set (map (diag_list n) ([] # ps)). length d = n \<and> perm_on n (\<lambda>i. d ! i)"
    unfolding set_map S using perm by (auto simp: diag_list_def)
  ultimately show ?thesis using e by blast
qed

lemma all_diagonals_permutations:
  assumes "1 \<le> n" "all_diagonals n = Inr ds" "d \<in> set ds"
  shows "length d = n" "perm_on n (\<lambda>i. d ! i)" "\<exists>p. d = diag_list n p \<and> sorted p \<and> (\<forall>l\<in>set p. 2 \<le> l) \<and> sum_list p \<le> n"
  using all_diagonals_all[OF assms(1)] assms(2,3) by auto

text \<open>
  C24: the diagonals of the second mode are, without repetition, the permutations of the size
  whose cycles are consecutive blocks of nondecreasing length, the identity first; none of the
  writes that build them leaves its vector.
\<close>

theorem all_diagonals_correct:
  assumes "1 \<le> n"
  shows "\<exists>ds. all_diagonals n = Inr ds \<and> hd ds = [0..<n] \<and> distinct ds \<and>
    set ds = diag_list n ` {p. sorted p \<and> (\<forall>l\<in>set p. 2 \<le> l) \<and> sum_list p \<le> n} \<and>
    (\<forall>d\<in>set ds. length d = n \<and> perm_on n (\<lambda>i. d ! i))"
  by (rule all_diagonals_all[OF assms])

theorem all_diagonals_correct_witness: "\<exists>ds. all_diagonals 3 = Inr ds \<and> hd ds = [0, 1, 2] \<and> [1, 2, 0] \<in> set ds"
proof -
  obtain ds where ds: "all_diagonals 3 = Inr ds" "hd ds = [0..<3]"
    "set ds = diag_list 3 ` {p. sorted p \<and> (\<forall>l\<in>set p. 2 \<le> l) \<and> sum_list p \<le> 3}"
    using all_diagonals_correct[of 3] by auto
  have "diag_list 3 [3] \<in> set ds" unfolding ds(3) by auto
  then show ?thesis using ds(1,2) by (simp add: diag_list_def upt_rec numeral_2_eq_2)
qed

end
