(* ===== verification/Cycles.thy ===== *)
theory Cycles
  imports Domains Cycle_Set "HOL-Library.Multiset"
begin

text \<open>
  Permutations as cycles (\<^verbatim>\<open>useful.cpp\<close>): \<open>permToCyclePerm\<close>, \<open>cycleToParts\<close> and the
  class \<open>cyclePerm_t\<close> with its operations \<open>cycle\<close>, \<open>permOf\<close> and \<open>invPermOf\<close>.
\<close>

section \<open>Cycles of a permutation\<close>

text \<open>
  The inner loop walks along the permutation and moves each element from \<open>all\<close> to the cycle;
  erasing an element that is not there, and reading \<open>perm\<close> out of range, are undefined.
\<close>

function walk :: "int list \<Rightarrow> nat list \<Rightarrow> nat list \<Rightarrow> int \<Rightarrow> (nat list \<times> nat list) res" where
  "walk perm all cycle i =
     (if i \<in> int ` set cycle then Inr (all, cycle)
      else if i \<notin> int ` set all then Inl UB
      else case vget perm i of Inl e \<Rightarrow> Inl e
         | Inr i' \<Rightarrow> walk perm (remove1 (nat i) all) (cycle @ [nat i]) i')"
  by pat_completeness auto
termination
proof (relation "measure (\<lambda>(perm, all, cycle, i). length all)", goal_cases)
  case (2 perm all cycle i x)
  then show ?case by (auto simp: length_remove1 intro!: diff_less length_pos_if_in_set)
qed simp

declare walk.simps [simp del]

lemma walk_length: "walk perm all cycle i = Inr (all', cycle') \<Longrightarrow> length all' \<le> length all"
proof (induction perm all cycle i rule: walk.induct)
  case (1 perm all cycle i)
  note w = "1.prems"[unfolded walk.simps[of perm all cycle i]]
  show ?case
  proof (cases "i \<in> int ` set cycle \<or> i \<notin> int ` set all")
    case False
    then obtain x where "vget perm i = Inr x" using w by (auto split: sum.splits)
    then have "length all' \<le> length (remove1 (nat i) all)" using "1.IH" w False by auto
    then show ?thesis by (auto simp: length_remove1 split: if_splits)
  qed (use w in \<open>auto split: if_splits\<close>)
qed

lemma walk_shrinks:
  assumes "walk perm all [] i = Inr (all', cycle')" "i \<in> int ` set all"
  shows "length all' < length all"
proof -
  have "length (remove1 (nat i) all) < length all"
    using assms(2) by (auto simp: length_remove1 intro!: diff_less length_pos_if_in_set)
  with assms walk_length show ?thesis
    by (subst (asm) walk.simps) (fastforce split: if_splits sum.splits)
qed

function all_cycles :: "int list \<Rightarrow> nat list \<Rightarrow> nat list list \<Rightarrow> nat list list res" where
  "all_cycles perm all cycles =
     (if all = [] then Inr cycles
      else case walk perm all [] (int (Min (set all))) of Inl e \<Rightarrow> Inl e
         | Inr (all', cycle) \<Rightarrow> all_cycles perm all' (cycles @ [cycle]))"
  by pat_completeness auto
termination
  by (relation "measure (\<lambda>(perm, all, cycles). length all)") (auto intro!: walk_shrinks)

declare all_cycles.simps [simp del]

definition permToCyclePerm :: "nat \<Rightarrow> int list \<Rightarrow> nat list list res" where
  "permToCyclePerm n perm = all_cycles perm [0..<n] []"

text \<open>A cycle of \<open>p\<close>: every element is followed by its image, the last one by the first.\<close>

definition is_cycle :: "(nat \<Rightarrow> nat) \<Rightarrow> nat list \<Rightarrow> bool" where
  "is_cycle p c \<longleftrightarrow> c \<noteq> [] \<and> distinct c \<and> (\<forall>i<length c. p (c ! i) = c ! (Suc i mod length c))"

definition is_path :: "(nat \<Rightarrow> nat) \<Rightarrow> nat list \<Rightarrow> nat \<Rightarrow> bool" where
  "is_path p c x \<longleftrightarrow> distinct c \<and> (\<forall>i. Suc i < length c \<longrightarrow> p (c ! i) = c ! Suc i) \<and> (c \<noteq> [] \<longrightarrow> p (last c) = x)"

definition vec_perm :: "int list \<Rightarrow> nat \<Rightarrow> nat" where
  "vec_perm perm i = nat (perm ! i)"

definition perm_vec :: "nat \<Rightarrow> int list \<Rightarrow> bool" where
  "perm_vec n perm \<longleftrightarrow> length perm = n \<and> (\<forall>x\<in>set perm. 0 \<le> x) \<and> perm_on n (vec_perm perm)"

lemma perm_vec_get:
  assumes "perm_vec n perm" "i < n"
  shows "vget perm (int i) = Inr (int (vec_perm perm i))"
  using assms by (auto simp: perm_vec_def vec_perm_def)

lemma is_path_snoc:
  assumes "is_path p c x" "x \<notin> set c"
  shows "is_path p (c @ [x]) (p x)"
proof -
  have "p ((c @ [x]) ! i) = (c @ [x]) ! Suc i" if "Suc i < length (c @ [x])" for i
  proof (cases "Suc i < length c")
    case False
    then have "i = length c - 1" "c \<noteq> []" using that by auto
    then show ?thesis using assms by (auto simp: is_path_def nth_append last_conv_nth)
  qed (use assms in \<open>auto simp: is_path_def nth_append\<close>)
  then show ?thesis using assms by (auto simp: is_path_def)
qed

lemma is_path_close:
  assumes "is_path p c x" "c \<noteq> []" "x \<in> set c" and inj: "inj_on p (set c)"
  shows "is_cycle p c"
proof -
  have "x = c ! 0"
  proof (rule ccontr)
    assume "x \<noteq> c ! 0"
    then obtain i where i: "Suc i < length c" "x = c ! Suc i"
      using assms(3) by (metis in_set_conv_nth not0_implies_Suc)
    then have "p (c ! i) = p (last c)" using assms(1,2) by (simp add: is_path_def)
    then have "c ! i = last c" using inj i(1) assms(2) by (auto simp: inj_on_def)
    then have "i = length c - 1"
      using assms(1,2) i(1) nth_eq_iff_index_eq[of c i "length c - 1"] by (simp add: is_path_def last_conv_nth)
    then show False using i(1) by simp
  qed
  then have "p (c ! i) = c ! (Suc i mod length c)" if "i < length c" for i
  proof (cases "Suc i < length c")
    case False
    then have "i = length c - 1" "Suc i = length c" using that by auto
    then show ?thesis using assms(1,2) \<open>x = c ! 0\<close> by (simp add: is_path_def last_conv_nth)
  qed (use assms(1) in \<open>simp add: is_path_def\<close>)
  then show ?thesis using assms by (simp add: is_cycle_def is_path_def)
qed

lemma walk_correct:
  assumes pv: "perm_vec n perm"
    and S: "set all \<union> set cycle \<subseteq> {..<n}" "set all \<inter> set cycle = {}" "distinct all"
    and closed: "\<And>x. x \<in> set all \<union> set cycle \<Longrightarrow> vec_perm perm x \<in> set all \<union> set cycle"
    and path: "is_path (vec_perm perm) cycle i" "i \<in> set all \<union> set cycle" "cycle = [] \<longrightarrow> i \<in> set all"
  shows "\<exists>all' cycle'. walk perm all cycle (int i) = Inr (all', cycle') \<and> is_cycle (vec_perm perm) cycle' \<and>
    set all' \<union> set cycle' = set all \<union> set cycle \<and> set all' \<inter> set cycle' = {} \<and> distinct all' \<and> set all' \<subseteq> set all"
  using assms
proof (induction "length all" arbitrary: all cycle i rule: less_induct)
  case less
  show ?case
  proof (cases "i \<in> set cycle")
    case True
    have "inj_on (vec_perm perm) (set cycle)"
      using less.prems(1,2) unfolding perm_vec_def perm_on_def bij_betw_def by (meson Un_subset_iff inj_on_subset)
    then have "is_cycle (vec_perm perm) cycle" using less.prems(6) True by (intro is_path_close[of _ _ i]) auto
    moreover have "walk perm all cycle (int i) = Inr (all, cycle)" using True by (subst walk.simps) simp
    ultimately show ?thesis using less.prems(3,4) by auto
  next
    case False
    then have i: "i \<in> set all" using less.prems(7) by simp
    let ?all = "remove1 i all" and ?c = "cycle @ [i]" and ?i = "vec_perm perm i"
    have "i < n" using i less.prems(2) by auto
    then have step: "walk perm all cycle (int i) = walk perm ?all ?c (int ?i)"
      using False i perm_vec_get[OF less.prems(1)] by (subst walk.simps) auto
    have shrink: "length ?all < length all"
      using i by (auto simp: length_remove1 intro!: diff_less length_pos_if_in_set)
    have sets: "set ?all = set all - {i}" using less.prems(4) by (simp add: set_remove1_eq)
    then have un: "set ?all \<union> set ?c = set all \<union> set cycle" using i by auto
    have "\<exists>all' cycle'. walk perm ?all ?c (int ?i) = Inr (all', cycle') \<and> is_cycle (vec_perm perm) cycle' \<and>
      set all' \<union> set cycle' = set ?all \<union> set ?c \<and> set all' \<inter> set cycle' = {} \<and> distinct all' \<and> set all' \<subseteq> set ?all"
    proof (rule less.hyps[OF shrink less.prems(1)])
      show "set ?all \<union> set ?c \<subseteq> {..<n}" using un less.prems(2) by simp
      show "set ?all \<inter> set ?c = {}" using sets less.prems(3) by auto
      show "distinct ?all" using less.prems(4) by simp
      show "vec_perm perm x \<in> set ?all \<union> set ?c" if "x \<in> set ?all \<union> set ?c" for x
        using less.prems(5) that unfolding un by blast
      show "is_path (vec_perm perm) ?c ?i" by (rule is_path_snoc[OF less.prems(6) False])
      show "?i \<in> set ?all \<union> set ?c" using less.prems(5)[of i] i unfolding un by blast
    qed simp
    then show ?thesis unfolding step un using sets by blast
  qed
qed

lemma cycle_closed:
  assumes "is_cycle p c" "x \<in> set c"
  shows "p x \<in> set c" "\<exists>y\<in>set c. p y = x"
proof -
  have len: "0 < length c" using assms(1) by (simp add: is_cycle_def)
  obtain i where i: "i < length c" "x = c ! i" using assms(2) by (metis in_set_conv_nth)
  then show "p x \<in> set c" using assms(1) len by (simp add: is_cycle_def)
  let ?j = "(i + (length c - 1)) mod length c"
  have e: "Suc (i + (length c - 1)) = i + length c" using len by simp
  have "Suc ?j mod length c = (i + length c) mod length c" unfolding mod_Suc_eq e ..
  also have "\<dots> = i" using i(1) by simp
  finally have eq: "Suc ?j mod length c = i" .
  have "?j < length c" using len by simp
  then have "p (c ! ?j) = c ! (Suc ?j mod length c)" using assms(1) unfolding is_cycle_def by blast
  then have "p (c ! ?j) = x" unfolding eq using i(2) by simp
  then show "\<exists>y\<in>set c. p y = x" using len by (metis mod_less_divisor nth_mem)
qed

lemma all_cycles_correct:
  assumes pv: "perm_vec n perm" and "set all \<subseteq> {..<n}" "distinct all"
    and "\<And>x. x \<in> set all \<Longrightarrow> vec_perm perm x \<in> set all"
  shows "\<exists>cs. all_cycles perm all cycles = Inr (cycles @ cs) \<and> (\<forall>c\<in>set cs. is_cycle (vec_perm perm) c) \<and>
    distinct (concat cs) \<and> set (concat cs) = set all"
  using assms(2-)
proof (induction "length all" arbitrary: all cycles rule: less_induct)
  case less
  show ?case
  proof (cases "all = []")
    case False
    let ?m = "Min (set all)"
    have m: "?m \<in> set all" using False by simp
    obtain all' c where w: "walk perm all [] (int ?m) = Inr (all', c)" "is_cycle (vec_perm perm) c"
      "set all' \<union> set c = set all" "set all' \<inter> set c = {}" "distinct all'"
      using walk_correct[OF pv, of all "[]" ?m] less.prems m by (auto simp: is_path_def)
    have short: "length all' < length all" using walk_shrinks[OF w(1)] m by simp
    have closed: "vec_perm perm x \<in> set all'" if x: "x \<in> set all'" for x
    proof (rule ccontr)
      assume "vec_perm perm x \<notin> set all'"
      then have "vec_perm perm x \<in> set c" using less.prems(3)[of x] x w(3) by blast
      then obtain y where y: "y \<in> set c" "vec_perm perm y = vec_perm perm x" using cycle_closed(2)[OF w(2)] by blast
      have "x < n" "y < n" using less.prems(1) w(3) x y(1) by auto
      then have "x = y" using y(2) pv perm_on_inj[of n "vec_perm perm" y x] by (simp add: perm_vec_def)
      then show False using x y(1) w(4) by blast
    qed
    obtain cs where cs: "all_cycles perm all' (cycles @ [c]) = Inr ((cycles @ [c]) @ cs)"
      "\<forall>c\<in>set cs. is_cycle (vec_perm perm) c" "distinct (concat cs)" "set (concat cs) = set all'"
      using less.hyps[OF short _ w(5) closed, of "cycles @ [c]"] less.prems(1) w(3) by auto
    have "all_cycles perm all cycles = Inr (cycles @ (c # cs))"
      using False w(1) cs(1) by (subst all_cycles.simps) simp
    moreover have "distinct (concat (c # cs))" using w(2,4) cs(3,4) by (auto simp: is_cycle_def)
    ultimately show ?thesis using w(2,3) cs(2,4) by (intro exI[of _ "c # cs"]) auto
  qed (simp add: all_cycles.simps)
qed

lemma permToCyclePerm_all:
  assumes "perm_vec n perm"
  shows "\<exists>cs. permToCyclePerm n perm = Inr cs \<and> (\<forall>c\<in>set cs. is_cycle (vec_perm perm) c) \<and>
    distinct (concat cs) \<and> set (concat cs) = {..<n}"
proof -
  have "vec_perm perm x \<in> set [0..<n]" if "x \<in> set [0..<n]" for x
    using assms that perm_on_less[of n "vec_perm perm" x] by (simp add: perm_vec_def)
  moreover have "set [0..<n] \<subseteq> {..<n}" by auto
  ultimately show ?thesis
    using all_cycles_correct[OF assms, of "[0..<n]" "[]"] unfolding permToCyclePerm_def by (auto simp: lessThan_atLeast0)
qed

text \<open>
  C26: on a permutation of the size, \<open>permToCyclePerm\<close> ends without undefined accesses and
  returns its cycles: each is a cycle, and together they list every element exactly once.
\<close>

theorem permToCyclePerm_correct:
  assumes "perm_vec n perm"
  shows "\<exists>cs. permToCyclePerm n perm = Inr cs \<and> (\<forall>c\<in>set cs. is_cycle (vec_perm perm) c) \<and>
    distinct (concat cs) \<and> set (concat cs) = {..<n}"
  by (rule permToCyclePerm_all[OF assms])

theorem permToCyclePerm_correct_witness: "\<exists>cs. permToCyclePerm 3 [1, 0, 2] = Inr cs \<and> set (concat cs) = {..<3}"
proof -
  have three: "i < (3::nat) \<longleftrightarrow> i = 0 \<or> i = 1 \<or> i = 2" for i by auto
  have "perm_vec 3 [1, 0, 2]"
    unfolding perm_vec_def by (intro conjI perm_onI) (auto simp: vec_perm_def three)
  from permToCyclePerm_correct[OF this] show ?thesis by blast
qed

section \<open>Classes of equal cycle length\<close>

text \<open>
  \<open>cycleToParts\<close> collects, for every length, the elements on cycles of that length, orders the
  classes by their least element and writes the elements out, with a flag at the start of every
  class. The cycles come from \<open>permToCyclePerm\<close>, so their lengths and elements are in range.
\<close>

definition length_classes :: "nat \<Rightarrow> nat list list \<Rightarrow> bitdomain list" where
  "length_classes n cycles =
     fold (\<lambda>cyc parts. if length cyc \<noteq> 0
         then fold (\<lambda>el parts. parts[length cyc - 1 := bd_set1 (parts ! (length cyc - 1)) el]) cyc parts
         else parts) cycles (replicate n (bitdomain_new n False))"

definition live_classes :: "nat \<Rightarrow> nat list list \<Rightarrow> bitdomain list" where
  "live_classes n cycles = filter (\<lambda>d. \<not> bd_none d) (length_classes n cycles)"

definition class_elements :: "nat \<Rightarrow> bitdomain \<Rightarrow> nat list" where
  "class_elements n d = (if bd_firstel d = -1 then []
     else filter (\<lambda>i. bd_dom d ! i) [nat (bd_firstel d)..<n])"

definition cycleToParts :: "nat \<Rightarrow> nat list list \<Rightarrow> nat list \<times> bool list \<Rightarrow> nat list \<times> bool list" where
  "cycleToParts n cycles s =
     (let parts = live_classes n cycles;
          mins = sort_key fst (map (\<lambda>i. (bd_firstel (parts ! i), i)) [0..<length parts])
      in fold (\<lambda>el s. let es = class_elements n (parts ! snd el)
           in (fst s @ es, snd s @ map (\<lambda>k. k = 0) [0..<length es])) mins s)"

section \<open>The class \<open>cyclePerm_t\<close>\<close>

record cyclePerm =
  cp_element :: "nat list"
  cp_part :: "nat list"

definition cyclePerm_new :: "nat \<Rightarrow> int list \<Rightarrow> cyclePerm res" where
  "cyclePerm_new n perm = bindE (permToCyclePerm n perm) (\<lambda>cycles.
     Inr \<lparr>cp_element = concat cycles,
          cp_part = concat (map (\<lambda>cyc. map (\<lambda>k. if k = 0 then length cyc else 0) [0..<length cyc]) cycles)\<rparr>)"

text \<open>The last position up to \<open>el\<close> that satisfies \<open>P\<close>, or 0.\<close>

definition last_upto :: "(nat \<Rightarrow> bool) \<Rightarrow> nat \<Rightarrow> nat" where
  "last_upto P el = fold (\<lambda>i p. if P i then i else p) [0..<Suc el] 0"

definition cp_cycle :: "nat \<Rightarrow> cyclePerm \<Rightarrow> int \<Rightarrow> nat list res" where
  "cp_cycle n c i = (if i < 0 \<or> int n \<le> i then Inl UB
     else let el = nat i; p = last_upto (\<lambda>i. 0 < cp_part c ! i) el
          in Inr (if p = el \<and> (p = n - 1 \<or> 0 < cp_part c ! (p + 1)) then [el]
                  else takeWhile (\<lambda>i. \<not> (i \<noteq> p \<and> 0 < cp_part c ! i)) [el..<n] @ [p..<el]))"

text \<open>
  \<open>permOf\<close> tests \<open>el + 1 > problem_size\<close>, so for the last element it reads one past the end of
  both vectors; \<open>beyond\<close> stands for what it finds there.
\<close>

definition cp_permOf :: "nat \<Rightarrow> nat \<times> nat \<Rightarrow> cyclePerm \<Rightarrow> nat \<Rightarrow> nat" where
  "cp_permOf n beyond c el =
     (let part = cp_part c @ [fst beyond]; element = cp_element c @ [snd beyond]
      in if n < el + 1 \<or> 0 < part ! (el + 1)
         then element ! last_upto (\<lambda>i. 0 < part ! i) el
         else element ! (el + 1))"

text \<open>
  \<open>invPermOf\<close> scans upwards from \<open>el\<close>; the scan of \<open>i >= 0; i++\<close> only ends at a cycle start.
\<close>

definition cp_invPermOf :: "nat \<Rightarrow> cyclePerm \<Rightarrow> nat \<Rightarrow> nat res" where
  "cp_invPermOf n c el =
     (if el = 0 \<or> 0 < cp_part c ! el
      then (case List.find (\<lambda>i. 0 < cp_part c ! i) [el..<n] of
              Some i \<Rightarrow> vget (cp_element c) (int i - 1) | None \<Rightarrow> Inl UB)
      else Inr (cp_element c ! (el - 1)))"

section \<open>The classes list every element once\<close>

definition class_set :: "nat list list \<Rightarrow> nat \<Rightarrow> nat set" where
  "class_set cycles l = {el. \<exists>c\<in>set cycles. length c = Suc l \<and> el \<in> set c}"

definition classes_ok :: "nat \<Rightarrow> (nat \<Rightarrow> nat set) \<Rightarrow> bitdomain list \<Rightarrow> bool" where
  "classes_ok n A parts \<longleftrightarrow> length parts = n \<and> (\<forall>l<n. bd_inv n (parts ! l) \<and> bd_vals (parts ! l) = A l)"

lemma classes_ok_cong: "(\<And>l. l < n \<Longrightarrow> A l = B l) \<Longrightarrow> classes_ok n A parts = classes_ok n B parts"
  by (auto simp: classes_ok_def)

lemma classes_ok_cycle:
  assumes "classes_ok n A parts" "set c \<subseteq> {..<n}" "l < n"
  shows "classes_ok n (\<lambda>a. A a \<union> (if a = l then set c else {})) (fold (\<lambda>el parts. parts[l := bd_set1 (parts ! l) el]) c parts)"
  using assms
proof (induction c arbitrary: A parts)
  case (Cons el c)
  have el: "el < n" and inv: "bd_inv n (parts ! l)" using Cons.prems by (auto simp: classes_ok_def)
  have "classes_ok n (\<lambda>a. A a \<union> (if a = l then {el} else {})) (parts[l := bd_set1 (parts ! l) el])"
    using Cons.prems bd.set1_inv[OF inv TrueI el] bd.set1_vals[OF inv TrueI TrueI el]
    by (auto simp: classes_ok_def nth_list_update)
  from Cons.IH[OF this] Cons.prems show ?case
    by (auto elim!: classes_ok_cong[THEN iffD1, rotated] split: if_splits)
qed (simp add: classes_ok_def)

lemma length_classes_ok:
  assumes "\<forall>c\<in>set cycles. set c \<subseteq> {..<n} \<and> length c \<le> n" "0 < n"
  shows "classes_ok n (class_set cycles) (length_classes n cycles)"
proof -
  let ?f = "\<lambda>cyc parts. if length cyc \<noteq> 0
         then fold (\<lambda>el parts. parts[length cyc - 1 := bd_set1 (parts ! (length cyc - 1)) el]) cyc parts
         else parts"
  have "classes_ok n (\<lambda>l. A l \<union> class_set cs l) (fold ?f cs parts)"
    if "classes_ok n A parts" "\<forall>c\<in>set cs. set c \<subseteq> {..<n} \<and> length c \<le> n" for cs A parts
    using that
  proof (induction cs arbitrary: A parts)
    case (Cons c cs)
    note prems = Cons.prems
    let ?A = "\<lambda>a. A a \<union> (if a = length c - 1 then set c else {})"
    have "classes_ok n ?A (?f c parts)"
    proof (cases c)
      case Nil
      then show ?thesis using prems(1) by (simp add: classes_ok_def)
    next
      case (Cons x xs)
      then have "c \<noteq> []" "length c - 1 < n" using prems(2) by auto
      then show ?thesis using prems classes_ok_cycle[of n A parts c "length c - 1"] by simp
    qed
    then have "classes_ok n (\<lambda>l. ?A l \<union> class_set cs l) (fold ?f cs (?f c parts))"
      using Cons.prems by (intro Cons.IH) auto
    moreover have "?A l \<union> class_set cs l = A l \<union> class_set (c # cs) l" for l
      by (cases c) (auto simp: class_set_def)
    ultimately show ?case by simp
  qed (simp add: class_set_def)
  from this[of "\<lambda>l. {}" "replicate n (bitdomain_new n False)" cycles] assms show ?thesis
    using bitdomain_new_inv[OF assms(2), of False] bitdomain_new_vals[of n False]
    by (simp add: length_classes_def classes_ok_def)
qed

lemma class_elements_eq:
  assumes "bd_inv n d"
  shows "class_elements n d = sorted_list_of_set (bd_vals d)"
proof -
  have eq: "filter (\<lambda>i. bd_dom d ! i) [m..<n] = filter (\<lambda>i. i \<in> bd_vals d) [m..<n]" for m
    by (rule filter_cong) (auto simp: bd_dom_vals[OF assms])
  have "sorted (filter (\<lambda>i. i \<in> bd_vals d) [m..<n])" for m by (simp add: sorted_wrt_filter)
  moreover have "bd_vals d = set (filter (\<lambda>i. i \<in> bd_vals d) [nat (bd_firstel d)..<n])" if "bd_firstel d \<noteq> -1"
    using that bd.firstel_nat(3)[OF assms TrueI] bd.firstel_neg[OF assms TrueI] bd_vals_bound[OF assms] by fastforce
  moreover have "bd_vals d = {}" if "bd_firstel d = -1" using that bd.firstel_neg[OF assms TrueI] by simp
  ultimately show ?thesis
    unfolding class_elements_def eq
    by (auto simp del: set_filter intro!: sorted_distinct_set_unique)
qed

text \<open>A flagged listing of disjoint blocks: the flags mark the block starts.\<close>

definition flags_of :: "nat list list \<Rightarrow> bool list" where
  "flags_of bs = concat (map (\<lambda>es. map (\<lambda>k. k = 0) [0..<length es]) bs)"

lemma mset_concat_cong:
  assumes "mset xss = mset yss"
  shows "mset (concat xss) = mset (concat yss)"
proof -
  have "mset (concat zss) = sum_mset (image_mset mset (mset zss))" for zss :: "'a list list"
    by (induction zss) simp_all
  then show ?thesis using assms by simp
qed

lemma cycleToParts_blocks:
  assumes cs: "\<forall>c\<in>set cycles. c \<noteq> [] \<and> length c \<le> n" "distinct (concat cycles)" "set (concat cycles) = {..<n}" "0 < n"
  shows "\<exists>bs. cycleToParts n cycles ([], []) = (concat bs, flags_of bs) \<and> distinct (concat bs) \<and>
    set (concat bs) = {..<n} \<and> [] \<notin> set bs"
proof -
  let ?parts = "live_classes n cycles"
  let ?f = "\<lambda>d. sorted_list_of_set (bd_vals d)"
  let ?g = "\<lambda>l. sorted_list_of_set (class_set cycles l)"
  let ?mins = "sort_key fst (map (\<lambda>i. (bd_firstel (?parts ! i), i)) [0..<length ?parts])"
  let ?bs = "map (\<lambda>el. class_elements n (?parts ! snd el)) ?mins"
  have C: "classes_ok n (class_set cycles) (length_classes n cycles)"
    using cs by (intro length_classes_ok) auto
  have inv: "bd_inv n d" if "d \<in> set (length_classes n cycles)" for d
    using that C by (auto simp: classes_ok_def in_set_conv_nth)
  have none: "bd_none d \<longleftrightarrow> ?f d = []" if "d \<in> set (length_classes n cycles)" for d
    using bd.none_eq[OF inv[OF that] TrueI] by simp
  have "map ?f (length_classes n cycles) = map ?g [0..<n]"
    using C by (intro nth_equalityI) (auto simp: classes_ok_def)
  moreover have "concat (map ?f (filter (\<lambda>d. \<not> bd_none d) ds)) = concat (map ?f ds)"
    if "set ds \<subseteq> set (length_classes n cycles)" for ds using that none by (induction ds) auto
  ultimately have live: "concat (map ?f ?parts) = concat (map ?g [0..<n])" by (simp add: live_classes_def)
  have disj: "l = m" if "x \<in> class_set cycles l" "x \<in> class_set cycles m" for x l m
  proof -
    obtain c c' where c: "c \<in> set cycles" "c' \<in> set cycles" "x \<in> set c" "x \<in> set c'" "length c = Suc l" "length c' = Suc m"
      using \<open>x \<in> class_set cycles l\<close> \<open>x \<in> class_set cycles m\<close> by (auto simp: class_set_def)
    then have "c = c'" using cs(2) by (auto simp: distinct_concat_iff)
    then show "l = m" using c by simp
  qed
  have fin: "finite (class_set cycles l)" for l
    by (rule finite_subset[of _ "set (concat cycles)"]) (auto simp: class_set_def)
  have dist: "distinct (concat (map ?g xs))" if "distinct xs" for xs
    using that
  proof (induction xs)
    case (Cons x xs)
    then show ?case using disj fin by auto
  qed simp
  have un: "set (concat (map ?g [0..<n])) = {..<n}"
  proof -
    have "set (concat (map ?g [0..<n])) = (\<Union>l<n. class_set cycles l)" using fin by auto
    also have "\<dots> = set (concat cycles)"
    proof
      show "set (concat cycles) \<subseteq> (\<Union>l<n. class_set cycles l)"
      proof
        fix x assume "x \<in> set (concat cycles)"
        then obtain c where c: "c \<in> set cycles" "x \<in> set c" by auto
        then have "c \<noteq> []" "length c \<le> n" using cs(1) by auto
        then have "length c = Suc (length c - 1)" "length c - 1 < n" by (cases c; simp)+
        then show "x \<in> (\<Union>l<n. class_set cycles l)" using c by (auto simp: class_set_def)
      qed
    qed (auto simp: class_set_def)
    finally show ?thesis using cs(3) by simp
  qed
  have "mset (map snd ?mins) = mset [0..<length ?parts]"
  proof -
    have "mset (map snd ?mins) = image_mset snd (mset (map (\<lambda>i. (bd_firstel (?parts ! i), i)) [0..<length ?parts]))"
      by (simp only: mset_map mset_sort)
    also have "\<dots> = mset [0..<length ?parts]" unfolding mset_map[symmetric] by (simp add: comp_def)
    finally show ?thesis .
  qed
  then have "mset (map (\<lambda>i. class_elements n (?parts ! i)) (map snd ?mins)) = mset (map (\<lambda>i. class_elements n (?parts ! i)) [0..<length ?parts])"
    by (metis mset_map)
  then have "mset ?bs = mset (map (class_elements n) ?parts)"
  proof -
    have "map (\<lambda>i. class_elements n (?parts ! i)) [0..<length ?parts] = map (class_elements n) (map ((!) ?parts) [0..<length ?parts])"
      by simp
    also have "\<dots> = map (class_elements n) ?parts" by (simp only: map_nth)
    finally show ?thesis using \<open>mset (map _ (map snd ?mins)) = _\<close> by (simp only: map_map comp_def)
  qed
  also have "map (class_elements n) ?parts = map ?f ?parts"
    using inv by (intro map_cong) (auto simp: live_classes_def class_elements_eq)
  finally have mbs: "mset ?bs = mset (map ?f ?parts)" .
  then have mc: "mset (concat ?bs) = mset (concat (map ?g [0..<n]))"
    unfolding live[symmetric] by (rule mset_concat_cong)
  have "distinct (concat ?bs)" "set (concat ?bs) = {..<n}"
    using dist[of "[0..<n]"] un mset_eq_setD[OF mc] mset_eq_imp_distinct_iff[OF mc] by simp_all
  moreover have "[] \<notin> set ?bs"
  proof -
    have "?f d \<noteq> []" if "d \<in> set ?parts" for d using that none[of d] by (simp add: live_classes_def)
    then have "[] \<notin> set (map ?f ?parts)" by (metis (no_types, lifting) imageE list.set_map)
    then show ?thesis unfolding mset_eq_setD[OF mbs] .
  qed
  moreover have "cycleToParts n cycles ([], []) = (concat ?bs, flags_of ?bs)"
  proof -
    have "fold (\<lambda>el s. let es = h el in (fst s @ es, snd s @ map (\<lambda>k. k = 0) [0..<length es])) xs s =
        (fst s @ concat (map h xs), snd s @ flags_of (map h xs))" for h :: "int \<times> nat \<Rightarrow> nat list" and xs s
      by (induction xs arbitrary: s) (simp_all add: flags_of_def Let_def)
    then show ?thesis by (simp add: cycleToParts_def Let_def)
  qed
  ultimately show ?thesis by blast
qed

end
