(* ===== verification/Perms.thy ===== *)
theory Perms
  imports Cycles
begin

text \<open>
  Partially defined permutations (\<^verbatim>\<open>useful.cpp\<close>): \<open>pperm_plain\<close>, an ordered partition kept
  as a listing with flags at the block starts, and \<open>pperm_bit\<close>, one domain of images per row.
  The abstract class \<open>pperm_common\<close> is the datatype \<open>pperm\<close> with its virtual methods as
  functions by case; what its clients rely on is the locale \<open>pperm_store\<close>.
\<close>

section \<open>The class \<open>pperm_plain\<close>\<close>

record pplain =
  pl_element :: "nat list"
  pl_part :: "bool list"

definition plain_new :: "nat \<Rightarrow> int list \<Rightarrow> pplain res" where
  "plain_new n perm = bindE (permToCyclePerm n perm) (\<lambda>cyc.
     case cycleToParts n cyc ([], []) of (element, part) \<Rightarrow> Inr \<lparr>pl_element = element, pl_part = part\<rparr>)"

definition plain_fixed :: "nat \<Rightarrow> pplain \<Rightarrow> nat \<Rightarrow> bool" where
  "plain_fixed n p el = (if el = n - 1 then pl_part p ! el else pl_part p ! el \<and> pl_part p ! (el + 1))"

definition plain_fullDefined :: "nat \<Rightarrow> pplain \<Rightarrow> bool" where
  "plain_fullDefined n p = list_all (plain_fixed n p) [0..<n]"

definition plain_permOf :: "nat \<Rightarrow> pplain \<Rightarrow> nat \<Rightarrow> int" where
  "plain_permOf n p el = (if plain_fixed n p el then int (pl_element p ! el) else -1)"

text \<open>\<^theory_text>\<open>find(element.begin(), element.end(), x) - element.begin()\<close>\<close>

definition position :: "nat list \<Rightarrow> nat \<Rightarrow> nat" where
  "position xs x = length (takeWhile (\<lambda>y. y \<noteq> x) xs)"

definition plain_invPermOf :: "nat \<Rightarrow> pplain \<Rightarrow> nat \<Rightarrow> int" where
  "plain_invPermOf n p x =
     (let invEl = position (pl_element p) x in if plain_fixed n p invEl then int invEl else -1)"

definition plain_fix :: "nat \<Rightarrow> pplain \<Rightarrow> nat \<Rightarrow> nat \<Rightarrow> bool \<times> pplain" where
  "plain_fix n p el img =
     (let iperm = plain_invPermOf n p img
      in if plain_fixed n p el \<or> (iperm \<noteq> -1 \<and> plain_fixed n p (nat iperm)) then (pl_element p ! el = img, p)
         else let e = pl_element p;
                  swp = position e img;
                  e1 = (if e ! el \<noteq> img then e[el := e ! swp, swp := e ! el] else e);
                  part1 = (if el + 1 \<le> n - 1 then (pl_part p)[el + 1 := True] else pl_part p)
              in (True, \<lparr>pl_element = e1, pl_part = part1\<rparr>))"

definition plain_getPerm :: "pplain \<Rightarrow> int list" where
  "plain_getPerm p = map int (pl_element p)"

text \<open>The positions of the block of \<open>el\<close>, from \<open>el\<close> on and then those before it.\<close>

definition plain_block :: "nat \<Rightarrow> pplain \<Rightarrow> nat \<Rightarrow> nat list" where
  "plain_block n p el =
     (let s = last_upto (\<lambda>i. pl_part p ! i) el
      in if s = el \<and> (s = n - 1 \<or> pl_part p ! (s + 1)) then [el]
         else takeWhile (\<lambda>i. \<not> (i \<noteq> s \<and> pl_part p ! i)) [el..<n] @ [s..<el])"

definition plain_options :: "nat \<Rightarrow> pplain \<Rightarrow> nat \<Rightarrow> nat list" where
  "plain_options n p el = map (\<lambda>i. pl_element p ! i) (plain_block n p el)"

text \<open>An element that is not listed (there is none in the program) is looked up at position 0.\<close>

definition plain_invOptions :: "nat \<Rightarrow> pplain \<Rightarrow> nat \<Rightarrow> nat list" where
  "plain_invOptions n p el =
     (if el \<in> set (pl_element p) then plain_block n p (position (pl_element p) el)
      else (let s = last_upto (\<lambda>i. pl_part p ! i) (n - 1)
            in if s = 0 \<and> (s = n - 1 \<or> pl_part p ! (s + 1)) then [0]
               else takeWhile (\<lambda>i. \<not> (i \<noteq> s \<and> pl_part p ! i)) [0..<n]))"

section \<open>The class \<open>pperm_bit\<close>\<close>

text \<open>The inner loop of the constructor: a domain is copied into the row of \<open>j\<close>.\<close>

definition bit_write :: "bitdomain \<Rightarrow> nat \<Rightarrow> bitdomains2 \<Rightarrow> bitdomains2" where
  "bit_write d j info = info\<lparr>bd2_dom :=
     fold (\<lambda>l dom. dom[j * bd2_chunk info + 2 + l := of_bool (bd_dom d ! l)]) [0..<length (bd_dom d)]
       ((bd2_dom info)[bd2_chunk info * j := bd_firstel d, bd2_chunk info * j + 1 := bd_numTrue d])\<rparr>"

definition bit_new :: "nat \<Rightarrow> int list \<Rightarrow> bitdomains2 res" where
  "bit_new n perm = bindE (permToCyclePerm n perm) (\<lambda>cyc.
     Inr (fold (\<lambda>d info. if \<not> bd_none d then fold (bit_write d) (bd_options d) info else info)
            (live_classes n cyc) (bd2_new n False)))"

definition bit_fixed :: "bitdomains2 \<Rightarrow> nat \<Rightarrow> bool" where
  "bit_fixed info p = (bd2_numtrue info p = 1)"

definition bit_permOf :: "bitdomains2 \<Rightarrow> nat \<Rightarrow> int" where
  "bit_permOf info p = (if bit_fixed info p then bd2_firstel info p else -1)"

definition bit_invOptions :: "nat \<Rightarrow> bitdomains2 \<Rightarrow> nat \<Rightarrow> nat list" where
  "bit_invOptions n info p = filter (\<lambda>i. bd2_get info i p) [0..<n]"

definition bit_invPermOf :: "nat \<Rightarrow> bitdomains2 \<Rightarrow> nat \<Rightarrow> int" where
  "bit_invPermOf n info p = (case List.find (\<lambda>i. bit_permOf info i = int p) [0..<n] of Some i \<Rightarrow> int i | None \<Rightarrow> -1)"

fun bit_fix_loop :: "nat \<Rightarrow> nat \<Rightarrow> nat \<Rightarrow> nat list \<Rightarrow> bitdomains2 \<Rightarrow> bool \<times> bitdomains2" where
  "bit_fix_loop n p pp [] info = (True, info)"
| "bit_fix_loop n p pp (i # is) info =
     (if i = p then bit_fix_loop n p pp is (bd2_set1 (bd2_reset_all info i) i pp)
      else let info1 = bd2_reset1 n info i pp
           in if bd2_none info1 i then (False, info1) else bit_fix_loop n p pp is info1)"

definition bit_fix :: "nat \<Rightarrow> bitdomains2 \<Rightarrow> nat \<Rightarrow> nat \<Rightarrow> bool \<times> bitdomains2" where
  "bit_fix n info p pp = (if \<not> bd2_get info p pp then (False, info) else bit_fix_loop n p pp [0..<n] info)"

definition bit_fullDefined :: "nat \<Rightarrow> bitdomains2 \<Rightarrow> bool" where
  "bit_fullDefined n info = list_all (bit_fixed info) [0..<n]"

definition bit_getPerm :: "nat \<Rightarrow> bitdomains2 \<Rightarrow> int list" where
  "bit_getPerm n info = map (\<lambda>i. if bit_fixed info i then bd2_firstel info i else -1) [0..<n]"

section \<open>The class \<open>pperm_common\<close>\<close>

datatype pperm = Plain pplain | Bit bitdomains2

fun pp_options :: "nat \<Rightarrow> pperm \<Rightarrow> nat \<Rightarrow> nat list" where
  "pp_options n (Plain p) i = plain_options n p i"
| "pp_options n (Bit p) i = bd2_options n p i"

fun pp_invOptions :: "nat \<Rightarrow> pperm \<Rightarrow> nat \<Rightarrow> nat list" where
  "pp_invOptions n (Plain p) i = plain_invOptions n p i"
| "pp_invOptions n (Bit p) i = bit_invOptions n p i"

fun pp_fixed :: "nat \<Rightarrow> pperm \<Rightarrow> nat \<Rightarrow> bool" where
  "pp_fixed n (Plain p) i = plain_fixed n p i"
| "pp_fixed n (Bit p) i = bit_fixed p i"

fun pp_permOf :: "nat \<Rightarrow> pperm \<Rightarrow> nat \<Rightarrow> int" where
  "pp_permOf n (Plain p) i = plain_permOf n p i"
| "pp_permOf n (Bit p) i = bit_permOf p i"

fun pp_invPermOf :: "nat \<Rightarrow> pperm \<Rightarrow> nat \<Rightarrow> int" where
  "pp_invPermOf n (Plain p) i = plain_invPermOf n p i"
| "pp_invPermOf n (Bit p) i = bit_invPermOf n p i"

fun pp_fix :: "nat \<Rightarrow> pperm \<Rightarrow> nat \<Rightarrow> nat \<Rightarrow> bool \<times> pperm" where
  "pp_fix n (Plain p) i j = map_prod id Plain (plain_fix n p i j)"
| "pp_fix n (Bit p) i j = map_prod id Bit (bit_fix n p i j)"

fun pp_fullDefined :: "nat \<Rightarrow> pperm \<Rightarrow> bool" where
  "pp_fullDefined n (Plain p) = plain_fullDefined n p"
| "pp_fullDefined n (Bit p) = bit_fullDefined n p"

fun pp_getPerm :: "nat \<Rightarrow> pperm \<Rightarrow> int list" where
  "pp_getPerm n (Plain p) = plain_getPerm p"
| "pp_getPerm n (Bit p) = bit_getPerm n p"

section \<open>The contract\<close>

text \<open>
  \<open>startable\<close> tells which rows may be fixed: any row of a \<open>pperm_bit\<close>, the first row of a block
  of a \<open>pperm_plain\<close> (the search fixes the rows in increasing order).
\<close>

locale pperm_store =
  fixes n :: nat
    and wf :: "'p \<Rightarrow> bool"
    and startable :: "'p \<Rightarrow> nat \<Rightarrow> bool"
    and options inv_options :: "'p \<Rightarrow> nat \<Rightarrow> nat list"
    and fixed :: "'p \<Rightarrow> nat \<Rightarrow> bool"
    and perm_of inv_perm_of :: "'p \<Rightarrow> nat \<Rightarrow> int"
    and fixp :: "'p \<Rightarrow> nat \<Rightarrow> nat \<Rightarrow> bool \<times> 'p"
    and full_defined :: "'p \<Rightarrow> bool"
    and get_perm :: "'p \<Rightarrow> int list"
  assumes options_range: "wf p \<Longrightarrow> i < n \<Longrightarrow> set (options p i) \<subseteq> {..<n}"
    and inv_options_iff: "wf p \<Longrightarrow> j < n \<Longrightarrow> i \<in> set (inv_options p j) \<longleftrightarrow> i < n \<and> j \<in> set (options p i)"
    and fixed_iff: "wf p \<Longrightarrow> i < n \<Longrightarrow> fixed p i \<longleftrightarrow> (\<exists>x. set (options p i) = {x})"
    and perm_of_fixed: "wf p \<Longrightarrow> i < n \<Longrightarrow> fixed p i \<Longrightarrow> 0 \<le> perm_of p i \<and> set (options p i) = {nat (perm_of p i)}"
    and perm_of_free: "wf p \<Longrightarrow> i < n \<Longrightarrow> \<not> fixed p i \<Longrightarrow> perm_of p i = -1"
    and inv_perm_of_some: "wf p \<Longrightarrow> j < n \<Longrightarrow> inv_perm_of p j \<noteq> -1 \<Longrightarrow>
      0 \<le> inv_perm_of p j \<and> nat (inv_perm_of p j) < n \<and> perm_of p (nat (inv_perm_of p j)) = int j"
    and inv_perm_of_none: "wf p \<Longrightarrow> j < n \<Longrightarrow> inv_perm_of p j = -1 \<Longrightarrow> i < n \<Longrightarrow> perm_of p i \<noteq> int j"
    and fix_ok: "wf p \<Longrightarrow> i < n \<Longrightarrow> j \<in> set (options p i) \<Longrightarrow> startable p i \<Longrightarrow> fixp p i j = (True, p') \<Longrightarrow>
      wf p' \<and> set (options p' i) = {j} \<and> (\<forall>i'<n. i' \<noteq> i \<longrightarrow> set (options p' i') = set (options p i') - {j})"
    and fix_fails: "wf p \<Longrightarrow> i < n \<Longrightarrow> j \<in> set (options p i) \<Longrightarrow> startable p i \<Longrightarrow> fixp p i j = (False, p') \<Longrightarrow>
      \<exists>i'<n. i' \<noteq> i \<and> set (options p i') \<subseteq> {j}"
    and fix_wf: "wf p \<Longrightarrow> i < n \<Longrightarrow> j < n \<Longrightarrow> wf (snd (fixp p i j))"
    and full_defined_iff: "wf p \<Longrightarrow> full_defined p \<longleftrightarrow> (\<forall>i<n. fixed p i)"
    and get_perm_full: "wf p \<Longrightarrow> full_defined p \<Longrightarrow> get_perm p = map (perm_of p) [0..<n]"
begin

text \<open>The permutations a state stands for.\<close>

definition repr :: "'p \<Rightarrow> (nat \<Rightarrow> nat) set" where
  "repr p = {s. perm_on n s \<and> (\<forall>i<n. s i \<in> set (options p i))}"

lemma reprD: "s \<in> repr p \<Longrightarrow> perm_on n s" "s \<in> repr p \<Longrightarrow> i < n \<Longrightarrow> s i \<in> set (options p i)"
  by (simp_all add: repr_def)

lemma fix_repr:
  assumes "wf p" "i < n" "j \<in> set (options p i)" "startable p i" "fixp p i j = (True, p')"
  shows "repr p' = {s \<in> repr p. s i = j}"
proof -
  note f = fix_ok[OF assms]
  have "s \<in> repr p' \<longleftrightarrow> s \<in> repr p \<and> s i = j" for s
  proof
    assume s: "s \<in> repr p'"
    then have si: "s i = j" using reprD(2)[OF s assms(2)] f by simp
    have "s i' \<in> set (options p i')" if "i' < n" for i'
      using reprD(2)[OF s that] f that si assms(3) by (cases "i' = i") auto
    then show "s \<in> repr p \<and> s i = j" using si reprD(1)[OF s] by (simp add: repr_def)
  next
    assume s: "s \<in> repr p \<and> s i = j"
    then have p: "perm_on n s" by (simp add: repr_def)
    have "s i' \<noteq> j" if "i' < n" "i' \<noteq> i" for i' using s perm_on_inj[OF p that(1) assms(2)] that(2) by auto
    then have "s i' \<in> set (options p' i')" if "i' < n" for i'
      using s f that by (cases "i' = i") (auto simp: repr_def)
    then show "s \<in> repr p'" using p by (simp add: repr_def)
  qed
  then show ?thesis by auto
qed

lemma fix_none:
  assumes "wf p" "i < n" "j \<in> set (options p i)" "startable p i" "fixp p i j = (False, p')"
  shows "s \<in> repr p \<Longrightarrow> s i \<noteq> j"
proof
  assume s: "s \<in> repr p" "s i = j"
  obtain i' where i': "i' < n" "i' \<noteq> i" "set (options p i') \<subseteq> {j}" using fix_fails[OF assms] by blast
  then have "s i' = j" using reprD(2)[OF s(1) i'(1)] by auto
  then show False using s i'(1,2) perm_on_inj[OF reprD(1)[OF s(1)] i'(1) assms(2)] by simp
qed

lemma perm_of_repr: "wf p \<Longrightarrow> i < n \<Longrightarrow> perm_of p i \<noteq> -1 \<Longrightarrow> s \<in> repr p \<Longrightarrow> s i = nat (perm_of p i)"
  using perm_of_fixed[of p i] perm_of_free[of p i] reprD(2)[of s p i] by (cases "fixed p i") auto

lemma inv_perm_of_repr:
  assumes "wf p" "j < n" "inv_perm_of p j \<noteq> -1" "s \<in> repr p"
  shows "pinv n s j = nat (inv_perm_of p j)"
proof -
  note i = inv_perm_of_some[OF assms(1-3)]
  then have "s (nat (inv_perm_of p j)) = j"
    using perm_of_repr[OF assms(1) _ _ assms(4), of "nat (inv_perm_of p j)"] by simp
  then show ?thesis using i reprD(1)[OF assms(4)] pinv_eq by blast
qed

lemma inv_options_repr:
  assumes "wf p" "j < n" "s \<in> repr p"
  shows "pinv n s j \<in> set (inv_options p j)"
  using assms inv_options_iff[OF assms(1,2)] reprD[OF assms(3)] pinv_less[of n s j] by force

lemma full_defined_repr:
  assumes "wf p" "full_defined p" "s \<in> repr p" "i < n"
  shows "get_perm p ! i = int (s i)"
proof -
  have fx: "fixed p i" using assms full_defined_iff by blast
  have "s i = nat (perm_of p i)" using perm_of_fixed[OF assms(1,4) fx] reprD(2)[OF assms(3,4)] by auto
  then show ?thesis using get_perm_full[OF assms(1,2)] perm_of_fixed[OF assms(1,4) fx] assms(4) by simp
qed

end

section \<open>\<open>pperm_plain\<close> keeps the contract\<close>

definition plain_wf :: "nat \<Rightarrow> pplain \<Rightarrow> bool" where
  "plain_wf n p \<longleftrightarrow> 0 < n \<and> length (pl_element p) = n \<and> distinct (pl_element p) \<and> set (pl_element p) = {..<n} \<and>
     length (pl_part p) = n \<and> pl_part p ! 0"

definition block_start :: "pplain \<Rightarrow> nat \<Rightarrow> nat" where
  "block_start p el = last_upto (\<lambda>i. pl_part p ! i) el"

lemma last_upto_Suc: "last_upto P (Suc el) = (if P (Suc el) then Suc el else last_upto P el)"
  by (simp add: last_upto_def)

lemma last_upto_spec:
  assumes "P 0"
  shows "last_upto P el \<le> el \<and> P (last_upto P el) \<and> (\<forall>i. last_upto P el < i \<longrightarrow> i \<le> el \<longrightarrow> \<not> P i)"
proof (induction el)
  case (Suc el)
  then show ?case unfolding last_upto_Suc by (auto simp: le_Suc_eq)
qed (simp add: last_upto_def assms)

lemma last_upto_eq:
  assumes "P 0" "s \<le> el" "P s" "\<And>i. s < i \<Longrightarrow> i \<le> el \<Longrightarrow> \<not> P i"
  shows "last_upto P el = s"
  using last_upto_spec[of P el, OF assms(1)] assms(2-4) by (metis linorder_neqE_nat)

lemma set_takeWhile_upt: "set (takeWhile Q [a..<b]) = {i. a \<le> i \<and> i < b \<and> (\<forall>k. a \<le> k \<longrightarrow> k \<le> i \<longrightarrow> Q k)}"
proof (induction "b - a" arbitrary: a)
  case (Suc d)
  then have ab: "a < b" "[a..<b] = a # [Suc a..<b]" "d = b - Suc a" by (auto simp: upt_conv_Cons)
  have IH: "set (takeWhile Q [Suc a..<b]) = {i. Suc a \<le> i \<and> i < b \<and> (\<forall>k. Suc a \<le> k \<longrightarrow> k \<le> i \<longrightarrow> Q k)}"
    using Suc.hyps(1)[OF ab(3)] .
  show ?case
  proof (cases "Q a")
    case True
    have split: "(\<forall>k. a \<le> k \<longrightarrow> k \<le> i \<longrightarrow> Q k) \<longleftrightarrow> (\<forall>k. Suc a \<le> k \<longrightarrow> k \<le> i \<longrightarrow> Q k)" for i
    proof (intro iffI allI impI)
      fix k assume "\<forall>k. Suc a \<le> k \<longrightarrow> k \<le> i \<longrightarrow> Q k" "a \<le> k" "k \<le> i"
      then show "Q k" using True by (cases "k = a") auto
    qed auto
    show ?thesis unfolding ab(2) takeWhile.simps using True ab(1)
      by (simp add: IH split) (auto simp: Suc_le_eq)
  qed (auto simp: ab(2))
qed simp

lemma start_spec:
  assumes wf: "plain_wf n p"
  shows "block_start p el \<le> el" "pl_part p ! block_start p el" "block_start p el < i \<Longrightarrow> i \<le> el \<Longrightarrow> \<not> pl_part p ! i"
  using last_upto_spec[of "\<lambda>i. pl_part p ! i" el] wf by (auto simp: plain_wf_def block_start_def)

lemma start_eqI:
  "plain_wf n p \<Longrightarrow> s \<le> el \<Longrightarrow> pl_part p ! s \<Longrightarrow> (\<And>i. s < i \<Longrightarrow> i \<le> el \<Longrightarrow> \<not> pl_part p ! i) \<Longrightarrow> block_start p el = s"
  using last_upto_eq[of "\<lambda>i. pl_part p ! i" s el] by (auto simp: plain_wf_def block_start_def)

lemma start_mono_eq:
  assumes wf: "plain_wf n p" and ij: "i \<le> j"
  shows "block_start p i = block_start p j \<longleftrightarrow> block_start p j \<le> i"
proof
  assume "block_start p j \<le> i"
  then show "block_start p i = block_start p j"
    using start_spec[OF wf, of j] ij by (intro start_eqI[OF wf]) auto
qed (use start_spec(1)[OF wf, of i] in simp)

lemma set_plain_block:
  assumes wf: "plain_wf n p" and el: "el < n"
  shows "set (plain_block n p el) = {i. i < n \<and> block_start p i = block_start p el}"
proof -
  let ?s = "block_start p el"
  note spec = start_spec[OF wf]
  have low: "block_start p i = ?s \<longleftrightarrow> ?s \<le> i" if "i \<le> el" for i by (rule start_mono_eq[OF wf that])
  have high: "block_start p i = ?s \<longleftrightarrow> (\<forall>k. el \<le> k \<longrightarrow> k \<le> i \<longrightarrow> \<not> (k \<noteq> ?s \<and> pl_part p ! k))" if "el \<le> i" for i
  proof
    assume b: "block_start p i = ?s"
    show "\<forall>k. el \<le> k \<longrightarrow> k \<le> i \<longrightarrow> \<not> (k \<noteq> ?s \<and> pl_part p ! k)"
    proof (intro allI impI notI)
      fix k assume k: "el \<le> k" "k \<le> i" "k \<noteq> ?s \<and> pl_part p ! k"
      then have "?s < k" using spec(1)[of el] by simp
      then show False using spec(3)[of i k] b k by simp
    qed
  next
    assume r: "\<forall>k. el \<le> k \<longrightarrow> k \<le> i \<longrightarrow> \<not> (k \<noteq> ?s \<and> pl_part p ! k)"
    show "block_start p i = ?s"
    proof (rule start_eqI[OF wf])
      show "?s \<le> i" using spec(1)[of el] that by simp
      show "\<not> pl_part p ! k" if "?s < k" "k \<le> i" for k
        using r spec(3)[of el k] that by (cases "el \<le> k") auto
    qed (rule spec(2))
  qed
  show ?thesis
  proof (cases "?s = el \<and> (?s = n - 1 \<or> pl_part p ! (?s + 1))")
    case True
    have "block_start p i = ?s \<longleftrightarrow> i = el" if i: "i < n" for i
    proof (cases "i \<le> el")
      case False
      then have "pl_part p ! (el + 1)" "el + 1 \<le> i" using True i by auto
      then show ?thesis using high[of i] False True by (metis Suc_eq_plus1 le_add1 n_not_Suc_n nat_le_linear)
    next
      case le: True
      then show ?thesis using low[OF le] True by auto
    qed
    then have "{i. i < n \<and> block_start p i = ?s} = {el}" using el by blast
    moreover have "plain_block n p el = [el]"
      by (simp only: plain_block_def Let_def block_start_def[symmetric] if_P[OF True])
    ultimately show ?thesis by simp
  next
    case False
    then have "plain_block n p el = takeWhile (\<lambda>i. \<not> (i \<noteq> ?s \<and> pl_part p ! i)) [el..<n] @ [?s..<el]"
      by (simp only: plain_block_def Let_def block_start_def[symmetric] if_not_P if_False)
    then have "set (plain_block n p el) = {i. el \<le> i \<and> i < n \<and> (\<forall>k. el \<le> k \<longrightarrow> k \<le> i \<longrightarrow> \<not> (k \<noteq> ?s \<and> pl_part p ! k))} \<union> {?s..<el}"
      by (simp only: set_append set_takeWhile_upt set_upt)
    also have "\<dots> = {i. el \<le> i \<and> i < n \<and> block_start p i = ?s} \<union> {?s..<el}"
      using high by blast
    also have "\<dots> = {i. i < n \<and> block_start p i = ?s}"
    proof (intro equalityI subsetI)
      fix i assume "i \<in> {i. i < n \<and> block_start p i = ?s}"
      then show "i \<in> {i. el \<le> i \<and> i < n \<and> block_start p i = ?s} \<union> {?s..<el}" using low[of i] by (cases "el \<le> i") auto
    qed (use low el in auto)
    finally show ?thesis .
  qed
qed

lemma plain_fixed_start:
  assumes wf: "plain_wf n p" and el: "el < n"
  shows "plain_fixed n p el \<longleftrightarrow> {i. i < n \<and> block_start p i = block_start p el} = {el}"
proof
  note spec = start_spec[OF wf]
  assume f: "plain_fixed n p el"
  then have s: "block_start p el = el" by (intro start_eqI[OF wf]) (auto simp: plain_fixed_def split: if_splits)
  have "i = el" if "i < n" "block_start p i = el" for i
  proof (rule ccontr)
    assume "i \<noteq> el"
    then have "el < i" using that(2) spec(1)[of i] by simp
    then have "pl_part p ! (el + 1)" using f that(1) by (auto simp: plain_fixed_def split: if_splits)
    then show False using spec(3)[of i "el + 1"] that(2) \<open>el < i\<close> by simp
  qed
  then show "{i. i < n \<and> block_start p i = block_start p el} = {el}" using el s by auto
next
  note spec = start_spec[OF wf]
  assume e: "{i. i < n \<and> block_start p i = block_start p el} = {el}"
  let ?s = "block_start p el"
  have "block_start p ?s = ?s" "?s < n" using start_mono_eq[OF wf spec(1)] spec(1)[of el] el by simp_all
  then have "?s \<in> {el}" unfolding e[symmetric] by simp
  then have s: "?s = el" by simp
  have "pl_part p ! (el + 1)" if "el \<noteq> n - 1"
  proof (rule ccontr)
    assume np: "\<not> pl_part p ! (el + 1)"
    have "block_start p (el + 1) = el"
    proof (rule start_eqI[OF wf])
      show "pl_part p ! el" using spec(2)[of el] s by simp
      show "\<not> pl_part p ! i" if "el < i" "i \<le> el + 1" for i using np that by (cases "i = el + 1") auto
    qed simp
    moreover have "el + 1 < n" using that el by simp
    ultimately have "el + 1 \<in> {el}" unfolding e[symmetric] using s by simp
    then show False by simp
  qed
  moreover have "pl_part p ! el" using spec(2)[of el] s by simp
  ultimately show "plain_fixed n p el" unfolding plain_fixed_def by (cases "el = n - 1") simp_all
qed

lemma set_plain_options:
  "plain_wf n p \<Longrightarrow> el < n \<Longrightarrow> set (plain_options n p el) = (\<lambda>i. pl_element p ! i) ` {i. i < n \<and> block_start p i = block_start p el}"
  by (simp add: plain_options_def set_plain_block)

lemma length_takeWhile_lt: "\<exists>x\<in>set xs. \<not> P x \<Longrightarrow> length (takeWhile P xs) < length xs"
  by (induction xs) auto

lemma position_spec:
  assumes wf: "plain_wf n p" and x: "x < n"
  shows "position (pl_element p) x < n" "pl_element p ! position (pl_element p) x = x"
proof -
  have "x \<in> set (pl_element p)" using wf x by (simp add: plain_wf_def)
  then have l: "position (pl_element p) x < length (pl_element p)"
    unfolding position_def by (intro length_takeWhile_lt) blast
  then show "position (pl_element p) x < n" using wf by (simp add: plain_wf_def)
  show "pl_element p ! position (pl_element p) x = x"
    using nth_length_takeWhile[of "\<lambda>y. y \<noteq> x" "pl_element p"] l by (simp add: position_def)
qed

lemma element_inj: "plain_wf n p \<Longrightarrow> i < n \<Longrightarrow> j < n \<Longrightarrow> pl_element p ! i = pl_element p ! j \<longleftrightarrow> i = j"
  by (simp add: plain_wf_def nth_eq_iff_index_eq)

lemma element_less: "plain_wf n p \<Longrightarrow> i < n \<Longrightarrow> pl_element p ! i < n"
  by (metis lessThan_iff nth_mem plain_wf_def)

lemma position_element: "plain_wf n p \<Longrightarrow> i < n \<Longrightarrow> position (pl_element p) (pl_element p ! i) = i"
  using position_spec[OF _ element_less] element_inj by blast

lemma plain_inv_options:
  assumes wf: "plain_wf n p" and x: "x < n"
  shows "i \<in> set (plain_invOptions n p x) \<longleftrightarrow> i < n \<and> x \<in> set (plain_options n p i)"
proof -
  let ?k = "position (pl_element p) x"
  have k: "?k < n" "pl_element p ! ?k = x" using position_spec[OF wf x] by simp_all
  have "x \<in> set (pl_element p)" using wf x by (simp add: plain_wf_def)
  then have "i \<in> set (plain_invOptions n p x) \<longleftrightarrow> i < n \<and> block_start p i = block_start p ?k"
    by (simp add: plain_invOptions_def set_plain_block[OF wf k(1)])
  also have "\<dots> \<longleftrightarrow> i < n \<and> x \<in> set (plain_options n p i)"
  proof -
    have "x \<in> (\<lambda>i. pl_element p ! i) ` A \<longleftrightarrow> ?k \<in> A" if A: "A \<subseteq> {..<n}" for A
    proof
      assume "x \<in> (\<lambda>i. pl_element p ! i) ` A"
      then obtain i where "i \<in> A" "x = pl_element p ! i" by blast
      with position_element[OF wf, of i] A show "?k \<in> A" by auto
    next
      assume "?k \<in> A" then show "x \<in> (\<lambda>i. pl_element p ! i) ` A" using k(2) by (metis imageI)
    qed
    from this[of "{j. j < n \<and> block_start p j = block_start p i}"]
    have "x \<in> (\<lambda>i. pl_element p ! i) ` {j. j < n \<and> block_start p j = block_start p i} \<longleftrightarrow> block_start p ?k = block_start p i"
      using k(1) by auto
    then show ?thesis using set_plain_options[OF wf, of i] by (metis)
  qed
  finally show ?thesis .
qed

lemma plain_fixed_options:
  assumes wf: "plain_wf n p" and i: "i < n"
  shows "plain_fixed n p i \<longleftrightarrow> (\<exists>x. set (plain_options n p i) = {x})"
    and "plain_fixed n p i \<Longrightarrow> set (plain_options n p i) = {pl_element p ! i}"
proof -
  let ?B = "{k. k < n \<and> block_start p k = block_start p i}"
  show o: "set (plain_options n p i) = {pl_element p ! i}" if "plain_fixed n p i"
    using set_plain_options[OF wf i] plain_fixed_start[OF wf i] that by simp
  have "?B = {i}" if "set (plain_options n p i) = {x}" for x
  proof -
    have im: "(\<lambda>k. pl_element p ! k) ` ?B = {x}" using set_plain_options[OF wf i] that by simp
    have "k = i" if k: "k \<in> ?B" for k
    proof -
      have "pl_element p ! k = x" "pl_element p ! i = x" using im k i by blast+
      then have "pl_element p ! k = pl_element p ! i" by simp
      then show ?thesis using element_inj[OF wf, of k i] k i by blast
    qed
    then show ?thesis using i by blast
  qed
  then show "plain_fixed n p i \<longleftrightarrow> (\<exists>x. set (plain_options n p i) = {x})"
    using plain_fixed_start[OF wf i] o by blast
qed

text \<open>Fixing the first row of a block that has more than one row.\<close>

definition plain_fix_result :: "pplain \<Rightarrow> nat \<Rightarrow> nat \<Rightarrow> pplain" where
  "plain_fix_result p el swp =
     \<lparr>pl_element = (pl_element p)[el := pl_element p ! swp, swp := pl_element p ! el], pl_part = (pl_part p)[el + 1 := True]\<rparr>"

lemma plain_fix_cases:
  assumes wf: "plain_wf n p" and i: "i < n" and j: "j \<in> set (plain_options n p i)" and st: "pl_part p ! i"
  shows "plain_fix n p i j = (True, p) \<and> plain_fixed n p i \<and> j = pl_element p ! i \<or>
    plain_fix n p i j = (True, plain_fix_result p i (position (pl_element p) j)) \<and> \<not> plain_fixed n p i \<and> Suc i < n"
proof (cases "plain_fixed n p i")
  case True
  then show ?thesis using plain_fixed_options(2)[OF wf i True] j by (simp add: plain_fix_def Let_def)
next
  case False
  let ?k = "position (pl_element p) j"
  have jn: "j < n" using j set_plain_options[OF wf i] element_less[OF wf] by auto
  note k = position_spec[OF wf jn]
  have kb: "block_start p ?k = block_start p i"
    using j set_plain_options[OF wf i] position_element[OF wf] by auto
  have kf: "\<not> plain_fixed n p ?k"
  proof
    assume "plain_fixed n p ?k"
    then have e: "{m. m < n \<and> block_start p m = block_start p ?k} = {?k}" using plain_fixed_start[OF wf k(1)] by simp
    have "i \<in> {m. m < n \<and> block_start p m = block_start p ?k}" using kb i by simp
    then have "i = ?k" unfolding e by simp
    then show False using \<open>plain_fixed n p ?k\<close> False by simp
  qed
  then have inv: "plain_invPermOf n p j = -1" by (simp add: plain_invPermOf_def)
  have nl: "Suc i < n" using False st i by (cases "i = n - 1") (auto simp: plain_fixed_def)
  have same: "(pl_element p)[i := pl_element p ! ?k, ?k := pl_element p ! i] = pl_element p" if "pl_element p ! i = j"
  proof -
    have "?k = i" using that element_inj[OF wf k(1) i] k(2) by simp
    then show ?thesis by simp
  qed
  have g: "(i + 1 \<le> n - 1) = True" using nl by simp
  have "plain_fix n p i j = (True, plain_fix_result p i ?k)"
  proof (cases "pl_element p ! i = j")
    case eq: True
    show ?thesis unfolding plain_fix_def Let_def plain_fix_result_def same[OF eq] inv g
      using False eq by simp
  next
    case neq: False
    show ?thesis unfolding plain_fix_def Let_def plain_fix_result_def inv g
      using False neq by simp
  qed
  then show ?thesis using False nl by blast
qed

lemma swap_length: "length (xs[i := a, k := b]) = length xs"
  by simp

lemma fix_result_element:
  "i < length (pl_element p) \<Longrightarrow> k < length (pl_element p) \<Longrightarrow> m < length (pl_element p) \<Longrightarrow>
   pl_element (plain_fix_result p i k) ! m = pl_element p ! (if m = i then k else if m = k then i else m)"
  by (simp add: plain_fix_result_def nth_list_update)

lemma fix_result_wf:
  assumes wf: "plain_wf n p" and i: "i < n" and k: "k < n"
  shows "plain_wf n (plain_fix_result p i k)"
proof -
  have "mset ((pl_element p)[i := pl_element p ! k, k := pl_element p ! i]) = mset (pl_element p)"
    using wf i k by (simp add: plain_wf_def mset_swap)
  then have "set ((pl_element p)[i := pl_element p ! k, k := pl_element p ! i]) = set (pl_element p)"
    "distinct ((pl_element p)[i := pl_element p ! k, k := pl_element p ! i]) = distinct (pl_element p)"
    by (rule mset_eq_setD, rule mset_eq_imp_distinct_iff)
  then show ?thesis using wf unfolding plain_wf_def plain_fix_result_def by simp
qed

lemma fix_result_start:
  assumes wf: "plain_wf n p" and i: "Suc i < n" and k: "k < n" and st: "pl_part p ! i" and m: "m < n"
  shows "block_start (plain_fix_result p i k) m = (if block_start p m = i \<and> m \<noteq> i then Suc i else block_start p m)"
proof (rule start_eqI[OF fix_result_wf[OF wf _ k]])
  let ?p = "plain_fix_result p i k"
  have part: "pl_part ?p ! x \<longleftrightarrow> x = Suc i \<or> pl_part p ! x" for x
    using wf i by (cases "x = Suc i") (simp_all add: plain_fix_result_def plain_wf_def)
  note spec = start_spec[OF wf]
  have "Suc i \<le> m" if "block_start p m = i \<and> m \<noteq> i" using spec(1)[of m] that by linarith
  then show "(if block_start p m = i \<and> m \<noteq> i then Suc i else block_start p m) \<le> m" using spec(1) by simp
  show "pl_part ?p ! (if block_start p m = i \<and> m \<noteq> i then Suc i else block_start p m)" using part spec(2) by simp
  fix x assume x: "(if block_start p m = i \<and> m \<noteq> i then Suc i else block_start p m) < x" "x \<le> m"
  have np: "\<not> pl_part p ! x" using x spec(3)[of m x] by (auto split: if_splits)
  moreover have "x \<noteq> Suc i"
  proof
    assume e: "x = Suc i"
    have c: "\<not> (block_start p m = i \<and> m \<noteq> i)"
    proof
      assume "block_start p m = i \<and> m \<noteq> i"
      then show False using x(1) e by simp
    qed
    have "block_start p m < x" using x(1) unfolding if_not_P[OF c] .
    then have "block_start p m \<le> i" using e by simp
    moreover have "block_start p m = i" if "block_start p m < i \<or> block_start p m = i"
      using that spec(3)[of m i] st x(2) e by auto
    ultimately show False using c x(2) e by (auto simp: le_less)
  qed
  ultimately show "\<not> pl_part ?p ! x" using part by blast
qed (use i in simp)

lemma fix_result_block:
  assumes wf: "plain_wf n p" and i: "Suc i < n" "pl_part p ! i" "\<not> pl_part p ! Suc i" and k: "k < n" and m: "m < n"
  shows "{x. x < n \<and> block_start (plain_fix_result p i k) x = block_start (plain_fix_result p i k) m} =
    (if m = i then {i} else if block_start p m = i then {x. x < n \<and> block_start p x = i} - {i}
     else {x. x < n \<and> block_start p x = block_start p m})"
proof -
  note st = fix_result_start[OF wf i(1) k i(2)]
  have ne: "block_start p x \<noteq> Suc i" for x using start_spec(2)[OF wf, of x] i(3) by metis
  have ii: "block_start p i = i" using start_eqI[OF wf, of i i] i(2) by simp
  have neq: "x \<noteq> i" if "block_start p x \<noteq> i" for x using that ii by metis
  show ?thesis
  proof (cases "m = i")
    case True
    have "block_start (plain_fix_result p i k) x = i \<longleftrightarrow> x = i" if x: "x < n" for x
      unfolding st[OF x] using ii neq[of x] by (cases "block_start p x = i") simp_all
    then have "{x. x < n \<and> block_start (plain_fix_result p i k) x = i} = {i}"
      "block_start (plain_fix_result p i k) i = i" using m True by auto
    then show ?thesis using True by simp
  next
    case False
    have "block_start (plain_fix_result p i k) x = block_start (plain_fix_result p i k) m \<longleftrightarrow>
      (if block_start p m = i then block_start p x = i \<and> x \<noteq> i else block_start p x = block_start p m)" if x: "x < n" for x
      unfolding st[OF x] st[OF m] using ne[of x] ne[of m] False ii neq[of x] by (cases "block_start p x = i"; cases "block_start p m = i"; cases "x = i"; simp)
    then show ?thesis using False by auto
  qed
qed

lemma fix_result_options:
  assumes wf: "plain_wf n p" and i: "Suc i < n" "pl_part p ! i" "\<not> pl_part p ! Suc i"
    and k: "k < n" "block_start p k = i" and m: "m < n"
  shows "set (plain_options n (plain_fix_result p i k) m) =
    (if m = i then {pl_element p ! k} else set (plain_options n p m) - {pl_element p ! k})"
proof -
  let ?sw = "\<lambda>x. if x = i then k else if x = k then i else x"
  have inn: "i < n" using i(1) by simp
  have ii: "block_start p i = i" using start_eqI[OF wf, of i i] i(2) by simp
  have len: "length (pl_element p) = n" using wf by (simp add: plain_wf_def)
  have el: "pl_element (plain_fix_result p i k) ! x = pl_element p ! ?sw x" if "x < n" for x
    by (rule fix_result_element) (use that inn k(1) len in simp_all)
  have img: "set (plain_options n (plain_fix_result p i k) m) =
      (\<lambda>x. pl_element p ! ?sw x) ` {x. x < n \<and> block_start (plain_fix_result p i k) x = block_start (plain_fix_result p i k) m}"
    unfolding set_plain_options[OF fix_result_wf[OF wf inn k(1)] m] by (rule image_cong) (use el in auto)
  note blk = fix_result_block[OF wf i k(1) m]
  consider "m = i" | "m \<noteq> i" "block_start p m = i" | "block_start p m \<noteq> i" "m \<noteq> i" using ii by blast
  then show ?thesis
  proof cases
    case 1
    then show ?thesis unfolding img blk by simp
  next
    case 2
    let ?B = "{x. x < n \<and> block_start p x = i}"
    have B: "i \<in> ?B" "k \<in> ?B" using inn ii k by simp_all
    have "?sw ` (?B - {i}) = ?B - {k}"
    proof (intro equalityI subsetI)
      fix y assume y: "y \<in> ?B - {k}"
      show "y \<in> ?sw ` (?B - {i})"
        by (rule image_eqI[of _ _ "if y = i then k else y"]) (use y B in auto)
    qed (use B in auto)
    then have "(\<lambda>x. pl_element p ! ?sw x) ` (?B - {i}) = (\<lambda>x. pl_element p ! x) ` (?B - {k})"
      by (simp only: image_image[symmetric, of "\<lambda>x. pl_element p ! x" ?sw])
    also have "\<dots> = (\<lambda>x. pl_element p ! x) ` ?B - {pl_element p ! k}"
      using element_inj[OF wf] k(1) by auto
    finally show ?thesis unfolding img blk using 2 set_plain_options[OF wf m] by simp
  next
    case 3
    let ?B = "{x. x < n \<and> block_start p x = block_start p m}"
    have B: "i \<notin> ?B" "k \<notin> ?B" using 3(1) ii k(2) by auto
    have "(\<lambda>x. pl_element p ! ?sw x) ` ?B = (\<lambda>x. pl_element p ! x) ` ?B"
      by (rule image_cong) (use B in auto)
    also have "\<dots> = (\<lambda>x. pl_element p ! x) ` ?B - {pl_element p ! k}"
      using element_inj[OF wf] k(1) B(2) by auto
    finally show ?thesis unfolding img blk using 3 set_plain_options[OF wf m] by simp
  qed
qed

lemma plain_fix_law:
  assumes wf: "plain_wf n p" and i: "i < n" and j: "j \<in> set (plain_options n p i)" and st: "pl_part p ! i"
  shows "\<exists>p'. plain_fix n p i j = (True, p') \<and> plain_wf n p' \<and> set (plain_options n p' i) = {j} \<and>
    (\<forall>m<n. m \<noteq> i \<longrightarrow> set (plain_options n p' m) = set (plain_options n p m) - {j})"
  using plain_fix_cases[OF assms]
proof (elim disjE conjE)
  assume f: "plain_fix n p i j = (True, p)" "plain_fixed n p i" "j = pl_element p ! i"
  have o: "set (plain_options n p i) = {j}" using plain_fixed_options(2)[OF wf i f(2)] f(3) by simp
  have "j \<notin> set (plain_options n p m)" if m: "m < n" "m \<noteq> i" for m
  proof
    assume "j \<in> set (plain_options n p m)"
    then have "block_start p i = block_start p m"
      unfolding set_plain_options[OF wf m(1)] using f(3) element_inj[OF wf] i by auto
    then have "m \<in> {k. k < n \<and> block_start p k = block_start p i}" using m by simp
    then show False using plain_fixed_start[OF wf i] f(2) m(2) by blast
  qed
  then show ?thesis using f(1) wf o by auto
next
  let ?k = "position (pl_element p) j"
  assume f: "plain_fix n p i j = (True, plain_fix_result p i ?k)" "\<not> plain_fixed n p i" "Suc i < n"
  have jn: "j < n" using j set_plain_options[OF wf i] element_less[OF wf] by auto
  note k = position_spec[OF wf jn]
  have "block_start p ?k = block_start p i" using j set_plain_options[OF wf i] position_element[OF wf] by auto
  then have kb: "block_start p ?k = i" using start_eqI[OF wf, of i i] st by simp
  have ns: "\<not> pl_part p ! Suc i" using f(2,3) st by (simp add: plain_fixed_def split: if_splits)
  note o = fix_result_options[OF wf f(3) st ns k(1) kb]
  show ?thesis using f(1) fix_result_wf[OF wf i k(1)] o k(2) i by auto
qed

lemma plain_fix_wf:
  assumes wf: "plain_wf n p" and i: "i < n" and j: "j < n"
  shows "plain_wf n (snd (plain_fix n p i j))"
proof -
  let ?k = "position (pl_element p) j"
  have k: "?k < n" using position_spec(1)[OF wf j] .
  note w = fix_result_wf[OF wf i k]
  have w2: "plain_wf n \<lparr>pl_element = (pl_element p)[i := pl_element p ! ?k, ?k := pl_element p ! i], pl_part = pl_part p\<rparr>"
    using w wf by (simp add: plain_wf_def plain_fix_result_def)
  have w3: "plain_wf n \<lparr>pl_element = pl_element p, pl_part = (pl_part p)[i + 1 := True]\<rparr>"
    using wf by (simp add: plain_wf_def)
  have w4: "plain_wf n \<lparr>pl_element = pl_element p, pl_part = pl_part p\<rparr>" using wf unfolding plain_wf_def by simp
  show ?thesis unfolding plain_fix_def Let_def
    using wf w w2 w3 w4 unfolding plain_fix_result_def by (simp only: snd_conv split: if_split) simp
qed

interpretation plain: pperm_store n "plain_wf n" "\<lambda>p i. pl_part p ! i" "plain_options n" "plain_invOptions n" "plain_fixed n"
  "plain_permOf n" "plain_invPermOf n" "plain_fix n" "plain_fullDefined n" plain_getPerm for n
proof unfold_locales
  fix p i j p'
  assume wf: "plain_wf n p"
  show "i < n \<Longrightarrow> set (plain_options n p i) \<subseteq> {..<n}"
    using set_plain_options[OF wf] element_less[OF wf] by auto
  show "j < n \<Longrightarrow> i \<in> set (plain_invOptions n p j) \<longleftrightarrow> i < n \<and> j \<in> set (plain_options n p i)"
    by (rule plain_inv_options[OF wf])
  show "i < n \<Longrightarrow> plain_fixed n p i \<longleftrightarrow> (\<exists>x. set (plain_options n p i) = {x})"
    by (rule plain_fixed_options(1)[OF wf])
  show "i < n \<Longrightarrow> plain_fixed n p i \<Longrightarrow> 0 \<le> plain_permOf n p i \<and> set (plain_options n p i) = {nat (plain_permOf n p i)}"
    using plain_fixed_options(2)[OF wf] by (simp add: plain_permOf_def)
  show "i < n \<Longrightarrow> \<not> plain_fixed n p i \<Longrightarrow> plain_permOf n p i = -1" by (simp add: plain_permOf_def)
  show "j < n \<Longrightarrow> plain_invPermOf n p j \<noteq> -1 \<Longrightarrow> 0 \<le> plain_invPermOf n p j \<and> nat (plain_invPermOf n p j) < n \<and>
      plain_permOf n p (nat (plain_invPermOf n p j)) = int j"
    using position_spec[OF wf] by (auto simp: plain_invPermOf_def plain_permOf_def Let_def split: if_splits)
  show "j < n \<Longrightarrow> plain_invPermOf n p j = -1 \<Longrightarrow> i < n \<Longrightarrow> plain_permOf n p i \<noteq> int j"
    using position_element[OF wf, of i] by (auto simp: plain_invPermOf_def plain_permOf_def Let_def split: if_splits)
  show "plain_fullDefined n p \<longleftrightarrow> (\<forall>i<n. plain_fixed n p i)" by (auto simp: plain_fullDefined_def list_all_iff)
  show "plain_fullDefined n p \<Longrightarrow> plain_getPerm p = map (plain_permOf n p) [0..<n]"
    using wf by (auto simp: plain_fullDefined_def list_all_iff plain_getPerm_def plain_permOf_def plain_wf_def
        intro!: nth_equalityI)
  show "i < n \<Longrightarrow> j < n \<Longrightarrow> plain_wf n (snd (plain_fix n p i j))" by (rule plain_fix_wf[OF wf])
  assume i: "i < n" and j: "j \<in> set (plain_options n p i)" and st: "pl_part p ! i"
  note law = plain_fix_law[OF wf i j st]
  show "plain_fix n p i j = (True, p') \<Longrightarrow> plain_wf n p' \<and> set (plain_options n p' i) = {j} \<and>
      (\<forall>i'<n. i' \<noteq> i \<longrightarrow> set (plain_options n p' i') = set (plain_options n p i') - {j})" using law by auto
  show "plain_fix n p i j = (False, p') \<Longrightarrow> \<exists>i'<n. i' \<noteq> i \<and> set (plain_options n p i') \<subseteq> {j}" using law by auto
qed

section \<open>\<open>pperm_bit\<close> keeps the contract\<close>

lemma bit_fix_loop_inv:
  assumes "bd2_inv n info" "pp < n" "set is \<subseteq> {..<n}"
  shows "bd2_inv n (snd (bit_fix_loop n p pp is info))"
  using assms(1,3)
proof (induction "is" arbitrary: info)
  case (Cons i "is")
  then have "bd2_key n i" by (simp add: bd2_key_def)
  with Cons.prems(1) assms(2) have "bd2_inv n (bd2_set1 (bd2_reset_all info i) i pp)" "bd2_inv n (bd2_reset1 n info i pp)"
    by (simp_all add: bd2.set1_inv bd2.clear_inv bd2.reset1_inv)
  with Cons show ?case by (cases "i = p") (simp_all add: Let_def)
qed simp

lemma bit_fix_loop_true:
  assumes "bd2_inv n info" "pp < n" "p < n" "set is \<subseteq> {..<n}" "distinct is" "bit_fix_loop n p pp is info = (True, info')" "m < n"
  shows "bd2_vals n info' m = (if m \<notin> set is then bd2_vals n info m else if m = p then {pp} else bd2_vals n info m - {pp})"
  using assms(1,4-6)
proof (induction "is" arbitrary: info)
  case (Cons i "is")
  have key: "bd2_key n i" "bd2_key n m" "bd2_key n p" using Cons.prems(2) assms(3,7) by (simp_all add: bd2_key_def)
  let ?a = "bd2_set1 (bd2_reset_all info i) i pp"
  let ?b = "bd2_reset1 n info i pp"
  have a: "bd2_inv n ?a" "bd2_vals n ?a m = (if m = i then {pp} else bd2_vals n info m)"
    using Cons.prems(1) key assms(2) by (simp_all add: bd2.set1_inv bd2.clear_inv bd2.set1_vals bd2.clear_vals)
  have b: "bd2_inv n ?b" "bd2_vals n ?b m = (if m = i then bd2_vals n info m - {pp} else bd2_vals n info m)"
    using Cons.prems(1) key assms(2) by (simp_all add: bd2.reset1_inv bd2.reset1_vals)
  show ?case
  proof (cases "i = p")
    case True
    have "bit_fix_loop n p pp is ?a = (True, info')" using Cons.prems(4) True by simp
    then have "bd2_vals n info' m = (if m \<notin> set is then bd2_vals n ?a m else if m = p then {pp} else bd2_vals n ?a m - {pp})"
      using Cons.IH[OF a(1)] Cons.prems(2,3) by simp
    then show ?thesis using Cons.prems(3) a(2) True by auto
  next
    case False
    have "bit_fix_loop n p pp is ?b = (True, info')"
      using Cons.prems(4) False by (simp add: Let_def split: if_splits)
    then have "bd2_vals n info' m = (if m \<notin> set is then bd2_vals n ?b m else if m = p then {pp} else bd2_vals n ?b m - {pp})"
      using Cons.IH[OF b(1)] Cons.prems(2,3) by simp
    then show ?thesis using Cons.prems(3) b(2) False by auto
  qed
qed simp

lemma bit_fix_loop_false:
  assumes "bd2_inv n info" "pp < n" "p < n" "set is \<subseteq> {..<n}" "distinct is" "bit_fix_loop n p pp is info = (False, info')"
  shows "\<exists>m\<in>set is. m \<noteq> p \<and> bd2_vals n info m \<subseteq> {pp}"
  using assms(1,4-6)
proof (induction "is" arbitrary: info)
  case (Cons i "is")
  have key: "bd2_key n i" using Cons.prems(2) by (simp add: bd2_key_def)
  let ?a = "bd2_set1 (bd2_reset_all info i) i pp"
  let ?b = "bd2_reset1 n info i pp"
  have ab: "bd2_inv n ?a" "bd2_inv n ?b" using Cons.prems(1) key assms(2)
    by (simp_all add: bd2.set1_inv bd2.clear_inv bd2.reset1_inv)
  have other: "bd2_vals n ?a m = bd2_vals n info m" "bd2_vals n ?b m = bd2_vals n info m" if "m \<noteq> i" "m < n" for m
    using Cons.prems(1) key assms(2) that bd2_key_def[of n m]
    by (simp_all add: bd2.set1_vals bd2.clear_vals bd2.reset1_vals bd2.clear_inv)
  have rest: ?case if X: "bd2_inv n X" "bit_fix_loop n p pp is X = (False, info')"
    "\<And>m. m \<noteq> i \<Longrightarrow> m < n \<Longrightarrow> bd2_vals n X m = bd2_vals n info m" for X
  proof -
    obtain m where m: "m \<in> set is" "m \<noteq> p" "bd2_vals n X m \<subseteq> {pp}"
      using Cons.IH[OF X(1) _ _ X(2)] Cons.prems(2,3) by auto
    moreover have "bd2_vals n X m = bd2_vals n info m" using m(1) Cons.prems(2,3) by (intro X(3)) auto
    ultimately show ?thesis by auto
  qed
  show ?case
  proof (cases "i = p")
    case True
    then show ?thesis using Cons.prems(4) by (intro rest[OF ab(1) _ other(1)]) simp
  next
    case False
    show ?thesis
    proof (cases "bd2_none ?b i")
      case True
      then have "bd2_vals n info i - {pp} = {}"
        using bd2.none_eq[OF ab(2) key] bd2.reset1_vals[OF Cons.prems(1) key key assms(2)] by simp
      then show ?thesis using False by auto
    next
      case nn: False
      then show ?thesis using False Cons.prems(4) by (intro rest[OF ab(2) _ other(2)]) (simp add: Let_def)
    qed
  qed
qed simp

lemma bit_fix_law:
  assumes inv: "bd2_inv n info" and i: "i < n" and j: "j \<in> set (bd2_options n info i)"
  shows "bit_fix n info i j = (True, p') \<Longrightarrow> bd2_inv n p' \<and> set (bd2_options n p' i) = {j} \<and>
      (\<forall>m<n. m \<noteq> i \<longrightarrow> set (bd2_options n p' m) = set (bd2_options n info m) - {j})"
    and "bit_fix n info i j = (False, p') \<Longrightarrow> \<exists>m<n. m \<noteq> i \<and> set (bd2_options n info m) \<subseteq> {j}"
proof -
  have jv: "j \<in> bd2_vals n info i" using j bd2.set_options[OF inv, of i] i by (simp add: bd2_key_def)
  have jn: "j < n" using bd2.vals_bound[OF inv, of i] jv i by (auto simp: bd2_key_def)
  have run: "bit_fix n info i j = bit_fix_loop n i j [0..<n] info"
    using bd2_get_iff[OF inv i jn] jv by (simp add: bit_fix_def)
  have up: "set [0..<n] \<subseteq> {..<n}" "distinct [0..<n]" by auto
  show "bd2_inv n p' \<and> set (bd2_options n p' i) = {j} \<and>
      (\<forall>m<n. m \<noteq> i \<longrightarrow> set (bd2_options n p' m) = set (bd2_options n info m) - {j})" if t: "bit_fix n info i j = (True, p')"
  proof -
    have inv': "bd2_inv n p'" using bit_fix_loop_inv[OF inv jn up(1), of i] t run by simp
    have v: "bd2_vals n p' m = (if m = i then {j} else bd2_vals n info m - {j})" if "m < n" for m
      using bit_fix_loop_true[OF inv jn i up t[unfolded run] that] that by simp
    show ?thesis using inv' v i bd2.set_options[OF inv] bd2.set_options[OF inv'] by (simp add: bd2_key_def)
  qed
  show "\<exists>m<n. m \<noteq> i \<and> set (bd2_options n info m) \<subseteq> {j}" if f: "bit_fix n info i j = (False, p')"
  proof -
    obtain m where m: "m < n" "m \<noteq> i" "bd2_vals n info m \<subseteq> {j}"
      using bit_fix_loop_false[OF inv jn i up f[unfolded run]] by auto
    then have "set (bd2_options n info m) \<subseteq> {j}" using bd2.set_options[OF inv, of m] by (simp add: bd2_key_def)
    then show ?thesis using m by blast
  qed
qed

interpretation bit: pperm_store n "bd2_inv n" "\<lambda>_ _. True" "bd2_options n" "bit_invOptions n" bit_fixed
  bit_permOf "bit_invPermOf n" "bit_fix n" "bit_fullDefined n" "bit_getPerm n" for n
proof unfold_locales
  fix p i j p'
  assume wf: "bd2_inv n p"
  have so: "set (bd2_options n p i) = bd2_vals n p i" if "i < n" for i
    using bd2.set_options[OF wf] that by (simp add: bd2_key_def)
  have fe: "bit_fixed p i \<longleftrightarrow> (\<exists>x. set (bd2_options n p i) = {x})" if "i < n" for i
    using bd2.numtrue_one[OF wf, of i] so[OF that] that by (simp add: bit_fixed_def bd2_key_def)
  show fo: "0 \<le> bit_permOf p i \<and> set (bd2_options n p i) = {nat (bit_permOf p i)}" if "i < n" "bit_fixed p i" for i
    using bd2.numtrue_one_vals[OF wf, of i] bd2.firstel_nat(2)[OF wf, of i] so[OF that(1)] that
    by (simp add: bit_permOf_def bit_fixed_def bd2_key_def)
  show "i < n \<Longrightarrow> set (bd2_options n p i) \<subseteq> {..<n}"
    using bd2.vals_bound[OF wf, of i] so by (simp add: bd2_key_def)
  show "j < n \<Longrightarrow> i \<in> set (bit_invOptions n p j) \<longleftrightarrow> i < n \<and> j \<in> set (bd2_options n p i)"
    using bd2_get_iff[OF wf] so by (auto simp: bit_invOptions_def)
  show "i < n \<Longrightarrow> bit_fixed p i \<longleftrightarrow> (\<exists>x. set (bd2_options n p i) = {x})" by (rule fe)
  show "i < n \<Longrightarrow> \<not> bit_fixed p i \<Longrightarrow> bit_permOf p i = -1" by (simp add: bit_permOf_def)
  show "j < n \<Longrightarrow> bit_invPermOf n p j \<noteq> -1 \<Longrightarrow> 0 \<le> bit_invPermOf n p j \<and> nat (bit_invPermOf n p j) < n \<and>
      bit_permOf p (nat (bit_invPermOf n p j)) = int j"
    by (auto simp: bit_invPermOf_def find_Some_iff split: option.splits)
  show "j < n \<Longrightarrow> bit_invPermOf n p j = -1 \<Longrightarrow> i < n \<Longrightarrow> bit_permOf p i \<noteq> int j"
    by (auto simp: bit_invPermOf_def find_None_iff split: option.splits)
  show "bit_fullDefined n p \<longleftrightarrow> (\<forall>i<n. bit_fixed p i)" by (auto simp: bit_fullDefined_def list_all_iff)
  show "bit_fullDefined n p \<Longrightarrow> bit_getPerm n p = map (bit_permOf p) [0..<n]"
    by (simp add: bit_getPerm_def bit_permOf_def)
  show "i < n \<Longrightarrow> j < n \<Longrightarrow> bd2_inv n (snd (bit_fix n p i j))"
    using bit_fix_loop_inv[OF wf, of j "[0..<n]" i] wf by (auto simp: bit_fix_def lessThan_atLeast0)
  assume i: "i < n" and j: "j \<in> set (bd2_options n p i)"
  show "bit_fix n p i j = (True, p') \<Longrightarrow> bd2_inv n p' \<and> set (bd2_options n p' i) = {j} \<and>
      (\<forall>i'<n. i' \<noteq> i \<longrightarrow> set (bd2_options n p' i') = set (bd2_options n p i') - {j})"
    by (rule bit_fix_law(1)[OF wf i j])
  show "bit_fix n p i j = (False, p') \<Longrightarrow> \<exists>i'<n. i' \<noteq> i \<and> set (bd2_options n p i') \<subseteq> {j}"
    by (rule bit_fix_law(2)[OF wf i j])
qed

section \<open>The class hierarchy keeps the contract\<close>

fun pp_wf :: "nat \<Rightarrow> pperm \<Rightarrow> bool" where
  "pp_wf n (Plain p) = plain_wf n p"
| "pp_wf n (Bit p) = bd2_inv n p"

fun pp_startable :: "pperm \<Rightarrow> nat \<Rightarrow> bool" where
  "pp_startable (Plain p) i = pl_part p ! i"
| "pp_startable (Bit p) i = True"

lemma map_prod_eq: "map_prod id f x = (b, y) \<longleftrightarrow> (\<exists>z. x = (b, z) \<and> y = f z)"
  by (cases x) auto

interpretation pp: pperm_store n "pp_wf n" pp_startable "pp_options n" "pp_invOptions n" "pp_fixed n"
  "pp_permOf n" "pp_invPermOf n" "pp_fix n" "pp_fullDefined n" "pp_getPerm n" for n
proof unfold_locales
  fix p i j p'
  assume wf: "pp_wf n p"
  show "i < n \<Longrightarrow> set (pp_options n p i) \<subseteq> {..<n}"
    using wf by (cases p) (simp_all add: plain.options_range bit.options_range del: One_nat_def)
  show "j < n \<Longrightarrow> i \<in> set (pp_invOptions n p j) \<longleftrightarrow> i < n \<and> j \<in> set (pp_options n p i)"
    using wf by (cases p) (simp_all add: plain.inv_options_iff bit.inv_options_iff del: One_nat_def)
  show "i < n \<Longrightarrow> pp_fixed n p i \<longleftrightarrow> (\<exists>x. set (pp_options n p i) = {x})"
    using wf by (cases p) (simp_all add: plain.fixed_iff bit.fixed_iff del: One_nat_def)
  show "i < n \<Longrightarrow> pp_fixed n p i \<Longrightarrow> 0 \<le> pp_permOf n p i \<and> set (pp_options n p i) = {nat (pp_permOf n p i)}"
    using wf by (cases p) (simp_all add: plain.perm_of_fixed bit.perm_of_fixed del: One_nat_def)
  show "i < n \<Longrightarrow> \<not> pp_fixed n p i \<Longrightarrow> pp_permOf n p i = -1"
    using wf by (cases p) (simp_all add: plain.perm_of_free bit.perm_of_free del: One_nat_def)
  show "j < n \<Longrightarrow> pp_invPermOf n p j \<noteq> -1 \<Longrightarrow> 0 \<le> pp_invPermOf n p j \<and> nat (pp_invPermOf n p j) < n \<and>
      pp_permOf n p (nat (pp_invPermOf n p j)) = int j"
    using wf by (cases p) (simp_all add: plain.inv_perm_of_some bit.inv_perm_of_some del: One_nat_def)
  show "j < n \<Longrightarrow> pp_invPermOf n p j = -1 \<Longrightarrow> i < n \<Longrightarrow> pp_permOf n p i \<noteq> int j"
    using wf by (cases p) (simp_all add: plain.inv_perm_of_none bit.inv_perm_of_none del: One_nat_def)
  show "i < n \<Longrightarrow> j < n \<Longrightarrow> pp_wf n (snd (pp_fix n p i j))"
    using wf by (cases p) (simp_all add: plain.fix_wf bit.fix_wf del: One_nat_def)
  show "pp_fullDefined n p \<longleftrightarrow> (\<forall>i<n. pp_fixed n p i)"
    using wf by (cases p) (simp_all add: plain.full_defined_iff bit.full_defined_iff del: One_nat_def)
  show "pp_fullDefined n p \<Longrightarrow> pp_getPerm n p = map (pp_permOf n p) [0..<n]"
    using wf by (cases p) (simp_all add: plain.get_perm_full bit.get_perm_full del: One_nat_def)
  assume i: "i < n" and j: "j \<in> set (pp_options n p i)" and st: "pp_startable p i"
  show "pp_fix n p i j = (True, p') \<Longrightarrow> pp_wf n p' \<and> set (pp_options n p' i) = {j} \<and>
      (\<forall>i'<n. i' \<noteq> i \<longrightarrow> set (pp_options n p' i') = set (pp_options n p i') - {j})"
    using wf i j st by (cases p) (auto simp: map_prod_eq dest: plain.fix_ok bit.fix_ok)
  show "pp_fix n p i j = (False, p') \<Longrightarrow> \<exists>i'<n. i' \<noteq> i \<and> set (pp_options n p i') \<subseteq> {j}"
    using wf i j st by (cases p) (auto simp: map_prod_eq dest: plain.fix_fails bit.fix_fails)
qed

section \<open>The initial partial permutations\<close>

lemma fold_write_range:
  "length (fold (\<lambda>l dom. dom[b + l := f l]) [0..<m] dm) = length dm \<and>
   (\<forall>i. (if b \<le> i \<and> i < b + m then i < length dm \<longrightarrow> fold (\<lambda>l dom. dom[b + l := f l]) [0..<m] dm ! i = f (i - b)
        else fold (\<lambda>l dom. dom[b + l := f l]) [0..<m] dm ! i = dm ! i))"
proof (induction m)
  case (Suc m)
  then show ?case by (auto simp: nth_list_update less_Suc_eq)
qed auto

lemma bit_write_spec:
  assumes inv: "bd2_inv n info" and d: "bd_inv n d" and j: "j < n"
  shows "bd2_inv n (bit_write d j info)"
    and "e < n \<Longrightarrow> bd2_vals n (bit_write d j info) e = (if e = j then bd_vals d else bd2_vals n info e)"
proof -
  let ?b = "bd2_slot n j" and ?dm = "bd2_dom info" and ?dm' = "bd2_dom (bit_write d j info)"
  have ch: "bd2_chunk info = n + 2" and si: "slots_inv n (bd2_key n) (bd2_slot n) ?dm" using inv by (simp_all add: bd2_inv_def)
  have key: "bd2_key n j" using j by (simp add: bd2_key_def)
  have ok: "slot_ok n ?dm ?b" using si key by (simp add: slots_inv_def)
  have len: "length (bd_dom d) = n" "bd_size d = n" using d by (simp_all add: bd_inv_def)
  let ?h = "?dm[?b := bd_firstel d, ?b + 1 := bd_numTrue d]"
  have base: "bd2_chunk info * j = ?b" "j * bd2_chunk info = ?b" using ch by (simp_all add: bd2_slot_def)
  have eq: "?dm' = fold (\<lambda>l dom. dom[(?b + 2) + l := of_bool (bd_dom d ! l)]) [0..<n] ?h"
    unfolding bit_write_def base len by simp
  note R = fold_write_range[of "?b + 2" "\<lambda>l. of_bool (bd_dom d ! l)" n ?h, folded eq]
  have bnd: "?b + 2 + n \<le> length ?dm" using ok by (simp add: slot_ok_def)
  have L: "length ?dm' = length ?dm" using R by simp
  have hd: "?dm' ! ?b = bd_firstel d" "?dm' ! (?b + 1) = bd_numTrue d" using R bnd by (simp_all add: nth_list_update)
  have bits: "?dm' ! (?b + 2 + i) = of_bool (bd_dom d ! i)" if i: "i < n" for i
  proof -
    from conjunct2[OF R, rule_format, of "?b + 2 + i"] i bnd show ?thesis by simp
  qed
  have out: "same_outside n ?b ?dm ?dm'"
    unfolding same_outside_def
  proof (intro conjI allI impI)
    fix i assume i: "i < ?b \<or> ?b + 2 + n \<le> i"
    from conjunct2[OF R, rule_format, of i] i show "?dm' ! i = ?dm ! i" by auto
  qed (rule L)
  have abs: "slot_abs n ?dm' ?b = d" using hd bits len by (auto simp: slot_abs_def intro!: bitdomain.equality nth_equalityI)
  have ok': "slot_ok n ?dm' ?b" using bits L bnd by (simp add: slot_ok_def)
  have ch': "bd2_chunk (bit_write d j info) = n + 2" using ch by (simp add: bit_write_def)
  show "bd2_inv n (bit_write d j info)"
    unfolding bd2_inv_def using ch' slots_inv_update[OF si bd2_apart key out ok'] abs d by simp
  show "bd2_vals n (bit_write d j info) e = (if e = j then bd_vals d else bd2_vals n info e)" if "e < n"
  proof (cases "e = j")
    case True
    then show ?thesis using abs by (simp add: bd2_vals_def)
  next
    case False
    then show ?thesis using slots_other[OF bd2_apart key, of e] out that by (simp add: bd2_vals_def bd2_key_def)
  qed
qed

lemma bit_write_all:
  assumes "bd2_inv n info" "bd_inv n d" "set js \<subseteq> {..<n}"
  shows "bd2_inv n (fold (bit_write d) js info) \<and>
    (\<forall>e<n. bd2_vals n (fold (bit_write d) js info) e = (if e \<in> set js then bd_vals d else bd2_vals n info e))"
  using assms
proof (induction js arbitrary: info)
  case (Cons j js)
  have j: "j < n" using Cons.prems(3) by simp
  note w = bit_write_spec[OF Cons.prems(1,2) j]
  show ?case using Cons.IH[OF w(1) Cons.prems(2)] Cons.prems(3) w(2) by auto
qed simp

definition write_class :: "bitdomain \<Rightarrow> bitdomains2 \<Rightarrow> bitdomains2" where
  "write_class d info = (if \<not> bd_none d then fold (bit_write d) (bd_options d) info else info)"

lemma write_class_spec:
  assumes "bd2_inv n info" "bd_inv n d"
  shows "bd2_inv n (write_class d info)"
    and "e < n \<Longrightarrow> bd2_vals n (write_class d info) e = (if e \<in> bd_vals d then bd_vals d else bd2_vals n info e)"
proof -
  have o: "set (bd_options d) \<subseteq> {..<n}" using bd_vals_bound[OF assms(2)] by (simp add: set_bd_options)
  show "bd2_inv n (write_class d info)"
    "e < n \<Longrightarrow> bd2_vals n (write_class d info) e = (if e \<in> bd_vals d then bd_vals d else bd2_vals n info e)"
    using bit_write_all[OF assms o] assms(1) bd_none_iff[OF assms(2)] by (auto simp: set_bd_options write_class_def)
qed

lemma write_classes:
  assumes "bd2_inv n info" "\<forall>d\<in>set ds. bd_inv n d"
  shows "bd2_inv n (fold write_class ds info) \<and>
    (\<forall>e<n. (\<forall>d\<in>set ds. e \<in> bd_vals d \<longrightarrow> bd_vals d = A e) \<longrightarrow>
      bd2_vals n (fold write_class ds info) e = (if \<exists>d\<in>set ds. e \<in> bd_vals d then A e else bd2_vals n info e))"
  using assms
proof (induction ds arbitrary: info)
  case (Cons d ds)
  have d: "bd_inv n d" using Cons.prems(2) by simp
  note w = write_class_spec[OF Cons.prems(1) d]
  have ds: "\<forall>d\<in>set ds. bd_inv n d" using Cons.prems(2) by simp
  note ih = Cons.IH[OF w(1) ds]
  show ?case unfolding fold_simps(2)
  proof (intro conjI allI impI)
    fix e assume e: "e < n" "\<forall>d\<in>set (d # ds). e \<in> bd_vals d \<longrightarrow> bd_vals d = A e"
    then have "bd2_vals n (fold write_class ds (write_class d info)) e =
        (if \<exists>d\<in>set ds. e \<in> bd_vals d then A e else bd2_vals n (write_class d info) e)" using ih by simp
    then show "bd2_vals n (fold write_class ds (write_class d info)) e =
        (if \<exists>d\<in>set (d # ds). e \<in> bd_vals d then A e else bd2_vals n info e)"
      using w(2)[OF e(1)] e(2) by (cases "e \<in> bd_vals d") auto
  qed (use ih in blast)
qed simp

text \<open>Two elements lie on cycles of the same length.\<close>

definition same_cycle_length :: "(nat \<Rightarrow> nat) \<Rightarrow> nat \<Rightarrow> nat \<Rightarrow> bool" where
  "same_cycle_length p x y \<longleftrightarrow> (\<forall>k. (p ^^ k) x = x \<longleftrightarrow> (p ^^ k) y = y)"

lemma cycle_iterate:
  assumes "is_cycle p c" "i < length c"
  shows "(p ^^ k) (c ! i) = c ! ((i + k) mod length c)"
proof (induction k)
  case (Suc k)
  have "(i + k) mod length c < length c" using assms(2) by (intro mod_less_divisor) linarith
  then show ?case using Suc assms(1) by (simp add: is_cycle_def mod_Suc_eq)
qed (use assms(2) in simp)

lemma cycle_period:
  assumes "is_cycle p c" "x \<in> set c"
  shows "(p ^^ k) x = x \<longleftrightarrow> length c dvd k"
proof -
  obtain i where i: "i < length c" "x = c ! i" using assms(2) by (metis in_set_conv_nth)
  have "(i + k) mod length c < length c" using i(1) by (intro mod_less_divisor) linarith
  then have "(p ^^ k) x = x \<longleftrightarrow> (i + k) mod length c = i"
    using cycle_iterate[OF assms(1) i(1), of k] i assms(1) by (auto simp: is_cycle_def nth_eq_iff_index_eq)
  also have "\<dots> \<longleftrightarrow> (i + k) mod length c = (i + 0) mod length c" using i(1) by simp
  also have "\<dots> \<longleftrightarrow> length c dvd k"
    using mod_eq_dvd_iff_nat[of "i + 0" "i + k" "length c"] by simp
  finally show ?thesis .
qed

lemma same_length_iff:
  assumes "is_cycle p c" "is_cycle p c'" "x \<in> set c" "y \<in> set c'"
  shows "same_cycle_length p x y \<longleftrightarrow> length c = length c'"
  using cycle_period[OF assms(1,3)] cycle_period[OF assms(2,4)]
  by (auto simp: same_cycle_length_def) (metis dvd_antisym dvd_refl)

lemma commuting_same_length:
  assumes s: "perm_on n s" and p: "perm_on n p" and comm: "\<forall>i<n. s (p i) = p (s i)" and x: "x < n"
  shows "same_cycle_length p x (s x)"
  unfolding same_cycle_length_def
proof
  fix k
  have "(p ^^ k) x < n \<and> (p ^^ k) (s x) = s ((p ^^ k) x)"
    by (induction k) (use x perm_on_less[OF p] comm in auto)
  then show "(p ^^ k) x = x \<longleftrightarrow> (p ^^ k) (s x) = s x" using perm_on_inj[OF s _ x] by simp
qed

lemma bit_new_classes:
  assumes pv: "perm_vec n d" and n: "0 < n"
  shows "\<exists>info. bit_new n d = Inr info \<and> bd2_inv n info \<and>
    (\<forall>e<n. bd2_vals n info e = {x. x < n \<and> same_cycle_length (vec_perm d) e x})"
proof -
  obtain cs where cs: "permToCyclePerm n d = Inr cs" "\<forall>c\<in>set cs. is_cycle (vec_perm d) c"
    "distinct (concat cs)" "set (concat cs) = {..<n}" using permToCyclePerm_all[OF pv] by blast
  have cok: "\<forall>c\<in>set cs. set c \<subseteq> {..<n} \<and> length c \<le> n"
  proof
    fix c assume c: "c \<in> set cs"
    then have "set c \<subseteq> {..<n}" using cs(4) by auto
    moreover have "length c \<le> n"
      using cs(2) c card_mono[OF finite_lessThan calculation] by (simp add: is_cycle_def distinct_card)
    ultimately show "set c \<subseteq> {..<n} \<and> length c \<le> n" ..
  qed
  have C: "classes_ok n (class_set cs) (length_classes n cs)" by (rule length_classes_ok[OF cok n])
  let ?A = "\<lambda>e. {x. x < n \<and> same_cycle_length (vec_perm d) e x}"
  have cls: "class_set cs l = ?A e" if e: "e \<in> class_set cs l" for e l
  proof -
    obtain c where c: "c \<in> set cs" "length c = Suc l" "e \<in> set c" using e by (auto simp: class_set_def)
    have cyc: "is_cycle (vec_perm d) c" using cs(2) c(1) by blast
    show ?thesis
    proof (intro equalityI subsetI)
      fix x assume "x \<in> class_set cs l"
      then obtain c' where c': "c' \<in> set cs" "length c' = Suc l" "x \<in> set c'" by (auto simp: class_set_def)
      then have "same_cycle_length (vec_perm d) e x" using same_length_iff[OF cyc _ c(3), of c' x] cs(2) c(2) by simp
      moreover have "x < n" using c' cs(4) by auto
      ultimately show "x \<in> ?A e" by simp
    next
      fix x assume x: "x \<in> ?A e"
      then have "x \<in> set (concat cs)" using cs(4) by simp
      then obtain c' where c': "c' \<in> set cs" "x \<in> set c'" by auto
      then have "length c' = Suc l" using same_length_iff[OF cyc _ c(3) c'(2)] cs(2) c(2) x by simp
      then show "x \<in> class_set cs l" using c' by (auto simp: class_set_def)
    qed
  qed
  have inv: "\<forall>d\<in>set (live_classes n cs). bd_inv n d"
    using C by (auto simp: live_classes_def classes_ok_def in_set_conv_nth)
  have vals: "\<forall>d\<in>set (live_classes n cs). e \<in> bd_vals d \<longrightarrow> bd_vals d = ?A e" for e
  proof (intro ballI impI)
    fix d' assume d': "d' \<in> set (live_classes n cs)" "e \<in> bd_vals d'"
    then obtain l where "bd_vals d' = class_set cs l"
      using C by (auto simp: live_classes_def classes_ok_def in_set_conv_nth)
    then show "bd_vals d' = ?A e" using cls[of e l] d'(2) by simp
  qed
  have ex: "\<exists>d\<in>set (live_classes n cs). e \<in> bd_vals d" if e: "e < n" for e
  proof -
    have "e \<in> set (concat cs)" using cs(4) e by simp
    then obtain c where c: "c \<in> set cs" "e \<in> set c" by auto
    then have "c \<noteq> []" by auto
    then have l: "length c - 1 < n" "length c = Suc (length c - 1)" using cok c(1) n by (cases c; force)+
    then have ev: "e \<in> bd_vals (length_classes n cs ! (length c - 1))"
      using C c by (auto simp: classes_ok_def class_set_def)
    moreover have "length_classes n cs ! (length c - 1) \<in> set (length_classes n cs)"
      using C l(1) by (intro nth_mem) (simp add: classes_ok_def)
    moreover have "bd_inv n (length_classes n cs ! (length c - 1))" using C l(1) by (simp add: classes_ok_def)
    ultimately show ?thesis using bd_none_iff by (auto simp: live_classes_def)
  qed
  note W = write_classes[OF bd2_new_inv[OF n] inv, of False ?A]
  have eq: "(\<lambda>d info. if \<not> bd_none d then fold (bit_write d) (bd_options d) info else info) = write_class"
    by (intro ext) (simp add: write_class_def)
  show ?thesis
    using W vals ex unfolding bit_new_def cs(1) by (simp add: eq)
qed

text \<open>The permutations of \<open>{0, \<dots>, n - 1}\<close> a partial permutation stands for.\<close>

definition pp_perms :: "nat \<Rightarrow> pperm \<Rightarrow> (nat \<Rightarrow> nat) set" where
  "pp_perms n p = {s. perm_on n s \<and> (\<forall>i<n. s i \<in> set (pp_options n p i))}"

lemma pp_perms_repr: "pp_perms n p = pp.repr n p"
  by (simp add: pp_perms_def pp.repr_def)

text \<open>
  C18: the constructor \<open>pperm_bit(diag)\<close> starts the search with a partial permutation that allows
  exactly the images on cycles of the same length, and so covers every symmetry of the diagonal
  (every permutation that commutes with it).
\<close>

theorem pperm_bit_initial:
  assumes "perm_vec n d" "0 < n"
  shows "\<exists>info. bit_new n d = Inr info \<and> pp_wf n (Bit info) \<and>
    (\<forall>e<n. set (pp_options n (Bit info) e) = {x. x < n \<and> same_cycle_length (vec_perm d) e x}) \<and>
    syms n (Some (vec_perm d)) \<subseteq> pp_perms n (Bit info)"
proof -
  obtain info where i: "bit_new n d = Inr info" "bd2_inv n info"
    "\<forall>e<n. bd2_vals n info e = {x. x < n \<and> same_cycle_length (vec_perm d) e x}"
    using bit_new_classes[OF assms] by blast
  have o: "\<forall>e<n. set (pp_options n (Bit info) e) = {x. x < n \<and> same_cycle_length (vec_perm d) e x}"
    using i(2,3) bd2.set_options[OF i(2)] by (simp add: bd2_key_def)
  have "s \<in> pp_perms n (Bit info)" if "s \<in> syms n (Some (vec_perm d))" for s
    using that o commuting_same_length[of n s "vec_perm d"] assms(1) perm_on_less[of n s]
    by (auto simp: pp_perms_def syms_def perm_vec_def simp del: pp_options.simps)
  then show ?thesis using i o by auto
qed

theorem pperm_bit_initial_witness:
  "\<exists>info. bit_new 3 [1, 0, 2] = Inr info \<and> syms 3 (Some (vec_perm [1, 0, 2])) \<subseteq> pp_perms 3 (Bit info)"
proof -
  have three: "i < (3::nat) \<longleftrightarrow> i = 0 \<or> i = 1 \<or> i = 2" for i by auto
  have "perm_vec 3 [1, 0, 2]"
    unfolding perm_vec_def by (intro conjI perm_onI) (auto simp: vec_perm_def three)
  from pperm_bit_initial[OF this] show ?thesis by auto
qed



end
