(* ===== verification/Globals.thy ===== *)
theory Globals
  imports Domains Encode_Entries
begin

text \<open>
  The option variables of \<^verbatim>\<open>global.h\<close> and the partially defined table
  \<open>cycle_set_t\<close> of \<^verbatim>\<open>useful.h\<close>, shared by the minimality check and the solver.
\<close>

section \<open>Options\<close>

record flags =
  fl_diag :: bool
  fl_smaller :: bool
  fl_prop :: bool
  fl_old :: bool
  fl_bit :: bool
  fl_maxDepth :: int
  fl_maxMC :: int

section \<open>The partially defined table\<close>

datatype truth = True_t | False_t | Unknown_t

record cyc =
  cy_matrix :: "int list list"
  cy_asg :: "truth list list list"
  cy_lits :: lits3
  cy_dom :: "bitdomain list list"

definition cyc_new :: "nat \<Rightarrow> lits3 \<Rightarrow> cyc" where
  "cyc_new n L = \<lparr>cy_matrix = const2 n (-1), cy_asg = const3 n Unknown_t, cy_lits = L,
     cy_dom = const2 n (bitdomain_new n True)\<rparr>"

abbreviation mat_at :: "cyc \<Rightarrow> nat \<Rightarrow> nat \<Rightarrow> int" where
  "mat_at C r c \<equiv> cy_matrix C ! r ! c"

abbreviation dom_at :: "cyc \<Rightarrow> nat \<Rightarrow> nat \<Rightarrow> bitdomain" where
  "dom_at C r c \<equiv> cy_dom C ! r ! c"

abbreviation asg_at :: "cyc \<Rightarrow> nat \<Rightarrow> nat \<Rightarrow> nat \<Rightarrow> truth" where
  "asg_at C r c k \<equiv> cy_asg C ! r ! c ! k"

text \<open>An access to a nested vector with indices read from another vector.\<close>

definition cell :: "'a list list \<Rightarrow> int \<Rightarrow> int \<Rightarrow> 'a res" where
  "cell M a b = bindE (vget M a) (\<lambda>row. vget row b)"

lemma cell_in [simp]: "dims2 n M \<Longrightarrow> a < n \<Longrightarrow> b < n \<Longrightarrow> cell M (int a) (int b) = Inr (M ! a ! b)"
  by (simp add: cell_def dims2_def)

text \<open>
  The diagonal the mode fixes: \<open>t\<close> when \<open>diagPart\<close> is set, none otherwise.
\<close>

definition diag_of :: "flags \<Rightarrow> (nat \<Rightarrow> nat) \<Rightarrow> (nat \<Rightarrow> nat) option" where
  "diag_of fl t = (if fl_diag fl then Some t else None)"

text \<open>
  The state the minimality check relies on: every cell has a domain that is not empty and
  agrees with the table, the diagonal cells hold the diagonal and their values are no options
  elsewhere in the row.
\<close>

definition free_cell :: "flags \<Rightarrow> nat \<Rightarrow> nat \<Rightarrow> bool" where
  "free_cell fl r c \<longleftrightarrow> \<not> (fl_diag fl \<and> r = c)"

definition cyc_dims :: "nat \<Rightarrow> cyc \<Rightarrow> bool" where
  "cyc_dims n C \<longleftrightarrow> dims2 n (cy_matrix C) \<and> dims3 n (cy_asg C) \<and> dims2 n (cy_dom C) \<and>
     (\<forall>r<n. \<forall>c<n. bd_inv n (dom_at C r c))"

definition cyc_ok :: "flags \<Rightarrow> nat \<Rightarrow> (nat \<Rightarrow> nat) \<Rightarrow> cyc \<Rightarrow> bool" where
  "cyc_ok fl n t C \<longleftrightarrow> cyc_dims n C \<and>
     (\<forall>r<n. \<forall>c<n. bd_vals (dom_at C r c) \<noteq> {} \<and>
        (mat_at C r c \<noteq> -1 \<longrightarrow> 0 \<le> mat_at C r c \<and> bd_vals (dom_at C r c) = {nat (mat_at C r c)})) \<and>
     (fl_diag fl \<longrightarrow> (\<forall>r<n. t r < n \<and> mat_at C r r = int (t r) \<and>
        (\<forall>c<n. r \<noteq> c \<longrightarrow> t r \<notin> bd_vals (dom_at C r c))))"

lemma cyc_new_dims: "0 < n \<Longrightarrow> cyc_dims n (cyc_new n L)"
  by (simp add: cyc_dims_def cyc_new_def bitdomain_new_inv)

section \<open>Printing\<close>

fun digits :: "nat \<Rightarrow> string" where
  "digits k = (if k < 10 then [char_of (48 + k)] else digits (k div 10) @ [char_of (48 + k mod 10)])"

definition show_int :: "int \<Rightarrow> string" where
  "show_int i = (if i < 0 then ''-'' @ digits (nat (- i)) else digits (nat i))"

definition printCycleSet :: "cyc \<Rightarrow> string" where
  "printCycleSet C = concat (map (\<lambda>row. concat (map (\<lambda>v. show_int v @ '' '') row) @ [char_of (10 :: nat)]) (cy_matrix C))"

definition fprintCycleSet :: "string \<Rightarrow> cyc \<Rightarrow> string" where
  "fprintCycleSet out C =
     out @ concat (map (\<lambda>row. concat (map (\<lambda>v. show_int v @ '' '') row) @ [char_of (10 :: nat)]) (cy_matrix C))"

definition printPartiallyDefinedCycleSet :: "cyc \<Rightarrow> string" where
  "printPartiallyDefinedCycleSet C =
     concat (map (\<lambda>row. concat (map (\<lambda>v. if v < 0 then ''* '' else show_int v @ '' '') row) @ [char_of (10 :: nat)]) (cy_matrix C))"

definition printAssignments :: "nat \<Rightarrow> cyc \<Rightarrow> string" where
  "printAssignments n C = concat (map (\<lambda>i. ''ROW '' @ digits i @ '': '' @
     concat (map (\<lambda>j. concat (map (\<lambda>k. if asg_at C i j k = True_t then ''1 ''
         else if asg_at C i j k = False_t then ''0 '' else ''* '') [0..<n]) @ [char_of (9 :: nat)]) [0..<n]) @
     [char_of (10 :: nat)]) [0..<n])"

definition printCnf :: "cnf \<Rightarrow> string" where
  "printCnf F = concat (map (\<lambda>cl. concat (map (\<lambda>l. show_int l @ '' '') cl) @ replicate 2 (char_of (10 :: nat))) F)"

end
