(* ===== verification/MinCheck_Common.thy ===== *)
theory MinCheck_Common
  imports Globals Cycles
begin

text \<open>
  The common part of the minimality check (\<^verbatim>\<open>minCheckCommon.cpp\<close>): the pre-check, the check of
  one fully defined permutation and the clauses it learns, in the old and the new form.

  A clause is collected in \<open>toAdd\<close>, one \<open>bitdomains2_t\<close> per row: the values listed for a cell
  are the literals the clause holds for it. Permutations are vectors of integers with -1 for an
  image that is not known; accesses they index are checked (\<open>UB\<close>).
\<close>

section \<open>Pre-checks\<close>

fun preCheck_loop :: "cyc \<Rightarrow> (nat \<times> nat) list \<Rightarrow> bool \<Rightarrow> bool" where
  "preCheck_loop C [] isID = isID"
| "preCheck_loop C ((i, j) # xs) isID =
     (if 1 < length (filter (\<lambda>x. x = int i) (cy_matrix C ! j)) then True
      else if bd_numTrue (dom_at C i j) = 0 then True
      else preCheck_loop C xs (if mat_at C i j \<noteq> int j then False else isID))"

definition preCheck :: "nat \<Rightarrow> cyc \<Rightarrow> bool" where
  "preCheck n C = preCheck_loop C (cells n) True"

definition permIsId :: "nat \<Rightarrow> int list \<Rightarrow> bool" where
  "permIsId n perm = (list_all (\<lambda>i. perm ! i = int i) [0..<n - 1] \<and> (perm ! (n - 1) = -1 \<or> perm ! (n - 1) = int (n - 1)))"

section \<open>Inverse and images\<close>

definition set_inv :: "nat \<Rightarrow> int \<Rightarrow> int list \<Rightarrow> int list res" where
  "set_inv i x ivp = (if 0 \<le> x \<and> x < int (length ivp) then Inr (ivp[nat x := int i]) else Inl UB)"

text \<open>In the learning functions unknown images are skipped, in the check they are not.\<close>

definition invperm_known :: "nat \<Rightarrow> int list \<Rightarrow> int list res" where
  "invperm_known n perm = foldE (\<lambda>i ivp. bindE (vget perm (int i)) (\<lambda>x.
     if x \<noteq> -1 then set_inv i x ivp else Inr ivp)) [0..<n] (replicate n (-1))"

definition invperm_full :: "nat \<Rightarrow> int list \<Rightarrow> int list res" where
  "invperm_full n perm = foldE (\<lambda>i ivp. bindE (vget perm (int i)) (\<lambda>x. set_inv i x ivp)) [0..<n] (replicate n (-1))"

text \<open>
  The values of the permuted cell with their inverse images, by inverse image. The comparator of
  the code is \<open>\<le>\<close>, which is no strict order; the images are distinct when the permutation is
  known, and then it sorts.
\<close>

definition perm_dom :: "cyc \<Rightarrow> int list \<Rightarrow> nat \<Rightarrow> nat \<Rightarrow> bitdomain res" where
  "perm_dom C perm r c = bindE (vget perm (int r)) (\<lambda>pr. bindE (vget perm (int c)) (\<lambda>pc. cell (cy_dom C) pr pc))"

definition permvals :: "cyc \<Rightarrow> int list \<Rightarrow> int list \<Rightarrow> nat \<Rightarrow> nat \<Rightarrow> (nat \<times> int) list res" where
  "permvals C perm ivp r c = bindE (perm_dom C perm r c) (\<lambda>d.
     Inr (sort_key snd (map (\<lambda>pv. (pv, ivp ! pv)) (bd_options d))))"

definition og_value :: "cyc \<Rightarrow> nat \<Rightarrow> nat \<Rightarrow> int" where
  "og_value C r c = (if mat_at C r c \<noteq> -1 then mat_at C r c else bd_firstel (dom_at C r c))"

section \<open>Collecting a clause\<close>

definition addToClause_step ::
  "flags \<Rightarrow> nat \<Rightarrow> cyc \<Rightarrow> nat \<Rightarrow> nat \<Rightarrow> nat \<Rightarrow> nat \<Rightarrow> bitdomains2 list \<Rightarrow> bitdomains2 list" where
  "addToClause_step fl n C r c lit i lits =
     (let l1 = (if i \<noteq> lit \<and> (fl_smaller fl \<longrightarrow> int i \<noteq> mat_at C r r) then lits[r := bd2_set1 (lits ! r) c i] else lits)
      in if i \<noteq> c \<and> (fl_smaller fl \<longrightarrow> int i \<noteq> mat_at C c c) then l1[r := bd2_reset1 n (l1 ! r) i lit] else l1)"

definition addToClause ::
  "flags \<Rightarrow> nat \<Rightarrow> cyc \<Rightarrow> nat \<Rightarrow> nat \<Rightarrow> nat \<Rightarrow> bool \<Rightarrow> bitdomains2 list \<Rightarrow> bitdomains2 list" where
  "addToClause fl n C r c lit neg lits =
     (if neg then fold (addToClause_step fl n C r c lit) [0..<n] lits
      else lits[r := bd2_set1 (lits ! r) c lit])"

definition cell_clause :: "flags \<Rightarrow> nat \<Rightarrow> cyc \<Rightarrow> lits3 \<Rightarrow> bitdomains2 list \<Rightarrow> nat \<times> nat \<Rightarrow> int list" where
  "cell_clause fl n C L lits x = (case x of (r, c) \<Rightarrow>
     if fl_smaller fl \<and> bd2_numtrue (lits ! r) c = int n - 2
     then map (\<lambda>i. - (L ! r ! c ! i)) (filter (\<lambda>i. int i \<noteq> mat_at C r r \<and> \<not> bd2_get (lits ! r) c i) [0..<n])
     else if \<not> fl_smaller fl \<and> bd2_numtrue (lits ! r) c = int n - 1
     then map (\<lambda>i. - (L ! r ! c ! i)) (filter (\<lambda>i. \<not> bd2_get (lits ! r) c i) [0..<n])
     else if 0 < bd2_numtrue (lits ! r) c
     then map (\<lambda>l. L ! r ! c ! l) (bd2_options n (lits ! r) c)
     else [])"

definition toClause :: "flags \<Rightarrow> nat \<Rightarrow> cyc \<Rightarrow> lits3 \<Rightarrow> bitdomains2 list \<Rightarrow> int list" where
  "toClause fl n C L lits = concat (map (cell_clause fl n C L lits) (cells n))"

text \<open>The values below \<open>m\<close> that cell \<open>(r, c)\<close> has lost.\<close>

definition og_lits :: "flags \<Rightarrow> nat \<Rightarrow> cyc \<Rightarrow> nat \<Rightarrow> nat \<Rightarrow> nat \<Rightarrow> bitdomains2 list \<Rightarrow> bitdomains2 list" where
  "og_lits fl n C r c m toAdd = fold (\<lambda>i toAdd.
     if fl_diag fl \<and> int i = mat_at C r r then toAdd
     else if \<not> bd_dom (dom_at C r c) ! i then addToClause fl n C r c i False toAdd
     else toAdd) [0..<m] toAdd"

text \<open>The values the permuted cell has lost whose inverse images are \<open>a\<close> or more.\<close>

definition perm_lits ::
  "flags \<Rightarrow> nat \<Rightarrow> cyc \<Rightarrow> int list \<Rightarrow> nat \<Rightarrow> nat \<Rightarrow> nat \<Rightarrow> bitdomains2 list \<Rightarrow> bitdomains2 list res" where
  "perm_lits fl n C perm r c a toAdd = foldE (\<lambda>i toAdd.
     bindE (vget perm (int i)) (\<lambda>p. bindE (vget perm (int r)) (\<lambda>pr. bindE (vget perm (int c)) (\<lambda>pc.
     bindE (if fl_diag fl then bindE (cell (cy_matrix C) pr pr) (\<lambda>d. Inr (p = d)) else Inr False) (\<lambda>skip.
     if skip then Inr toAdd
     else bindE (cell (cy_dom C) pr pc) (\<lambda>d. bindE (vget (bd_dom d) p) (\<lambda>b.
            if \<not> b then Inr (addToClause fl n C (nat pr) (nat pc) (nat p) False toAdd) else Inr toAdd))))))) [a..<n] toAdd"

text \<open>The literals of a cell before the one that decides.\<close>

definition short_cell ::
  "flags \<Rightarrow> nat \<Rightarrow> cyc \<Rightarrow> int list \<Rightarrow> int list \<Rightarrow> nat \<times> nat \<Rightarrow> bitdomains2 list \<Rightarrow> bitdomains2 list res" where
  "short_cell fl n C perm ivp x toAdd = (case x of (ri, ci) \<Rightarrow>
     bindE (vget perm (int ri)) (\<lambda>pr. bindE (vget perm (int ci)) (\<lambda>pc.
     if pr \<noteq> int ri \<or> pc \<noteq> int ci
     then bindE (permvals C perm ivp ri ci) (\<lambda>pvs.
            if pvs = [] then Inl UB
            else perm_lits fl n C perm ri ci (nat (og_value C ri ci + 1))
                   (og_lits fl n C ri ci (nat (snd (last pvs))) toAdd))
     else Inr (fold (\<lambda>i toAdd.
            if fl_diag fl \<and> int i = mat_at C ri ri then toAdd
            else if int i < ivp ! i \<and> \<not> bd_dom (dom_at C ri ci) ! i then addToClause fl n C ri ci i False toAdd
            else toAdd) [0..<n] toAdd))))"

text \<open>The loops over the cells up to the deciding one; a diagonal cell is skipped before the test for it.\<close>

definition cells_upto :: "flags \<Rightarrow> nat \<Rightarrow> nat \<Rightarrow> nat \<Rightarrow> (nat \<times> nat) list" where
  "cells_upto fl n r c = takeWhile (\<lambda>x. x \<noteq> (r, c)) (filter (\<lambda>(ri, ci). \<not> (fl_diag fl \<and> ri = ci)) (List.product [0..<Suc r] [0..<n]))"

text \<open>\<open>for (i < m) if (P i) { addToClause(..., neg); throw }\<close>\<close>

definition throw_first :: "flags \<Rightarrow> nat \<Rightarrow> cyc \<Rightarrow> lits3 \<Rightarrow> (int \<times> int \<times> nat) option \<Rightarrow> bitdomains2 list \<Rightarrow> unit res" where
  "throw_first fl n C L w toAdd = (case w of None \<Rightarrow> Inr ()
     | Some (a, b, v) \<Rightarrow> Inl (SymBreak (toClause fl n C L (addToClause fl n C (nat a) (nat b) v True toAdd))))"

definition first_perm_val :: "((nat \<times> int) \<Rightarrow> bool) \<Rightarrow> int \<Rightarrow> int \<Rightarrow> (nat \<times> int) list \<Rightarrow> (int \<times> int \<times> nat) option" where
  "first_perm_val P a b pvs = map_option (\<lambda>pv. (a, b, fst pv)) (List.find P pvs)"

text \<open>
  The deciding cell. The last case cannot be reached (its condition contradicts the first test),
  its loop runs over the options with the bound of the images.
\<close>

definition short_last ::
  "flags \<Rightarrow> nat \<Rightarrow> cyc \<Rightarrow> lits3 \<Rightarrow> int list \<Rightarrow> int list \<Rightarrow> nat \<Rightarrow> nat \<Rightarrow> bitdomains2 list \<Rightarrow> unit res" where
  "short_last fl n C L perm ivp r c toAdd =
     bindE (permvals C perm ivp r c) (\<lambda>pvs. bindE (vget perm (int r)) (\<lambda>pr. bindE (vget perm (int c)) (\<lambda>pc.
     if pvs = [] then Inl UB
     else let og = og_value C r c; top = snd (last pvs); opts = bd_options (dom_at C r c)
       in if top < og
          then bindE (perm_lits fl n C perm r c (nat (top + 1)) (og_lits fl n C r c (nat og) toAdd)) (\<lambda>toAdd.
                 Inl (SymBreak (toClause fl n C L toAdd)))
          else if length pvs = 1
          then bindE (perm_lits fl n C perm r c (nat (top + 1)) toAdd) (\<lambda>toAdd.
                 throw_first fl n C L
                   (map_option (\<lambda>v. (int r, int c, v)) (List.find (\<lambda>v. snd (hd pvs) < int v) opts)) toAdd)
          else if mat_at C r c \<noteq> -1
          then throw_first fl n C L (first_perm_val (\<lambda>pv. snd pv < og) pr pc pvs) (og_lits fl n C r c (nat og) toAdd)
          else if pr = int r \<and> pc = int c
          then throw_first fl n C L (first_perm_val (\<lambda>pv. snd pv < int (fst pv)) pr pc pvs) toAdd
          else if og \<le> top
          then throw_first fl n C L (first_perm_val (\<lambda>pv. snd pv < og) pr pc pvs) (og_lits fl n C r c (nat og) toAdd)
          else if snd (hd pvs) \<le> og
          then bindE (perm_lits fl n C perm r c (nat (top + 1)) toAdd) (\<lambda>toAdd.
                 bindE (foldE (\<lambda>i found. if found \<noteq> None then Inr found
                    else bindE (vget opts (int i)) (\<lambda>v. Inr (if snd (hd pvs) < int v then Some v else None))) [0..<length pvs] None)
                 (\<lambda>w. throw_first fl n C L (map_option (\<lambda>v. (int r, int c, v)) w) toAdd))
          else Inr ())))"

definition addClausesShort :: "flags \<Rightarrow> nat \<Rightarrow> cyc \<Rightarrow> lits3 \<Rightarrow> int list \<Rightarrow> nat \<Rightarrow> nat \<Rightarrow> unit res" where
  "addClausesShort fl n C L perm r c =
     bindE (invperm_known n perm) (\<lambda>ivp.
     bindE (foldE (short_cell fl n C perm ivp) (cells_upto fl n r c) (replicate n (bd2_new n False))) (\<lambda>toAdd.
     short_last fl n C L perm ivp r c toAdd))"

section \<open>The clauses in the old form\<close>

text \<open>The literals of one cell; at the deciding cell only the values above \<open>index\<close>.\<close>

definition old_value ::
  "flags \<Rightarrow> cyc \<Rightarrow> lits3 \<Rightarrow> int list \<Rightarrow> nat \<Rightarrow> nat \<Rightarrow> nat \<Rightarrow> int list \<Rightarrow> int list res" where
  "old_value fl C L perm ri ci i toAdd =
     (if fl_diag fl \<and> int i = mat_at C ri ri then Inr toAdd
      else bindE (vget perm (int ri)) (\<lambda>pr. bindE (vget perm (int ci)) (\<lambda>pc. bindE (vget perm (int i)) (\<lambda>pp.
           bindE (cell (cy_asg C) pr pc) (\<lambda>row. bindE (vget row pp) (\<lambda>perm_asg.
           if int ri \<noteq> pr \<or> int ci \<noteq> pc \<or> int i \<noteq> pp
           then Inr (toAdd @ (if asg_at C ri ci i = True_t then [- (L ! ri ! ci ! i)] else []) @
                  (if perm_asg = False_t then [L ! nat pr ! nat pc ! nat pp] else []))
           else Inr toAdd))))))"

definition old_lits :: "flags \<Rightarrow> nat \<Rightarrow> cyc \<Rightarrow> lits3 \<Rightarrow> int list \<Rightarrow> nat \<Rightarrow> nat \<Rightarrow> int list res" where
  "old_lits fl n C L perm r c =
     bindE (foldE (\<lambda>(ri, ci). foldE (old_value fl C L perm ri ci) (rev [0..<n])) (cells_upto fl n r c) []) (\<lambda>toAdd.
       if fl_diag fl \<and> r = c then Inr toAdd
       else let index = (if mat_at C r c \<noteq> -1 then nat (mat_at C r c) else n - 1)
            in foldE (old_value fl C L perm r c) (takeWhile (\<lambda>i. i \<noteq> index) (rev [0..<n])) toAdd)"

definition old_throw :: "int list \<Rightarrow> int list \<Rightarrow> unit res" where
  "old_throw toAdd ls = Inl (SymBreak (toAdd @ ls))"

definition addClausesOld :: "flags \<Rightarrow> nat \<Rightarrow> cyc \<Rightarrow> lits3 \<Rightarrow> int list \<Rightarrow> nat \<Rightarrow> nat \<Rightarrow> unit res" where
  "addClausesOld fl n C L perm r c =
     bindE (invperm_known n perm) (\<lambda>ivp.
     bindE (old_lits fl n C L perm r c) (\<lambda>toAdd.
     bindE (permvals C perm ivp r c) (\<lambda>pvs. bindE (vget perm (int r)) (\<lambda>pr. bindE (vget perm (int c)) (\<lambda>pc.
     let og = og_value C r c; ogFixed = (mat_at C r c \<noteq> -1); opts = bd_options (dom_at C r c);
         og_lit = - (L ! r ! c ! nat og); perm_lit = (\<lambda>v. - (L ! nat pr ! nat pc ! v))
     in if ogFixed \<and> length pvs = 1 then old_throw toAdd [og_lit, perm_lit (fst (hd pvs))]
        else if length pvs = 1
        then bindE (vget opts 0) (\<lambda>v. if snd (hd pvs) < int v
               then old_throw toAdd [perm_lit (fst (hd pvs)), - (L ! r ! c ! v)] else Inr ())
        else if ogFixed
        then (case List.find (\<lambda>pv. snd pv < og) pvs of None \<Rightarrow> Inr ()
              | Some pv \<Rightarrow> old_throw toAdd [og_lit, perm_lit (fst pv)])
        else if pr = int r \<and> pc = int c
        then (case List.find (\<lambda>pv. snd pv < int (fst pv)) pvs of None \<Rightarrow> Inr ()
              | Some pv \<Rightarrow> old_throw toAdd [perm_lit (fst pv)])
        else (case List.find (\<lambda>pv. snd pv < og) pvs of None \<Rightarrow> Inr ()
              | Some pv \<Rightarrow> old_throw toAdd (map (\<lambda>i. L ! r ! c ! i)
                  (filter (\<lambda>i. \<not> (fl_diag fl \<and> int i = mat_at C r r) \<and> \<not> bd_dom (dom_at C r c) ! i) [0..<n]) @ [perm_lit (fst pv)])))))))"

definition addClauses :: "flags \<Rightarrow> nat \<Rightarrow> cyc \<Rightarrow> lits3 \<Rightarrow> int list \<Rightarrow> nat \<Rightarrow> nat \<Rightarrow> unit res" where
  "addClauses fl n C L perm r c = (if fl_old fl then addClausesOld fl n C L perm r c else addClausesShort fl n C L perm r c)"

section \<open>A fully defined permutation\<close>

text \<open>One cell of the check; the result tells whether the loops go on.\<close>

definition full_cell :: "flags \<Rightarrow> nat \<Rightarrow> cyc \<Rightarrow> lits3 \<Rightarrow> int list \<Rightarrow> int list \<Rightarrow> nat \<times> nat \<Rightarrow> bool res" where
  "full_cell fl n C L perm ivp x = (case x of (r, c) \<Rightarrow>
     let minog = bd_firstel (dom_at C r c); minOgFixed = (bd_numTrue (dom_at C r c) = 1);
         add = addClauses fl n C L perm r c; go = (\<lambda>_. Inr True)
     in bindE (vget perm (int r)) (\<lambda>pr. bindE (vget perm (int c)) (\<lambda>pc. bindE (cell (cy_dom C) pr pc) (\<lambda>d.
        let permVal = bd_options d
        in if length permVal = 1
           then let iv = ivp ! hd permVal
                in if iv < minog then bindE add go
                   else if minOgFixed \<and> iv = minog then Inr True
                   else if fl_prop fl \<and> iv = minog then bindE add go
                   else Inr False
           else if permVal = [] then Inl UB
           else let mx = Max (set (map (\<lambda>p. ivp ! p) permVal))
                in if mx < minog then bindE add go
                   else if \<not> fl_prop fl \<and> mx \<le> minog then Inr True
                   else if fl_prop fl
                   then (if pr = int r \<and> pc = int c
                         then bindE (foldE (\<lambda>p _. if ivp ! p < int p then add else Inr ()) permVal ()) (\<lambda>_. Inr False)
                         else if mx = minog then bindE add go else Inr False)
                   else Inr False))))"

fun full_cells :: "flags \<Rightarrow> nat \<Rightarrow> cyc \<Rightarrow> lits3 \<Rightarrow> int list \<Rightarrow> int list \<Rightarrow> (nat \<times> nat) list \<Rightarrow> unit res" where
  "full_cells fl n C L perm ivp [] = Inr ()"
| "full_cells fl n C L perm ivp (x # xs) =
     bindE (full_cell fl n C L perm ivp x) (\<lambda>go. if go then full_cells fl n C L perm ivp xs else Inr ())"

definition permFullyDefinedCheck :: "flags \<Rightarrow> nat \<Rightarrow> cyc \<Rightarrow> lits3 \<Rightarrow> int list \<Rightarrow> nat \<Rightarrow> nat \<Rightarrow> unit res" where
  "permFullyDefinedCheck fl n C L perm i j =
     (if permIsId n perm then Inr ()
      else bindE (invperm_full n perm) (\<lambda>ivp.
             full_cells fl n C L perm ivp (filter (\<lambda>(r, c). \<not> (r < i \<or> (r = i \<and> c < j))) (cells n))))"

section \<open>What a collected clause says\<close>

text \<open>
  A table falsifies the clause when no cell has a value listed for it. In the smaller encoding
  nothing is listed for the entries without a variable.
\<close>

definition listed :: "nat \<Rightarrow> bitdomains2 list \<Rightarrow> nat \<Rightarrow> nat \<Rightarrow> nat set" where
  "listed n D r c = bd2_vals n (D ! r) c"

definition has_var :: "flags \<Rightarrow> (nat \<Rightarrow> nat) \<Rightarrow> nat \<Rightarrow> nat \<Rightarrow> nat \<Rightarrow> bool" where
  "has_var fl t r c i \<longleftrightarrow> (fl_smaller fl \<longrightarrow> r \<noteq> c \<and> i \<noteq> t r)"

definition lits_inv :: "flags \<Rightarrow> nat \<Rightarrow> (nat \<Rightarrow> nat) \<Rightarrow> bitdomains2 list \<Rightarrow> bool" where
  "lits_inv fl n t D \<longleftrightarrow> length D = n \<and>
     (\<forall>r<n. bd2_inv n (D ! r) \<and> (\<forall>c<n. \<forall>i\<in>listed n D r c. has_var fl t r c i))"

definition says :: "nat \<Rightarrow> bitdomains2 list \<Rightarrow> cmat \<Rightarrow> bool" where
  "says n D N \<longleftrightarrow> (\<forall>r<n. \<forall>c<n. N r c \<notin> listed n D r c)"

definition table_ok :: "flags \<Rightarrow> nat \<Rightarrow> (nat \<Rightarrow> nat) \<Rightarrow> cmat \<Rightarrow> bool" where
  "table_ok fl n t N \<longleftrightarrow> row_perms n N \<and> has_diag n (diag_of fl t) N"

definition lits_live :: "flags \<Rightarrow> nat \<Rightarrow> (nat \<Rightarrow> nat) \<Rightarrow> lits3 \<Rightarrow> bool" where
  "lits_live fl n t L \<longleftrightarrow> (\<forall>r<n. \<forall>c<n. \<forall>i<n. has_var fl t r c i \<longrightarrow> L ! r ! c ! i \<noteq> 0)"

lemma table_ok_diag: "table_ok fl n t N \<Longrightarrow> fl_diag fl \<Longrightarrow> r < n \<Longrightarrow> N r r = t r"
  by (simp add: table_ok_def has_diag_def diag_of_def)

lemma table_ok_less: "table_ok fl n t N \<Longrightarrow> r < n \<Longrightarrow> c < n \<Longrightarrow> N r c < n"
  by (simp add: table_ok_def row_perms_less)

lemma table_ok_inj: "table_ok fl n t N \<Longrightarrow> r < n \<Longrightarrow> c < n \<Longrightarrow> c' < n \<Longrightarrow> N r c = N r c' \<longleftrightarrow> c = c'"
  by (metis table_ok_def row_perms_inj)

lemma table_ok_off_diag: "table_ok fl n t N \<Longrightarrow> fl_diag fl \<Longrightarrow> r < n \<Longrightarrow> c < n \<Longrightarrow> r \<noteq> c \<Longrightarrow> N r c \<noteq> t r"
  using table_ok_diag[of fl n t N r] table_ok_inj[of fl n t N r c r] by simp

lemma listed_bound: "lits_inv fl n t D \<Longrightarrow> r < n \<Longrightarrow> c < n \<Longrightarrow> listed n D r c \<subseteq> {..<n}"
  using bd2.vals_bound[of n "D ! r" c] by (simp add: lits_inv_def listed_def bd2_key_def)

lemma listed_var: "lits_inv fl n t D \<Longrightarrow> r < n \<Longrightarrow> c < n \<Longrightarrow> i \<in> listed n D r c \<Longrightarrow> has_var fl t r c i"
  by (simp add: lits_inv_def)

lemma lits_inv_empty: "0 < n \<Longrightarrow> lits_inv fl n t (replicate n (bd2_new n False))"
  by (simp add: lits_inv_def listed_def bd2_new_inv bd2_new_vals)

lemma reads_lit:
  assumes "reads n L t v N" "r < n" "c < n" "i < n" "L ! r ! c ! i \<noteq> 0"
  shows "lit_holds v (L ! r ! c ! i) \<longleftrightarrow> N r c = i" "lit_holds v (- (L ! r ! c ! i)) \<longleftrightarrow> N r c \<noteq> i"
  using readsD(2)[OF assms(1-4)] assms(5) by (simp_all add: entry_holds_def)

lemma clause_holds_member: "l \<in> set cls \<Longrightarrow> lit_holds v l \<Longrightarrow> clause_holds v cls"
  by (auto simp: clause_holds_def)

lemma cell_clause_false:
  assumes C: "cyc_ok fl n t C" "fl_smaller fl \<longrightarrow> fl_diag fl" and L: "lits_live fl n t L" and D: "lits_inv fl n t D"
    and rd: "reads n L t v N" and N: "table_ok fl n t N" and rc: "r < n" "c < n"
    and false: "\<not> clause_holds v (cell_clause fl n C L D (r, c))"
  shows "N r c \<notin> listed n D r c"
proof
  assume mem: "N r c \<in> listed n D r c"
  note bnd = listed_bound[OF D rc] and hv = listed_var[OF D rc]
  have inv: "bd2_inv n (D ! r)" and key: "bd2_key n c" using D rc by (simp_all add: lits_inv_def bd2_key_def)
  have fin: "finite (listed n D r c)" using bnd finite_subset by blast
  have num: "bd2_numtrue (D ! r) c = int (card (listed n D r c))"
    using bd2.numtrue_eq[OF inv key] by (simp add: listed_def)
  have pos: "0 < card (listed n D r c)" using mem fin card_gt_0_iff by blast
  have get: "bd2_get (D ! r) c i \<longleftrightarrow> i \<in> listed n D r c" if "i < n" for i
    using bd2_get_iff[OF inv rc(2) that] by (simp add: listed_def)
  have dg: "mat_at C r r = int (t r)" "t r < n" if "fl_smaller fl" using C rc that by (simp_all add: cyc_ok_def)
  have nz: "L ! r ! c ! i \<noteq> 0" if "i < n" "has_var fl t r c i" for i using L rc that by (simp add: lits_live_def)
  have neg: False if "- (L ! r ! c ! i) \<in> set (cell_clause fl n C L D (r, c))" "i < n" "has_var fl t r c i" "i \<notin> listed n D r c" for i
  proof -
    have "N r c \<noteq> i" using mem that(4) by auto
    then have "lit_holds v (- (L ! r ! c ! i))" using reads_lit(2)[OF rd rc that(2) nz[OF that(2,3)]] by simp
    then show False using false that(1) clause_holds_member by blast
  qed
  consider "fl_smaller fl" "card (listed n D r c) + 2 = n"
    | "\<not> fl_smaller fl" "card (listed n D r c) + 1 = n"
    | "\<not> (fl_smaller fl \<and> card (listed n D r c) + 2 = n)" "\<not> (\<not> fl_smaller fl \<and> card (listed n D r c) + 1 = n)" by blast
  then show False
  proof cases
    case 1
    have rc': "r \<noteq> c" using hv[OF mem] 1(1) by (simp add: has_var_def)
    have sub: "listed n D r c \<subseteq> {..<n} - {t r}" using bnd hv 1(1) by (auto simp: has_var_def)
    have "card ({..<n} - {t r}) = n - 1" using dg(2)[OF 1(1)] by simp
    then have "card (listed n D r c) \<noteq> card ({..<n} - {t r})" using 1(2) by linarith
    then have "listed n D r c \<noteq> {..<n} - {t r}" by metis
    then obtain i where i: "i < n" "i \<noteq> t r" "i \<notin> listed n D r c" using sub by blast
    have "bd2_numtrue (D ! r) c = int n - 2" using num 1(2) by simp
    then have "- (L ! r ! c ! i) \<in> set (cell_clause fl n C L D (r, c))"
      using 1(1) i get[OF i(1)] dg(1)[OF 1(1)] by (simp add: cell_clause_def)
    moreover have "has_var fl t r c i" using i(2) rc' by (simp add: has_var_def)
    ultimately show False using neg i by blast
  next
    case 2
    have "card (listed n D r c) \<noteq> card {..<n}" using 2(2) by simp
    then have "listed n D r c \<noteq> {..<n}" by metis
    then obtain i where i: "i < n" "i \<notin> listed n D r c" using bnd by blast
    have "bd2_numtrue (D ! r) c = int n - 1" using num 2(2) by simp
    then have "- (L ! r ! c ! i) \<in> set (cell_clause fl n C L D (r, c))"
      using 2(1) i get[OF i(1)] by (simp add: cell_clause_def)
    then show False using neg i 2(1) by (simp add: has_var_def)
  next
    case 3
    have s: "\<not> (fl_smaller fl \<and> bd2_numtrue (D ! r) c = int n - 2)" using 3(1) num by linarith
    have ns: "\<not> (\<not> fl_smaller fl \<and> bd2_numtrue (D ! r) c = int n - 1)" using 3(2) num by linarith
    have p: "0 < bd2_numtrue (D ! r) c" using num pos by simp
    have e: "cell_clause fl n C L D (r, c) = map (\<lambda>l. L ! r ! c ! l) (bd2_options n (D ! r) c)"
      unfolding cell_clause_def prod.case if_not_P[OF s] if_not_P[OF ns] if_P[OF p] ..
    have "N r c \<in> set (bd2_options n (D ! r) c)" using bd2.set_options[OF inv key] mem by (simp add: listed_def)
    then have "L ! r ! c ! N r c \<in> set (cell_clause fl n C L D (r, c))" unfolding e by simp
    moreover have "lit_holds v (L ! r ! c ! N r c)"
      using reads_lit(1)[OF rd rc _ nz] bnd mem hv[OF mem] by auto
    ultimately show False using false clause_holds_member by blast
  qed
qed

lemma toClause_false:
  assumes "cyc_ok fl n t C" "fl_smaller fl \<longrightarrow> fl_diag fl" "lits_live fl n t L" "lits_inv fl n t D"
    and "reads n L t v N" "table_ok fl n t N" "\<not> clause_holds v (toClause fl n C L D)"
  shows "says n D N"
  unfolding says_def
proof (intro allI impI)
  fix r c assume rc: "r < n" "c < n"
  have "\<not> clause_holds v (cell_clause fl n C L D (r, c))"
    using assms(7) rc by (auto simp: toClause_def clause_holds_def)
  then show "N r c \<notin> listed n D r c" by (rule cell_clause_false[OF assms(1-6) rc])
qed

lemma add_pos:
  assumes D: "lits_inv fl n t D" and rci: "r < n" "c < n" "i < n" and hv: "has_var fl t r c i"
  shows "lits_inv fl n t (addToClause fl n C r c i False D)"
    and "says n (addToClause fl n C r c i False D) N \<longleftrightarrow> says n D N \<and> N r c \<noteq> i"
proof -
  have len: "length D = n" using D by (simp add: lits_inv_def)
  have inv: "bd2_inv n (D ! r)" and key: "bd2_key n c" using D rci by (simp_all add: lits_inv_def bd2_key_def)
  let ?D = "addToClause fl n C r c i False D"
  have eq: "?D = D[r := bd2_set1 (D ! r) c i]" by (simp add: addToClause_def)
  have li: "listed n ?D r' c' = (if r' = r \<and> c' = c then insert i (listed n D r c) else listed n D r' c')" if "r' < n" "c' < n" for r' c'
    using bd2.set1_vals[OF inv key _ rci(3), of c'] that len
    by (cases "r' = r"; cases "c' = c") (simp_all add: eq listed_def bd2_key_def)
  have "bd2_inv n (?D ! r')" if "r' < n" for r'
    using bd2.set1_inv[OF inv key rci(3)] D that len by (cases "r' = r") (simp_all add: eq lits_inv_def)
  then show "lits_inv fl n t ?D" using D hv li by (auto simp: lits_inv_def eq split: if_splits)
  show "says n ?D N \<longleftrightarrow> says n D N \<and> N r c \<noteq> i"
    unfolding says_def using li rci(1,2) by (metis insert_iff)
qed

text \<open>A negated literal lists the other values of the cell, and drops the value in the rest of the row.\<close>

lemma add_neg_step:
  assumes D: "lits_inv fl n t D" and rcl: "r < n" "c < n" "lit < n" and i: "i < n"
    and C: "fl_smaller fl \<longrightarrow> r \<noteq> c \<and> mat_at C r r = int (t r)"
  defines "E \<equiv> addToClause_step fl n C r c lit i D"
  shows "lits_inv fl n t E"
    and "r' \<noteq> r \<Longrightarrow> c' < n \<Longrightarrow> r' < n \<Longrightarrow> listed n E r' c' = listed n D r' c'"
    and "listed n D r c \<subseteq> listed n E r c"
    and "i \<noteq> lit \<Longrightarrow> has_var fl t r c i \<Longrightarrow> i \<in> listed n E r c"
    and "c' < n \<Longrightarrow> listed n D r c' - {lit} \<subseteq> listed n E r c'"
proof -
  have len: "length D = n" using D by (simp add: lits_inv_def)
  have inv: "bd2_inv n (D ! r)" and key: "bd2_key n c" using D rcl by (simp_all add: lits_inv_def bd2_key_def)
  define g where "g \<longleftrightarrow> i \<noteq> lit \<and> (fl_smaller fl \<longrightarrow> int i \<noteq> mat_at C r r)"
  define h where "h \<longleftrightarrow> i \<noteq> c \<and> (fl_smaller fl \<longrightarrow> int i \<noteq> mat_at C c c)"
  define A where "A = (if g then bd2_set1 (D ! r) c i else D ! r)"
  define B where "B = (if h then bd2_reset1 n A i lit else A)"
  have E: "E = D[r := B]"
    using rcl(1) len by (simp add: E_def addToClause_step_def Let_def g_def h_def A_def B_def list_update_id)
  have ki: "bd2_key n i" using i by (simp add: bd2_key_def)
  have Ainv: "bd2_inv n A" using inv bd2.set1_inv[OF inv key i] by (simp add: A_def)
  have Av: "bd2_vals n A c' = (if g \<and> c' = c then insert i (listed n D r c) else listed n D r c')" if "c' < n" for c'
    using bd2.set1_vals[OF inv key _ i, of c'] that by (cases "c' = c") (simp_all add: A_def listed_def bd2_key_def)
  have Binv: "bd2_inv n B" using Ainv bd2.reset1_inv[OF Ainv ki rcl(3)] by (simp add: B_def)
  have Bv: "bd2_vals n B c' = (if h \<and> c' = i then bd2_vals n A i - {lit} else bd2_vals n A c')" if "c' < n" for c'
    using bd2.reset1_vals[OF Ainv ki _ rcl(3), of c'] that by (cases "c' = i") (simp_all add: B_def bd2_key_def)
  have row: "listed n E r c' = bd2_vals n B c'" for c' using rcl(1) len by (simp add: E listed_def)
  have hc: "\<not> (h \<and> c = i)" by (auto simp: h_def)
  show other: "listed n E r' c' = listed n D r' c'" if "r' \<noteq> r" "c' < n" "r' < n" for r' c'
    using that len by (simp add: E listed_def)
  show "listed n D r c \<subseteq> listed n E r c" unfolding row using Av[OF rcl(2)] Bv[OF rcl(2)] hc by auto
  have gi: "g \<longleftrightarrow> i \<noteq> lit \<and> has_var fl t r c i" using C by (auto simp: g_def has_var_def)
  show "i \<in> listed n E r c" if "i \<noteq> lit" "has_var fl t r c i"
    unfolding row using Av[OF rcl(2)] Bv[OF rcl(2)] hc gi that by simp
  show "listed n D r c' - {lit} \<subseteq> listed n E r c'" if "c' < n" for c'
    unfolding row using Av[OF that] Bv[OF that] Av[OF i] by auto
  have "has_var fl t r c' x" if "c' < n" "x \<in> listed n E r c'" for c' x
  proof -
    have "x \<in> bd2_vals n A c'" using that Bv[OF that(1)] unfolding row by (auto split: if_splits)
    then have "x \<in> listed n D r c' \<or> (g \<and> c' = c \<and> x = i)" using Av[OF that(1)] by (auto split: if_splits)
    then show ?thesis using listed_var[OF D rcl(1) that(1)] gi by auto
  qed
  moreover have "has_var fl t r' c' x" if "r' < n" "c' < n" "x \<in> listed n E r' c'" "r' \<noteq> r" for r' c' x
    using other[OF that(4,2,1)] listed_var[OF D that(1,2)] that(3) by simp
  moreover have "bd2_inv n (E ! r')" if "r' < n" for r'
    using Binv D that len by (cases "r' = r") (simp_all add: E lits_inv_def)
  moreover have "length E = n" using len by (simp add: E)
  ultimately show "lits_inv fl n t E" unfolding lits_inv_def by blast
qed

lemma add_neg_inv:
  assumes D: "lits_inv fl n t D" and rcl: "r < n" "c < n" "lit < n"
    and C: "fl_smaller fl \<longrightarrow> r \<noteq> c \<and> mat_at C r r = int (t r)"
  shows "lits_inv fl n t (addToClause fl n C r c lit True D)"
proof -
  have "lits_inv fl n t (fold (addToClause_step fl n C r c lit) [0..<n] D)"
    by (rule fold_set_inv[where P = "lits_inv fl n t", OF D]) (use add_neg_step(1)[of fl n t _ r c lit _ C] rcl C in auto)
  then show ?thesis by (simp add: addToClause_def)
qed

lemma add_neg:
  assumes D: "lits_inv fl n t D" and rcl: "r < n" "c < n" "lit < n" and hv: "has_var fl t r c lit"
    and C: "fl_smaller fl \<longrightarrow> fl_diag fl \<and> mat_at C r r = int (t r)"
    and N: "table_ok fl n t N" and s: "says n (addToClause fl n C r c lit True D) N"
  shows "lits_inv fl n t (addToClause fl n C r c lit True D)" "says n D N" "N r c = lit"
proof -
  let ?E = "addToClause fl n C r c lit True D"
  have C': "fl_smaller fl \<longrightarrow> r \<noteq> c \<and> mat_at C r r = int (t r)" using C hv by (simp add: has_var_def)
  let ?P = "\<lambda>k E. lits_inv fl n t E \<and> (\<forall>r'<n. \<forall>c'<n. r' \<noteq> r \<longrightarrow> listed n E r' c' = listed n D r' c') \<and>
     listed n D r c \<subseteq> listed n E r c \<and> (\<forall>i<k. i \<noteq> lit \<longrightarrow> has_var fl t r c i \<longrightarrow> i \<in> listed n E r c) \<and>
     (\<forall>c'<n. listed n D r c' - {lit} \<subseteq> listed n E r c')"
  have "?P n (fold (addToClause_step fl n C r c lit) [0..<n] D)"
  proof (rule fold_upt_inv[where P = ?P])
    show "?P 0 D" using D by auto
    fix i E assume i: "0 \<le> i" "i < n" and P: "?P i E"
    have E: "lits_inv fl n t E" using P by blast
    note st = add_neg_step[OF E rcl i(2) C']
    show "?P (Suc i) (addToClause_step fl n C r c lit i E)"
    proof (intro conjI allI impI)
      show "lits_inv fl n t (addToClause_step fl n C r c lit i E)" by (rule st(1))
      show "listed n (addToClause_step fl n C r c lit i E) r' c' = listed n D r' c'" if "r' < n" "c' < n" "r' \<noteq> r" for r' c'
        using st(2)[OF that(3,2,1)] P that by simp
      show "listed n D r c \<subseteq> listed n (addToClause_step fl n C r c lit i E) r c" using st(3) P by blast
      show "k \<in> listed n (addToClause_step fl n C r c lit i E) r c" if "k < Suc i" "k \<noteq> lit" "has_var fl t r c k" for k
        using that st(3,4) P by (cases "k = i") auto
      show "listed n D r c' - {lit} \<subseteq> listed n (addToClause_step fl n C r c lit i E) r c'" if "c' < n" for c'
        using st(5)[OF that] P that by blast
    qed
  qed simp
  then have F: "lits_inv fl n t ?E" "\<And>r' c'. r' < n \<Longrightarrow> c' < n \<Longrightarrow> r' \<noteq> r \<Longrightarrow> listed n ?E r' c' = listed n D r' c'"
    "listed n D r c \<subseteq> listed n ?E r c" "\<And>i. i < n \<Longrightarrow> i \<noteq> lit \<Longrightarrow> has_var fl t r c i \<Longrightarrow> i \<in> listed n ?E r c"
    "\<And>c'. c' < n \<Longrightarrow> listed n D r c' - {lit} \<subseteq> listed n ?E r c'"
    by (simp_all add: addToClause_def)
  show "lits_inv fl n t ?E" by (rule F(1))
  have said: "N r' c' \<notin> listed n ?E r' c'" if "r' < n" "c' < n" for r' c' using s that by (simp add: says_def)
  have "has_var fl t r c (N r c)"
    using C' C table_ok_off_diag[OF N _ rcl(1,2)] by (auto simp: has_var_def)
  then show val: "N r c = lit" using F(4)[of "N r c"] said[OF rcl(1,2)] table_ok_less[OF N rcl(1,2)] by blast
  show "says n D N" unfolding says_def
  proof (intro allI impI)
    fix r' c' assume rc': "r' < n" "c' < n"
    show "N r' c' \<notin> listed n D r' c'"
    proof (cases "r' = r")
      case False
      then show ?thesis using F(2)[OF rc'] said[OF rc'] by simp
    next
      case True
      have "N r c' \<noteq> lit" if "c' \<noteq> c" using val table_ok_inj[OF N rcl(1,2) rc'(2)] that by auto
      then show ?thesis using True F(3) F(5)[OF rc'(2)] said[OF rc'] by (cases "c' = c") auto
    qed
  qed
qed

section \<open>What the loops add\<close>

text \<open>\<open>adds D F E\<close>: a table that falsifies \<open>E\<close> falsifies \<open>D\<close> and satisfies \<open>F\<close>.\<close>

definition adds ::
  "flags \<Rightarrow> nat \<Rightarrow> (nat \<Rightarrow> nat) \<Rightarrow> bitdomains2 list \<Rightarrow> (cmat \<Rightarrow> bool) \<Rightarrow> bitdomains2 list \<Rightarrow> bool" where
  "adds fl n t D F E \<longleftrightarrow> lits_inv fl n t E \<and> (\<forall>N. table_ok fl n t N \<longrightarrow> says n E N \<longrightarrow> says n D N \<and> F N)"

lemma adds_refl: "lits_inv fl n t D \<Longrightarrow> (\<And>N. table_ok fl n t N \<Longrightarrow> F N) \<Longrightarrow> adds fl n t D F D"
  by (simp add: adds_def)

lemma adds_trans: "adds fl n t D F E \<Longrightarrow> adds fl n t E G E' \<Longrightarrow> adds fl n t D (\<lambda>N. F N \<and> G N) E'"
  by (simp add: adds_def)

lemma adds_mono: "adds fl n t D F E \<Longrightarrow> (\<And>N. table_ok fl n t N \<Longrightarrow> F N \<Longrightarrow> G N) \<Longrightarrow> adds fl n t D G E"
  by (simp add: adds_def)

lemma adds_inv: "adds fl n t D F E \<Longrightarrow> lits_inv fl n t E"
  by (simp add: adds_def)

lemma foldE_adds:
  assumes "lits_inv fl n t D"
    and "\<And>x E. x \<in> set xs \<Longrightarrow> lits_inv fl n t E \<Longrightarrow> \<exists>E'. f x E = Inr E' \<and> adds fl n t E (G x) E'"
  shows "\<exists>E. foldE f xs D = Inr E \<and> adds fl n t D (\<lambda>N. \<forall>x\<in>set xs. G x N) E"
  using assms
proof (induction xs arbitrary: D)
  case (Cons x xs)
  obtain E where E: "f x D = Inr E" "adds fl n t D (G x) E" using Cons.prems(1) Cons.prems(2)[of x] by auto
  obtain E' where E': "foldE f xs E = Inr E'" "adds fl n t E (\<lambda>N. \<forall>x\<in>set xs. G x N) E'"
    using Cons.IH[OF adds_inv[OF E(2)]] Cons.prems(2) by auto
  show ?case using E(1) E'(1) adds_trans[OF E(2) E'(2)] by simp
qed (simp add: adds_refl)

lemma fold_adds:
  assumes "lits_inv fl n t D"
    and "\<And>x E. x \<in> set xs \<Longrightarrow> lits_inv fl n t E \<Longrightarrow> adds fl n t E (G x) (f x E)"
  shows "adds fl n t D (\<lambda>N. \<forall>x\<in>set xs. G x N) (fold f xs D)"
  using assms
proof (induction xs arbitrary: D)
  case (Cons x xs)
  have E: "adds fl n t D (G x) (f x D)" using Cons.prems(1) Cons.prems(2)[of x] by auto
  have "adds fl n t (f x D) (\<lambda>N. \<forall>x\<in>set xs. G x N) (fold f xs (f x D))"
    using Cons.IH[OF adds_inv[OF E]] Cons.prems(2) by auto
  then show ?case using adds_trans[OF E] by simp
qed (simp add: adds_refl)

lemma cyc_okD:
  assumes "cyc_ok fl n t C" "r < n" "c < n"
  shows "bd_inv n (dom_at C r c)" "bd_vals (dom_at C r c) \<noteq> {}"
    "mat_at C r c \<noteq> -1 \<Longrightarrow> bd_vals (dom_at C r c) = {nat (mat_at C r c)} \<and> 0 \<le> mat_at C r c"
    "fl_diag fl \<Longrightarrow> mat_at C r r = int (t r)" "fl_diag fl \<Longrightarrow> t r < n" "dims2 n (cy_matrix C)" "dims2 n (cy_dom C)"
    "fl_diag fl \<Longrightarrow> r \<noteq> c \<Longrightarrow> t r \<notin> bd_vals (dom_at C r c)"
  using assms by (auto simp: cyc_ok_def cyc_dims_def)

lemma add_one:
  assumes C: "cyc_ok fl n t C" and sm: "fl_smaller fl \<longrightarrow> fl_diag fl" and rc: "r < n" "c < n" "free_cell fl r c" and i: "i < n"
    and D: "lits_inv fl n t D" and nd: "\<not> (fl_diag fl \<and> i = t r)"
  shows "adds fl n t D (\<lambda>N. N r c \<noteq> i) (addToClause fl n C r c i False D)"
proof -
  have "has_var fl t r c i" using sm rc(3) nd by (auto simp: has_var_def free_cell_def)
  from add_pos[OF D rc(1,2) i this] show ?thesis by (simp add: adds_def)
qed

lemma free_not_diag_value:
  "table_ok fl n t N \<Longrightarrow> free_cell fl r c \<Longrightarrow> r < n \<Longrightarrow> c < n \<Longrightarrow> fl_diag fl \<Longrightarrow> N r c \<noteq> t r"
  using table_ok_off_diag[of fl n t N r c] by (simp add: free_cell_def)

lemma og_lits_adds:
  assumes C: "cyc_ok fl n t C" and sm: "fl_smaller fl \<longrightarrow> fl_diag fl" and rc: "r < n" "c < n" "free_cell fl r c"
    and m: "m \<le> n" and D: "lits_inv fl n t D"
  shows "adds fl n t D (\<lambda>N. \<forall>i<m. i \<notin> bd_vals (dom_at C r c) \<longrightarrow> N r c \<noteq> i) (og_lits fl n C r c m D)"
proof -
  have "adds fl n t D (\<lambda>N. \<forall>i\<in>set [0..<m]. i \<notin> bd_vals (dom_at C r c) \<longrightarrow> N r c \<noteq> i) (og_lits fl n C r c m D)"
    unfolding og_lits_def
  proof (rule fold_adds[OF D])
    fix i E assume i: "i \<in> set [0..<m]" and E: "lits_inv fl n t E"
    have in': "i < n" using i m by simp
    have dom: "bd_dom (dom_at C r c) ! i \<longleftrightarrow> i \<in> bd_vals (dom_at C r c)"
      using bd_dom_vals[OF cyc_okD(1)[OF C rc(1,2)] in'] .
    have dg: "fl_diag fl \<and> int i = mat_at C r r \<longleftrightarrow> fl_diag fl \<and> i = t r" using cyc_okD(4)[OF C rc(1,2)] by auto
    show "adds fl n t E (\<lambda>N. i \<notin> bd_vals (dom_at C r c) \<longrightarrow> N r c \<noteq> i)
      (if fl_diag fl \<and> int i = mat_at C r r then E
       else if \<not> bd_dom (dom_at C r c) ! i then addToClause fl n C r c i False E else E)"
      unfolding dg dom using add_one[OF C sm rc in' E] free_not_diag_value[OF _ rc(3,1,2)] E
      by (auto intro!: adds_refl elim!: adds_mono)
  qed
  then show ?thesis by (rule adds_mono) simp
qed

lemma perm_lits_adds:
  assumes C: "cyc_ok fl n t C" and sm: "fl_smaller fl \<longrightarrow> fl_diag fl" and rc: "r < n" "c < n" "free_cell fl r c"
    and D: "lits_inv fl n t D" and pv: "perm_vec n perm"
  defines "s \<equiv> vec_perm perm"
  shows "\<exists>E. perm_lits fl n C perm r c a D = Inr E \<and>
    adds fl n t D (\<lambda>N. \<forall>i. a \<le> i \<longrightarrow> i < n \<longrightarrow> s i \<notin> bd_vals (dom_at C (s r) (s c)) \<longrightarrow> N (s r) (s c) \<noteq> s i) E"
proof -
  have s: "perm_on n s" using pv by (simp add: perm_vec_def s_def)
  have sr: "s r < n" "s c < n" using perm_on_less[OF s] rc by simp_all
  have fr: "free_cell fl (s r) (s c)" using perm_on_inj[OF s rc(1,2)] rc(3) by (simp add: free_cell_def)
  note C' = cyc_okD[OF C sr]
  have "\<exists>E. perm_lits fl n C perm r c a D = Inr E \<and>
    adds fl n t D (\<lambda>N. \<forall>i\<in>set [a..<n]. s i \<notin> bd_vals (dom_at C (s r) (s c)) \<longrightarrow> N (s r) (s c) \<noteq> s i) E"
    unfolding perm_lits_def
  proof (rule foldE_adds[OF D], goal_cases)
    case (1 i E)
    then have i: "i < n" and E: "lits_inv fl n t E" by simp_all
    have si: "s i < n" using perm_on_less[OF s i] .
    have get: "vget perm (int i) = Inr (int (s i))" "vget perm (int r) = Inr (int (s r))" "vget perm (int c) = Inr (int (s c))"
      using perm_vec_get[OF pv] i rc by (simp_all add: s_def)
    have dom: "vget (bd_dom (dom_at C (s r) (s c))) (int (s i)) = Inr (s i \<in> bd_vals (dom_at C (s r) (s c)))"
      using bd_dom_vals[OF C'(1) si] C'(1) si by (simp add: bd_inv_def)
    have mt: "cell (cy_matrix C) (int (s r)) (int (s r)) = Inr (int (t (s r)))" if "fl_diag fl"
      using C'(4,6) that sr(1) by simp
    show ?case
    proof (cases "fl_diag fl \<and> s i = t (s r)")
      case True
      then show ?thesis using get mt E free_not_diag_value[OF _ fr sr] by (auto intro!: adds_refl)
    next
      case False
      have skip: "(if fl_diag fl then bindE (cell (cy_matrix C) (int (s r)) (int (s r))) (\<lambda>d. Inr (int (s i) = d)) else Inr False)
          = (Inr False :: bool res)" using False mt by auto
      show ?thesis
      proof (cases "s i \<in> bd_vals (dom_at C (s r) (s c))")
        case True
        then show ?thesis using get skip C'(7) sr dom E by (simp add: adds_refl)
      next
        case out: False
        then show ?thesis using get skip C'(7) sr dom add_one[OF C sm sr fr si E False] by (auto elim!: adds_mono)
      qed
    qed
  qed
  then obtain E where E: "perm_lits fl n C perm r c a D = Inr E"
    "adds fl n t D (\<lambda>N. \<forall>i\<in>set [a..<n]. s i \<notin> bd_vals (dom_at C (s r) (s c)) \<longrightarrow> N (s r) (s c) \<noteq> s i) E" by blast
  then show ?thesis using adds_mono[OF E(2)] by (intro exI[of _ E]) auto
qed

section \<open>The images of a known permutation\<close>

definition inv_vec :: "nat \<Rightarrow> (nat \<Rightarrow> nat) \<Rightarrow> int list" where
  "inv_vec n s = map (\<lambda>x. int (pinv n s x)) [0..<n]"

lemma inv_vec_nth [simp]: "x < n \<Longrightarrow> inv_vec n s ! x = int (pinv n s x)"
  by (simp add: inv_vec_def)

lemma inv_loop:
  assumes pv: "perm_vec n perm"
    and f: "\<And>i iv. i < n \<Longrightarrow> length iv = n \<Longrightarrow> f i iv = Inr (iv[vec_perm perm i := int i])"
  shows "foldE f [0..<n] (replicate n (-1)) = Inr (inv_vec n (vec_perm perm))"
proof -
  let ?s = "vec_perm perm"
  have s: "perm_on n ?s" using pv by (simp add: perm_vec_def)
  have "\<exists>iv. foldE f [0..<m] (replicate n (-1)) = Inr iv \<and> length iv = n \<and> (\<forall>i<m. iv ! ?s i = int i)" if "m \<le> n" for m
    using that
  proof (induction m)
    case (Suc m)
    then obtain iv where iv: "foldE f [0..<m] (replicate n (-1)) = Inr iv" "length iv = n" "\<forall>i<m. iv ! ?s i = int i" by auto
    have "?s m \<noteq> ?s i" if "i < m" for i using perm_on_inj[OF s, of m i] that Suc.prems by simp
    moreover have "?s m < n" using perm_on_less[OF s] Suc.prems by simp
    ultimately show ?case using iv f[of m iv] Suc.prems
      by (auto simp: foldE_append nth_list_update less_Suc_eq)
  qed simp
  from this[of n] obtain iv where iv: "foldE f [0..<n] (replicate n (-1)) = Inr iv" "length iv = n" "\<forall>i<n. iv ! ?s i = int i" by auto
  have "iv = inv_vec n ?s"
  proof (rule nth_equalityI)
    fix x assume "x < length iv"
    then have x: "x < n" using iv(2) by simp
    have "pinv n ?s x < n" "?s (pinv n ?s x) = x" using pinv_less[OF s x] s x by simp_all
    then have "iv ! x = int (pinv n ?s x)" using iv(3) by metis
    then show "iv ! x = inv_vec n ?s ! x" using x by simp
  qed (simp add: iv(2) inv_vec_def)
  then show ?thesis using iv(1) by simp
qed

lemma set_inv_in: "x < length iv \<Longrightarrow> set_inv i (int x) iv = Inr (iv[x := int i])"
  by (simp add: set_inv_def)

lemma invperm_of_perm:
  assumes "perm_vec n perm"
  shows "invperm_known n perm = Inr (inv_vec n (vec_perm perm))" "invperm_full n perm = Inr (inv_vec n (vec_perm perm))"
proof -
  have l: "vec_perm perm i < n" if "i < n" for i using assms perm_on_less that by (simp add: perm_vec_def)
  show "invperm_known n perm = Inr (inv_vec n (vec_perm perm))" "invperm_full n perm = Inr (inv_vec n (vec_perm perm))"
    unfolding invperm_known_def invperm_full_def
    by (rule inv_loop[OF assms], use l perm_vec_get[OF assms] in \<open>simp add: set_inv_in\<close>)+
qed

lemma perm_dom_of_perm:
  assumes "cyc_ok fl n t C" "perm_vec n perm" "r < n" "c < n"
  shows "perm_dom C perm r c = Inr (dom_at C (vec_perm perm r) (vec_perm perm c))"
proof -
  have "vec_perm perm r < n" "vec_perm perm c < n" using assms perm_on_less by (simp_all add: perm_vec_def)
  then show ?thesis using assms perm_vec_get[OF assms(2)] cyc_okD(7)[OF assms(1,3,4)] by (simp add: perm_dom_def)
qed

text \<open>The values of a permuted cell, the largest inverse image last.\<close>

lemma permvals_of_perm:
  assumes C: "cyc_ok fl n t C" and pv: "perm_vec n perm" and rc: "r < n" "c < n"
  defines "s \<equiv> vec_perm perm"
  defines "V \<equiv> bd_vals (dom_at C (s r) (s c))"
  obtains pvs where "permvals C perm (inv_vec n s) r c = Inr pvs" "set pvs = (\<lambda>v. (v, int (pinv n s v))) ` V"
    "pvs \<noteq> []" "snd (last pvs) = int (Max (pinv n s ` V))" "length pvs = card V" "V \<subseteq> {..<n}"
proof -
  have sp: "perm_on n s" using pv by (simp add: perm_vec_def s_def)
  have sr: "s r < n" "s c < n" using perm_on_less[OF sp] rc by simp_all
  let ?d = "dom_at C (s r) (s c)"
  let ?pvs = "sort_key snd (map (\<lambda>pv. (pv, inv_vec n s ! pv)) (bd_options ?d))"
  note d = cyc_okD(1,2)[OF C sr]
  have V: "V \<subseteq> {..<n}" "V \<noteq> {}" using bd_vals_bound[OF d(1)] d(2) by (simp_all add: V_def)
  have fin: "finite V" using V(1) finite_subset by blast
  have 1: "permvals C perm (inv_vec n s) r c = Inr ?pvs"
    using perm_dom_of_perm[OF C pv rc] by (simp add: permvals_def s_def)
  have sV: "set (bd_options ?d) = V" by (simp add: set_bd_options V_def)
  have st: "set ?pvs = (\<lambda>v. (v, inv_vec n s ! v)) ` V" by (simp add: sV)
  also have "\<dots> = (\<lambda>v. (v, int (pinv n s v))) ` V" using V(1) by (intro image_cong) auto
  finally have 2: "set ?pvs = (\<lambda>v. (v, int (pinv n s v))) ` V" .
  have "bd_options ?d \<noteq> []" using sV V(2) by auto
  then have 3: "?pvs \<noteq> []" by (metis length_0_conv length_map length_sort)
  have 5: "length ?pvs = card V" using distinct_card[of "bd_options ?d"] sV by (simp add: bd_options_def)
  have "snd (last ?pvs) = int (Max (pinv n s ` V))"
  proof (rule antisym)
    have "last ?pvs \<in> set ?pvs" using 3 by (rule last_in_set)
    then obtain v where v: "v \<in> V" "last ?pvs = (v, int (pinv n s v))" unfolding 2 by blast
    show "snd (last ?pvs) \<le> int (Max (pinv n s ` V))" using v fin by simp
    have "Max (pinv n s ` V) \<in> pinv n s ` V" using fin V(2) by (intro Max_in) auto
    then obtain w where w: "w \<in> V" "Max (pinv n s ` V) = pinv n s w" by blast
    then have "(w, int (pinv n s w)) \<in> set ?pvs" unfolding 2 by blast
    then obtain k where k: "k < length ?pvs" "?pvs ! k = (w, int (pinv n s w))" unfolding in_set_conv_nth by blast
    have "sorted (map snd ?pvs)" by (rule sorted_sort_key)
    then have "map snd ?pvs ! k \<le> map snd ?pvs ! (length ?pvs - 1)" using k(1) by (intro sorted_nth_mono) auto
    then show "int (Max (pinv n s ` V)) \<le> snd (last ?pvs)" using k w(2) 3 by (simp add: last_conv_nth)
  qed
  then show thesis by (rule that[OF 1 2 3 _ 5 V(1)])
qed

lemma og_value_min:
  assumes "cyc_ok fl n t C" "r < n" "c < n"
  shows "og_value C r c = int (Min (bd_vals (dom_at C r c)))"
  using cyc_okD(1-3)[OF assms] by (auto simp: og_value_def bd_inv_def first_of_def)

text \<open>
  The condition under which the check goes on from a cell: the permuted table is at most the
  table there, whatever the cells' values will be.
\<close>

definition cell_le :: "nat \<Rightarrow> cyc \<Rightarrow> (nat \<Rightarrow> nat) \<Rightarrow> nat \<Rightarrow> nat \<Rightarrow> bool" where
  "cell_le n C s r c \<longleftrightarrow>
     (if s r = r \<and> s c = c then \<forall>v\<in>bd_vals (dom_at C r c). pinv n s v \<le> v
      else Max (pinv n s ` bd_vals (dom_at C (s r) (s c))) = Min (bd_vals (dom_at C r c)))"

lemma cell_image_bound:
  assumes N: "table_ok fl n t N" and s: "perm_on n s" and rc: "r < n" "c < n" and m: "m \<le> n"
    and le: "\<forall>v\<in>V. pinv n s v < m"
    and F: "\<forall>i. m \<le> i \<longrightarrow> i < n \<longrightarrow> s i \<notin> V \<longrightarrow> N (s r) (s c) \<noteq> s i"
  shows "pact n s N r c < m"
proof (rule ccontr)
  let ?v = "N (s r) (s c)"
  assume "\<not> pact n s N r c < m"
  then have ge: "m \<le> pinv n s ?v" by (simp add: pact_def)
  have v: "?v < n" using table_ok_less[OF N] perm_on_less[OF s] rc by blast
  have "pinv n s ?v < n" "s (pinv n s ?v) = ?v" using s v pinv_less by simp_all
  moreover have "?v \<notin> V" using le ge by force
  ultimately show False using F ge by metis
qed

lemma short_cell_adds:
  assumes C: "cyc_ok fl n t C" and sm: "fl_smaller fl \<longrightarrow> fl_diag fl" and pv: "perm_vec n perm"
    and rc: "r < n" "c < n" "free_cell fl r c" and D: "lits_inv fl n t D"
  defines "s \<equiv> vec_perm perm"
  assumes le: "cell_le n C s r c"
  shows "\<exists>E. short_cell fl n C perm (inv_vec n s) (r, c) D = Inr E \<and> adds fl n t D (\<lambda>N. pact n s N r c \<le> N r c) E"
proof -
  have sp: "perm_on n s" using pv by (simp add: perm_vec_def s_def)
  have sr: "s r < n" "s c < n" using perm_on_less[OF sp] rc by simp_all
  have get: "vget perm (int r) = Inr (int (s r))" "vget perm (int c) = Inr (int (s c))"
    using perm_vec_get[OF pv] rc by (simp_all add: s_def)
  note dm = cyc_okD[OF C rc(1,2)]
  let ?V = "bd_vals (dom_at C r c)"
  have V: "?V \<subseteq> {..<n}" "finite ?V" using bd_vals_bound[OF dm(1)] by auto
  show ?thesis
  proof (cases "s r = r \<and> s c = c")
    case True
    let ?f = "\<lambda>i toAdd. if fl_diag fl \<and> int i = mat_at C r r then toAdd
            else if int i < inv_vec n s ! i \<and> \<not> bd_dom (dom_at C r c) ! i then addToClause fl n C r c i False toAdd
            else toAdd"
    have run: "short_cell fl n C perm (inv_vec n s) (r, c) D = Inr (fold ?f [0..<n] D)"
      using get True by (simp add: short_cell_def)
    have A: "adds fl n t D (\<lambda>N. \<forall>i\<in>set [0..<n]. i < pinv n s i \<longrightarrow> i \<notin> ?V \<longrightarrow> N r c \<noteq> i) (fold ?f [0..<n] D)"
    proof (rule fold_adds[OF D])
      fix i E assume i: "i \<in> set [0..<n]" and E: "lits_inv fl n t E"
      have dg: "fl_diag fl \<and> int i = mat_at C r r \<longleftrightarrow> fl_diag fl \<and> i = t r" using dm(4) by auto
      have dom: "bd_dom (dom_at C r c) ! i \<longleftrightarrow> i \<in> ?V" using bd_dom_vals[OF dm(1)] i by simp
      show "adds fl n t E (\<lambda>N. i < pinv n s i \<longrightarrow> i \<notin> ?V \<longrightarrow> N r c \<noteq> i) (?f i E)"
        unfolding dg dom using add_one[OF C sm rc _ E, of i] free_not_diag_value[OF _ rc(3,1,2)] E i
        by (auto intro!: adds_refl elim!: adds_mono)
    qed
    have "pact n s N r c \<le> N r c"
      if N: "table_ok fl n t N" and F: "\<forall>i\<in>set [0..<n]. i < pinv n s i \<longrightarrow> i \<notin> ?V \<longrightarrow> N r c \<noteq> i" for N
    proof -
      have "N r c < n" using table_ok_less[OF N rc(1,2)] .
      then have "\<not> N r c < pinv n s (N r c) \<or> N r c \<in> ?V" using F by auto
      then show ?thesis using True le by (auto simp: pact_def cell_le_def)
    qed
    with A have "adds fl n t D (\<lambda>N. pact n s N r c \<le> N r c) (fold ?f [0..<n] D)" by (rule adds_mono)
    then show ?thesis using run by blast
  next
    case False
    let ?W = "bd_vals (dom_at C (s r) (s c))"
    let ?g = "Min ?V"
    have g: "?g \<in> ?V" "?g < n" using Min_in[OF V(2) dm(2)] V(1) by auto
    obtain pvs where pvs: "permvals C perm (inv_vec n s) r c = Inr pvs" "set pvs = (\<lambda>v. (v, int (pinv n s v))) ` ?W"
      "pvs \<noteq> []" "snd (last pvs) = int (Max (pinv n s ` ?W))" "length pvs = card ?W" "?W \<subseteq> {..<n}"
      by (rule permvals_of_perm[OF C pv rc(1,2), folded s_def])
    have eq: "Max (pinv n s ` ?W) = ?g" using le False by (simp add: cell_le_def)
    have fW: "finite (pinv n s ` ?W)" by (intro finite_imageI finite_subset[OF pvs(6)]) simp
    have top: "\<forall>v\<in>?W. pinv n s v < Suc ?g"
    proof
      fix v assume "v \<in> ?W"
      then have "pinv n s v \<le> Max (pinv n s ` ?W)" using fW by (intro Max_ge) auto
      then show "pinv n s v < Suc ?g" using eq by simp
    qed
    note A = og_lits_adds[OF C sm rc _ D, of ?g]
    obtain E where E: "perm_lits fl n C perm r c (Suc ?g) (og_lits fl n C r c ?g D) = Inr E"
      "adds fl n t (og_lits fl n C r c ?g D) (\<lambda>N. \<forall>i. Suc ?g \<le> i \<longrightarrow> i < n \<longrightarrow> s i \<notin> ?W \<longrightarrow> N (s r) (s c) \<noteq> s i) E"
      using perm_lits_adds[OF C sm rc adds_inv[OF A] pv, of "Suc ?g"] g(2) unfolding s_def by auto
    have run: "short_cell fl n C perm (inv_vec n s) (r, c) D = Inr E"
      using get pvs False eq E(1) og_value_min[OF C rc(1,2)] by (simp add: short_cell_def nat_add_distrib)
    have "pact n s N r c \<le> N r c" if N: "table_ok fl n t N"
      and F: "(\<forall>i<?g. i \<notin> ?V \<longrightarrow> N r c \<noteq> i) \<and> (\<forall>i. Suc ?g \<le> i \<longrightarrow> i < n \<longrightarrow> s i \<notin> ?W \<longrightarrow> N (s r) (s c) \<noteq> s i)" for N
    proof -
      have "pact n s N r c < Suc ?g" using cell_image_bound[OF N sp rc(1,2) _ top] F g(2) by simp
      moreover have "?g \<le> N r c"
      proof (rule ccontr)
        assume "\<not> ?g \<le> N r c"
        then have "N r c < ?g" "N r c \<notin> ?V" using Min_le[OF V(2), of "N r c"] by auto
        then show False using F by blast
      qed
      ultimately show ?thesis by simp
    qed
    then have "adds fl n t D (\<lambda>N. pact n s N r c \<le> N r c) E"
      using adds_trans[OF A E(2)] g(2) by (auto elim!: adds_mono)
    then show ?thesis using run by blast
  qed
qed

lemma dom_has_var:
  assumes "cyc_ok fl n t C" "fl_smaller fl \<longrightarrow> fl_diag fl" "r < n" "c < n" "free_cell fl r c" "v \<in> bd_vals (dom_at C r c)"
  shows "has_var fl t r c v"
  using assms cyc_okD(8)[OF assms(1,3,4)] by (auto simp: has_var_def free_cell_def)

lemma syms_free:
  "perm_on n s \<Longrightarrow> r < n \<Longrightarrow> c < n \<Longrightarrow> free_cell fl r c \<Longrightarrow> free_cell fl (s r) (s c)"
  using perm_on_inj[of n s r c] by (simp add: free_cell_def)

lemma og_bound:
  assumes "cyc_ok fl n t C" "r < n" "c < n"
    and "\<forall>i<Min (bd_vals (dom_at C r c)). i \<notin> bd_vals (dom_at C r c) \<longrightarrow> N r c \<noteq> i"
  shows "Min (bd_vals (dom_at C r c)) \<le> N r c"
proof (rule ccontr)
  let ?V = "bd_vals (dom_at C r c)"
  assume "\<not> Min ?V \<le> N r c"
  then have "N r c < Min ?V" "N r c \<notin> ?V" using Min_le[of ?V "N r c"] by auto
  then show False using assms(4) by blast
qed

text \<open>The deciding cell: whatever the function throws excludes only tables the permutation makes smaller.\<close>

lemma short_last_adds:
  assumes C: "cyc_ok fl n t C" and sm: "fl_smaller fl \<longrightarrow> fl_diag fl" and pv: "perm_vec n perm"
    and rc: "r < n" "c < n" "free_cell fl r c" and D: "lits_inv fl n t D"
  defines "s \<equiv> vec_perm perm"
  shows "short_last fl n C L perm (inv_vec n s) r c D = Inr () \<or>
    (\<exists>E. short_last fl n C L perm (inv_vec n s) r c D = Inl (SymBreak (toClause fl n C L E)) \<and>
      adds fl n t D (\<lambda>N. pact n s N r c < N r c) E)"
proof -
  have sp: "perm_on n s" using pv by (simp add: perm_vec_def s_def)
  have sr: "s r < n" "s c < n" using perm_on_less[OF sp] rc by simp_all
  have fr: "free_cell fl (s r) (s c)" by (rule syms_free[OF sp rc])
  have get: "vget perm (int r) = Inr (int (s r))" "vget perm (int c) = Inr (int (s c))"
    using perm_vec_get[OF pv] rc by (simp_all add: s_def)
  note dm = cyc_okD[OF C rc(1,2)] and dms = cyc_okD[OF C sr]
  let ?V = "bd_vals (dom_at C r c)" and ?W = "bd_vals (dom_at C (s r) (s c))"
  let ?g = "Min ?V" and ?m = "Max (pinv n s ` ?W)"
  have V: "?V \<subseteq> {..<n}" "finite ?V" using bd_vals_bound[OF dm(1)] by auto
  have g: "?g \<in> ?V" "?g < n" using Min_in[OF V(2) dm(2)] V(1) by auto
  obtain pvs where pvs: "permvals C perm (inv_vec n s) r c = Inr pvs" "set pvs = (\<lambda>v. (v, int (pinv n s v))) ` ?W"
    "pvs \<noteq> []" "snd (last pvs) = int ?m" "length pvs = card ?W" "?W \<subseteq> {..<n}"
    by (rule permvals_of_perm[OF C pv rc(1,2), folded s_def])
  have fW: "finite (pinv n s ` ?W)" by (intro finite_imageI finite_subset[OF pvs(6)]) simp
  have top: "\<forall>v\<in>?W. pinv n s v < Suc ?m" using fW by (auto intro!: le_imp_less_Suc Max_ge)
  have mn: "?m < n"
  proof -
    have "?m \<in> pinv n s ` ?W" using fW dms(2) by (intro Max_in) auto
    then show ?thesis using pinv_less[OF sp] pvs(6) by auto
  qed
  have og: "og_value C r c = int ?g" by (rule og_value_min[OF C rc(1,2)])
  have smC: "fl_smaller fl \<longrightarrow> fl_diag fl \<and> mat_at C r r = int (t r)" if "r < n" for r
    using sm cyc_okD(4)[OF C that that] by blast
  have neg: "\<exists>E. throw_first fl n C L (Some (int a, int b, v)) D' = Inl (SymBreak (toClause fl n C L E)) \<and>
      adds fl n t D (\<lambda>N. F N \<and> N a b = v) E"
    if "adds fl n t D F D'" "a < n" "b < n" "v \<in> bd_vals (dom_at C a b)" "free_cell fl a b" for a b v D' F
  proof -
    have v: "v < n" using bd_vals_bound[OF cyc_okD(1)[OF C that(2,3)]] that(4) by auto
    have hv: "has_var fl t a b v" by (rule dom_has_var[OF C sm that(2,3,5,4)])
    let ?E = "addToClause fl n C a b v True D'"
    have i': "lits_inv fl n t D'" by (rule adds_inv[OF that(1)])
    have "lits_inv fl n t ?E"
      using add_neg_inv[OF i' that(2,3) v] smC[OF that(2)] hv by (auto simp: has_var_def)
    then have "adds fl n t D (\<lambda>N. F N \<and> N a b = v) ?E"
      using that(1) add_neg(2,3)[OF i' that(2,3) v hv smC[OF that(2)]] unfolding adds_def by blast
    then show ?thesis by (auto simp: throw_first_def)
  qed
  have find: "List.find P pvs = None \<or> (\<exists>v\<in>?W. List.find P pvs = Some (v, int (pinv n s v)) \<and> P (v, int (pinv n s v)))" for P
  proof (cases "List.find P pvs")
    case (Some x)
    then have "x \<in> set pvs" "P x" by (auto simp: find_Some_iff)
    then show ?thesis using Some pvs(2) by auto
  qed simp
  have below: ?thesis
    if "short_last fl n C L perm (inv_vec n s) r c D =
      throw_first fl n C L (first_perm_val (\<lambda>pv. snd pv < int ?g) (int (s r)) (int (s c)) pvs) (og_lits fl n C r c ?g D)"
    using find[of "\<lambda>pv. snd pv < int ?g"]
  proof
    assume "List.find (\<lambda>pv. snd pv < int ?g) pvs = None"
    then show ?thesis using that by (simp add: first_perm_val_def throw_first_def)
  next
    assume "\<exists>v\<in>?W. List.find (\<lambda>pv. snd pv < int ?g) pvs = Some (v, int (pinv n s v)) \<and> snd (v, int (pinv n s v)) < int ?g"
    then obtain v where v: "v \<in> ?W" "List.find (\<lambda>pv. snd pv < int ?g) pvs = Some (v, int (pinv n s v))" "pinv n s v < ?g" by auto
    have A: "adds fl n t D (\<lambda>N. \<forall>i<?g. i \<notin> ?V \<longrightarrow> N r c \<noteq> i) (og_lits fl n C r c ?g D)"
      by (rule og_lits_adds[OF C sm rc _ D]) (use g(2) in simp)
    obtain E where E: "throw_first fl n C L (Some (int (s r), int (s c), v)) (og_lits fl n C r c ?g D) = Inl (SymBreak (toClause fl n C L E))"
      "adds fl n t D (\<lambda>N. (\<forall>i<?g. i \<notin> ?V \<longrightarrow> N r c \<noteq> i) \<and> N (s r) (s c) = v) E"
      using neg[OF A sr v(1) fr] by blast
    have "adds fl n t D (\<lambda>N. pact n s N r c < N r c) E"
    proof (rule adds_mono[OF E(2)], elim conjE)
      fix N assume F: "\<forall>i<?g. i \<notin> ?V \<longrightarrow> N r c \<noteq> i" "N (s r) (s c) = v"
      have "?g \<le> N r c" by (rule og_bound[OF C rc(1,2)]) (rule F(1))
      then show "pact n s N r c < N r c" using v(3) F(2) by (simp add: pact_def)
    qed
    then show ?thesis using that E(1) v(2) by (auto simp: first_perm_val_def)
  qed
  consider "?m < ?g" | "?g \<le> ?m" "card ?W = 1" | "?g \<le> ?m" "card ?W \<noteq> 1" "mat_at C r c \<noteq> -1"
    | "?g \<le> ?m" "card ?W \<noteq> 1" "mat_at C r c = -1" "s r = r \<and> s c = c"
    | "?g \<le> ?m" "card ?W \<noteq> 1" "mat_at C r c = -1" "\<not> (s r = r \<and> s c = c)" by linarith
  then show ?thesis
  proof cases
    case 1
    have A: "adds fl n t D (\<lambda>N. \<forall>i<?g. i \<notin> ?V \<longrightarrow> N r c \<noteq> i) (og_lits fl n C r c ?g D)"
      by (rule og_lits_adds[OF C sm rc _ D]) (use g(2) in simp)
    obtain E where E: "perm_lits fl n C perm r c (Suc ?m) (og_lits fl n C r c ?g D) = Inr E"
      "adds fl n t (og_lits fl n C r c ?g D) (\<lambda>N. \<forall>i. Suc ?m \<le> i \<longrightarrow> i < n \<longrightarrow> s i \<notin> ?W \<longrightarrow> N (s r) (s c) \<noteq> s i) E"
      using perm_lits_adds[OF C sm rc adds_inv[OF A] pv, of "Suc ?m"] unfolding s_def by blast
    have run: "short_last fl n C L perm (inv_vec n s) r c D = Inl (SymBreak (toClause fl n C L E))"
      using get pvs og 1 E(1) by (simp add: short_last_def Let_def nat_add_distrib)
    have "adds fl n t D (\<lambda>N. pact n s N r c < N r c) E"
    proof (rule adds_mono[OF adds_trans[OF A E(2)]], elim conjE)
      fix N assume N: "table_ok fl n t N" and F: "\<forall>i<?g. i \<notin> ?V \<longrightarrow> N r c \<noteq> i"
        "\<forall>i. Suc ?m \<le> i \<longrightarrow> i < n \<longrightarrow> s i \<notin> ?W \<longrightarrow> N (s r) (s c) \<noteq> s i"
      have "pact n s N r c < Suc ?m" by (rule cell_image_bound[OF N sp rc(1,2) _ top F(2)]) (use mn in simp)
      moreover have "?g \<le> N r c" by (rule og_bound[OF C rc(1,2)]) (rule F(1))
      ultimately show "pact n s N r c < N r c" using 1 by simp
    qed
    then show ?thesis using run by blast
  next
    case 2
    obtain w where w: "?W = {w}" using 2(2) card_1_singletonE by blast
    have hd: "snd (hd pvs) = int ?m" using pvs(2,3) w by (cases pvs) auto
    obtain D' where D': "perm_lits fl n C perm r c (Suc ?m) D = Inr D'"
      "adds fl n t D (\<lambda>N. \<forall>i. Suc ?m \<le> i \<longrightarrow> i < n \<longrightarrow> s i \<notin> ?W \<longrightarrow> N (s r) (s c) \<noteq> s i) D'"
      using perm_lits_adds[OF C sm rc D pv, of "Suc ?m"] unfolding s_def by blast
    let ?f = "List.find (\<lambda>v. int ?m < int v) (bd_options (dom_at C r c))"
    have run: "short_last fl n C L perm (inv_vec n s) r c D = throw_first fl n C L (map_option (\<lambda>v. (int r, int c, v)) ?f) D'"
      using get pvs og 2 D'(1) hd by (simp add: short_last_def Let_def nat_add_distrib)
    show ?thesis
    proof (cases ?f)
      case None
      then show ?thesis using run by (simp add: throw_first_def)
    next
      case (Some v)
      then have v: "v \<in> ?V" "?m < v" by (auto simp: find_Some_iff set_bd_options[symmetric])
      obtain E where E: "throw_first fl n C L (Some (int r, int c, v)) D' = Inl (SymBreak (toClause fl n C L E))"
        "adds fl n t D (\<lambda>N. (\<forall>i. Suc ?m \<le> i \<longrightarrow> i < n \<longrightarrow> s i \<notin> ?W \<longrightarrow> N (s r) (s c) \<noteq> s i) \<and> N r c = v) E"
        using neg[OF D'(2) rc(1,2) v(1) rc(3)] by blast
      have "adds fl n t D (\<lambda>N. pact n s N r c < N r c) E"
      proof (rule adds_mono[OF E(2)], elim conjE)
        fix N assume N: "table_ok fl n t N" and F: "N r c = v"
          "\<forall>i. Suc ?m \<le> i \<longrightarrow> i < n \<longrightarrow> s i \<notin> ?W \<longrightarrow> N (s r) (s c) \<noteq> s i"
        have "pact n s N r c < Suc ?m" by (rule cell_image_bound[OF N sp rc(1,2) _ top F(2)]) (use mn in simp)
        then show "pact n s N r c < N r c" using F(1) v(2) by simp
      qed
      then show ?thesis using run Some E(1) by auto
    qed
  next
    case 3
    show ?thesis by (rule below) (use get pvs og 3 in \<open>simp add: short_last_def Let_def\<close>)
  next
    case 4
    have run: "short_last fl n C L perm (inv_vec n s) r c D =
        throw_first fl n C L (first_perm_val (\<lambda>pv. snd pv < int (fst pv)) (int r) (int c) pvs) D"
      using get pvs og 4 by (simp add: short_last_def Let_def)
    from find[of "\<lambda>pv. snd pv < int (fst pv)"] show ?thesis
    proof
      assume "List.find (\<lambda>pv. snd pv < int (fst pv)) pvs = None"
      then show ?thesis using run by (simp add: first_perm_val_def throw_first_def)
    next
      assume "\<exists>v\<in>?W. List.find (\<lambda>pv. snd pv < int (fst pv)) pvs = Some (v, int (pinv n s v)) \<and>
        snd (v, int (pinv n s v)) < int (fst (v, int (pinv n s v)))"
      then obtain v where v: "v \<in> ?W" "List.find (\<lambda>pv. snd pv < int (fst pv)) pvs = Some (v, int (pinv n s v))" "pinv n s v < v"
        by auto
      have A: "adds fl n t D (\<lambda>N. True) D" using D by (simp add: adds_refl)
      obtain E where E: "throw_first fl n C L (Some (int r, int c, v)) D = Inl (SymBreak (toClause fl n C L E))"
        "adds fl n t D (\<lambda>N. True \<and> N r c = v) E"
        using neg[OF A rc(1,2) _ rc(3), of v] v(1) 4(4) by auto
      have "adds fl n t D (\<lambda>N. pact n s N r c < N r c) E"
        by (rule adds_mono[OF E(2)]) (use v(3) 4(4) in \<open>simp add: pact_def\<close>)
      then show ?thesis using run E(1) v(2) by (auto simp: first_perm_val_def)
    qed
  next
    case 5
    have nf: "\<not> (int (s r) = int r \<and> int (s c) = int c)" using 5(4) by simp
    show ?thesis by (rule below) (use get pvs og 5(1-3) in \<open>simp only: short_last_def Let_def bindE_simps nf if_False, simp\<close>)
  qed
qed

section \<open>Soundness of the learned clauses\<close>

lemma takeWhile_split:
  "zs = xs @ x # ys \<Longrightarrow> x \<notin> set xs \<Longrightarrow> takeWhile (\<lambda>y. y \<noteq> x) zs = xs"
  by (induction xs arbitrary: zs) auto

lemma set_cells_upto:
  assumes "r < n" "c < n" "free_cell fl r c"
  shows "set (cells_upto fl n r c) = {(r', c'). c' < n \<and> before r' c' r c \<and> free_cell fl r' c'}"
proof -
  let ?f = "\<lambda>(ri, ci). \<not> (fl_diag fl \<and> ri = ci)"
  have up: "[0..<n] = [0..<c] @ c # [Suc c..<n]" using assms(2) upt_add_eq_append[of 0 c "n - c"] by (simp add: upt_conv_Cons)
  have "List.product [0..<Suc r] [0..<n] = List.product [0..<r] [0..<n] @ map (Pair r) [0..<c] @ (r, c) # map (Pair r) [Suc c..<n]"
  proof -
    have "List.product [0..<Suc r] [0..<n] = List.product [0..<r] [0..<n] @ map (Pair r) [0..<n]" by (simp add: product_concat_map)
    also have "map (Pair r) [0..<n] = map (Pair r) [0..<c] @ (r, c) # map (Pair r) [Suc c..<n]" by (subst up) simp
    finally show ?thesis .
  qed
  then have "filter ?f (List.product [0..<Suc r] [0..<n]) =
      (filter ?f (List.product [0..<r] [0..<n]) @ filter ?f (map (Pair r) [0..<c])) @ (r, c) # filter ?f (map (Pair r) [Suc c..<n])"
    using assms(3) by (simp add: free_cell_def)
  moreover have "(r, c) \<notin> set (filter ?f (List.product [0..<r] [0..<n]) @ filter ?f (map (Pair r) [0..<c]))" by auto
  ultimately have "cells_upto fl n r c = filter ?f (List.product [0..<r] [0..<n]) @ filter ?f (map (Pair r) [0..<c])"
    unfolding cells_upto_def by (rule takeWhile_split)
  then show ?thesis using assms(2) by (auto simp: before_def free_cell_def)
qed

text \<open>
  A literal of a variable of the table. With the smaller encoding and two elements the clauses
  also hold zeros, since then a cell with nothing listed looks like one with all but one value.
\<close>

definition table_lit :: "flags \<Rightarrow> nat \<Rightarrow> (nat \<Rightarrow> nat) \<Rightarrow> lits3 \<Rightarrow> int \<Rightarrow> bool" where
  "table_lit fl n t L l \<longleftrightarrow> (\<exists>r<n. \<exists>c<n. \<exists>i<n. has_var fl t r c i \<and> (l = L ! r ! c ! i \<or> l = - (L ! r ! c ! i)))"

lemma cell_clause_lits:
  assumes C: "cyc_ok fl n t C" "fl_smaller fl \<longrightarrow> fl_diag fl" and D: "lits_inv fl n t D" and rc: "r < n" "c < n"
    and two: "fl_smaller fl \<longrightarrow> n \<noteq> 2" and l: "l \<in> set (cell_clause fl n C L D (r, c))"
  shows "table_lit fl n t L l"
proof -
  have inv: "bd2_inv n (D ! r)" and key: "bd2_key n c" using D rc by (simp_all add: lits_inv_def bd2_key_def)
  have num: "bd2_numtrue (D ! r) c = int (card (listed n D r c))"
    using bd2.numtrue_eq[OF inv key] by (simp add: listed_def)
  have hv: "has_var fl t r c i" "i < n" if "i \<in> listed n D r c" for i
    using listed_var[OF D rc that] listed_bound[OF D rc] that by auto
  consider "fl_smaller fl" "bd2_numtrue (D ! r) c = int n - 2"
    | "\<not> fl_smaller fl" "bd2_numtrue (D ! r) c = int n - 1"
    | "\<not> (fl_smaller fl \<and> bd2_numtrue (D ! r) c = int n - 2)" "\<not> (\<not> fl_smaller fl \<and> bd2_numtrue (D ! r) c = int n - 1)" by blast
  then show ?thesis
  proof cases
    case 1
    then have "listed n D r c \<noteq> {}" using two num rc(1) by auto
    then have "r \<noteq> c" using hv(1) 1(1) by (auto simp: has_var_def)
    moreover have "mat_at C r r = int (t r)" using C 1(1) rc by (simp add: cyc_ok_def)
    ultimately show ?thesis
      using l 1 rc by (auto simp: cell_clause_def table_lit_def has_var_def)
  next
    case 2
    then show ?thesis using l rc by (auto simp: cell_clause_def table_lit_def has_var_def)
  next
    case 3
    then have "\<exists>i\<in>listed n D r c. l = L ! r ! c ! i"
      using l bd2.set_options[OF inv key] unfolding cell_clause_def prod.case if_not_P[OF 3(1)] if_not_P[OF 3(2)]
      by (auto simp: listed_def split: if_splits)
    then show ?thesis using hv rc unfolding table_lit_def by blast
  qed
qed

lemma toClause_lits:
  assumes "cyc_ok fl n t C" "fl_smaller fl \<longrightarrow> fl_diag fl" "lits_inv fl n t D" "fl_smaller fl \<longrightarrow> n \<noteq> 2"
  shows "\<forall>l\<in>set (toClause fl n C L D). table_lit fl n t L l"
  using cell_clause_lits[OF assms(1-3) _ _ assms(4)] by (auto simp: toClause_def)

definition clause_sound :: "flags \<Rightarrow> nat \<Rightarrow> (nat \<Rightarrow> nat) \<Rightarrow> lits3 \<Rightarrow> clause \<Rightarrow> bool" where
  "clause_sound fl n t L cls \<longleftrightarrow>
     (\<forall>v N. reads n L t v N \<longrightarrow> table_ok fl n t N \<longrightarrow> lexmin n (diag_of fl t) N \<longrightarrow> clause_holds v cls) \<and>
     ((fl_smaller fl \<longrightarrow> n \<noteq> 2) \<longrightarrow> (\<forall>l\<in>set cls. table_lit fl n t L l))"

definition earlier_le :: "flags \<Rightarrow> nat \<Rightarrow> cyc \<Rightarrow> (nat \<Rightarrow> nat) \<Rightarrow> nat \<Rightarrow> nat \<Rightarrow> bool" where
  "earlier_le fl n C s r c \<longleftrightarrow> (\<forall>r'<n. \<forall>c'<n. before r' c' r c \<longrightarrow> free_cell fl r' c' \<longrightarrow> cell_le n C s r' c')"

lemma pact_diag_le:
  assumes "table_ok fl n t N" "s \<in> syms n (diag_of fl t)" "r < n" "fl_diag fl"
  shows "pact n s N r r = N r r"
proof -
  have "has_diag n (diag_of fl t) (pact n s N)"
    using assms by (intro pact_has_diag) (simp_all add: table_ok_def)
  then show ?thesis using assms(3,4) table_ok_diag[OF assms(1,4,3)] by (simp add: has_diag_def diag_of_def)
qed

lemma short_result:
  assumes C: "cyc_ok fl n t C" and sm: "fl_smaller fl \<longrightarrow> fl_diag fl" and L: "lits_live fl n t L"
    and pv: "perm_vec n perm" and s: "vec_perm perm \<in> syms n (diag_of fl t)"
    and rc: "r < n" "c < n" "free_cell fl r c" and le: "earlier_le fl n C (vec_perm perm) r c"
  shows "addClausesShort fl n C L perm r c = Inr () \<or>
    (\<exists>cls. addClausesShort fl n C L perm r c = Inl (SymBreak cls) \<and> clause_sound fl n t L cls)"
proof -
  let ?s = "vec_perm perm" and ?D0 = "replicate n (bd2_new n False)"
  note cu = set_cells_upto[OF rc]
  have D0: "lits_inv fl n t ?D0" using rc(1) by (intro lits_inv_empty) simp
  have "\<exists>D. foldE (short_cell fl n C perm (inv_vec n ?s)) (cells_upto fl n r c) ?D0 = Inr D \<and>
      adds fl n t ?D0 (\<lambda>N. \<forall>x\<in>set (cells_upto fl n r c). pact n ?s N (fst x) (snd x) \<le> N (fst x) (snd x)) D"
  proof (rule foldE_adds[OF D0])
    fix x E assume x: "x \<in> set (cells_upto fl n r c)" and E: "lits_inv fl n t E"
    obtain r' c' where x': "x = (r', c')" "c' < n" "before r' c' r c" "free_cell fl r' c'" using x cu by auto
    have r': "r' < n" using x'(3) rc(1) by (auto simp: before_def)
    have "cell_le n C ?s r' c'" using le r' x' by (simp add: earlier_le_def)
    then show "\<exists>E'. short_cell fl n C perm (inv_vec n ?s) x E = Inr E' \<and>
        adds fl n t E (\<lambda>N. pact n ?s N (fst x) (snd x) \<le> N (fst x) (snd x)) E'"
      using short_cell_adds[OF C sm pv r' x'(2,4) E] x'(1) by simp
  qed
  then obtain D where D: "foldE (short_cell fl n C perm (inv_vec n ?s)) (cells_upto fl n r c) ?D0 = Inr D"
    "adds fl n t ?D0 (\<lambda>N. \<forall>x\<in>set (cells_upto fl n r c). pact n ?s N (fst x) (snd x) \<le> N (fst x) (snd x)) D" by blast
  have run: "addClausesShort fl n C L perm r c = short_last fl n C L perm (inv_vec n ?s) r c D"
    using invperm_of_perm(1)[OF pv] D(1) by (simp add: addClausesShort_def)
  from short_last_adds[OF C sm pv rc adds_inv[OF D(2)], of L] show ?thesis
  proof (elim disjE exE conjE)
    fix E assume E: "short_last fl n C L perm (inv_vec n ?s) r c D = Inl (SymBreak (toClause fl n C L E))"
      "adds fl n t D (\<lambda>N. pact n ?s N r c < N r c) E"
    have "clause_holds v (toClause fl n C L E)"
      if rd: "reads n L t v N" and N: "table_ok fl n t N" and mn: "lexmin n (diag_of fl t) N" for v N
    proof (rule ccontr)
      assume nh: "\<not> clause_holds v (toClause fl n C L E)"
      have "says n E N" by (rule toClause_false[OF C sm L adds_inv[OF E(2)] rd N nh])
      then have lt: "pact n ?s N r c < N r c"
        and all: "\<forall>x\<in>set (cells_upto fl n r c). pact n ?s N (fst x) (snd x) \<le> N (fst x) (snd x)"
        using E(2) D(2) N unfolding adds_def by blast+
      have "lex_less n (pact n ?s N) N"
      proof (rule lex_less_cell[where A = "pact n ?s N" and B = N, OF rc(1,2) lt])
        fix r' c' assume c': "r' < n" "c' < n" "before r' c' r c"
        show "pact n ?s N r' c' \<le> N r' c'"
        proof (cases "free_cell fl r' c'")
          case True
          then have "(r', c') \<in> set (cells_upto fl n r c)" using cu c' by simp
          then show ?thesis using all by auto
        next
          case False
          then show ?thesis using pact_diag_le[OF N s c'(1)] by (simp add: free_cell_def)
        qed
      qed
      then show False using mn s by (simp add: lexmin_def)
    qed
    then have "clause_sound fl n t L (toClause fl n C L E)"
      using toClause_lits[OF C sm adds_inv[OF E(2)]] unfolding clause_sound_def by blast
    then show ?thesis using run E(1) by auto
  qed (simp add: run)
qed

text \<open>A table of size 2 with all entries known, on which the transposition is a witness.\<close>

definition swap_flags :: flags where
  "swap_flags = \<lparr>fl_diag = False, fl_smaller = False, fl_prop = False, fl_old = False, fl_bit = False, fl_maxDepth = 9, fl_maxMC = 9\<rparr>"

definition swap_lits :: lits3 where
  "swap_lits = [[[1, 2], [3, 4]], [[5, 6], [7, 8]]]"

definition swap_dom :: "nat \<Rightarrow> bitdomain" where
  "swap_dom v = \<lparr>bd_dom = [v = 0, v = 1], bd_size = 2, bd_firstel = int v, bd_numTrue = 1\<rparr>"

definition swap_cyc :: cyc where
  "swap_cyc = \<lparr>cy_matrix = [[1, 0], [0, 1]], cy_asg = const3 2 Unknown_t, cy_lits = swap_lits,
     cy_dom = [[swap_dom 1, swap_dom 0], [swap_dom 0, swap_dom 1]]\<rparr>"

lemma less2: "i < (2::nat) \<longleftrightarrow> i = 0 \<or> i = 1"
  by auto

lemma bd_inv_swap_dom: "v < 2 \<Longrightarrow> bd_inv 2 (swap_dom v)" "v < 2 \<Longrightarrow> bd_vals (swap_dom v) = {v}"
proof -
  show vals: "bd_vals (swap_dom v) = {v}" if "v < 2"
    using that by (auto simp: bd_vals_def swap_dom_def less2 nth_Cons')
  show "bd_inv 2 (swap_dom v)" if "v < 2"
    using vals[OF that] that by (simp add: bd_inv_def first_of_def) (simp add: swap_dom_def)
qed

lemma swap_cyc_ok: "cyc_ok swap_flags 2 t swap_cyc"
  unfolding cyc_ok_def cyc_dims_def using bd_inv_swap_dom
  by (simp add: swap_cyc_def swap_flags_def less2 dims2_def nth_Cons' split: if_splits)

lemma swap_perm: "perm_vec 2 [1, 0]" "vec_perm [1, 0] \<in> syms 2 (diag_of swap_flags t)"
proof -
  show "perm_vec 2 [1, 0]" unfolding perm_vec_def by (intro conjI perm_onI) (auto simp: vec_perm_def less2)
  then show "vec_perm [1, 0] \<in> syms 2 (diag_of swap_flags t)"
    by (simp add: syms_def diag_of_def swap_flags_def perm_vec_def)
qed

lemma swap_live: "lits_live swap_flags 2 t swap_lits"
  by (auto simp: lits_live_def swap_lits_def less2)

text \<open>
  C15: the clause \<open>addClausesShort\<close> learns from a permutation that commutes with the diagonal is
  satisfied by every table that is minimal in its orbit, so adding it keeps all canonical
  solutions; and the function returns or throws a clause, with no access out of range. The cells
  before the deciding one are those the check has passed (\<open>earlier_le\<close>).
\<close>

theorem addClausesShort_sound:
  assumes "cyc_ok fl n t C" "fl_smaller fl \<longrightarrow> fl_diag fl" "lits_live fl n t L"
    and "perm_vec n perm" "vec_perm perm \<in> syms n (diag_of fl t)"
    and "r < n" "c < n" "free_cell fl r c" "earlier_le fl n C (vec_perm perm) r c"
  shows "addClausesShort fl n C L perm r c = Inr () \<or>
    (\<exists>cls. addClausesShort fl n C L perm r c = Inl (SymBreak cls) \<and> clause_sound fl n t L cls)"
  by (rule short_result[OF assms])

section \<open>The check of a fully defined permutation\<close>

text \<open>When the deciding cell leaves a value to exclude, a clause is thrown.\<close>

definition excludes :: "nat \<Rightarrow> cyc \<Rightarrow> (nat \<Rightarrow> nat) \<Rightarrow> nat \<Rightarrow> nat \<Rightarrow> bool" where
  "excludes n C s r c \<longleftrightarrow>
     (let V = bd_vals (dom_at C r c); W = bd_vals (dom_at C (s r) (s c)); g = Min V; m = Max (pinv n s ` W)
      in m < g \<or> (if card W = 1 then \<exists>v\<in>V. m < v
           else if mat_at C r c \<noteq> -1 \<or> \<not> (s r = r \<and> s c = c) then \<exists>w\<in>W. pinv n s w < g
           else \<exists>w\<in>W. pinv n s w < w))"

lemma find_not_None: "x \<in> set xs \<Longrightarrow> P x \<Longrightarrow> List.find P xs \<noteq> None"
  by (auto simp: find_None_iff)

lemma short_last_throws:
  assumes C: "cyc_ok fl n t C" and sm: "fl_smaller fl \<longrightarrow> fl_diag fl" and pv: "perm_vec n perm"
    and rc: "r < n" "c < n" "free_cell fl r c" and D: "lits_inv fl n t D"
  defines "s \<equiv> vec_perm perm"
  assumes ex: "excludes n C s r c"
  shows "short_last fl n C L perm (inv_vec n s) r c D \<noteq> Inr ()"
proof -
  have sp: "perm_on n s" using pv by (simp add: perm_vec_def s_def)
  have get: "vget perm (int r) = Inr (int (s r))" "vget perm (int c) = Inr (int (s c))"
    using perm_vec_get[OF pv] rc by (simp_all add: s_def)
  let ?V = "bd_vals (dom_at C r c)" and ?W = "bd_vals (dom_at C (s r) (s c))"
  let ?g = "Min ?V" and ?m = "Max (pinv n s ` ?W)"
  obtain pvs where pvs: "permvals C perm (inv_vec n s) r c = Inr pvs" "set pvs = (\<lambda>v. (v, int (pinv n s v))) ` ?W"
    "pvs \<noteq> []" "snd (last pvs) = int ?m" "length pvs = card ?W" "?W \<subseteq> {..<n}"
    by (rule permvals_of_perm[OF C pv rc(1,2), folded s_def])
  have og: "og_value C r c = int ?g" by (rule og_value_min[OF C rc(1,2)])
  have A: "lits_inv fl n t (og_lits fl n C r c ?g D)"
  proof -
    note V = cyc_okD(1,2)[OF C rc(1,2)]
    have "?g \<in> ?V" using Min_in V(2) by simp
    then have "?g \<le> n" using bd_vals_bound[OF V(1)] by auto
    then show ?thesis by (rule adds_inv[OF og_lits_adds[OF C sm rc _ D]])
  qed
  have pl: "\<exists>E. perm_lits fl n C perm r c a D' = Inr E" if "lits_inv fl n t D'" for a D'
    using perm_lits_adds[OF C sm rc that pv, of a] by blast
  have mem: "(w, int (pinv n s w)) \<in> set pvs" if "w \<in> ?W" for w using that pvs(2) by blast
  consider "?m < ?g" | "?g \<le> ?m" "card ?W = 1" | "?g \<le> ?m" "card ?W \<noteq> 1" "mat_at C r c \<noteq> -1 \<or> \<not> (s r = r \<and> s c = c)"
    | "?g \<le> ?m" "card ?W \<noteq> 1" "mat_at C r c = -1" "s r = r \<and> s c = c" by linarith
  then show ?thesis
  proof cases
    case 1
    obtain E where "perm_lits fl n C perm r c (Suc ?m) (og_lits fl n C r c ?g D) = Inr E" using pl[OF A] by blast
    then show ?thesis using get pvs og 1 by (simp add: short_last_def Let_def nat_add_distrib)
  next
    case 2
    obtain v where v: "v \<in> ?V" "?m < v" using ex 2 by (auto simp: excludes_def Let_def)
    have hd: "snd (hd pvs) = int ?m" using pvs(3,4,5) 2(2) by (cases pvs) auto
    obtain E where E: "perm_lits fl n C perm r c (Suc ?m) D = Inr E" using pl[OF D] by blast
    have "List.find (\<lambda>v. int ?m < int v) (bd_options (dom_at C r c)) \<noteq> None"
      by (rule find_not_None[of v]) (use v in \<open>simp_all add: set_bd_options\<close>)
    then show ?thesis using get pvs og 2 hd E
      by (auto simp: short_last_def Let_def nat_add_distrib throw_first_def split: option.splits)
  next
    case 3
    then obtain w where w: "w \<in> ?W" "pinv n s w < ?g" using ex by (auto simp: excludes_def Let_def)
    have "List.find (\<lambda>pv. snd pv < int ?g) pvs \<noteq> None" by (rule find_not_None[OF mem[OF w(1)]]) (use w in simp)
    then show ?thesis using get pvs og 3
      by (auto simp: short_last_def Let_def throw_first_def first_perm_val_def split: option.splits)
  next
    case 4
    then obtain w where w: "w \<in> ?W" "pinv n s w < w" using ex by (auto simp: excludes_def Let_def)
    have "List.find (\<lambda>pv. snd pv < int (fst pv)) pvs \<noteq> None" by (rule find_not_None[OF mem[OF w(1)]]) (use w in simp)
    then show ?thesis using get pvs og 4
      by (auto simp: short_last_def Let_def throw_first_def first_perm_val_def split: option.splits)
  qed
qed

lemma short_throws:
  assumes C: "cyc_ok fl n t C" and sm: "fl_smaller fl \<longrightarrow> fl_diag fl" and pv: "perm_vec n perm"
    and rc: "r < n" "c < n" "free_cell fl r c" and le: "earlier_le fl n C (vec_perm perm) r c"
    and ex: "excludes n C (vec_perm perm) r c"
  shows "addClausesShort fl n C L perm r c \<noteq> Inr ()"
proof -
  let ?s = "vec_perm perm" and ?D0 = "replicate n (bd2_new n False)"
  have D0: "lits_inv fl n t ?D0" using rc(1) by (intro lits_inv_empty) simp
  have "\<exists>D. foldE (short_cell fl n C perm (inv_vec n ?s)) (cells_upto fl n r c) ?D0 = Inr D \<and> lits_inv fl n t D"
  proof (rule foldE_total[where P = "lits_inv fl n t", OF _ D0])
    fix x E assume x: "x \<in> set (cells_upto fl n r c)" and E: "lits_inv fl n t E"
    obtain r' c' where x': "x = (r', c')" "c' < n" "before r' c' r c" "free_cell fl r' c'"
      using x set_cells_upto[OF rc] by auto
    have r': "r' < n" using x'(3) rc(1) by (auto simp: before_def)
    have "cell_le n C ?s r' c'" using le r' x' by (simp add: earlier_le_def)
    then show "\<exists>E'. short_cell fl n C perm (inv_vec n ?s) x E = Inr E' \<and> lits_inv fl n t E'"
      using short_cell_adds[OF C sm pv r' x'(2,4) E] x'(1) adds_inv by blast
  qed
  then obtain D where D: "foldE (short_cell fl n C perm (inv_vec n ?s)) (cells_upto fl n r c) ?D0 = Inr D" "lits_inv fl n t D" by blast
  have "addClausesShort fl n C L perm r c = short_last fl n C L perm (inv_vec n ?s) r c D"
    using invperm_of_perm(1)[OF pv] D(1) by (simp add: addClausesShort_def)
  then show ?thesis using short_last_throws[OF C sm pv rc D(2) ex] by simp
qed

theorem addClausesShort_sound_witness:
  "\<exists>cls. addClausesShort swap_flags 2 swap_cyc swap_lits [1, 0] 0 0 = Inl (SymBreak cls) \<and> clause_sound swap_flags 2 id swap_lits cls"
proof -
  have "addClausesShort swap_flags 2 swap_cyc swap_lits [1, 0] 0 0 \<noteq> Inr ()" by code_simp
  then show ?thesis
    using addClausesShort_sound[OF swap_cyc_ok _ swap_live swap_perm, of 0 0]
    by (simp add: swap_flags_def free_cell_def earlier_le_def before_def)
qed

end
