(* ===== verification/MinCheck_Full.thy ===== *)
theory MinCheck_Full
  imports MinCheck_Common
begin

text \<open>
  The check of one fully defined permutation (\<open>permFullyDefinedCheck\<close>): on a partial table it
  throws only clauses that keep the canonical tables, on a table with all entries known it
  throws exactly when the permutation makes the table smaller.
\<close>

section \<open>One cell\<close>

lemma Max_int_image: "finite A \<Longrightarrow> A \<noteq> {} \<Longrightarrow> Max ((\<lambda>x. int (f x)) ` A) = int (Max (f ` A))"
  using mono_Max_commute[of int "f ` A"] by (simp add: mono_def image_image)

lemma card_options: "length (bd_options d) = card (bd_vals d)"
  using distinct_card[of "bd_options d"] by (simp add: set_bd_options) (simp add: bd_options_def)

text \<open>What \<open>full_cell\<close> decides, with the least value \<open>g\<close> of the cell and the largest image \<open>m\<close>.\<close>

lemma full_cell_eq:
  assumes C: "cyc_ok fl n t C" and pv: "perm_vec n perm" and rc: "r < n" "c < n"
  defines "s \<equiv> vec_perm perm"
  defines "V \<equiv> bd_vals (dom_at C r c)" and "W \<equiv> bd_vals (dom_at C (s r) (s c))"
  defines "g \<equiv> Min V" and "m \<equiv> Max (pinv n s ` W)"
  shows "full_cell fl n C L perm (inv_vec n s) (r, c) =
    (if card W = 1
     then (if m < g then bindE (addClauses fl n C L perm r c) (\<lambda>_. Inr True)
           else if card V = 1 \<and> m = g then Inr True
           else if fl_prop fl \<and> m = g then bindE (addClauses fl n C L perm r c) (\<lambda>_. Inr True)
           else Inr False)
     else if m < g then bindE (addClauses fl n C L perm r c) (\<lambda>_. Inr True)
     else if \<not> fl_prop fl \<and> m \<le> g then Inr True
     else if fl_prop fl
     then (if s r = r \<and> s c = c
           then bindE (foldE (\<lambda>p _. if pinv n s p < p then addClauses fl n C L perm r c else Inr ()) (bd_options (dom_at C r c)) ()) (\<lambda>_. Inr False)
           else if m = g then bindE (addClauses fl n C L perm r c) (\<lambda>_. Inr True) else Inr False)
     else Inr False)"
proof -
  have sp: "perm_on n s" using pv by (simp add: perm_vec_def s_def)
  have sr: "s r < n" "s c < n" using perm_on_less[OF sp] rc by simp_all
  have get: "vget perm (int r) = Inr (int (s r))" "vget perm (int c) = Inr (int (s c))"
    using perm_vec_get[OF pv] rc by (simp_all add: s_def)
  note V = cyc_okD[OF C rc] and W = cyc_okD[OF C sr]
  have dm: "cell (cy_dom C) (int (s r)) (int (s c)) = Inr (dom_at C (s r) (s c))" using W(7) sr by simp
  have g: "bd_firstel (dom_at C r c) = int g" using V(1,2) by (simp add: g_def V_def bd_inv_def first_of_def)
  have fx: "bd_numTrue (dom_at C r c) = 1 \<longleftrightarrow> card V = 1" using V(1) by (simp add: V_def bd_inv_def)
  have len: "length (bd_options (dom_at C (s r) (s c))) = card W" by (simp add: card_options W_def)
  have Wb: "W \<subseteq> {..<n}" "W \<noteq> {}" "finite W" using bd_vals_bound[OF W(1)] W(2) finite_subset by (auto simp: W_def)
  have so: "set (bd_options (dom_at C (s r) (s c))) = W" by (simp add: set_bd_options W_def)
  have ne: "bd_options (dom_at C (s r) (s c)) \<noteq> []" using so Wb(2) by auto
  have hd: "inv_vec n s ! hd (bd_options (dom_at C (s r) (s c))) = int m" if one: "card W = 1"
  proof -
    obtain w where w: "W = {w}" using one card_1_singletonE by blast
    then have "hd (bd_options (dom_at C (s r) (s c))) = w" using so ne hd_in_set by blast
    then show ?thesis using w Wb(1) by (simp add: m_def)
  qed
  have mx: "Max (set (map (\<lambda>p. inv_vec n s ! p) (bd_options (dom_at C (s r) (s c))))) = int m"
  proof -
    have "set (map (\<lambda>p. inv_vec n s ! p) (bd_options (dom_at C (s r) (s c)))) = (\<lambda>p. int (pinv n s p)) ` W"
      unfolding set_map so using Wb(1) by (intro image_cong) auto
    then show ?thesis using Max_int_image[OF Wb(3,2)] by (simp add: m_def)
  qed
  have lp: "foldE (\<lambda>p _. if inv_vec n s ! p < int p then addClauses fl n C L perm r c else Inr ()) (bd_options (dom_at C r c)) () =
      foldE (\<lambda>p _. if pinv n s p < p then addClauses fl n C L perm r c else Inr ()) (bd_options (dom_at C r c)) ()"
  proof (rule foldE_cong)
    fix p assume "p \<in> set (bd_options (dom_at C r c))"
    then have "p < n" using bd_vals_bound[OF V(1)] by (auto simp: set_bd_options)
    then show "(\<lambda>u. if inv_vec n s ! p < int p then addClauses fl n C L perm r c else Inr ()) =
        (\<lambda>u. if pinv n s p < p then addClauses fl n C L perm r c else Inr ())" by simp
  qed
  have lp': "foldE (\<lambda>p _. if inv_vec n s ! p < int p then addClauses fl n C L perm r c else Inr ()) (bd_options (dom_at C (s r) (s c))) () =
      foldE (\<lambda>p _. if pinv n s p < p then addClauses fl n C L perm r c else Inr ()) (bd_options (dom_at C r c)) ()"
    if "s r = r \<and> s c = c" using lp that by simp
  show ?thesis
  proof (cases "card W = 1")
    case True
    then show ?thesis using hd by (simp add: full_cell_def Let_def get dm g fx len)
  next
    case False
    then have len': "(length (bd_options (dom_at C (s r) (s c))) = 1) = False" using len by simp
    show ?thesis
      unfolding full_cell_def Let_def prod.case get bindE_simps dm g fx len' mx if_False
      using False ne lp' by simp
  qed
qed

section \<open>Soundness on partial tables\<close>

lemma cell_sound:
  assumes C: "cyc_ok fl n t C" and sm: "fl_smaller fl \<longrightarrow> fl_diag fl" and L: "lits_live fl n t L"
    and pv: "perm_vec n perm" and s: "vec_perm perm \<in> syms n (diag_of fl t)"
    and rc: "r < n" "c < n" and le: "earlier_le fl n C (vec_perm perm) r c" and new: "\<not> fl_old fl"
  shows "full_cell fl n C L perm (inv_vec n (vec_perm perm)) (r, c) = Inr False \<or>
    (full_cell fl n C L perm (inv_vec n (vec_perm perm)) (r, c) = Inr True \<and>
      (free_cell fl r c \<longrightarrow> cell_le n C (vec_perm perm) r c)) \<or>
    (\<exists>cls. full_cell fl n C L perm (inv_vec n (vec_perm perm)) (r, c) = Inl (SymBreak cls) \<and> clause_sound fl n t L cls)"
proof -
  define s where "s = vec_perm perm"
  let ?V = "bd_vals (dom_at C r c)" and ?W = "bd_vals (dom_at C (s r) (s c))"
  let ?g = "Min ?V" and ?m = "Max (pinv n s ` ?W)" and ?add = "addClauses fl n C L perm r c"
  note E = full_cell_eq[OF C pv rc, of L, folded s_def]
  have sp: "perm_on n s" using pv by (simp add: perm_vec_def s_def)
  have sr: "s r < n" "s c < n" using perm_on_less[OF sp] rc by simp_all
  note V = cyc_okD[OF C rc] and W = cyc_okD[OF C sr]
  have fV: "finite ?V" and fW: "finite ?W" by simp_all
  have gV: "?g \<in> ?V" using Min_in[OF fV V(2)] .
  have mW: "\<exists>w\<in>?W. pinv n s w = ?m"
  proof -
    have "?m \<in> pinv n s ` ?W" using fW W(2) by (intro Max_in) auto
    then show ?thesis by force
  qed
  show ?thesis
  proof (cases "free_cell fl r c")
    case False
    then have d: "fl_diag fl" "r = c" by (simp_all add: free_cell_def)
    have "?V = {t r}" "?W = {t (s r)}"
      using V(3,4)[OF _ ] W(3,4) d by auto
    moreover have "pinv n s (t (s r)) = t r"
    proof -
      have "s (t r) = t (s r)" using s d(1) rc(1) by (simp add: syms_def diag_of_def s_def)
      then show ?thesis using pinv_left[OF sp V(5)[OF d(1)]] by metis
    qed
    ultimately have "full_cell fl n C L perm (inv_vec n s) (r, c) = Inr True" unfolding E by simp
    then show ?thesis using False by (simp add: s_def)
  next
    case fr: True
    have addS: "bindE ?add (\<lambda>_. Inr b) = Inl (SymBreak cls) \<and> clause_sound fl n t L cls"
      if "?add = Inl (SymBreak cls) \<and> clause_sound fl n t L cls" for b :: bool and cls using that by simp
    have add: "(?add = Inr () \<and> \<not> excludes n C s r c) \<or> (\<exists>cls. ?add = Inl (SymBreak cls) \<and> clause_sound fl n t L cls)"
      using short_result[OF C sm L pv s rc fr le] short_throws[OF C sm pv rc fr le, of L] new
      by (auto simp: addClauses_def s_def)
    have go: "(\<exists>cls. bindE ?add (\<lambda>_. Inr b) = Inl (SymBreak cls) \<and> clause_sound fl n t L cls)"
      if "excludes n C s r c" for b :: bool using add that by auto
    have two: "\<exists>w\<in>?W. pinv n s w < ?m" if "card ?W \<noteq> 1"
    proof -
      obtain w where w: "w \<in> ?W" "pinv n s w = ?m" using mW by blast
      have "?W \<noteq> {w}" using that by auto
      then obtain w' where w': "w' \<in> ?W" "w' \<noteq> w" using w(1) by blast
      have "w < n" "w' < n" using bd_vals_bound[OF W(1)] w(1) w'(1) by auto
      then have "pinv n s w' \<noteq> pinv n s w" using perm_on_inj[OF pinv_perm[OF sp]] w'(2) by metis
      moreover have "pinv n s w' \<le> ?m" using fW w'(1) by (intro Max_ge) auto
      ultimately have "pinv n s w' < ?m" using w(2) by linarith
      then show ?thesis using w'(1) by blast
    qed
    have big: "\<exists>v\<in>?V. ?g < v" if "card ?V \<noteq> 1"
    proof -
      have "card ?V \<noteq> card {?g}" using that by simp
      then have "?V \<noteq> {?g}" by metis
      then obtain v where v: "v \<in> ?V" "v \<noteq> ?g" using gV by blast
      have "?g \<le> v" by (rule Min_le[OF fV v(1)])
      then have "?g < v" using v(2) by linarith
      then show ?thesis using v(1) by blast
    qed
    have fixv: "cell_le n C s r c" if "?m \<le> ?g" "?g \<le> ?m"
    proof -
      have "pinv n s v \<le> v" if "s r = r \<and> s c = c" "v \<in> ?V" for v
      proof -
        have "pinv n s v \<le> ?m" using that fV by (intro Max_ge) auto
        then show ?thesis using Min_le[OF fV that(2)] \<open>?m \<le> ?g\<close> by linarith
      qed
      then show ?thesis using that by (simp add: cell_le_def)
    qed
    consider (lt) "?m < ?g" | (one) "card ?W = 1" "?m = ?g" "card ?V = 1" | (onep) "card ?W = 1" "?m = ?g" "card ?V \<noteq> 1"
      | (gt) "card ?W = 1" "?g < ?m"
      | (many) "card ?W \<noteq> 1" "?g \<le> ?m" "\<not> fl_prop fl"
      | (same) "card ?W \<noteq> 1" "?g \<le> ?m" "fl_prop fl" "s r = r \<and> s c = c"
      | (manyp) "card ?W \<noteq> 1" "?g \<le> ?m" "fl_prop fl" "\<not> (s r = r \<and> s c = c)" by linarith
    then show ?thesis
    proof cases
      case lt
      then show ?thesis unfolding s_def[symmetric] E using go[of True] by (simp add: excludes_def)
    next
      case one
      then show ?thesis unfolding s_def[symmetric] E using fixv by simp
    next
      case onep
      have "excludes n C s r c" using onep big by (simp add: excludes_def)
      then show ?thesis unfolding s_def[symmetric] E using go[of True] onep by simp
    next
      case gt
      then show ?thesis unfolding s_def[symmetric] E by simp
    next
      case many
      then show ?thesis unfolding s_def[symmetric] E using fixv by simp
    next
      case same
      have nm: "mat_at C r c = -1"
      proof (rule ccontr)
        assume "mat_at C r c \<noteq> -1"
        then have "?V = {nat (mat_at C r c)}" using V(3) by blast
        then show False using same by simp
      qed
      have ex: "excludes n C s r c" if "p \<in> ?V" "pinv n s p < p" for p
        using same(1,4) nm that by (auto simp: excludes_def Let_def)
      have lp: "foldE (\<lambda>p _. if pinv n s p < p then ?add else Inr ()) ps () = Inr () \<or>
         (\<exists>cls. foldE (\<lambda>p _. if pinv n s p < p then ?add else Inr ()) ps () = Inl (SymBreak cls) \<and> clause_sound fl n t L cls)"
        if "set ps \<subseteq> ?V" for ps using that
      proof (induction ps)
        case (Cons p ps)
        then show ?case using add by auto
      qed simp
      have "set (bd_options (dom_at C r c)) \<subseteq> ?V" by (simp add: set_bd_options)
      from lp[OF this] show ?thesis unfolding s_def[symmetric] E using same by auto
    next
      case manyp
      have "excludes n C s r c" if "?m = ?g" using two[OF manyp(1)] manyp that by (auto simp: excludes_def Let_def)
      then show ?thesis unfolding s_def[symmetric] E using go[of True] manyp by auto
    qed
  qed
qed

section \<open>The loops\<close>

lemma before_index:
  assumes "c < n" "c' < n"
  shows "before r' c' r c \<longleftrightarrow> r' * n + c' < r * n + (c::nat)"
proof -
  consider "r' < r" | "r' = r" | "r < r'" by linarith
  then show ?thesis
  proof cases
    case 1
    then have "r' * n + n \<le> r * n" using mult_step[of r' r n] by (simp add: mult.commute)
    then show ?thesis using 1 assms by (simp add: before_def)
  next
    case 3
    then have "r * n + n \<le> r' * n" using mult_step[of r r' n] by (simp add: mult.commute)
    then show ?thesis using 3 assms by (simp add: before_def)
  qed (simp add: before_def)
qed

lemma cells_index:
  assumes "k < n * n"
  shows "k div n < n" "k mod n < n" "(k div n) * n + k mod n = k" "cells n ! k = (k div n, k mod n)"
proof -
  have "0 < n" using assms by (cases n) auto
  then show "k div n < n" "k mod n < n" "(k div n) * n + k mod n = k" "cells n ! k = (k div n, k mod n)"
    using assms by (simp_all add: less_mult_imp_div_less cells_nth)
qed

lemma cells_from:
  assumes "i < n" "j < n"
  shows "filter (\<lambda>(r, c). \<not> (r < i \<or> (r = i \<and> c < j))) (cells n) = drop (i * n + j) (cells n)"
proof -
  let ?P = "\<lambda>(r, c). \<not> (r < i \<or> (r = i \<and> c < j))" and ?k = "i * n + j"
  have k: "?k < n * n" using assms by (rule cell_index)
  have P: "?P (cells n ! m) \<longleftrightarrow> ?k \<le> m" if "m < n * n" for m
    using before_index[of j n "m mod n" "m div n" i] assms(2) cells_index[OF that] by (auto simp: before_def)
  have "filter ?P (take ?k (cells n)) = []"
  proof -
    have "\<not> ?P x" if x: "x \<in> set (take ?k (cells n))" for x
    proof -
      obtain m where m: "m < ?k" "x = cells n ! m" using x k by (auto simp: in_set_conv_nth)
      then show ?thesis using P[of m] k by auto
    qed
    then show ?thesis unfolding filter_empty_conv by blast
  qed
  moreover have "filter ?P (drop ?k (cells n)) = drop ?k (cells n)"
  proof -
    have "?P x" if x: "x \<in> set (drop ?k (cells n))" for x
    proof -
      obtain m where m: "m < n * n - ?k" "x = cells n ! (?k + m)" using x k by (auto simp: in_set_conv_nth)
      then show ?thesis using P[of "?k + m"] k by auto
    qed
    then show ?thesis by (intro filter_True) blast
  qed
  moreover have "filter ?P (cells n) = filter ?P (take ?k (cells n)) @ filter ?P (drop ?k (cells n))"
    by (metis append_take_drop_id filter_append)
  ultimately show ?thesis by simp
qed

lemma earlier_le_Suc:
  assumes k: "Suc k < n * n" and e: "earlier_le fl n C s (k div n) (k mod n)"
    and le: "free_cell fl (k div n) (k mod n) \<longrightarrow> cell_le n C s (k div n) (k mod n)"
  shows "earlier_le fl n C s (Suc k div n) (Suc k mod n)"
  unfolding earlier_le_def
proof (intro allI impI)
  fix r c assume rc: "r < n" "c < n" "before r c (Suc k div n) (Suc k mod n)" "free_cell fl r c"
  have kk: "k < n * n" using k by simp
  note I = cells_index[OF k] and J = cells_index[OF kk]
  have "r * n + c < Suc k" using before_index[OF I(2) rc(2)] rc(3) I(3) by simp
  then consider "r * n + c < k" | "r * n + c = k" by linarith
  then show "cell_le n C s r c"
  proof cases
    case 1
    then have "before r c (k div n) (k mod n)" using before_index[OF J(2) rc(2)] J(3) by simp
    then show ?thesis using e rc by (simp add: earlier_le_def)
  next
    case 2
    have "(r * n + c) div n = r" "(r * n + c) mod n = c" using rc(2) by simp_all
    then have "k div n = r" "k mod n = c" unfolding 2 by simp_all
    then show ?thesis using le rc(4) by simp
  qed
qed

lemma full_cells_sound:
  assumes C: "cyc_ok fl n t C" and sm: "fl_smaller fl \<longrightarrow> fl_diag fl" and L: "lits_live fl n t L"
    and pv: "perm_vec n perm" and s: "vec_perm perm \<in> syms n (diag_of fl t)" and new: "\<not> fl_old fl"
    and k: "k < n * n" and e: "earlier_le fl n C (vec_perm perm) (k div n) (k mod n)"
  shows "full_cells fl n C L perm (inv_vec n (vec_perm perm)) (drop k (cells n)) = Inr () \<or>
    (\<exists>cls. full_cells fl n C L perm (inv_vec n (vec_perm perm)) (drop k (cells n)) = Inl (SymBreak cls) \<and> clause_sound fl n t L cls)"
  using k e
proof (induction "n * n - k" arbitrary: k)
  case (Suc d)
  note I = cells_index[OF Suc.prems(1)]
  have dr: "drop k (cells n) = (k div n, k mod n) # drop (Suc k) (cells n)"
    using Cons_nth_drop_Suc[of k "cells n"] Suc.prems(1) I(4) by simp
  from cell_sound[OF C sm L pv s I(1,2) Suc.prems(2) new] show ?case
  proof (elim disjE exE conjE)
    assume st: "full_cell fl n C L perm (inv_vec n (vec_perm perm)) (k div n, k mod n) = Inr True"
      "free_cell fl (k div n) (k mod n) \<longrightarrow> cell_le n C (vec_perm perm) (k div n) (k mod n)"
    show ?thesis
    proof (cases "Suc k < n * n")
      case True
      have "full_cells fl n C L perm (inv_vec n (vec_perm perm)) (drop (Suc k) (cells n)) = Inr () \<or>
        (\<exists>cls. full_cells fl n C L perm (inv_vec n (vec_perm perm)) (drop (Suc k) (cells n)) = Inl (SymBreak cls) \<and> clause_sound fl n t L cls)"
        using Suc.hyps(2) by (intro Suc.hyps(1) True earlier_le_Suc[OF True Suc.prems(2) st(2)]) simp
      then show ?thesis using st(1) by (simp add: dr)
    next
      case False
      then have "drop (Suc k) (cells n) = []" by simp
      then show ?thesis using st(1) by (simp add: dr)
    qed
  qed (simp_all add: dr)
qed simp

lemma perm_check_run:
  assumes "perm_vec n perm" "i < n" "j < n"
  shows "permFullyDefinedCheck fl n C L perm i j =
    (if permIsId n perm then Inr () else full_cells fl n C L perm (inv_vec n (vec_perm perm)) (drop (i * n + j) (cells n)))"
  unfolding permFullyDefinedCheck_def invperm_of_perm(2)[OF assms(1)] bindE_simps cells_from[OF assms(2,3)] ..

text \<open>
  C16: started at a cell before which everything agrees, the check of a permutation that commutes
  with the diagonal ends normally or throws a clause that every canonical table satisfies.
\<close>

theorem permFullyDefinedCheck_sound:
  assumes "cyc_ok fl n t C" "fl_smaller fl \<longrightarrow> fl_diag fl" "lits_live fl n t L"
    and "perm_vec n perm" "vec_perm perm \<in> syms n (diag_of fl t)" "\<not> fl_old fl"
    and "i < n" "j < n" "earlier_le fl n C (vec_perm perm) i j"
  shows "permFullyDefinedCheck fl n C L perm i j = Inr () \<or>
    (\<exists>cls. permFullyDefinedCheck fl n C L perm i j = Inl (SymBreak cls) \<and> clause_sound fl n t L cls)"
proof -
  have k: "i * n + j < n * n" using assms(7,8) by (rule cell_index)
  have d: "(i * n + j) div n = i" "(i * n + j) mod n = j" using assms(8) by simp_all
  show ?thesis
    using full_cells_sound[OF assms(1-6) k] assms(9) unfolding d perm_check_run[OF assms(4,7,8)] by auto
qed

theorem permFullyDefinedCheck_sound_witness:
  "\<exists>cls. permFullyDefinedCheck swap_flags 2 swap_cyc swap_lits [1, 0] 0 0 = Inl (SymBreak cls) \<and> clause_sound swap_flags 2 id swap_lits cls"
proof -
  have "permFullyDefinedCheck swap_flags 2 swap_cyc swap_lits [1, 0] 0 0 \<noteq> Inr ()" by code_simp
  then show ?thesis
    using permFullyDefinedCheck_sound[OF swap_cyc_ok _ swap_live swap_perm, of 0 0]
    by (simp add: swap_flags_def earlier_le_def before_def)
qed

section \<open>Completeness on total tables\<close>

definition total_table :: "nat \<Rightarrow> cyc \<Rightarrow> cmat \<Rightarrow> bool" where
  "total_table n C N \<longleftrightarrow> (\<forall>r<n. \<forall>c<n. bd_vals (dom_at C r c) = {N r c})"

lemma total_cell_le:
  assumes "total_table n C N" "perm_on n s" "r < n" "c < n" "pact n s N r c = N r c"
  shows "cell_le n C s r c"
  using assms perm_on_less[OF assms(2)] by (auto simp: cell_le_def total_table_def pact_def)

lemma total_cell:
  assumes C: "cyc_ok fl n t C" and sm: "fl_smaller fl \<longrightarrow> fl_diag fl"
    and pv: "perm_vec n perm" and s: "vec_perm perm \<in> syms n (diag_of fl t)" and N: "table_ok fl n t N"
    and rc: "r < n" "c < n" and le: "earlier_le fl n C (vec_perm perm) r c" and new: "\<not> fl_old fl" and tot: "total_table n C N"
  shows "pact n (vec_perm perm) N r c < N r c \<Longrightarrow> \<exists>e. full_cell fl n C L perm (inv_vec n (vec_perm perm)) (r, c) = Inl e"
    and "pact n (vec_perm perm) N r c = N r c \<Longrightarrow> full_cell fl n C L perm (inv_vec n (vec_perm perm)) (r, c) = Inr True"
    and "N r c < pact n (vec_perm perm) N r c \<Longrightarrow> full_cell fl n C L perm (inv_vec n (vec_perm perm)) (r, c) = Inr False"
proof -
  define s where "s = vec_perm perm"
  have sp: "perm_on n s" using pv by (simp add: perm_vec_def s_def)
  have sr: "s r < n" "s c < n" using perm_on_less[OF sp] rc by simp_all
  have V: "bd_vals (dom_at C r c) = {N r c}" "bd_vals (dom_at C (s r) (s c)) = {N (s r) (s c)}"
    using tot rc sr by (simp_all add: total_table_def)
  note E = full_cell_eq[OF C pv rc, of L, folded s_def, unfolded V]
  show "full_cell fl n C L perm (inv_vec n s) (r, c) = Inr True" if "pact n s N r c = N r c"
    unfolding E using that by (simp add: pact_def)
  show "full_cell fl n C L perm (inv_vec n s) (r, c) = Inr False" if "N r c < pact n s N r c"
    unfolding E using that by (simp add: pact_def)
  show "\<exists>e. full_cell fl n C L perm (inv_vec n s) (r, c) = Inl e" if lt: "pact n s N r c < N r c"
  proof -
    have fr: "free_cell fl r c" using lt pact_diag_le[OF N s rc(1)] by (auto simp: free_cell_def s_def)
    have "excludes n C s r c" using lt by (simp add: excludes_def V Let_def pact_def)
    then have "addClauses fl n C L perm r c \<noteq> Inr ()"
      using short_throws[OF C sm pv rc fr le] new by (simp add: addClauses_def s_def)
    then obtain e where "addClauses fl n C L perm r c = Inl e" by (cases "addClauses fl n C L perm r c") auto
    then show ?thesis unfolding E using lt by (simp add: pact_def)
  qed
qed

lemma full_cells_total:
  assumes C: "cyc_ok fl n t C" and sm: "fl_smaller fl \<longrightarrow> fl_diag fl"
    and pv: "perm_vec n perm" and s: "vec_perm perm \<in> syms n (diag_of fl t)" and N: "table_ok fl n t N"
    and new: "\<not> fl_old fl" and tot: "total_table n C N"
    and k: "k \<le> n * n" and e: "k < n * n \<longrightarrow> earlier_le fl n C (vec_perm perm) (k div n) (k mod n)"
  shows "full_cells fl n C L perm (inv_vec n (vec_perm perm)) (drop k (cells n)) = Inr () \<longleftrightarrow>
    \<not> map (\<lambda>(i, j). pact n (vec_perm perm) N i j) (drop k (cells n)) < map (\<lambda>(i, j). N i j) (drop k (cells n))"
  using k e
proof (induction "n * n - k" arbitrary: k)
  case (Suc d)
  then have k: "k < n * n" by simp
  note I = cells_index[OF k]
  have le: "earlier_le fl n C (vec_perm perm) (k div n) (k mod n)" using Suc.prems(2) k by simp
  have sp: "perm_on n (vec_perm perm)" using pv by (simp add: perm_vec_def)
  let ?A = "pact n (vec_perm perm) N (k div n) (k mod n)" and ?B = "N (k div n) (k mod n)"
  have dr: "drop k (cells n) = (k div n, k mod n) # drop (Suc k) (cells n)"
    using Cons_nth_drop_Suc[of k "cells n"] k I(4) by simp
  note T = total_cell[OF C sm pv s N I(1,2) le new tot, of L]
  consider "?A < ?B" | "?A = ?B" | "?B < ?A" by linarith
  then show ?case
  proof cases
    case 1
    then show ?thesis using T(1) by (auto simp: dr)
  next
    case 2
    have next_le: "Suc k < n * n \<longrightarrow> earlier_le fl n C (vec_perm perm) (Suc k div n) (Suc k mod n)"
      using earlier_le_Suc[OF _ le] total_cell_le[OF tot sp I(1,2) 2] by blast
    have "d = n * n - Suc k" "Suc k \<le> n * n" using Suc.hyps(2) k by simp_all
    from Suc.hyps(1)[OF this next_le] show ?thesis using T(2)[OF 2] 2 by (simp add: dr)
  next
    case 3
    then show ?thesis using T(3) by (auto simp: dr)
  qed
qed simp

lemma permIsId_id:
  assumes "perm_vec n perm" "permIsId n perm" "i < n"
  shows "vec_perm perm i = i"
proof (cases "i = n - 1")
  case True
  have "0 \<le> perm ! i" using assms(1,3) by (auto simp: perm_vec_def)
  then show ?thesis using assms(2) True by (auto simp: permIsId_def vec_perm_def)
next
  case False
  then show ?thesis using assms(2,3) by (auto simp: permIsId_def vec_perm_def list_all_iff)
qed

text \<open>
  C14: on a table with all entries known the check of a permutation (the identity included) ends
  without a clause exactly when the permuted table is not smaller in the row-major order.
\<close>

theorem permFullyDefinedCheck_complete:
  assumes "cyc_ok fl n t C" "fl_smaller fl \<longrightarrow> fl_diag fl" "perm_vec n perm"
    and "vec_perm perm \<in> syms n (diag_of fl t)" "table_ok fl n t N" "\<not> fl_old fl" "total_table n C N" "0 < n"
  shows "permFullyDefinedCheck fl n C L perm 0 0 = Inr () \<longleftrightarrow> \<not> lex_less n (pact n (vec_perm perm) N) N"
proof (cases "permIsId n perm")
  case True
  have "mlist n (pact n (vec_perm perm) N) = mlist n N"
  proof (rule mlist_cong)
    fix i j assume ij: "i < n" "j < n"
    have sp: "perm_on n (vec_perm perm)" using assms(3) by (simp add: perm_vec_def)
    have "N i j < n" using table_ok_less[OF assms(5) ij] .
    then show "pact n (vec_perm perm) N i j = N i j"
      using permIsId_id[OF assms(3) True] ij pinv_eq[OF sp, of "N i j"] by (simp add: pact_def)
  qed
  then show ?thesis using True perm_check_run[OF assms(3,8,8)] by (simp add: lex_less_def)
next
  case False
  have "earlier_le fl n C (vec_perm perm) (0 div n) (0 mod n)" by (simp add: earlier_le_def before_def)
  then show ?thesis
    using full_cells_total[OF assms(1-7), of 0 L] False perm_check_run[OF assms(3,8,8), of fl C L]
    by (simp add: lex_less_def mlist_def)
qed

theorem permFullyDefinedCheck_complete_witness:
  "lex_less 2 (pact 2 (vec_perm [1, 0]) (\<lambda>i j. if i = 0 then 1 - j else j)) (\<lambda>i j. if i = 0 then 1 - j else j)"
proof -
  let ?N = "\<lambda>i j. if i = 0 then 1 - j else j :: nat"
  have "row_perms 2 ?N"
    unfolding row_perms_def by (intro allI impI perm_onI) (auto simp: less2)
  then have N: "table_ok swap_flags 2 id ?N"
    by (simp add: table_ok_def has_diag_def diag_of_def swap_flags_def)
  have tot: "total_table 2 swap_cyc ?N"
    unfolding total_table_def using bd_inv_swap_dom by (auto simp: swap_cyc_def less2)
  have "permFullyDefinedCheck swap_flags 2 swap_cyc swap_lits [1, 0] 0 0 \<noteq> Inr ()" by code_simp
  then show ?thesis
    using permFullyDefinedCheck_complete[OF swap_cyc_ok _ swap_perm N _ tot, of swap_lits]
    by (simp add: swap_flags_def)
qed

end
