(* ===== verification/MinCheck_V2.thy ===== *)
theory MinCheck_V2
  imports MinCheck_Full Perms
begin

text \<open>
  The minimality check (\<^verbatim>\<open>minCheck_V2.cpp\<close>): a backtracking search over partially defined
  permutations, row by row.

  A partial permutation is shared through a pointer: when the row of a node is already fixed the
  search goes on with the node's own object (\<open>Same\<close>), else with a copy (\<open>Copy p\<close>). What a node
  does to its own object is visible to its caller, and in the end to the next check, which starts
  from the same \<open>initialPart\<close>; every function returns its object as it leaves it, also when it
  throws. \<open>its\<close> counts the nodes.
\<close>

section \<open>The class\<close>

record mincheck =
  mc_cyc :: cyc
  mc_lits :: lits3
  mc_diag :: cyclePerm
  mc_init :: pperm
  mc_diagIsId :: bool
  mc_its :: int
  mc_final :: bool

definition no_cyc :: cyc where
  "no_cyc = \<lparr>cy_matrix = [], cy_asg = [], cy_lits = [], cy_dom = []\<rparr>"

definition no_diag :: cyclePerm where
  "no_diag = \<lparr>cp_element = [], cp_part = []\<rparr>"

text \<open>
  The constructor from a diagonal. \<open>permOf\<close> of the last element reads past the end of its vectors
  (parameter \<open>beyond\<close>); \<open>final\<close> is set by the caller before each check.
\<close>

definition mc_new :: "flags \<Rightarrow> nat \<Rightarrow> nat \<times> nat \<Rightarrow> int list \<Rightarrow> lits3 \<Rightarrow> mincheck res" where
  "mc_new fl n beyond d L =
     bindE (if fl_diag fl then cyclePerm_new n d else Inr no_diag) (\<lambda>cp.
     bindE (if fl_bit fl \<and> fl_diag fl then bindE (bit_new n d) (\<lambda>p. Inr (Bit p))
            else if fl_diag fl then bindE (plain_new n d) (\<lambda>p. Inr (Plain p))
            else bindE (plain_new n (map int [0..<n])) (\<lambda>p. Inr (Plain p))) (\<lambda>p.
     Inr \<lparr>mc_cyc = no_cyc, mc_lits = L, mc_diag = cp, mc_init = p,
          mc_diagIsId = (fl_diag fl \<longrightarrow> list_all (\<lambda>i. cp_permOf n beyond cp i = i) [0..<n]),
          mc_its = 0, mc_final = False\<rparr>))"

text \<open>The constructor from a table leaves the partial permutation and the cycles empty.\<close>

definition mc_new_table :: "flags \<Rightarrow> nat \<Rightarrow> cyc \<Rightarrow> lits3 \<Rightarrow> mincheck" where
  "mc_new_table fl n C L = \<lparr>mc_cyc = C, mc_lits = L, mc_diag = no_diag, mc_init = Plain \<lparr>pl_element = [], pl_part = []\<rparr>,
     mc_diagIsId = (fl_diag fl \<longrightarrow> list_all (\<lambda>i. mat_at C i i = int i) [0..<n]), mc_its = 0, mc_final = False\<rparr>"

section \<open>Fixing and propagating\<close>

text \<open>\<open>for (i = 1; i < size; i++) if (!perm->fix(f i, g i)) return false; return true\<close>\<close>

fun fix_all :: "nat \<Rightarrow> (nat \<times> nat) list \<Rightarrow> pperm \<Rightarrow> bool \<times> pperm" where
  "fix_all n [] p = (True, p)"
| "fix_all n ((i, j) # xs) p = (case pp_fix n p i j of (ok, p') \<Rightarrow> if ok then fix_all n xs p' else (False, p'))"

definition propagateDecision :: "nat \<Rightarrow> mincheck \<Rightarrow> pperm \<Rightarrow> nat \<Rightarrow> (bool \<times> pperm) res" where
  "propagateDecision n M p r =
     (let dec = pp_permOf n p r
      in bindE (cp_cycle n (mc_diag M) (int r)) (\<lambda>cycle_og.
         let size = length cycle_og
         in if dec = int r
            then Inr (fix_all n (map (\<lambda>i. (cycle_og ! i, cycle_og ! i)) [1..<size]) p)
            else if dec \<in> int ` set cycle_og
            then let dist = position cycle_og (nat dec)
                 in Inr (fix_all n (map (\<lambda>i. (cycle_og ! i, cycle_og ! ((i + dist) mod size))) [1..<size]) p)
            else bindE (cp_cycle n (mc_diag M) dec) (\<lambda>cycle_perm.
                 if length cycle_perm \<noteq> size then Inr (False, p)
                 else Inr (fix_all n (map (\<lambda>i. (cycle_og ! i, cycle_perm ! i)) [1..<size]) p))))"

definition fixAndPropagate :: "nat \<Rightarrow> mincheck \<Rightarrow> pperm \<Rightarrow> nat \<Rightarrow> nat \<Rightarrow> (bool \<times> pperm) res" where
  "fixAndPropagate n M p i j =
     (case pp_fix n p i j of (fixed, p') \<Rightarrow>
        if fixed \<and> \<not> mc_diagIsId M then propagateDecision n M p' i else Inr (fixed, p'))"

text \<open>The results of \<open>fixAndPropagate\<close> are not looked at.\<close>

definition extend_step :: "nat \<Rightarrow> mincheck \<Rightarrow> nat \<Rightarrow> pperm \<Rightarrow> pperm res" where
  "extend_step n M i p =
     (if pp_permOf n p i = -1
      then (case pp_options n p i of [] \<Rightarrow> Inl UB
            | j # _ \<Rightarrow> bindE (fixAndPropagate n M p i j) (\<lambda>x. Inr (snd x)))
      else Inr p)"

definition extendPerm :: "flags \<Rightarrow> nat \<Rightarrow> mincheck \<Rightarrow> pperm \<Rightarrow> pperm res" where
  "extendPerm fl n M p = (if \<not> fl_bit fl \<or> pp_fullDefined n p then Inr p else foldE (extend_step n M) [0..<n] p)"

text \<open>\<open>extendPerm(copyPerm); p = copyPerm->getPerm(); addClauses(p, 0, r)\<close>\<close>

definition learn :: "flags \<Rightarrow> nat \<Rightarrow> mincheck \<Rightarrow> nat \<Rightarrow> pperm \<Rightarrow> unit res \<times> pperm" where
  "learn fl n M r p = (case extendPerm fl n M p of Inl e \<Rightarrow> (Inl e, p)
     | Inr q \<Rightarrow> (addClauses fl n (mc_cyc M) (mc_lits M) (pp_getPerm n q) 0 r, q))"

section \<open>Filtering the images of a row\<close>

text \<open>
  What the body of the loop does with one image: drop it, keep it, or leave the loop. The image
  \<open>maxi\<close> can be -1 when it is fixed (the largest inverse image then belongs to a value whose
  inverse image is already fixed); the partial permutations have no such image, and the access is
  undefined for \<open>pperm_plain\<close> and overwrites the counters of \<open>pperm_bit\<close>; the model stops there.
\<close>

datatype verdict = Drop | Keep | Leave | KeepLeave

definition fix_then :: "nat \<Rightarrow> mincheck \<Rightarrow> pperm \<Rightarrow> nat \<Rightarrow> int \<Rightarrow> (pperm \<Rightarrow> 'a res \<times> pperm) \<Rightarrow> 'a res \<times> pperm" where
  "fix_then n M p i j k =
     (if j < 0 \<or> int n \<le> j then (Inl UB, p)
      else case fixAndPropagate n M p i (nat j) of Inl e \<Rightarrow> (Inl e, p) | Inr (_, p') \<Rightarrow> k p')"

definition learn_v :: "flags \<Rightarrow> nat \<Rightarrow> mincheck \<Rightarrow> nat \<Rightarrow> verdict \<Rightarrow> pperm \<Rightarrow> verdict res \<times> pperm" where
  "learn_v fl n M r v p = (case learn fl n M r p of (res, q) \<Rightarrow> (bindE res (\<lambda>_. Inr v), q))"

text \<open>The permuted cell has one value \<open>pv\<close>.\<close>

definition filter_single ::
  "flags \<Rightarrow> nat \<Rightarrow> mincheck \<Rightarrow> nat \<Rightarrow> int \<Rightarrow> bool \<Rightarrow> nat \<Rightarrow> pperm \<Rightarrow> verdict res \<times> pperm" where
  "filter_single fl n M r minog minOgFixed pv p =
     (let iv = pp_invPermOf n p pv
      in if iv \<noteq> -1
         then (if iv < minog then learn_v fl n M r Drop p
               else if minOgFixed \<and> iv = minog then (Inr Keep, p)
               else if fl_prop fl \<and> iv = minog then learn_v fl n M r Drop p
               else (Inr Drop, p))
         else (let opt = pp_invOptions n p pv
               in if opt = [] then (Inl UB, p)
                  else let iv = Min (set opt)
                    in if int iv < minog then fix_then n M p iv (int pv) (learn_v fl n M r Drop)
                       else if minOgFixed \<and> int iv = minog then fix_then n M p iv (int pv) (\<lambda>q. (Inr Keep, q))
                       else if fl_prop fl \<and> int iv = minog then fix_then n M p iv (int pv) (learn_v fl n M r Drop)
                       else (Inr Drop, p)))"

text \<open>
  The permuted cell has several values: the loop over them, with the state
  \<open>(maxel, maxi, alreadyDefined.size())\<close>. Each round tests again whether the cell is mapped to itself.
\<close>

definition self_mapped :: "nat \<Rightarrow> nat \<Rightarrow> pperm \<Rightarrow> bool" where
  "self_mapped n r p \<longleftrightarrow> pp_permOf n p 0 = 0 \<and> pp_permOf n p r = int r"

fun filter_loop ::
  "flags \<Rightarrow> nat \<Rightarrow> mincheck \<Rightarrow> nat \<Rightarrow> nat list \<Rightarrow> pperm \<Rightarrow> int \<times> int \<times> nat \<Rightarrow> (int \<times> int \<times> nat) res \<times> pperm" where
  "filter_loop fl n M r [] p s = (Inr s, p)"
| "filter_loop fl n M r (pv # pvs) p (maxel, maxi, defined) =
     (let iopt = pp_invOptions n p pv
      in if iopt = [] then (Inl UB, p)
         else if self_mapped n r p
         then (if Min (set iopt) < pv
               then (case (if length iopt = 1 then learn fl n M r p else fix_then n M p (Min (set iopt)) (int pv) (learn fl n M r)) of
                       (Inl e, q) \<Rightarrow> (Inl e, q)
                     | (Inr _, q) \<Rightarrow> filter_loop fl n M r pvs q (maxel, maxi, defined))
               else filter_loop fl n M r pvs p (maxel, maxi, defined))
         else if length iopt = 1 then filter_loop fl n M r pvs p (max maxel (int (hd iopt)), maxi, Suc defined)
         else if maxel < int (Max (set iopt)) then filter_loop fl n M r pvs p (int (Max (set iopt)), int pv, defined)
         else filter_loop fl n M r pvs p (maxel, maxi, defined))"

definition filter_many ::
  "flags \<Rightarrow> nat \<Rightarrow> mincheck \<Rightarrow> nat \<Rightarrow> int \<Rightarrow> bitdomain \<Rightarrow> pperm \<Rightarrow> verdict res \<times> pperm" where
  "filter_many fl n M r minog permVal p =
     (case filter_loop fl n M r (bd_options permVal) p (-1, -1, 0) of (Inl e, q) \<Rightarrow> (Inl e, q)
      | (Inr (maxel, maxi, defined), q) \<Rightarrow>
          if self_mapped n r q then (Inr Leave, q)
          else if int defined = bd_numTrue permVal
          then (if maxel < minog then learn_v fl n M r Leave q
                else if \<not> fl_prop fl \<and> minog = maxel then (Inr KeepLeave, q)
                else if fl_prop fl \<and> minog = maxel then learn_v fl n M r Leave q
                else (Inr Leave, q))
          else (if maxel < minog then fix_then n M q (nat maxel) maxi (learn_v fl n M r Leave)
                else if \<not> fl_prop fl \<and> minog = maxel then fix_then n M q (nat maxel) maxi (\<lambda>q. (Inr KeepLeave, q))
                else if fl_prop fl \<and> minog = maxel then fix_then n M q (nat maxel) maxi (learn_v fl n M r Leave)
                else (Inr Leave, q)))"

definition filter_one :: "flags \<Rightarrow> nat \<Rightarrow> mincheck \<Rightarrow> nat \<Rightarrow> pperm \<Rightarrow> verdict res \<times> pperm" where
  "filter_one fl n M r p =
     (let minog = bd_firstel (dom_at (mc_cyc M) 0 r); minOgFixed = (bd_numTrue (dom_at (mc_cyc M) 0 r) = 1)
      in case cell (cy_dom (mc_cyc M)) (pp_permOf n p 0) (pp_permOf n p r) of Inl e \<Rightarrow> (Inl e, p)
         | Inr permVal \<Rightarrow>
             if bd_numTrue permVal = 1 then filter_single fl n M r minog minOgFixed (nat (bd_firstel permVal)) p
             else filter_many fl n M r minog permVal p)"

datatype entry = Same | Copy pperm

fun keeps :: "verdict \<Rightarrow> entry \<Rightarrow> entry list" where
  "keeps Keep x = [x]"
| "keeps KeepLeave x = [x]"
| "keeps _ x = []"

fun leaves :: "verdict \<Rightarrow> bool" where
  "leaves Leave = True"
| "leaves KeepLeave = True"
| "leaves _ = False"

text \<open>The loop over the images; the second component is the node's own object.\<close>

fun filterOptions :: "flags \<Rightarrow> nat \<Rightarrow> mincheck \<Rightarrow> nat \<Rightarrow> nat list \<Rightarrow> pperm \<Rightarrow> entry list res \<times> pperm" where
  "filterOptions fl n M r [] p = (Inr [], p)"
| "filterOptions fl n M r (j # js) p =
     (if pp_fixed n p r
      then (case filter_one fl n M r p of (Inl e, q) \<Rightarrow> (Inl e, q)
            | (Inr v, q) \<Rightarrow> if leaves v then (Inr (keeps v Same), q)
                else (case filterOptions fl n M r js q of (res, q') \<Rightarrow> (bindE res (\<lambda>xs. Inr (keeps v Same @ xs)), q')))
      else (case fixAndPropagate n M p r j of Inl e \<Rightarrow> (Inl e, p)
            | Inr (ok, q) \<Rightarrow>
                if \<not> ok then filterOptions fl n M r js p
                else (case filter_one fl n M r q of (Inl e, _) \<Rightarrow> (Inl e, p)
                      | (Inr v, q') \<Rightarrow> if leaves v then (Inr (keeps v (Copy q')), p)
                          else (case filterOptions fl n M r js p of (res, p') \<Rightarrow> (bindE res (\<lambda>xs. Inr (keeps v (Copy q') @ xs)), p')))))"

section \<open>The search\<close>

function (sequential) checkMinimality :: "flags \<Rightarrow> nat \<Rightarrow> mincheck \<Rightarrow> nat \<Rightarrow> int \<Rightarrow> int \<times> pperm \<Rightarrow> unit res \<times> (int \<times> pperm)"
  and checkOptions :: "flags \<Rightarrow> nat \<Rightarrow> mincheck \<Rightarrow> nat \<Rightarrow> int \<Rightarrow> nat \<Rightarrow> entry list \<Rightarrow> int \<times> pperm \<Rightarrow> unit res \<times> (int \<times> pperm)" where
  "checkMinimality fl n M r d (its, p) =
     (let its' = its + 1
      in if \<not> mc_final M \<and> fl_maxMC fl \<le> its' then (Inl LimitReached, (its', p))
         else let options = pp_options n p r
           in case filterOptions fl n M r options p of
                (Inl e, p') \<Rightarrow> (Inl e, (its', p'))
              | (Inr os, p') \<Rightarrow> checkOptions fl n M r d (length options) os (its', p'))"
| "checkOptions fl n M r d k [] s = (Inr (), s)"
| "checkOptions fl n M r d k (x # xs) (its, p) =
     (let q = (case x of Same \<Rightarrow> p | Copy q \<Rightarrow> q)
      in if pp_fullDefined n q
         then (case permFullyDefinedCheck fl n (mc_cyc M) (mc_lits M) (pp_getPerm n q) 0 r of
                 Inl e \<Rightarrow> (Inl e, (its, p)) | Inr _ \<Rightarrow> checkOptions fl n M r d k xs (its, p))
         else if r + 1 < n \<and> (0 < k \<and> (mc_final M \<or> d + 1 \<le> fl_maxDepth fl) \<or> k = 0)
         then (case checkMinimality fl n M (r + 1) (if 0 < k then d + 1 else d) (its, q) of (res, (its', q')) \<Rightarrow>
                 let p' = (case x of Same \<Rightarrow> q' | Copy _ \<Rightarrow> p)
                 in case res of Inl e \<Rightarrow> (Inl e, (its', p')) | Inr _ \<Rightarrow> checkOptions fl n M r d k xs (its', p'))
         else checkOptions fl n M r d k xs (its, p))"
  by pat_completeness auto
termination
  by (relation "inv_image (less_than <*lex*> less_than) (\<lambda>x. case x of
        Inl (fl, n, M, r, d, s) \<Rightarrow> (2 * (n - r) + 1, 0) | Inr (fl, n, M, r, d, k, xs, s) \<Rightarrow> (2 * (n - r), length xs))") auto

definition run_MinCheck :: "flags \<Rightarrow> nat \<Rightarrow> mincheck \<Rightarrow> cyc \<Rightarrow> unit res \<times> mincheck" where
  "run_MinCheck fl n M C =
     (let M1 = M\<lparr>mc_its := 0, mc_cyc := C\<rparr>
      in case checkMinimality fl n M1 0 0 (0, mc_init M1) of
           (res, (its, p)) \<Rightarrow> (res, M1\<lparr>mc_its := its, mc_init := p\<rparr>))"

text \<open>
  \<open>inverseUnkown\<close> is not called: the first open row up to \<open>ogVal\<close> that can take the image.
\<close>

fun inverse_from :: "nat \<Rightarrow> mincheck \<Rightarrow> pperm \<Rightarrow> nat \<Rightarrow> nat list \<Rightarrow> pperm res" where
  "inverse_from n M p permVal [] = Inr p"
| "inverse_from n M p permVal (j # js) =
     (if pp_fixed n p j then inverse_from n M p permVal js
      else if permVal \<in> set (pp_options n p j)
      then bindE (fixAndPropagate n M p j permVal) (\<lambda>(ok, q). if ok then Inr q else inverse_from n M p permVal js)
      else inverse_from n M p permVal js)"

definition inverseUnkown :: "nat \<Rightarrow> mincheck \<Rightarrow> pperm \<Rightarrow> nat \<Rightarrow> nat \<Rightarrow> pperm res" where
  "inverseUnkown n M p ogVal permVal = inverse_from n M p permVal [0..<Suc ogVal]"

end
