(* ===== verification/MinCheck_Search.thy ===== *)
theory MinCheck_Search
  imports MinCheck_V2 MinCheck_Full Perms
begin

text \<open>
  The search of the minimality check (\<open>checkMinimality\<close>, \<open>filterOptions\<close>), verified once for
  every partial permutation that keeps a contract on \<open>fixAndPropagate\<close> and \<open>extendPerm\<close>:
  fixing a row or the least possible preimage keeps exactly the symmetries with that image.
  The contract is met by \<open>pperm_plain\<close> when all permutations are symmetries
  (\<^verbatim>\<open>MinCheck_Plain\<close>) and by \<open>pperm_bit\<close> for a diagonal with consecutive cycles
  (\<^verbatim>\<open>MinCheck_Bit\<close>).
\<close>

section \<open>The symmetries a state stands for\<close>

definition live :: "flags \<Rightarrow> nat \<Rightarrow> (nat \<Rightarrow> nat) \<Rightarrow> pperm \<Rightarrow> (nat \<Rightarrow> nat) set" where
  "live fl n t p = pp_perms n p \<inter> syms n (diag_of fl t)"

definition fixed_upto :: "nat \<Rightarrow> nat \<Rightarrow> pperm \<Rightarrow> bool" where
  "fixed_upto n r p \<longleftrightarrow> (\<forall>i<r. pp_fixed n p i)"

definition keeps_fixed :: "nat \<Rightarrow> pperm \<Rightarrow> pperm \<Rightarrow> bool" where
  "keeps_fixed n p q \<longleftrightarrow> (\<forall>i<n. pp_fixed n p i \<longrightarrow> pp_fixed n q i)"

lemma keeps_fixedD: "keeps_fixed n p q \<Longrightarrow> fixed_upto n r p \<Longrightarrow> r \<le> n \<Longrightarrow> fixed_upto n r q"
  by (auto simp: keeps_fixed_def fixed_upto_def)

lemma keeps_fixed_refl [simp]: "keeps_fixed n p p"
  by (simp add: keeps_fixed_def)

lemma keeps_fixed_trans: "keeps_fixed n p q \<Longrightarrow> keeps_fixed n q q' \<Longrightarrow> keeps_fixed n p q'"
  by (simp add: keeps_fixed_def)

lemma fixed_upto_Suc: "fixed_upto n (Suc r) p \<longleftrightarrow> fixed_upto n r p \<and> pp_fixed n p r"
  by (auto simp: fixed_upto_def less_Suc_eq)

lemma fixed_options_length:
  assumes "pp_wf n p" "i < n" "pp_fixed n p i"
  shows "length (pp_options n p i) = 1"
proof (cases p)
  case (Plain q)
  have "pl_part q ! i" "i = n - 1 \<or> pl_part q ! (i + 1)"
    using assms Plain by (auto simp: plain_fixed_def split: if_splits)
  moreover have "last_upto (\<lambda>k. pl_part q ! k) i = i" using calculation(1) by (cases i) (simp_all add: last_upto_def)
  ultimately show ?thesis using Plain by (simp add: plain_options_def plain_block_def Let_def)
next
  case (Bit q)
  obtain x where "set (bd2_options n q i) = {x}" using assms Bit pp.fixed_iff[of n p i] by auto
  moreover have "distinct (bd2_options n q i)" by (simp add: bd2_options_def slot_options_def)
  ultimately have "card {x} = length (bd2_options n q i)" using distinct_card by metis
  then show ?thesis using Bit by simp
qed

text \<open>What is left to check at row \<open>r\<close>: all cells before it agree, for every symmetry left.\<close>

definition passed :: "flags \<Rightarrow> nat \<Rightarrow> (nat \<Rightarrow> nat) \<Rightarrow> cyc \<Rightarrow> pperm \<Rightarrow> nat \<Rightarrow> bool" where
  "passed fl n t C p r \<longleftrightarrow> (\<forall>s\<in>live fl n t p. \<forall>c<r. free_cell fl 0 c \<longrightarrow> cell_le n C s 0 c)"

lemma passed_mono: "passed fl n t C p r \<Longrightarrow> live fl n t q \<subseteq> live fl n t p \<Longrightarrow> passed fl n t C q r"
  by (auto simp: passed_def)

lemma passed_earlier: "passed fl n t C p r \<Longrightarrow> s \<in> live fl n t p \<Longrightarrow> earlier_le fl n C s 0 r"
  by (auto simp: passed_def earlier_le_def before_def)

text \<open>The table and the literals of a check.\<close>

definition check_ok :: "flags \<Rightarrow> nat \<Rightarrow> (nat \<Rightarrow> nat) \<Rightarrow> mincheck \<Rightarrow> bool" where
  "check_ok fl n t M \<longleftrightarrow> cyc_ok fl n t (mc_cyc M) \<and> (fl_smaller fl \<longrightarrow> fl_diag fl) \<and> lits_live fl n t (mc_lits M) \<and> \<not> fl_old fl"

text \<open>Every clause that is thrown holds in all canonical tables.\<close>

definition throws_sound :: "flags \<Rightarrow> nat \<Rightarrow> (nat \<Rightarrow> nat) \<Rightarrow> lits3 \<Rightarrow> 'a res \<Rightarrow> bool" where
  "throws_sound fl n t L res \<longleftrightarrow> (\<forall>cls. res = Inl (SymBreak cls) \<longrightarrow> clause_sound fl n t L cls)"

lemma throws_soundI:
  "res = Inr () \<or> (\<exists>cls. res = Inl (SymBreak cls) \<and> clause_sound fl n t L cls) \<Longrightarrow> throws_sound fl n t L res"
  by (auto simp: throws_sound_def)

lemma throws_sound_simps [simp]:
  "throws_sound fl n t L (Inr x)" "throws_sound fl n t L (Inl UB)" "throws_sound fl n t L (Inl LimitReached)"
  by (simp_all add: throws_sound_def)

lemma throws_sound_bind:
  "throws_sound fl n t L res \<Longrightarrow> (\<And>x. res = Inr x \<Longrightarrow> throws_sound fl n t L (f x)) \<Longrightarrow> throws_sound fl n t L (bindE res f)"
  by (cases res) (auto simp: throws_sound_def)

section \<open>Completing a partial permutation\<close>

text \<open>
  The loop of \<open>extendPerm\<close> fixes every open row, when fixing the first open row to any of its
  images works and loses no row.
\<close>

lemma extend_loop:
  assumes wf: "\<And>q. R q \<Longrightarrow> pp_wf n q" and ne: "\<And>q i. R q \<Longrightarrow> i < n \<Longrightarrow> pp_options n q i \<noteq> []"
    and step: "\<And>q i j. R q \<Longrightarrow> i < n \<Longrightarrow> fixed_upto n i q \<Longrightarrow> \<not> pp_fixed n q i \<Longrightarrow> j \<in> set (pp_options n q i) \<Longrightarrow>
      \<exists>q'. fixAndPropagate n M q i j = Inr (True, q') \<and> R q' \<and> keeps_fixed n q q' \<and> pp_fixed n q' i \<and> live fl n t q' \<subseteq> live fl n t q"
    and p: "R p" "\<not> (\<not> fl_bit fl \<or> pp_fullDefined n p)"
  shows "\<exists>q. extendPerm fl n M p = Inr q \<and> R q \<and> keeps_fixed n p q \<and> live fl n t q \<subseteq> live fl n t p \<and> fixed_upto n n q"
proof -
  have "\<exists>q. foldE (extend_step n M) [0..<m] p = Inr q \<and> R q \<and> keeps_fixed n p q \<and>
      live fl n t q \<subseteq> live fl n t p \<and> fixed_upto n m q" if "m \<le> n" for m
    using that
  proof (induction m)
    case 0
    then show ?case using p(1) by (simp add: fixed_upto_def)
  next
    case (Suc m)
    then obtain q where q: "foldE (extend_step n M) [0..<m] p = Inr q" "R q" "keeps_fixed n p q"
      "live fl n t q \<subseteq> live fl n t p" "fixed_upto n m q" by auto
    have m: "m < n" using Suc.prems by simp
    show ?case
    proof (cases "pp_fixed n q m")
      case True
      then have "pp_permOf n q m \<noteq> -1" using pp.perm_of_fixed[OF wf[OF q(2)] m] by auto
      then have "foldE (extend_step n M) [0..<Suc m] p = Inr q" using q(1) by (simp add: foldE_append) (simp add: extend_step_def)
      then show ?thesis using q True by (intro exI[of _ q]) (simp add: fixed_upto_Suc)
    next
      case False
      have d: "pp_permOf n q m = -1" by (rule pp.perm_of_free[OF wf[OF q(2)] m False])
      obtain j js where o: "pp_options n q m = j # js" using ne[OF q(2) m] by (cases "pp_options n q m") auto
      have "j \<in> set (pp_options n q m)" using o by simp
      from step[OF q(2) m q(5) False this] obtain q' where q': "fixAndPropagate n M q m j = Inr (True, q')" "R q'"
        "keeps_fixed n q q'" "pp_fixed n q' m" "live fl n t q' \<subseteq> live fl n t q" by blast
      have "foldE (extend_step n M) [0..<Suc m] p = Inr q'"
        using q(1) d o q'(1) by (simp add: foldE_append) (simp add: extend_step_def)
      moreover have "fixed_upto n (Suc m) q'" using keeps_fixedD[OF q'(3) q(5)] m q'(4) by (simp add: fixed_upto_Suc)
      ultimately show ?thesis using q'(2,5) q(4) keeps_fixed_trans[OF q(3) q'(3)] by blast
    qed
  qed
  from this[of n] show ?thesis using p(2) by (auto simp: extendPerm_def)
qed

section \<open>The contract\<close>

locale symmetry_search =
  fixes fl :: flags and n :: nat and M :: mincheck and t :: "nat \<Rightarrow> nat" and ready :: "pperm \<Rightarrow> bool"
  assumes ready_wf: "ready p \<Longrightarrow> pp_wf n p"
    and fix_open: "ready p \<Longrightarrow> r < n \<Longrightarrow> fixed_upto n r p \<Longrightarrow> \<not> pp_fixed n p r \<Longrightarrow> j \<in> set (pp_options n p r) \<Longrightarrow>
      \<exists>ok q. fixAndPropagate n M p r j = Inr (ok, q) \<and>
        (if ok then ready q \<and> keeps_fixed n p q \<and> pp_fixed n q r \<and> live fl n t q = {s \<in> live fl n t p. s r = j}
         else {s \<in> live fl n t p. s r = j} = {})"
    and fix_least: "ready p \<Longrightarrow> v < n \<Longrightarrow> pp_invPermOf n p v = -1 \<Longrightarrow> i = Min (set (pp_invOptions n p v)) \<Longrightarrow>
      \<exists>ok q. fixAndPropagate n M p i v = Inr (ok, q) \<and>
        ready q \<and> keeps_fixed n p q \<and> live fl n t q = {s \<in> live fl n t p. s i = v}"
    and extend: "ready p \<Longrightarrow> \<exists>q. extendPerm fl n M p = Inr q \<and> ready q \<and> keeps_fixed n p q \<and> live fl n t q \<subseteq> live fl n t p \<and>
      perm_vec n (pp_getPerm n q) \<and> vec_perm (pp_getPerm n q) \<in> live fl n t q"
    and diag_known: "ready p \<Longrightarrow> fl_diag fl \<Longrightarrow> i < n \<Longrightarrow> pp_fixed n p i \<Longrightarrow> t i < n \<Longrightarrow>
      pp_invPermOf n p (t (nat (pp_permOf n p i))) \<noteq> -1"
begin

abbreviation left :: "pperm \<Rightarrow> (nat \<Rightarrow> nat) set" where
  "left \<equiv> live fl n t"

lemma left_repr: "s \<in> left p \<Longrightarrow> s \<in> pp.repr n p"
  by (simp add: live_def pp_perms_repr)

lemma left_perm: "s \<in> left p \<Longrightarrow> perm_on n s"
  using syms_perm by (auto simp: live_def)

lemma left_syms: "s \<in> left p \<Longrightarrow> s \<in> syms n (diag_of fl t)"
  by (simp add: live_def)

lemma left_member: "ready p \<Longrightarrow> \<exists>s. s \<in> left p"
  using extend by blast

text \<open>The image of a fixed row.\<close>

lemma left_fixed:
  assumes "ready p" "i < n" "pp_fixed n p i" "s \<in> left p"
  shows "pp_permOf n p i = int (s i)"
  using pp.perm_of_fixed[OF ready_wf[OF assms(1)] assms(2,3)] pp.reprD(2)[OF left_repr[OF assms(4)] assms(2)] by auto

lemma left_inv_known:
  assumes "ready p" "v < n" "pp_invPermOf n p v \<noteq> -1" "s \<in> left p"
  shows "pp_invPermOf n p v = int (pinv n s v)"
  using pp.inv_perm_of_repr[OF ready_wf[OF assms(1)] assms(2,3) left_repr[OF assms(4)]]
    pp.inv_perm_of_some[OF ready_wf[OF assms(1)] assms(2,3)] by simp

lemma left_inv_option:
  assumes "ready p" "v < n" "s \<in> left p"
  shows "pinv n s v \<in> set (pp_invOptions n p v)"
  by (rule pp.inv_options_repr[OF ready_wf[OF assms(1)] assms(2) left_repr[OF assms(3)]])

lemma inv_options_ne: "ready p \<Longrightarrow> v < n \<Longrightarrow> pp_invOptions n p v \<noteq> []"
  using left_member[of p] left_inv_option[of p v] by fastforce

lemma Min_inv_option:
  assumes "ready p" "v < n" "s \<in> left p"
  shows "Min (set (pp_invOptions n p v)) \<le> pinv n s v" "Min (set (pp_invOptions n p v)) < n"
    "v \<in> set (pp_options n p (Min (set (pp_invOptions n p v))))"
proof -
  let ?I = "set (pp_invOptions n p v)"
  have ne: "?I \<noteq> {}" using inv_options_ne[OF assms(1,2)] by simp
  have "Min ?I \<in> ?I" using Min_in[OF finite_set ne] .
  then show "Min ?I < n" "v \<in> set (pp_options n p (Min ?I))"
    using pp.inv_options_iff[OF ready_wf[OF assms(1)] assms(2)] by simp_all
  show "Min ?I \<le> pinv n s v" using left_inv_option[OF assms] by simp
qed

section \<open>Learning\<close>

lemma learn_run:
  assumes "ready p"
  obtains q where "learn fl n M r p = (addClauses fl n (mc_cyc M) (mc_lits M) (pp_getPerm n q) 0 r, q)"
    "ready q" "keeps_fixed n p q" "left q \<subseteq> left p" "perm_vec n (pp_getPerm n q)" "vec_perm (pp_getPerm n q) \<in> left q"
  using extend[OF assms] by (auto simp: learn_def)

lemma learn_sound:
  assumes C: "check_ok fl n t M" and p: "ready p" and r: "r < n" "free_cell fl 0 r" and pa: "passed fl n t (mc_cyc M) p r"
    and run: "learn fl n M r p = (res, q)"
  shows "throws_sound fl n t (mc_lits M) res" "ready q" "keeps_fixed n p q" "left q \<subseteq> left p"
proof -
  obtain q' where q: "learn fl n M r p = (addClauses fl n (mc_cyc M) (mc_lits M) (pp_getPerm n q') 0 r, q')"
    "ready q'" "keeps_fixed n p q'" "left q' \<subseteq> left p" "perm_vec n (pp_getPerm n q')" "vec_perm (pp_getPerm n q') \<in> left q'"
    using learn_run[OF p] by metis
  show "ready q" "keeps_fixed n p q" "left q \<subseteq> left p" using q run by simp_all
  have e: "earlier_le fl n (mc_cyc M) (vec_perm (pp_getPerm n q')) 0 r"
    using passed_earlier[OF pa] q(4,6) by blast
  have "addClauses fl n (mc_cyc M) (mc_lits M) (pp_getPerm n q') 0 r = Inr () \<or>
    (\<exists>cls. addClauses fl n (mc_cyc M) (mc_lits M) (pp_getPerm n q') 0 r = Inl (SymBreak cls) \<and> clause_sound fl n t (mc_lits M) cls)"
    using short_result[OF _ _ _ q(5) left_syms[OF q(6)] _ r e, of "mc_lits M"] C r(1) by (simp add: check_ok_def addClauses_def)
  then show "throws_sound fl n t (mc_lits M) res" using q(1) run by (auto intro: throws_soundI)
qed

lemma learn_v_sound:
  assumes C: "check_ok fl n t M" and p: "ready p" and r: "r < n" "free_cell fl 0 r" and pa: "passed fl n t (mc_cyc M) p r"
  shows "throws_sound fl n t (mc_lits M) (fst (learn_v fl n M r v p))"
    and "fst (learn_v fl n M r v p) = Inr w \<Longrightarrow> w = v"
proof -
  obtain res q where "learn fl n M r p = (res, q)" by fastforce
  then show "throws_sound fl n t (mc_lits M) (fst (learn_v fl n M r v p))"
    "fst (learn_v fl n M r v p) = Inr w \<Longrightarrow> w = v"
    using learn_sound[OF C p r pa] by (cases res; auto simp: learn_v_def throws_sound_def)+
qed

lemma full_member:
  assumes "ready q" "pp_fullDefined n q"
  shows "perm_vec n (pp_getPerm n q)" "vec_perm (pp_getPerm n q) \<in> left q"
  using extend[OF assms(1)] assms(2) by (auto simp: extendPerm_def)

lemma full_check_sound:
  assumes C: "check_ok fl n t M" and q: "ready q" "pp_fullDefined n q" "passed fl n t (mc_cyc M) q r" "r < n"
  shows "throws_sound fl n t (mc_lits M) (permFullyDefinedCheck fl n (mc_cyc M) (mc_lits M) (pp_getPerm n q) 0 r)"
proof -
  note m = full_member[OF q(1,2)]
  have n: "0 < n" "0 * n + r < n * n" using q(4) by (auto intro: less_le_trans[of r n])
  have e: "earlier_le fl n (mc_cyc M) (vec_perm (pp_getPerm n q)) ((0 * n + r) div n) ((0 * n + r) mod n)"
    using passed_earlier[OF q(3) m(2)] q(4) by simp
  show ?thesis
    using full_cells_sound[OF _ _ _ m(1) left_syms[OF m(2)] _ n(2) e] C perm_check_run[OF m(1) n(1) q(4)]
    by (auto simp: check_ok_def intro!: throws_soundI)
qed

section \<open>The cell of one row\<close>

definition kept :: "pperm \<Rightarrow> pperm \<Rightarrow> nat \<Rightarrow> bool" where
  "kept p q r \<longleftrightarrow> ready q \<and> keeps_fixed n p q \<and> left q \<subseteq> left p \<and> passed fl n t (mc_cyc M) q (Suc r)"

text \<open>Rows 0 and \<open>r\<close> are fixed, so the cell compared with \<open>(0, r)\<close> is the same for all symmetries.\<close>

lemma row_images:
  assumes "ready p" "fixed_upto n (Suc r) p" "r < n" "s \<in> left p" "s' \<in> left p"
  shows "s' 0 = s 0" "s' r = s r" "s 0 < n" "s r < n" "pp_permOf n p 0 = int (s 0)" "pp_permOf n p r = int (s r)"
proof -
  have f: "pp_fixed n p 0" "pp_fixed n p r" using assms(2) by (auto simp: fixed_upto_def)
  note L = left_fixed[OF assms(1) _ f(1)] left_fixed[OF assms(1,3) f(2)]
  show "pp_permOf n p 0 = int (s 0)" "pp_permOf n p r = int (s r)" using L assms(3,4) by auto
  show "s' 0 = s 0" "s' r = s r" using L[of s] L[of s'] assms(3-5) by auto
  show "s 0 < n" "s r < n" using perm_on_less[OF left_perm[OF assms(4)]] assms(3) by auto
qed

lemma passed_Suc:
  "passed fl n t C p (Suc r) \<longleftrightarrow> passed fl n t C p r \<and> (\<forall>s\<in>left p. free_cell fl 0 r \<longrightarrow> cell_le n C s 0 r)"
  by (auto simp: passed_def less_Suc_eq)

lemma keptI:
  assumes "ready q" "keeps_fixed n p q" "left q \<subseteq> left p" "passed fl n t (mc_cyc M) p r"
    and "\<And>s. s \<in> left q \<Longrightarrow> free_cell fl 0 r \<Longrightarrow> cell_le n (mc_cyc M) s 0 r"
  shows "kept p q r"
  using assms passed_mono[OF assms(4,3)] by (auto simp: kept_def passed_Suc)

lemma single_cell_le:
  assumes "finite V" "card V = 1" "bd_vals (dom_at C 0 r) = V" "bd_vals (dom_at C (s 0) (s r)) = {v}" "pinv n s v = Min V"
  shows "cell_le n C s 0 r"
proof -
  obtain x where "V = {x}" using assms(2) by (auto simp: card_1_singleton_iff)
  then show ?thesis using assms by (auto simp: cell_le_def)
qed

text \<open>On the diagonal the preimage is known and agrees, so nothing is learned there.\<close>

lemma diag_cell:
  assumes C: "check_ok fl n t M" and p: "ready p" "fixed_upto n (Suc r) p" "r < n" and nf: "\<not> free_cell fl 0 r"
    and s: "s \<in> left p" and v: "bd_vals (dom_at (mc_cyc M) (s 0) (s r)) = {v}"
  shows "pp_invPermOf n p v = int (Min (bd_vals (dom_at (mc_cyc M) 0 r)))" "card (bd_vals (dom_at (mc_cyc M) 0 r)) = 1"
proof -
  have ck: "cyc_ok fl n t (mc_cyc M)" using C by (simp add: check_ok_def)
  have d: "fl_diag fl" "r = 0" using nf by (auto simp: free_cell_def)
  have n0: "0 < n" using p(3) by simp
  have sp: "perm_on n s" by (rule left_perm[OF s])
  have T: "t x < n \<and> bd_vals (dom_at (mc_cyc M) x x) = {t x}" if "x < n" for x
    using ck d(1) that by (force simp: cyc_ok_def)
  have s0: "s 0 < n" using perm_on_less[OF sp n0] .
  have v': "v = t (s 0)" using T[OF s0] v d(2) by simp
  have f: "pp_fixed n p 0" using p(2) by (simp add: fixed_upto_def)
  have "pp_invPermOf n p v \<noteq> -1"
    using diag_known[OF p(1) d(1) n0 f] T[OF n0] T[OF s0] left_fixed[OF p(1) n0 f s] v' diag_known[OF p(1) d(1) n0 f] by simp
  then have "pp_invPermOf n p v = int (pinv n s v)" using left_inv_known[OF p(1) _ _ s] T[OF s0] v' by simp
  moreover have "pinv n s v = t 0"
    using left_syms[OF s] d(1) n0 T[OF n0] v' by (intro pinv_eq[OF sp]) (auto simp: syms_def diag_of_def)
  ultimately show "pp_invPermOf n p v = int (Min (bd_vals (dom_at (mc_cyc M) 0 r)))" using T[OF n0] d(2) by simp
  show "card (bd_vals (dom_at (mc_cyc M) 0 r)) = 1" using T[OF n0] d(2) by simp
qed

section \<open>One value for the permuted cell\<close>

text \<open>What one image leads to: a sound clause, or a verdict; a kept state has passed the row.\<close>

definition sound_step :: "pperm \<Rightarrow> nat \<Rightarrow> verdict res \<times> pperm \<Rightarrow> bool" where
  "sound_step p r x \<longleftrightarrow> throws_sound fl n t (mc_lits M) (fst x) \<and>
     (\<forall>v. fst x = Inr v \<longrightarrow> keeps v Same \<noteq> [] \<longrightarrow> kept p (snd x) r)"

lemma sound_step_drop: "\<not> (keeps v Same \<noteq> []) \<Longrightarrow> sound_step p r (Inr v, q)"
  by (simp add: sound_step_def)

lemma sound_step_keep: "kept p q r \<Longrightarrow> sound_step p r (Inr v, q)"
  by (simp add: sound_step_def)

lemma sound_step_learn:
  assumes C: "check_ok fl n t M" and q: "ready q" and r: "r < n" "free_cell fl 0 r" and pa: "passed fl n t (mc_cyc M) q r"
    and v: "keeps v Same = []"
  shows "sound_step p r (learn_v fl n M r v q)"
  using learn_v_sound[OF C q r pa] v by (auto simp: sound_step_def)

lemma sound_step_least:
  assumes p: "ready p" "w < n" "pp_invPermOf n p w = -1" and i: "i = Min (set (pp_invOptions n p w))"
    and k: "\<And>q. ready q \<Longrightarrow> keeps_fixed n p q \<Longrightarrow> left q = {s \<in> left p. s i = w} \<Longrightarrow> sound_step p r (k q)"
  shows "sound_step p r (fix_then n M p i (int w) k)"
proof -
  obtain ok q where q: "fixAndPropagate n M p i w = Inr (ok, q)" "ready q" "keeps_fixed n p q"
    "left q = {s \<in> left p. s i = w}" using fix_least[OF p i] by blast
  then show ?thesis using k[OF q(2-4)] p(2) by (simp add: fix_then_def)
qed

lemma filter_single_sound:
  assumes C: "check_ok fl n t M" and p: "ready p" "fixed_upto n (Suc r) p" "r < n" and pa: "passed fl n t (mc_cyc M) p r"
    and s0: "s0 \<in> left p" and w: "bd_vals (dom_at (mc_cyc M) (s0 0) (s0 r)) = {w}"
  defines "V \<equiv> bd_vals (dom_at (mc_cyc M) 0 r)"
  shows "sound_step p r (filter_single fl n M r (int (Min V)) (card V = 1) w p)"
proof -
  have ck: "cyc_ok fl n t (mc_cyc M)" using C by (simp add: check_ok_def)
  note im = row_images[OF p s0]
  have wn: "w < n" using cyc_okD(1)[OF ck im(3,4)[OF s0]] w bd_vals_bound by blast
  have fin: "finite V" using bd_vals_bound[OF cyc_okD(1)[OF ck _ p(3)]] p(3) finite_subset by (auto simp: V_def)
  have W: "bd_vals (dom_at (mc_cyc M) (s 0) (s r)) = {w}" if "s \<in> left p" for s
    using im(1,2)[OF that] w by simp
  have le: "cell_le n (mc_cyc M) s 0 r" if "s \<in> left p" "card V = 1" "pinv n s w = Min V" for s
    by (rule single_cell_le[OF fin that(2) _ W[OF that(1)] that(3)]) (simp add: V_def)
  show ?thesis
  proof (cases "pp_invPermOf n p w = -1")
    case False
    note iv = left_inv_known[OF p(1) wn False]
    show ?thesis
    proof (cases "card V = 1 \<and> pp_invPermOf n p w = int (Min V)")
      case True
      have "kept p p r" using le iv True by (intro keptI[OF p(1) _ _ pa]) auto
      then show ?thesis using True False by (simp add: filter_single_def sound_step_keep)
    next
      case nk: False
      have fr: "free_cell fl 0 r" using diag_cell[OF C p _ s0 w] nk by (auto simp: V_def)
      show ?thesis using False nk sound_step_learn[OF C p(1,3) fr pa] by (auto simp: filter_single_def Let_def sound_step_drop)
    qed
  next
    case True
    have fr: "free_cell fl 0 r" using diag_cell(1)[OF C p _ s0 w] True by fastforce
    let ?i = "Min (set (pp_invOptions n p w))"
    note least = sound_step_least[OF p(1) wn True refl]
    have A: "sound_step p r (fix_then n M p ?i (int w) (learn_v fl n M r Drop))"
    proof (rule least)
      fix q assume q: "ready q" "left q = {s \<in> left p. s ?i = w}"
      have "passed fl n t (mc_cyc M) q r" using q(2) by (intro passed_mono[OF pa]) simp
      then show "sound_step p r (learn_v fl n M r Drop q)" using sound_step_learn[OF C q(1) p(3) fr] by simp
    qed
    have B: "sound_step p r (fix_then n M p ?i (int w) (\<lambda>q. (Inr Keep, q)))" if b: "card V = 1" "?i = Min V"
    proof (rule least)
      fix q assume q: "ready q" "keeps_fixed n p q" "left q = {s \<in> left p. s ?i = w}"
      have "pinv n s w = Min V" if "s \<in> left q" for s
      proof -
        have s: "s \<in> left p" "s ?i = w" using that q(3) by simp_all
        show ?thesis using pinv_eq[OF left_perm[OF s(1)] Min_inv_option(2)[OF p(1) wn s0] s(2)] b(2) by simp
      qed
      then have "kept p q r" using le b(1) q by (intro keptI[OF q(1,2) _ pa]) auto
      then show "sound_step p r (Inr Keep, q)" by (rule sound_step_keep)
    qed
    show ?thesis using inv_options_ne[OF p(1) wn] True A B
      by (auto simp: filter_single_def Let_def sound_step_drop)
  qed
qed

end

section \<open>Several values for the permuted cell\<close>

text \<open>
  On a partial table the search also fixes the largest preimage; the contract is the weaker
  statement that the symmetries left only get fewer, and, when the state is kept afterwards
  (without \<open>propagate\<close>), that they have the image.
\<close>

locale partial_search = symmetry_search +
  assumes fix_any: "ready p \<Longrightarrow> i < n \<Longrightarrow> j < n \<Longrightarrow> j \<in> set (pp_options n p i) \<or> pp_fixed n p i \<Longrightarrow>
    fixAndPropagate n M p i j = Inr (ok, q) \<Longrightarrow>
    ready q \<and> keeps_fixed n p q \<and> live fl n t q \<subseteq> live fl n t p \<and>
      (\<not> fl_prop fl \<longrightarrow> j \<in> set (pp_options n p i) \<longrightarrow> (\<forall>s\<in>live fl n t q. s i = j))"
    and single_fixed: "ready p \<Longrightarrow> v < n \<Longrightarrow> pp_invOptions n p v = [i] \<Longrightarrow> pp_fixed n p i"
begin

lemma fix_then_cases:
  assumes p: "ready p" "i < n" "0 \<le> j \<longrightarrow> j < int n \<longrightarrow> nat j \<in> set (pp_options n p i) \<or> pp_fixed n p i"
  obtains e where "fix_then n M p i j k = (Inl e, p)" "\<And>cls. e \<noteq> SymBreak cls"
  | q where "fix_then n M p i j k = k q" "ready q" "keeps_fixed n p q" "left q \<subseteq> left p" "0 \<le> j" "nat j < n"
      "\<not> fl_prop fl \<longrightarrow> nat j \<in> set (pp_options n p i) \<longrightarrow> (\<forall>s\<in>left q. s i = nat j)"
proof (cases "j < 0 \<or> int n \<le> j")
  case True
  then show thesis using that(1)[of UB] by (simp add: fix_then_def)
next
  case False
  have nb: "fixAndPropagate n M p i (nat j) \<noteq> Inl (SymBreak cls)" for cls
    by (auto simp: fixAndPropagate_def propagateDecision_def cp_cycle_def bindE_def Let_def split: prod.splits sum.splits if_splits)
  show thesis
  proof (cases "fixAndPropagate n M p i (nat j)")
    case (Inl e)
    then show ?thesis using that(1)[of e] nb False by (simp add: fix_then_def)
  next
    case (Inr x)
    obtain ok q where x: "x = (ok, q)" by fastforce
    have "nat j < n" using False by linarith
    from fix_any[OF p(1,2) this _ Inr[unfolded x]] show ?thesis
      using that(2)[of q] p(3) False Inr x \<open>nat j < n\<close> by (simp add: fix_then_def)
  qed
qed

lemma self_mapped_left:
  assumes "ready p" "fixed_upto n (Suc r) p" "r < n" "s \<in> left p"
  shows "self_mapped n r p \<longleftrightarrow> s 0 = 0 \<and> s r = r"
  using row_images(5,6)[OF assms assms(4)] by (auto simp: self_mapped_def)

lemma filter_loop_self:
  assumes C: "check_ok fl n t M" and r: "r < n" "free_cell fl 0 r"
  shows "ready p \<Longrightarrow> fixed_upto n (Suc r) p \<Longrightarrow> passed fl n t (mc_cyc M) p r \<Longrightarrow> self_mapped n r p \<Longrightarrow> set pvs \<subseteq> {..<n} \<Longrightarrow>
    throws_sound fl n t (mc_lits M) (fst (filter_loop fl n M r pvs p st)) \<and>
    (\<forall>x. fst (filter_loop fl n M r pvs p st) = Inr x \<longrightarrow> self_mapped n r (snd (filter_loop fl n M r pvs p st)))"
proof (induction pvs arbitrary: p st)
  case (Cons v pvs)
  note p = Cons.prems(1-4)
  have v: "v < n" using Cons.prems(5) by simp
  obtain maxel maxi defined where st: "st = (maxel, maxi, defined)" by (cases st)
  let ?I = "set (pp_invOptions n p v)"
  obtain s0 where s0: "s0 \<in> left p" using left_member[OF p(1)] by blast
  note mn = Min_inv_option[OF p(1) v s0]
  have stay: "ready q \<Longrightarrow> keeps_fixed n p q \<Longrightarrow> left q \<subseteq> left p \<Longrightarrow>
      fixed_upto n (Suc r) q \<and> passed fl n t (mc_cyc M) q r \<and> self_mapped n r q" for q
  proof -
    assume q: "ready q" "keeps_fixed n p q" "left q \<subseteq> left p"
    have f: "fixed_upto n (Suc r) q" using keeps_fixedD[OF q(2) p(2)] r by simp
    obtain s where s: "s \<in> left q" using left_member[OF q(1)] by blast
    then show ?thesis
      using f passed_mono[OF p(3) q(3)] self_mapped_left[OF q(1) f r(1) s] self_mapped_left[OF p(1,2) r(1), of s] p(4) q(3) by auto
  qed
  let ?k = "if length (pp_invOptions n p v) = 1 then learn fl n M r p else fix_then n M p (Min ?I) (int v) (learn fl n M r)"
  have K: "throws_sound fl n t (mc_lits M) (fst ?k) \<and> (fst ?k = Inr () \<longrightarrow>
      ready (snd ?k) \<and> fixed_upto n (Suc r) (snd ?k) \<and> passed fl n t (mc_cyc M) (snd ?k) r \<and> self_mapped n r (snd ?k))"
  proof -
    have L: "throws_sound fl n t (mc_lits M) (fst (learn fl n M r q)) \<and>
        ready (snd (learn fl n M r q)) \<and> keeps_fixed n p (snd (learn fl n M r q)) \<and> left (snd (learn fl n M r q)) \<subseteq> left p"
      if q: "ready q" "keeps_fixed n p q" "left q \<subseteq> left p" for q
      using learn_sound[OF C q(1) r passed_mono[OF p(3) q(3)], of "fst (learn fl n M r q)" "snd (learn fl n M r q)"]
        q keeps_fixed_trans[OF q(2)] by auto
    show ?thesis
    proof (cases "length (pp_invOptions n p v) = 1")
      case True
      then show ?thesis using L[OF p(1)] stay by simp
    next
      case False
      show ?thesis
        by (rule fix_then_cases[OF p(1) mn(2), of "int v" "learn fl n M r"])
          (use False L stay mn(3) in \<open>auto simp: throws_sound_def\<close>)
    qed
  qed
  have ne: "pp_invOptions n p v \<noteq> []" by (rule inv_options_ne[OF p(1) v])
  show ?case
  proof (cases "Min ?I < v")
    case False
    then show ?thesis using Cons.IH[OF p] Cons.prems(5) p(4) ne by (simp add: st Let_def)
  next
    case True
    have run: "filter_loop fl n M r (v # pvs) p st =
        (case ?k of (Inl e, q) \<Rightarrow> (Inl e, q) | (Inr _, q) \<Rightarrow> filter_loop fl n M r pvs q st)"
      unfolding st using True p(4) ne by (simp add: Let_def)
    obtain res q where kq: "?k = (res, q)" by fastforce
    show ?thesis
    proof (cases res)
      case (Inl e)
      then show ?thesis using K unfolding run kq by (simp add: throws_sound_def)
    next
      case (Inr u)
      then show ?thesis using K Cons.IH[of q st] Cons.prems(5) unfolding run kq by simp
    qed
  qed
qed (simp add: throws_sound_def)

text \<open>
  The loop when the cell is not mapped to itself: \<open>maxel\<close> bounds all possible preimages and is
  the preimage of a value for every symmetry left, or is possible for the value \<open>maxi\<close>.
\<close>

definition loop_inv :: "pperm \<Rightarrow> nat list \<Rightarrow> int \<times> int \<times> nat \<Rightarrow> bool" where
  "loop_inv p ws st = (case st of (maxel, maxi, defined) \<Rightarrow>
     (\<forall>v\<in>set ws. \<forall>i\<in>set (pp_invOptions n p v). int i \<le> maxel) \<and>
     (ws \<noteq> [] \<longrightarrow> (\<exists>v\<in>set ws. \<exists>m\<in>set (pp_invOptions n p v). maxel = int m \<and>
        (length (pp_invOptions n p v) = 1 \<or> maxi = int v))) \<and>
     (ws = [] \<longrightarrow> maxel = -1) \<and> defined \<le> length ws \<and>
     (defined = length ws \<longrightarrow> (\<forall>v\<in>set ws. length (pp_invOptions n p v) = 1)))"

lemma loop_inv_step:
  assumes I: "loop_inv p ws (maxel, maxi, defined)" and ne: "pp_invOptions n p v \<noteq> []"
  shows "length (pp_invOptions n p v) = 1 \<Longrightarrow> loop_inv p (ws @ [v]) (max maxel (int (hd (pp_invOptions n p v))), maxi, Suc defined)"
    and "length (pp_invOptions n p v) \<noteq> 1 \<Longrightarrow> maxel < int (Max (set (pp_invOptions n p v))) \<Longrightarrow>
      loop_inv p (ws @ [v]) (int (Max (set (pp_invOptions n p v))), int v, defined)"
    and "length (pp_invOptions n p v) \<noteq> 1 \<Longrightarrow> \<not> maxel < int (Max (set (pp_invOptions n p v))) \<Longrightarrow>
      loop_inv p (ws @ [v]) (maxel, maxi, defined)"
proof -
  let ?I = "pp_invOptions n p v"
  have fs: "finite (set ?I)" "set ?I \<noteq> {}" using ne by simp_all
  show "loop_inv p (ws @ [v]) (max maxel (int (hd ?I)), maxi, Suc defined)" if l: "length ?I = 1"
  proof -
    obtain x where x: "?I = [x]" using l by (auto simp: length_Suc_conv)
    show ?thesis using I by (cases "ws = []") (auto simp: loop_inv_def x max_def; fastforce)+
  qed
  show "loop_inv p (ws @ [v]) (int (Max (set ?I)), int v, defined)" if "length ?I \<noteq> 1" "maxel < int (Max (set ?I))"
    using I that fs Max_in[OF fs] by (auto simp: loop_inv_def) fastforce+
  show "loop_inv p (ws @ [v]) (maxel, maxi, defined)" if l: "length ?I \<noteq> 1" "\<not> maxel < int (Max (set ?I))"
  proof -
    have "int i \<le> maxel" if "i \<in> set ?I" for i using Max_ge[OF fs(1) that] l(2) by linarith
    moreover from this[OF Max_in[OF fs]] have "ws \<noteq> []" using I by (auto simp: loop_inv_def)
    ultimately show ?thesis using I by (auto simp: loop_inv_def)
  qed
qed

lemma filter_loop_open:
  "ready p \<Longrightarrow> \<not> self_mapped n r p \<Longrightarrow> set pvs \<subseteq> {..<n} \<Longrightarrow> loop_inv p ws st \<Longrightarrow>
    \<exists>st'. filter_loop fl n M r pvs p st = (Inr st', p) \<and> loop_inv p (ws @ pvs) st'"
proof (induction pvs arbitrary: ws st)
  case (Cons v pvs)
  obtain maxel maxi defined where st: "st = (maxel, maxi, defined)" by (cases st)
  have ne: "pp_invOptions n p v \<noteq> []" using inv_options_ne Cons.prems by simp
  note S = loop_inv_step[OF Cons.prems(4)[unfolded st] ne]
  have IH: "loop_inv p (ws @ [v]) st' \<Longrightarrow> \<exists>st''. filter_loop fl n M r pvs p st' = (Inr st'', p) \<and> loop_inv p (ws @ v # pvs) st''" for st'
    using Cons.IH[of "ws @ [v]" st'] Cons.prems by simp
  show ?case
    unfolding st using Cons.prems(2) ne IH[OF S(1)] IH[OF S(2)] IH[OF S(3)] by (simp add: Let_def)
qed simp

lemma max_cell_le:
  assumes p: "ready p" and s: "s \<in> left p" and W: "bd_vals (dom_at C (s 0) (s r)) = W" "W \<subseteq> {..<n}" "finite W" and v: "v \<in> W"
    and le: "\<forall>w\<in>W. \<forall>i\<in>set (pp_invOptions n p w). int i \<le> int (Min (bd_vals (dom_at C 0 r)))"
    and ex: "pinv n s v = Min (bd_vals (dom_at C 0 r))" and nm: "\<not> (s 0 = 0 \<and> s r = r)"
  shows "cell_le n C s 0 r"
proof -
  have "pinv n s w \<le> Min (bd_vals (dom_at C 0 r))" if "w \<in> W" for w
    using le that left_inv_option[OF p _ s, of w] W(2) by fastforce
  then have "Max (pinv n s ` W) = Min (bd_vals (dom_at C 0 r))"
    using W(3) imageI[OF v, of "pinv n s"] ex by (intro Max_eqI) auto
  then show ?thesis using nm W(1) by (auto simp: cell_le_def)
qed

lemma filter_many_sound:
  assumes C: "check_ok fl n t M" and p: "ready p" "fixed_upto n (Suc r) p" "r < n" and pa: "passed fl n t (mc_cyc M) p r"
    and s0: "s0 \<in> left p" and d: "d = dom_at (mc_cyc M) (s0 0) (s0 r)" and nd: "card (bd_vals d) \<noteq> 1"
  shows "sound_step p r (filter_many fl n M r (int (Min (bd_vals (dom_at (mc_cyc M) 0 r)))) d p)"
proof -
  have ck: "cyc_ok fl n t (mc_cyc M)" using C by (simp add: check_ok_def)
  note im = row_images[OF p s0]
  note W = cyc_okD(1,2)[OF ck im(3,4)[OF s0], folded d]
  let ?W = "bd_vals d" and ?g = "Min (bd_vals (dom_at (mc_cyc M) 0 r))"
  have Wn: "?W \<subseteq> {..<n}" "finite ?W" using bd_vals_bound[OF W(1)] by auto
  have num: "bd_numTrue d = int (card ?W)" using W(1) by (simp add: bd_inv_def)
  have fr: "free_cell fl 0 r"
  proof (rule ccontr)
    assume "\<not> free_cell fl 0 r"
    then have f: "fl_diag fl" "r = 0" by (auto simp: free_cell_def)
    have "?W = {nat (mat_at (mc_cyc M) (s0 0) (s0 0))}"
      using cyc_okD(3,4,5)[OF ck im(3,3)[OF s0]] f d by auto
    then show False using nd by simp
  qed
  have set_o: "set (bd_options d) = ?W" by (rule set_bd_options)
  have ob: "set (bd_options d) \<subseteq> {..<n}" using set_o Wn(1) by simp
  show ?thesis
  proof (cases "self_mapped n r p")
    case True
    obtain res q where run: "filter_loop fl n M r (bd_options d) p (-1, -1, 0) = (res, q)" by fastforce
    note L = filter_loop_self[OF C p(3) fr p(1,2) pa True ob, of "(-1, -1, 0)", unfolded run]
    show ?thesis
    proof (cases res)
      case (Inl e)
      then show ?thesis using L by (auto simp: filter_many_def run sound_step_def throws_sound_def)
    next
      case (Inr x)
      then show ?thesis using L by (cases x) (simp add: filter_many_def run sound_step_drop)
    qed
  next
    case False
    have I0: "loop_inv p [] (-1, -1, 0)" by (simp add: loop_inv_def)
    obtain st where run: "filter_loop fl n M r (bd_options d) p (-1, -1, 0) = (Inr st, p)" "loop_inv p (bd_options d) st"
      using filter_loop_open[OF p(1) False ob I0] by auto
    obtain maxel maxi defined where st: "st = (maxel, maxi, defined)" by (cases st)
    have ne: "bd_options d \<noteq> []" using set_o W(2) by auto
    note I = run(2)[unfolded st loop_inv_def prod.case set_o]
    obtain v m where v: "v \<in> ?W" "m \<in> set (pp_invOptions n p v)" "maxel = int m"
      "length (pp_invOptions n p v) = 1 \<or> maxi = int v" using I ne by blast
    have vn: "v < n" using v(1) Wn(1) by auto
    have m: "m < n" "v \<in> set (pp_options n p m)" using pp.inv_options_iff[OF ready_wf[OF p(1)] vn] v(2) by simp_all
    have le: "\<forall>w\<in>?W. \<forall>i\<in>set (pp_invOptions n p w). int i \<le> maxel" using I by blast
    have single: "pp_invOptions n p v = [m]" if "length (pp_invOptions n p v) = 1"
      using that v(2) by (auto simp: length_Suc_conv)
    have sp: "pinv n s v = m" if "length (pp_invOptions n p v) = 1" "s \<in> left p" for s
      using single[OF that(1)] left_inv_option[OF p(1) vn that(2)] by simp
    have keep: "kept p q r" if "ready q" "keeps_fixed n p q" "left q \<subseteq> left p" "maxel = int ?g"
      "\<And>s. s \<in> left q \<Longrightarrow> pinv n s v = m" for q
    proof (rule keptI[OF that(1-3) pa])
      fix s assume s: "s \<in> left q"
      then have sl: "s \<in> left p" using that(3) by blast
      have g: "m = ?g" using that(4) v(3) by simp
      have "bd_vals (dom_at (mc_cyc M) (s 0) (s r)) = ?W" using im(1,2)[OF sl] d by simp
      then show "cell_le n (mc_cyc M) s 0 r"
        using max_cell_le[OF p(1) sl _ Wn v(1)] le that(4,5) s g False self_mapped_left[OF p sl] by simp
    qed
    have drop: "sound_step p r (learn_v fl n M r Leave q)" if "ready q" "left q \<subseteq> left p" for q
      using sound_step_learn[OF C that(1) p(3) fr passed_mono[OF pa that(2)]] by simp
    have fix_ok: "0 \<le> maxi \<longrightarrow> maxi < int n \<longrightarrow> nat maxi \<in> set (pp_options n p m) \<or> pp_fixed n p m"
      using v(4) m(2) single_fixed[OF p(1) vn] single by auto
    have A: "sound_step p r (fix_then n M p m maxi (learn_v fl n M r Leave))"
      by (rule fix_then_cases[OF p(1) m(1) fix_ok, of "learn_v fl n M r Leave"])
        (auto simp: drop sound_step_def[of _ _ "(Inl _, _)"] throws_sound_def)
    have B: "sound_step p r (fix_then n M p m maxi (\<lambda>q. (Inr KeepLeave, q)))" if b: "maxel = int ?g" "\<not> fl_prop fl"
    proof (rule fix_then_cases[OF p(1) m(1) fix_ok, of "\<lambda>q. (Inr KeepLeave, q)"])
      fix q assume q: "fix_then n M p m maxi (\<lambda>q. (Inr KeepLeave, q)) = (Inr KeepLeave, q)" "ready q" "keeps_fixed n p q" "left q \<subseteq> left p"
        "\<not> fl_prop fl \<longrightarrow> nat maxi \<in> set (pp_options n p m) \<longrightarrow> (\<forall>s\<in>left q. s m = nat maxi)"
      have "pinv n s v = m" if s: "s \<in> left q" for s
      proof (cases "length (pp_invOptions n p v) = 1")
        case True
        then show ?thesis using sp s q(4) by blast
      next
        case False
        then have "s m = v" using q(5) b(2) v(4) m(2) s by auto
        then show ?thesis using pinv_eq[OF left_perm m(1)] s by blast
      qed
      then show ?thesis using keep[OF q(2-4) b(1)] q(1) by (simp add: sound_step_keep)
    qed (auto simp: sound_step_def throws_sound_def)
    have K: "kept p p r" if "maxel = int ?g" "defined = card ?W"
      using keep[OF p(1) _ _ that(1)] sp I that(2) v(1) num card_options[of d] by simp
    show ?thesis
      using drop[OF p(1)] A B K False v(3) num
      by (auto simp: filter_many_def run(1) st sound_step_drop sound_step_keep)
  qed
qed

lemma filter_one_sound:
  assumes C: "check_ok fl n t M" and p: "ready p" "fixed_upto n (Suc r) p" "r < n" and pa: "passed fl n t (mc_cyc M) p r"
  shows "sound_step p r (filter_one fl n M r p)"
proof -
  have ck: "cyc_ok fl n t (mc_cyc M)" using C by (simp add: check_ok_def)
  obtain s0 where s0: "s0 \<in> left p" using left_member[OF p(1)] by blast
  note im = row_images[OF p s0 s0]
  let ?V = "bd_vals (dom_at (mc_cyc M) 0 r)" and ?d = "dom_at (mc_cyc M) (s0 0) (s0 r)"
  have n0: "0 < n" using p(3) by simp
  note V = cyc_okD(1,2)[OF ck n0 p(3)] and W = cyc_okD(1,2)[OF ck im(3,4)]
  have c: "cell (cy_dom (mc_cyc M)) (pp_permOf n p 0) (pp_permOf n p r) = Inr ?d"
    using cyc_okD(7)[OF ck im(3,4)] im(3-6) by simp
  have mo: "bd_firstel (dom_at (mc_cyc M) 0 r) = int (Min ?V)" "bd_numTrue (dom_at (mc_cyc M) 0 r) = int (card ?V)"
    using V by (auto simp: bd_inv_def first_of_def)
  have dw: "bd_numTrue ?d = int (card (bd_vals ?d))" "bd_firstel ?d = int (Min (bd_vals ?d))"
    using W by (auto simp: bd_inv_def first_of_def)
  show ?thesis
  proof (cases "card (bd_vals ?d) = 1")
    case True
    then obtain w where w: "bd_vals ?d = {w}" by (auto simp: card_1_singleton_iff)
    from filter_single_sound[OF C p pa s0 w] show ?thesis using c mo dw w by (simp add: filter_one_def Let_def)
  next
    case False
    from filter_many_sound[OF C p pa s0 refl False] show ?thesis using c mo dw False by (simp add: filter_one_def Let_def)
  qed
qed

section \<open>The images of one row\<close>

text \<open>A state the next row can be started from.\<close>

definition node :: "pperm \<Rightarrow> nat \<Rightarrow> bool" where
  "node p r \<longleftrightarrow> ready p \<and> fixed_upto n r p \<and> passed fl n t (mc_cyc M) p r"

lemma kept_node: "kept p q r \<Longrightarrow> fixed_upto n (Suc r) p \<Longrightarrow> r < n \<Longrightarrow> node q (Suc r)"
  using keeps_fixedD[of n p q "Suc r"] by (simp add: kept_def node_def)

definition entries_ok :: "nat \<Rightarrow> pperm \<Rightarrow> entry list \<Rightarrow> bool" where
  "entries_ok r p xs \<longleftrightarrow> (\<forall>x\<in>set xs. \<exists>q. x = Copy q \<and> node q (Suc r)) \<or> (xs = [Same] \<and> node p (Suc r))"

lemma sound_step_entry:
  assumes "sound_step p r (Inr v, q)" "fixed_upto n (Suc r) p" "r < n" "y \<in> set (keeps v x)"
  shows "y = x \<and> node q (Suc r)"
proof -
  have v: "keeps v Same \<noteq> []" "y = x" using assms(4) by (cases v; simp)+
  then have "kept p q r" using assms(1) unfolding sound_step_def by simp
  then show ?thesis using kept_node[OF _ assms(2,3)] v(2) by simp
qed

lemma filterOptions_copies:
  assumes C: "check_ok fl n t M" and p: "node p r" "r < n" "\<not> pp_fixed n p r"
  shows "set js \<subseteq> set (pp_options n p r) \<Longrightarrow>
    snd (filterOptions fl n M r js p) = p \<and> throws_sound fl n t (mc_lits M) (fst (filterOptions fl n M r js p)) \<and>
    (\<forall>xs. fst (filterOptions fl n M r js p) = Inr xs \<longrightarrow> (\<forall>x\<in>set xs. \<exists>q. x = Copy q \<and> node q (Suc r)))"
proof (induction js)
  case (Cons j js)
  have rp: "ready p" "fixed_upto n r p" "passed fl n t (mc_cyc M) p r" using p(1) by (simp_all add: node_def)
  note IH = Cons.IH[OF subset_trans[OF _ Cons.prems]]
  have j: "j \<in> set (pp_options n p r)" using Cons.prems by simp
  obtain ok q where q: "fixAndPropagate n M p r j = Inr (ok, q)"
    "if ok then ready q \<and> keeps_fixed n p q \<and> pp_fixed n q r \<and> live fl n t q = {s \<in> live fl n t p. s r = j}
     else {s \<in> live fl n t p. s r = j} = {}" using fix_open[OF rp(1) p(2) rp(2) p(3) j] by (elim exE conjE)
  show ?case
  proof (cases ok)
    case False
    then show ?thesis using IH p(3) q(1) by auto
  next
    case True
    then have qq: "ready q" "fixed_upto n (Suc r) q" "left q \<subseteq> left p"
      using q(2) keeps_fixedD[OF _ rp(2)] p(2) by (auto simp: fixed_upto_Suc)
    note S = filter_one_sound[OF C qq(1,2) p(2) passed_mono[OF rp(3) qq(3)]]
    obtain res q' where f: "filter_one fl n M r q = (res, q')" by fastforce
    show ?thesis
    proof (cases res)
      case (Inl e)
      then show ?thesis using S f p(3) q(1) True by (auto simp: sound_step_def throws_sound_def)
    next
      case (Inr v)
      have N: "\<exists>q. x = Copy q \<and> node q (Suc r)" if "x \<in> set (keeps v (Copy q'))" for x
        using sound_step_entry[OF S[unfolded f Inr] qq(2) p(2) that] by blast
      obtain res2 p2 where r2: "filterOptions fl n M r js p = (res2, p2)" by fastforce
      have I: "p2 = p" "throws_sound fl n t (mc_lits M) res2" "\<And>xs. res2 = Inr xs \<Longrightarrow> \<forall>x\<in>set xs. \<exists>q. x = Copy q \<and> node q (Suc r)"
        using IH r2 by auto
      show ?thesis
        using f Inr p(3) q(1) True N r2 I by (cases res2) (auto simp: throws_sound_def)
    qed
  qed
qed simp

lemma filterOptions_sound:
  assumes C: "check_ok fl n t M" and p: "node p r" "r < n" and run: "filterOptions fl n M r (pp_options n p r) p = (res, p')"
  shows "throws_sound fl n t (mc_lits M) res" "res = Inr xs \<Longrightarrow> entries_ok r p' xs" "\<not> pp_fixed n p r \<Longrightarrow> p' = p"
    and "res = Inr xs \<Longrightarrow> \<not> pp_fixed n p r \<Longrightarrow> Same \<notin> set xs"
proof -
  have "throws_sound fl n t (mc_lits M) res \<and> (\<forall>xs. res = Inr xs \<longrightarrow> entries_ok r p' xs) \<and> (\<not> pp_fixed n p r \<longrightarrow> p' = p) \<and>
    (\<forall>xs. res = Inr xs \<longrightarrow> \<not> pp_fixed n p r \<longrightarrow> Same \<notin> set xs)"
  proof (cases "pp_fixed n p r")
    case False
    then show ?thesis using filterOptions_copies[OF C p False subset_refl] run by (auto simp: entries_ok_def)
  next
    case True
    have rp: "ready p" "fixed_upto n (Suc r) p" "passed fl n t (mc_cyc M) p r"
      using p(1) True by (simp_all add: node_def fixed_upto_Suc)
    obtain j where j: "pp_options n p r = [j]"
      using fixed_options_length[OF ready_wf[OF rp(1)] p(2) True] by (auto simp: length_Suc_conv)
    note S = filter_one_sound[OF C rp(1,2) p(2) rp(3)]
    obtain res1 q where f: "filter_one fl n M r p = (res1, q)" by fastforce
    show ?thesis
    proof (cases res1)
      case (Inl e)
      then show ?thesis using S f run True j by (auto simp: sound_step_def throws_sound_def)
    next
      case (Inr v)
      have N: "x = Same \<and> node q (Suc r)" if "x \<in> set (keeps v Same)" for x
        using sound_step_entry[OF S[unfolded f Inr] rp(2) p(2) that] .
      have "keeps v Same = [] \<or> keeps v Same = [Same]" by (cases v) simp_all
      then have "entries_ok r q (keeps v Same)" using N by (auto simp: entries_ok_def)
      moreover have "res = Inr (keeps v Same) \<and> p' = q" using run f Inr True j by (auto split: if_splits)
      ultimately show ?thesis using True by simp
    qed
  qed
  then show "throws_sound fl n t (mc_lits M) res" "res = Inr xs \<Longrightarrow> entries_ok r p' xs" "\<not> pp_fixed n p r \<Longrightarrow> p' = p"
    "res = Inr xs \<Longrightarrow> \<not> pp_fixed n p r \<Longrightarrow> Same \<notin> set xs" by blast+
qed

section \<open>The search throws sound clauses\<close>

lemma checkOptions_sound:
  assumes C: "check_ok fl n t M" and r: "r < n"
    and IH: "\<And>d its p. node p (Suc r) \<Longrightarrow> Suc r < n \<Longrightarrow> throws_sound fl n t (mc_lits M) (fst (checkMinimality fl n M (Suc r) d (its, p)))"
  shows "entries_ok r p xs \<Longrightarrow> throws_sound fl n t (mc_lits M) (fst (checkOptions fl n M r d k xs (its, p))) \<and>
    (Same \<notin> set xs \<longrightarrow> snd (snd (checkOptions fl n M r d k xs (its, p))) = p)"
proof (induction xs arbitrary: its)
  case (Cons x xs)
  define q where "q = (case x of Same \<Rightarrow> p | Copy q \<Rightarrow> q)"
  have q: "node q (Suc r)" using Cons.prems by (cases x) (auto simp: entries_ok_def q_def)
  have tl: "xs = [] \<or> (entries_ok r p xs \<and> x \<noteq> Same)" using Cons.prems by (auto simp: entries_ok_def)
  have next_ok: "throws_sound fl n t (mc_lits M) (fst (checkOptions fl n M r d k xs (its', p'))) \<and>
      (Same \<notin> set xs \<longrightarrow> snd (snd (checkOptions fl n M r d k xs (its', p'))) = p')" if "x \<noteq> Same \<longrightarrow> p' = p" for its' p'
    using tl Cons.IH[of its'] that by auto
  have rq: "ready q" "passed fl n t (mc_cyc M) q r"
    using q by (auto simp: node_def passed_def)
  consider (full) "pp_fullDefined n q" | (deep) "\<not> pp_fullDefined n q" "r + 1 < n \<and> (0 < k \<and> (mc_final M \<or> d + 1 \<le> fl_maxDepth fl) \<or> k = 0)"
    | (skip) "\<not> pp_fullDefined n q" "\<not> (r + 1 < n \<and> (0 < k \<and> (mc_final M \<or> d + 1 \<le> fl_maxDepth fl) \<or> k = 0))" by blast
  then show ?case
  proof cases
    case full
    note F = full_check_sound[OF C rq(1) full rq(2) r]
    show ?thesis
    proof (cases "permFullyDefinedCheck fl n (mc_cyc M) (mc_lits M) (pp_getPerm n q) 0 r")
      case (Inl e)
      then show ?thesis using F full by (simp add: q_def[symmetric] throws_sound_def)
    next
      case (Inr u)
      then show ?thesis using next_ok[of p its] full by (simp add: q_def[symmetric])
    qed
  next
    case deep
    let ?d = "if 0 < k then d + 1 else d"
    obtain res its' q' where c: "checkMinimality fl n M (Suc r) ?d (its, q) = (res, (its', q'))"
      by (metis prod.collapse)
    have T: "throws_sound fl n t (mc_lits M) res" using IH[OF q, of ?d its] deep(2) c by (simp del: checkMinimality.simps)
    let ?p = "case x of Same \<Rightarrow> q' | Copy _ \<Rightarrow> p"
    have run: "checkOptions fl n M r d k (x # xs) (its, p) =
        (case res of Inl e \<Rightarrow> (Inl e, (its', ?p)) | Inr _ \<Rightarrow> checkOptions fl n M r d k xs (its', ?p))"
      using deep c by (simp add: q_def[symmetric] Let_def del: checkMinimality.simps)
    have pp: "x \<noteq> Same \<longrightarrow> ?p = p" by (cases x) simp_all
    show ?thesis
      using T next_ok[OF pp, of its'] pp unfolding run by (cases res) (auto simp: throws_sound_def)
  next
    case skip
    have "checkOptions fl n M r d k (x # xs) (its, p) = checkOptions fl n M r d k xs (its, p)"
      unfolding checkOptions.simps q_def[symmetric] Let_def if_not_P[OF skip(1)] if_not_P[OF skip(2)] ..
    then show ?thesis using next_ok[of p its] by simp
  qed
qed simp

lemma checkMinimality_sound:
  assumes C: "check_ok fl n t M"
  shows "node p r \<Longrightarrow> r < n \<Longrightarrow> throws_sound fl n t (mc_lits M) (fst (checkMinimality fl n M r d (its, p))) \<and>
    (\<not> pp_fixed n p r \<longrightarrow> snd (snd (checkMinimality fl n M r d (its, p))) = p)"
proof (induction "n - r" arbitrary: r d its p)
  case (Suc m)
  show ?case
  proof (cases "\<not> mc_final M \<and> fl_maxMC fl \<le> its + 1")
    case True
    then show ?thesis by simp
  next
    case False
    obtain res p' where f: "filterOptions fl n M r (pp_options n p r) p = (res, p')" by fastforce
    note F = filterOptions_sound[OF C Suc.prems f]
    have IH: "node q (Suc r) \<Longrightarrow> Suc r < n \<Longrightarrow> throws_sound fl n t (mc_lits M) (fst (checkMinimality fl n M (Suc r) d' (its', q)))" for d' its' q
      using Suc.hyps(1)[of "Suc r" q] Suc.hyps(2) by simp
    show ?thesis
    proof (cases res)
      case (Inl e)
      then show ?thesis using F f False by (auto simp: Let_def throws_sound_def)
    next
      case (Inr xs)
      note K = checkOptions_sound[OF C Suc.prems(2) IH F(2)[OF Inr], of d "length (pp_options n p r)" "its + 1"]
      show ?thesis using K F(3,4) Inr f False by (auto simp: Let_def)
    qed
  qed
qed simp

end

section \<open>The search is exact on total tables\<close>

text \<open>
  With all entries known, every permuted cell has one value, so the rest of the contract is not
  needed. A state is bad when one of its symmetries makes the table smaller.
\<close>

definition bad :: "flags \<Rightarrow> nat \<Rightarrow> (nat \<Rightarrow> nat) \<Rightarrow> cmat \<Rightarrow> pperm \<Rightarrow> bool" where
  "bad fl n t N p \<longleftrightarrow> (\<exists>s\<in>live fl n t p. lex_less n (pact n s N) N)"

definition agree_upto :: "flags \<Rightarrow> nat \<Rightarrow> (nat \<Rightarrow> nat) \<Rightarrow> cmat \<Rightarrow> pperm \<Rightarrow> nat \<Rightarrow> bool" where
  "agree_upto fl n t N p r \<longleftrightarrow> (\<forall>s\<in>live fl n t p. \<forall>c<r. pact n s N 0 c = N 0 c)"

lemma bad_mono: "bad fl n t N q \<Longrightarrow> live fl n t q \<subseteq> live fl n t p \<Longrightarrow> bad fl n t N p"
  by (auto simp: bad_def)

lemma agree_upto_mono: "agree_upto fl n t N p r \<Longrightarrow> live fl n t q \<subseteq> live fl n t p \<Longrightarrow> agree_upto fl n t N q r"
  by (auto simp: agree_upto_def)

lemma agree_Suc: "agree_upto fl n t N p (Suc r) \<longleftrightarrow> agree_upto fl n t N p r \<and> (\<forall>s\<in>live fl n t p. pact n s N 0 r = N 0 r)"
  by (auto simp: agree_upto_def less_Suc_eq)

text \<open>Where the first row agrees up to \<open>r\<close>, the cell \<open>(0, r)\<close> decides unless it agrees too.\<close>

lemma first_row_less:
  assumes "agree_upto fl n t N p r" "s \<in> live fl n t p" "r < n" "pact n s N 0 r < N 0 r"
  shows "lex_less n (pact n s N) N"
proof (rule lex_less_cell[where A = "pact n s N" and B = N, OF _ assms(3,4)])
  show "0 < n" using assms(3) by simp
  fix r' c' assume "before r' c' 0 r"
  then show "pact n s N r' c' \<le> N r' c'" using assms(1,2) by (auto simp: agree_upto_def before_def)
qed

lemma first_row_greater:
  assumes "agree_upto fl n t N p r" "s \<in> live fl n t p" "r < n" "N 0 r < pact n s N 0 r"
  shows "\<not> lex_less n (pact n s N) N"
proof -
  have "lex_less n N (pact n s N)"
  proof (rule lex_less_cell[where A = N and B = "pact n s N", OF _ assms(3,4)])
    show "0 < n" using assms(3) by simp
    fix r' c' assume "before r' c' 0 r"
    then show "N r' c' \<le> pact n s N r' c'" using assms(1,2) by (auto simp: agree_upto_def before_def)
  qed
  then show ?thesis by (auto simp: lex_less_def)
qed

lemma append_less_append: "(xs @ ys :: nat list) < xs @ zs \<longleftrightarrow> ys < zs"
  by (induction xs) simp_all

lemma cells_first_row: "r \<le> n \<Longrightarrow> set (take r (cells n)) = (\<lambda>c. (0, c)) ` {..<r}"
proof -
  assume r: "r \<le> n"
  then have "r \<le> n * n" by (cases n) simp_all
  then have "take r (cells n) = map (\<lambda>c. (0, c)) [0..<r]"
    using r by (intro nth_equalityI) (auto simp: cells_nth)
  then show ?thesis by (auto simp: lessThan_atLeast0)
qed

lemma lex_less_rest:
  assumes "r \<le> n" "\<And>c. c < r \<Longrightarrow> A 0 c = B 0 c"
  shows "lex_less n A B \<longleftrightarrow> map (\<lambda>(i, j). A i j) (drop r (cells n)) < map (\<lambda>(i, j). B i j) (drop r (cells n))"
proof -
  have pre: "map (\<lambda>(i, j). A i j) (take r (cells n)) = map (\<lambda>(i, j). B i j) (take r (cells n))"
    using assms(2) cells_first_row[OF assms(1)] by (intro map_cong) auto
  have split: "mlist n N = map (\<lambda>(i, j). N i j) (take r (cells n)) @ map (\<lambda>(i, j). N i j) (drop r (cells n))" for N
    by (simp add: mlist_def flip: map_append)
  show ?thesis unfolding lex_less_def split pre by (rule append_less_append)
qed

lemma pact_cong:
  assumes "perm_on n s" "\<And>i. i < n \<Longrightarrow> s' i = s i" "row_perms n N"
  shows "mlist n (pact n s' N) = mlist n (pact n s N)"
proof (rule mlist_cong)
  fix i j assume ij: "i < n" "j < n"
  have s': "perm_on n s'" using assms(1,2) by (auto simp: perm_on_def bij_betw_def inj_on_def image_def)
  let ?w = "N (s i) (s j)"
  have w: "?w < n" using assms(3) perm_on_less[OF assms(1)] ij row_perms_less by blast
  have "pinv n s' ?w = pinv n s ?w"
    using pinv_eq[OF s' pinv_less[OF assms(1) w]] assms(1,2) w pinv_less[OF assms(1) w] by simp
  then show "pact n s' N i j = pact n s N i j" using assms(2) ij by (simp add: pact_def)
qed

text \<open>The table a check runs on is \<open>N\<close>.\<close>

definition check_total :: "flags \<Rightarrow> nat \<Rightarrow> (nat \<Rightarrow> nat) \<Rightarrow> mincheck \<Rightarrow> cmat \<Rightarrow> bool" where
  "check_total fl n t M N \<longleftrightarrow> check_ok fl n t M \<and> table_ok fl n t N \<and> total_table n (mc_cyc M) N \<and> mc_final M"

text \<open>The result of the search: a clause exactly when one of the symmetries is bad.\<close>

definition exact_res :: "unit res \<Rightarrow> bool \<Rightarrow> bool" where
  "exact_res res b \<longleftrightarrow> res = Inr () \<and> \<not> b \<or> (\<exists>cls. res = Inl (SymBreak cls)) \<and> b"

context symmetry_search begin

lemma learn_exact:
  assumes C: "check_total fl n t M N" and p: "ready p" "r < n" "agree_upto fl n t N p r"
    and lt: "\<And>s. s \<in> left p \<Longrightarrow> pact n s N 0 r < N 0 r"
  shows "\<exists>cls q. learn fl n M r p = (Inl (SymBreak cls), q)"
proof -
  obtain q where q: "learn fl n M r p = (addClauses fl n (mc_cyc M) (mc_lits M) (pp_getPerm n q) 0 r, q)"
    "left q \<subseteq> left p" "perm_vec n (pp_getPerm n q)" "vec_perm (pp_getPerm n q) \<in> left q"
    using learn_run[OF p(1)] by metis
  let ?s = "vec_perm (pp_getPerm n q)"
  have s: "?s \<in> left p" using q(2,4) by blast
  have ck: "cyc_ok fl n t (mc_cyc M)" "fl_smaller fl \<longrightarrow> fl_diag fl" "lits_live fl n t (mc_lits M)" "\<not> fl_old fl"
    and N: "table_ok fl n t N" and tot: "total_table n (mc_cyc M) N"
    using C by (simp_all add: check_total_def check_ok_def)
  have n0: "0 < n" using p(2) by simp
  note sy = left_syms[OF s] and sp = left_perm[OF s]
  have fr: "free_cell fl 0 r"
    using lt[OF s] pact_diag_le[OF N sy n0] by (cases "r = 0") (auto simp: free_cell_def)
  have e: "earlier_le fl n (mc_cyc M) ?s 0 r"
    using p(2,3) s n0 total_cell_le[OF tot sp n0] by (auto simp: earlier_le_def before_def agree_upto_def)
  have "excludes n (mc_cyc M) ?s 0 r"
    using tot lt[OF s] p(2) n0 perm_on_less[OF sp n0] perm_on_less[OF sp p(2)]
    by (simp add: excludes_def total_table_def pact_def Let_def)
  then have "addClausesShort fl n (mc_cyc M) (mc_lits M) (pp_getPerm n q) 0 r \<noteq> Inr ()"
    by (rule short_throws[OF ck(1,2) q(3) n0 p(2) fr e])
  then show ?thesis
    using short_result[OF ck(1-3) q(3) sy n0 p(2) fr e] q(1) ck(4) by (auto simp: addClauses_def)
qed

definition exact_step :: "cmat \<Rightarrow> pperm \<Rightarrow> nat \<Rightarrow> verdict res \<times> pperm \<Rightarrow> bool" where
  "exact_step N p r x \<longleftrightarrow> (\<exists>cls. fst x = Inl (SymBreak cls)) \<and> bad fl n t N p \<or>
     fst x = Inr Drop \<and> \<not> bad fl n t N p \<or>
     fst x = Inr Keep \<and> ready (snd x) \<and> keeps_fixed n p (snd x) \<and> left (snd x) \<subseteq> left p \<and>
       (bad fl n t N p \<longrightarrow> bad fl n t N (snd x)) \<and> agree_upto fl n t N (snd x) (Suc r)"

lemma filter_one_exact:
  assumes C: "check_total fl n t M N" and p: "ready p" "fixed_upto n (Suc r) p" "r < n" and ag: "agree_upto fl n t N p r"
  shows "exact_step N p r (filter_one fl n M r p)"
proof -
  have ck: "cyc_ok fl n t (mc_cyc M)" and N: "table_ok fl n t N" and tot: "total_table n (mc_cyc M) N"
    using C by (simp_all add: check_total_def check_ok_def)
  have n0: "0 < n" using p(3) by simp
  obtain s0 where s0: "s0 \<in> left p" using left_member[OF p(1)] by blast
  note im = row_images[OF p s0]
  note i0 = im(3,4)[OF s0]
  let ?w = "N (s0 0) (s0 r)" and ?d = "dom_at (mc_cyc M) (s0 0) (s0 r)" and ?g = "N 0 r"
  have wn: "?w < n" by (rule table_ok_less[OF N i0])
  have V: "bd_vals (dom_at (mc_cyc M) 0 r) = {?g}" "bd_vals ?d = {?w}" using tot n0 p(3) i0 by (simp_all add: total_table_def)
  have c: "cell (cy_dom (mc_cyc M)) (pp_permOf n p 0) (pp_permOf n p r) = Inr ?d"
    using cyc_okD(7)[OF ck i0] i0 im(5,6)[OF s0] by simp
  have mo: "bd_firstel (dom_at (mc_cyc M) 0 r) = int ?g" "bd_numTrue (dom_at (mc_cyc M) 0 r) = 1"
    using cyc_okD(1)[OF ck n0 p(3)] V(1) by (auto simp: bd_inv_def first_of_def)
  have dw: "bd_firstel ?d = int ?w" "bd_numTrue ?d = 1"
    using cyc_okD(1)[OF ck i0] V(2) by (auto simp: bd_inv_def first_of_def)
  have run: "filter_one fl n M r p = filter_single fl n M r (int ?g) True ?w p"
    using c mo dw by (simp add: filter_one_def Let_def)
  have pa: "pact n s N 0 r = pinv n s ?w" if "s \<in> left p" for s
    using im(1,2)[OF that] by (simp add: pact_def)
  have bad1: "bad fl n t N p" if "s \<in> left p" "pinv n s ?w < ?g" for s
    using first_row_less[OF ag that(1) p(3)] pa[OF that(1)] that by (auto simp: bad_def)
  have good: "\<not> bad fl n t N p" if "\<And>s. s \<in> left p \<Longrightarrow> ?g < pinv n s ?w"
    using first_row_greater[OF ag _ p(3)] pa that by (auto simp: bad_def)
  have learns: "\<exists>cls. fst (learn_v fl n M r Drop q) = Inl (SymBreak cls)"
    if "ready q" "left q \<subseteq> left p" "\<And>s. s \<in> left q \<Longrightarrow> pinv n s ?w < ?g" for q
  proof -
    have "pact n s N 0 r < N 0 r" if "s \<in> left q" for s using that \<open>left q \<subseteq> left p\<close> pa \<open>\<And>s. s \<in> left q \<Longrightarrow> pinv n s ?w < ?g\<close> by auto
    from learn_exact[OF C that(1) p(3) agree_upto_mono[OF ag that(2)] this] show ?thesis by (auto simp: learn_v_def)
  qed
  show ?thesis
  proof (cases "pp_invPermOf n p ?w = -1")
    case False
    note iv = left_inv_known[OF p(1) wn False]
    consider "pp_invPermOf n p ?w < int ?g" | "pp_invPermOf n p ?w = int ?g" | "int ?g < pp_invPermOf n p ?w" by linarith
    then show ?thesis
    proof cases
      case 1
      then have "fst (filter_single fl n M r (int ?g) True ?w p) = fst (learn_v fl n M r Drop p)"
        using False by (simp add: filter_single_def)
      moreover have lt: "pinv n s ?w < ?g" if "s \<in> left p" for s using iv[OF that] 1 by simp
      moreover obtain cls where "fst (learn_v fl n M r Drop p) = Inl (SymBreak cls)"
        using learns[OF p(1) subset_refl lt] by blast
      ultimately show ?thesis using bad1[OF s0] s0 unfolding run exact_step_def by simp
    next
      case 2
      then show ?thesis using False p(1) ag iv pa by (simp add: run filter_single_def exact_step_def agree_Suc)
    next
      case 3
      have gt: "?g < pinv n s ?w" if "s \<in> left p" for s using iv[OF that] 3 by simp
      show ?thesis using False good[OF gt] 3 by (simp add: run filter_single_def exact_step_def)
    qed
  next
    case True
    let ?i = "Min (set (pp_invOptions n p ?w))"
    obtain ok q where q: "fixAndPropagate n M p ?i ?w = Inr (ok, q)" "ready q" "keeps_fixed n p q"
      "left q = {s \<in> left p. s ?i = ?w}" using fix_least[OF p(1) wn True refl] by blast
    have mn: "?i \<le> pinv n s ?w" if "s \<in> left p" for s by (rule Min_inv_option(1)[OF p(1) wn that])
    have pq: "pinv n s ?w = ?i" if "s \<in> left q" for s
      using that q(4) pinv_eq[OF left_perm Min_inv_option(2)[OF p(1) wn s0]] by auto
    have ft: "fix_then n M p ?i (int ?w) k = k q" for k :: "pperm \<Rightarrow> verdict res \<times> pperm"
      using q(1) wn by (simp add: fix_then_def)
    have lq: "left q \<subseteq> left p" using q(4) by auto
    have ne: "pp_invOptions n p ?w \<noteq> []" by (rule inv_options_ne[OF p(1) wn])
    obtain s1 where s1: "s1 \<in> left q" using left_member[OF q(2)] by blast
    have s1p: "s1 \<in> left p" using s1 lq by blast
    consider "?i < ?g" | "?i = ?g" | "?g < ?i" by linarith
    then show ?thesis
    proof cases
      case 1
      then have "fst (filter_single fl n M r (int ?g) True ?w p) = fst (learn_v fl n M r Drop q)"
        using True ne by (simp add: filter_single_def ft Let_def)
      moreover have lt: "pinv n s ?w < ?g" if "s \<in> left q" for s using pq[OF that] 1 by simp
      moreover obtain cls where "fst (learn_v fl n M r Drop q) = Inl (SymBreak cls)"
        using learns[OF q(2) lq lt] by blast
      ultimately show ?thesis using bad1[OF s1p] s1 unfolding run exact_step_def by simp
    next
      case 2
      have bq: "bad fl n t N q" if b: "bad fl n t N p"
      proof -
        obtain s where s: "s \<in> left p" "lex_less n (pact n s N) N" using b by (auto simp: bad_def)
        have "\<not> ?g < pinv n s ?w" using first_row_greater[OF ag s(1) p(3)] pa[OF s(1)] s(2) by auto
        then have "pinv n s ?w = ?i" using mn[OF s(1)] 2 by simp
        then have "s ?i = ?w" using pinv_right[OF left_perm[OF s(1)] wn] by simp
        then show ?thesis using s q(4) by (auto simp: bad_def)
      qed
      have "agree_upto fl n t N q (Suc r)"
        using agree_upto_mono[OF ag lq] pq pa lq 2 by (auto simp: agree_Suc)
      then show ?thesis using True ne 2 q(2,3) lq bq
        by (simp add: run filter_single_def ft[unfolded 2] Let_def exact_step_def)
    next
      case 3
      have "?g < pinv n s ?w" if "s \<in> left p" for s using mn[OF that] 3 by simp
      then have nb: "\<not> bad fl n t N p" by (rule good)
      have ni: "?i \<noteq> ?g" "\<not> ?i < ?g" using 3 by linarith+
      have "filter_single fl n M r (int ?g) True ?w p = (Inr Drop, p)"
        using True ne ni by (simp add: filter_single_def Let_def)
      then show ?thesis using nb by (simp add: run exact_step_def)
    qed
  qed
qed

section \<open>The images of one row on a total table\<close>

definition open_node :: "cmat \<Rightarrow> pperm \<Rightarrow> nat \<Rightarrow> bool" where
  "open_node N p r \<longleftrightarrow> ready p \<and> fixed_upto n r p \<and> agree_upto fl n t N p r"

lemma exact_step_keep:
  assumes "exact_step N p r (Inr Keep, q)" "fixed_upto n (Suc r) p" "r < n"
  shows "open_node N q (Suc r)" "left q \<subseteq> left p" "bad fl n t N p \<Longrightarrow> bad fl n t N q"
  using assms keeps_fixedD[of n p q "Suc r"] by (auto simp: exact_step_def open_node_def)

lemma exact_step_res:
  assumes "exact_step N p r (res, q)"
  shows "(\<exists>cls. res = Inl (SymBreak cls)) \<and> bad fl n t N p \<or> res = Inr Drop \<and> \<not> bad fl n t N p \<or> res = Inr Keep"
  using assms by (auto simp: exact_step_def)

text \<open>The symmetries that map row \<open>r\<close> to one of the images \<open>js\<close>.\<close>

definition bad_into :: "cmat \<Rightarrow> pperm \<Rightarrow> nat \<Rightarrow> nat set \<Rightarrow> bool" where
  "bad_into N p r J \<longleftrightarrow> (\<exists>s\<in>left p. s r \<in> J \<and> lex_less n (pact n s N) N)"

definition copies_ok :: "cmat \<Rightarrow> pperm \<Rightarrow> nat \<Rightarrow> nat set \<Rightarrow> entry list \<Rightarrow> bool" where
  "copies_ok N p r J xs \<longleftrightarrow> (\<forall>x\<in>set xs. \<exists>q. x = Copy q \<and> open_node N q (Suc r) \<and> (bad fl n t N q \<longrightarrow> bad fl n t N p)) \<and>
     (bad_into N p r J \<longrightarrow> (\<exists>q. Copy q \<in> set xs \<and> bad fl n t N q))"

lemma bad_into_insert:
  "live fl n t q = {s \<in> left p. s r = j} \<Longrightarrow> bad_into N p r (insert j J) \<longleftrightarrow> bad fl n t N q \<or> bad_into N p r J"
  by (auto simp: bad_into_def bad_def)

lemma filterOptions_copies_exact:
  assumes C: "check_total fl n t M N" and p: "open_node N p r" "r < n" "\<not> pp_fixed n p r"
  shows "set js \<subseteq> set (pp_options n p r) \<Longrightarrow> \<exists>res. filterOptions fl n M r js p = (res, p) \<and>
    ((\<exists>cls. res = Inl (SymBreak cls)) \<and> bad fl n t N p \<or> (\<exists>xs. res = Inr xs \<and> copies_ok N p r (set js) xs))"
proof (induction js)
  case Nil
  then show ?case by (simp add: copies_ok_def bad_into_def)
next
  case (Cons j js)
  have rp: "ready p" "fixed_upto n r p" "agree_upto fl n t N p r" using p(1) by (simp_all add: open_node_def)
  have j: "j \<in> set (pp_options n p r)" using Cons.prems by simp
  obtain res2 where IH: "filterOptions fl n M r js p = (res2, p)"
    "(\<exists>cls. res2 = Inl (SymBreak cls)) \<and> bad fl n t N p \<or> (\<exists>xs. res2 = Inr xs \<and> copies_ok N p r (set js) xs)"
    using Cons by auto
  obtain ok q where q: "fixAndPropagate n M p r j = Inr (ok, q)"
    "if ok then ready q \<and> keeps_fixed n p q \<and> pp_fixed n q r \<and> live fl n t q = {s \<in> live fl n t p. s r = j}
     else {s \<in> live fl n t p. s r = j} = {}" using fix_open[OF rp(1) p(2) rp(2) p(3) j] by (elim exE conjE)
  show ?case
  proof (cases ok)
    case False
    then have "bad_into N p r (set (j # js)) \<longleftrightarrow> bad_into N p r (set js)" using q(2) by (auto simp: bad_into_def)
    then have "copies_ok N p r (set (j # js)) xs \<longleftrightarrow> copies_ok N p r (set js) xs" for xs by (simp add: copies_ok_def)
    then show ?thesis using IH p(3) q(1) False by simp
  next
    case True
    then have lq: "live fl n t q = {s \<in> left p. s r = j}" using q(2) by simp
    then have qq: "ready q" "fixed_upto n (Suc r) q" "left q \<subseteq> left p"
      using True q(2) keeps_fixedD[OF _ rp(2)] p(2) by (auto simp: fixed_upto_Suc)
    note S = filter_one_exact[OF C qq(1,2) p(2) agree_upto_mono[OF rp(3) qq(3)]]
    note BI = bad_into_insert[OF lq, of N "set js"]
    obtain res q' where f: "filter_one fl n M r q = (res, q')" by fastforce
    from exact_step_res[OF S[unfolded f]] show ?thesis
    proof (elim disjE conjE)
      assume "\<exists>cls. res = Inl (SymBreak cls)" "bad fl n t N q"
      then show ?thesis using f p(3) q(1) True bad_mono[OF _ qq(3)] by auto
    next
      assume d: "res = Inr Drop" "\<not> bad fl n t N q"
      then have "copies_ok N p r (set (j # js)) xs \<longleftrightarrow> copies_ok N p r (set js) xs" for xs using BI by (simp add: copies_ok_def)
      then show ?thesis using f p(3) q(1) True d(1) IH by (elim disjE exE conjE) simp_all
    next
      assume k: "res = Inr Keep"
      note K = exact_step_keep[OF S[unfolded f k] qq(2) p(2)]
      have "bad fl n t N q' \<longrightarrow> bad fl n t N p" using bad_mono[OF _ subset_trans[OF K(2) qq(3)]] by blast
      then have "copies_ok N p r (set (j # js)) (Copy q' # xs)" if "copies_ok N p r (set js) xs" for xs
        using that K BI by (auto simp: copies_ok_def)
      then show ?thesis using f p(3) q(1) True k IH(2) by (elim disjE exE conjE) (simp_all add: IH(1))
    qed
  qed
qed

text \<open>What the loop hands to the search below: the entries stand for all bad symmetries.\<close>

definition entry_state :: "pperm \<Rightarrow> entry \<Rightarrow> pperm" where
  "entry_state p x = (case x of Same \<Rightarrow> p | Copy q \<Rightarrow> q)"

definition entries_exact :: "cmat \<Rightarrow> nat \<Rightarrow> pperm \<Rightarrow> entry list \<Rightarrow> bool" where
  "entries_exact N r p xs \<longleftrightarrow> (\<forall>x\<in>set xs. open_node N (entry_state p x) (Suc r)) \<and> (Same \<in> set xs \<longrightarrow> xs = [Same])"

lemma filterOptions_exact:
  assumes C: "check_total fl n t M N" and p: "open_node N p r" "r < n"
  shows "\<exists>res q. filterOptions fl n M r (pp_options n p r) p = (res, q) \<and>
    ((\<exists>cls. res = Inl (SymBreak cls)) \<and> bad fl n t N p \<or>
     (\<exists>xs. res = Inr xs \<and> entries_exact N r q xs \<and> (bad fl n t N p \<longleftrightarrow> (\<exists>x\<in>set xs. bad fl n t N (entry_state q x)))))"
proof (cases "pp_fixed n p r")
  case False
  have rp: "ready p" using p(1) by (simp add: open_node_def)
  have bi: "bad_into N p r (set (pp_options n p r)) \<longleftrightarrow> bad fl n t N p"
    using pp.reprD(2)[OF left_repr p(2)] by (auto simp: bad_into_def bad_def)
  obtain res where R: "filterOptions fl n M r (pp_options n p r) p = (res, p)"
    "(\<exists>cls. res = Inl (SymBreak cls)) \<and> bad fl n t N p \<or> (\<exists>xs. res = Inr xs \<and> copies_ok N p r (set (pp_options n p r)) xs)"
    using filterOptions_copies_exact[OF C p False subset_refl] by blast
  have that_copies: "entries_exact N r p xs \<and> (bad fl n t N p \<longleftrightarrow> (\<exists>x\<in>set xs. bad fl n t N (entry_state p x)))"
    if ok: "copies_ok N p r (set (pp_options n p r)) xs" for xs
  proof
    have each: "\<exists>q. x = Copy q \<and> open_node N q (Suc r) \<and> (bad fl n t N q \<longrightarrow> bad fl n t N p)" if "x \<in> set xs" for x
      using ok that unfolding copies_ok_def by blast
    have "open_node N (entry_state p x) (Suc r)" if "x \<in> set xs" for x using each[OF that] by (auto simp: entry_state_def)
    moreover have "Same \<notin> set xs" using each by blast
    ultimately show "entries_exact N r p xs" by (simp add: entries_exact_def)
    show "bad fl n t N p \<longleftrightarrow> (\<exists>x\<in>set xs. bad fl n t N (entry_state p x))"
    proof
      assume "bad fl n t N p"
      then obtain q where "Copy q \<in> set xs" "bad fl n t N q" using ok bi unfolding copies_ok_def by blast
      then show "\<exists>x\<in>set xs. bad fl n t N (entry_state p x)" by (intro bexI[of _ "Copy q"]) (simp_all add: entry_state_def)
    next
      assume "\<exists>x\<in>set xs. bad fl n t N (entry_state p x)"
      then obtain x where x: "x \<in> set xs" "bad fl n t N (entry_state p x)" by blast
      obtain q where "x = Copy q" "bad fl n t N q \<longrightarrow> bad fl n t N p" using each[OF x(1)] by blast
      then show "bad fl n t N p" using x(2) by (simp add: entry_state_def)
    qed
  qed
  from R(2) show ?thesis
  proof (elim disjE exE conjE)
    fix xs assume "res = Inr xs" and ok: "copies_ok N p r (set (pp_options n p r)) xs"
    then show ?thesis using R(1) that_copies[OF ok] by auto
  qed (simp add: R(1))
next
  case True
  have rp: "ready p" "fixed_upto n (Suc r) p" "agree_upto fl n t N p r"
    using p(1) True by (simp_all add: open_node_def fixed_upto_Suc)
  obtain j where j: "pp_options n p r = [j]"
    using fixed_options_length[OF ready_wf[OF rp(1)] p(2) True] by (auto simp: length_Suc_conv)
  note S = filter_one_exact[OF C rp(1,2) p(2) rp(3)]
  obtain res q where f: "filter_one fl n M r p = (res, q)" by fastforce
  from exact_step_res[OF S[unfolded f]] show ?thesis
  proof (elim disjE conjE)
    assume "\<exists>cls. res = Inl (SymBreak cls)" "bad fl n t N p"
    then show ?thesis using f True j by auto
  next
    assume "res = Inr Drop" "\<not> bad fl n t N p"
    then show ?thesis using f True j by (auto simp: entries_exact_def)
  next
    assume k: "res = Inr Keep"
    note K = exact_step_keep[OF S[unfolded f k] rp(2) p(2)]
    have "bad fl n t N p \<longleftrightarrow> bad fl n t N q" using K(3) bad_mono[of fl n t N q p] K(2) by blast
    then show ?thesis using f True j k K(1) by (simp add: entries_exact_def entry_state_def)
  qed
qed

section \<open>The search on a total table\<close>

lemma full_check_exact:
  assumes C: "check_total fl n t M N" and q: "open_node N q (Suc r)" "pp_fullDefined n q" "r < n"
  shows "permFullyDefinedCheck fl n (mc_cyc M) (mc_lits M) (pp_getPerm n q) 0 r = Inr () \<and> \<not> bad fl n t N q \<or>
    (\<exists>cls. permFullyDefinedCheck fl n (mc_cyc M) (mc_lits M) (pp_getPerm n q) 0 r = Inl (SymBreak cls)) \<and> bad fl n t N q"
proof -
  have rq: "ready q" "agree_upto fl n t N q (Suc r)" using q(1) by (simp_all add: open_node_def)
  let ?pm = "pp_getPerm n q" and ?s = "vec_perm (pp_getPerm n q)"
  have ck: "cyc_ok fl n t (mc_cyc M)" "fl_smaller fl \<longrightarrow> fl_diag fl" "lits_live fl n t (mc_lits M)" "\<not> fl_old fl"
    and N: "table_ok fl n t N" and tot: "total_table n (mc_cyc M) N"
    using C by (simp_all add: check_total_def check_ok_def)
  have Nr: "row_perms n N" using N by (simp add: table_ok_def)
  have n: "0 < n" "r < n * n" using q(3) by (auto intro: less_le_trans[of r n])
  note m = full_member[OF rq(1) q(2)]
  note sy = left_syms[OF m(2)] and sp = left_perm[OF m(2)]
  have eqs: "mlist n (pact n s N) = mlist n (pact n ?s N)" if s: "s \<in> left q" for s
  proof (rule pact_cong[OF sp _ Nr])
    fix i assume i: "i < n"
    show "s i = ?s i" using pp.full_defined_repr[OF ready_wf[OF rq(1)] q(2) left_repr[OF s] i] by (simp add: vec_perm_def)
  qed
  have "lex_less n (pact n s N) N \<longleftrightarrow> lex_less n (pact n ?s N) N" if "s \<in> left q" for s
    unfolding lex_less_def eqs[OF that] ..
  then have bq: "bad fl n t N q \<longleftrightarrow> lex_less n (pact n ?s N) N" unfolding bad_def using m(2) by blast
  have ag: "pact n ?s N 0 c = N 0 c" if "c < r" for c using rq(2) m(2) that by (simp add: agree_upto_def)
  have le: "earlier_le fl n (mc_cyc M) ?s 0 r"
    using ag q(3) total_cell_le[OF tot sp n(1)] by (auto simp: earlier_le_def before_def)
  have dv: "r div n = 0" "r mod n = r" using q(3) by simp_all
  have run: "permFullyDefinedCheck fl n (mc_cyc M) (mc_lits M) ?pm 0 r =
      (if permIsId n ?pm then Inr () else full_cells fl n (mc_cyc M) (mc_lits M) ?pm (inv_vec n ?s) (drop r (cells n)))"
    using perm_check_run[OF m(1) n(1) q(3)] by simp
  show ?thesis
  proof (cases "permIsId n ?pm")
    case True
    have "mlist n (pact n ?s N) = mlist n (pact n (\<lambda>i. i) N)"
      using permIsId_id[OF m(1) True] by (intro pact_cong[OF perm_on_id _ Nr]) simp
    also have "\<dots> = mlist n N" using pinv_eq[OF perm_on_id] row_perms_less[OF Nr] by (intro mlist_cong) (simp add: pact_def)
    finally have "\<not> bad fl n t N q" unfolding bq by (simp add: lex_less_def)
    then show ?thesis using run True by simp
  next
    case False
    have S: "full_cells fl n (mc_cyc M) (mc_lits M) ?pm (inv_vec n ?s) (drop r (cells n)) = Inr () \<or>
        (\<exists>cls. full_cells fl n (mc_cyc M) (mc_lits M) ?pm (inv_vec n ?s) (drop r (cells n)) = Inl (SymBreak cls))"
      using full_cells_sound[OF ck(1-3) m(1) sy ck(4) n(2)] le by (auto simp: dv)
    have "full_cells fl n (mc_cyc M) (mc_lits M) ?pm (inv_vec n ?s) (drop r (cells n)) = Inr () \<longleftrightarrow> \<not> bad fl n t N q"
      using full_cells_total[OF ck(1,2) m(1) sy N ck(4) tot less_imp_le[OF n(2)], of "mc_lits M"] le
        lex_less_rest[where A = "pact n ?s N" and B = N, OF less_imp_le[OF q(3)] ag] by (simp add: dv bq)
    then show ?thesis using S run False by auto
  qed
qed

lemma checkOptions_exact:
  assumes C: "check_total fl n t M N" and r: "r < n"
    and IH: "\<And>d its p. open_node N p (Suc r) \<Longrightarrow> Suc r < n \<Longrightarrow> exact_res (fst (checkMinimality fl n M (Suc r) d (its, p))) (bad fl n t N p)"
  shows "entries_exact N r p xs \<Longrightarrow> exact_res (fst (checkOptions fl n M r d k xs (its, p))) (\<exists>x\<in>set xs. bad fl n t N (entry_state p x))"
proof (induction xs arbitrary: its)
  case Nil
  then show ?case by (simp add: exact_res_def)
next
  case (Cons x xs)
  let ?q = "entry_state p x"
  have q: "open_node N ?q (Suc r)" using Cons.prems by (simp add: entries_exact_def)
  have rest: "exact_res (fst (checkOptions fl n M r d k xs (its', p'))) (\<exists>x\<in>set xs. bad fl n t N (entry_state p x))"
    if "x \<noteq> Same \<longrightarrow> p' = p" for its' p'
  proof (cases x)
    case Same
    then have "xs = []" using Cons.prems by (auto simp: entries_exact_def)
    then show ?thesis by (simp add: exact_res_def)
  next
    case (Copy q)
    then have "entries_exact N r p xs" using Cons.prems by (auto simp: entries_exact_def)
    then show ?thesis using Cons.IH that Copy by simp
  qed
  show ?case
  proof (cases "pp_fullDefined n ?q")
    case True
    have run: "checkOptions fl n M r d k (x # xs) (its, p) =
        (case permFullyDefinedCheck fl n (mc_cyc M) (mc_lits M) (pp_getPerm n ?q) 0 r of
           Inl e \<Rightarrow> (Inl e, (its, p)) | Inr _ \<Rightarrow> checkOptions fl n M r d k xs (its, p))"
      unfolding checkOptions.simps entry_state_def[symmetric] Let_def if_P[OF True] ..
    have R: "exact_res (fst (checkOptions fl n M r d k xs (its, p))) (\<exists>x\<in>set xs. bad fl n t N (entry_state p x))"
      by (rule rest) simp
    from full_check_exact[OF C q True r] show ?thesis
    proof (elim disjE exE conjE)
      fix cls assume "permFullyDefinedCheck fl n (mc_cyc M) (mc_lits M) (pp_getPerm n ?q) 0 r = Inl (SymBreak cls)" "bad fl n t N ?q"
      then show ?thesis unfolding run by (simp add: exact_res_def)
    next
      assume "permFullyDefinedCheck fl n (mc_cyc M) (mc_lits M) (pp_getPerm n ?q) 0 r = Inr ()" "\<not> bad fl n t N ?q"
      then show ?thesis using R unfolding run by simp
    qed
  next
    case False
    have rq: "ready ?q" "fixed_upto n (Suc r) ?q" using q by (simp_all add: open_node_def)
    have deep: "r + 1 < n \<and> (0 < k \<and> (mc_final M \<or> d + 1 \<le> fl_maxDepth fl) \<or> k = 0)"
    proof -
      have "Suc r \<noteq> n" using False rq pp.full_defined_iff[OF ready_wf[OF rq(1)]] by (auto simp: fixed_upto_def)
      then show ?thesis using r C by (auto simp: check_total_def)
    qed
    let ?d = "if 0 < k then d + 1 else d"
    obtain res its' q' where c: "checkMinimality fl n M (Suc r) ?d (its, ?q) = (res, (its', q'))"
      by (metis prod.collapse)
    have T: "exact_res res (bad fl n t N ?q)" using IH[OF q, of ?d its] deep c by (simp del: checkMinimality.simps)
    let ?p = "case x of Same \<Rightarrow> q' | Copy _ \<Rightarrow> p"
    have run: "checkOptions fl n M r d k (x # xs) (its, p) =
        (case res of Inl e \<Rightarrow> (Inl e, (its', ?p)) | Inr _ \<Rightarrow> checkOptions fl n M r d k xs (its', ?p))"
      using deep c False by (simp add: entry_state_def[symmetric] Let_def del: checkMinimality.simps)
    have pp: "x \<noteq> Same \<longrightarrow> ?p = p" by (cases x) simp_all
    show ?thesis
      using T rest[OF pp, of its'] unfolding run by (auto simp: exact_res_def)
  qed
qed

lemma checkMinimality_exact:
  assumes C: "check_total fl n t M N"
  shows "open_node N p r \<Longrightarrow> r < n \<Longrightarrow> exact_res (fst (checkMinimality fl n M r d (its, p))) (bad fl n t N p)"
proof (induction "n - r" arbitrary: r d its p)
  case (Suc m)
  obtain res q where F: "filterOptions fl n M r (pp_options n p r) p = (res, q)"
    "(\<exists>cls. res = Inl (SymBreak cls)) \<and> bad fl n t N p \<or>
     (\<exists>xs. res = Inr xs \<and> entries_exact N r q xs \<and> (bad fl n t N p \<longleftrightarrow> (\<exists>x\<in>set xs. bad fl n t N (entry_state q x))))"
    using filterOptions_exact[OF C Suc.prems] by blast
  have IH: "open_node N p' (Suc r) \<Longrightarrow> Suc r < n \<Longrightarrow> exact_res (fst (checkMinimality fl n M (Suc r) d' (its', p'))) (bad fl n t N p')" for d' its' p'
    using Suc.hyps(1)[of "Suc r" p'] Suc.hyps(2) by simp
  have fin: "mc_final M" using C by (simp add: check_total_def)
  from F(2) show ?case
  proof (elim disjE exE conjE)
    fix cls assume "res = Inl (SymBreak cls)" "bad fl n t N p"
    then show ?thesis using F(1) fin by (simp add: Let_def exact_res_def)
  next
    fix xs assume x: "res = Inr xs" "entries_exact N r q xs" "bad fl n t N p \<longleftrightarrow> (\<exists>x\<in>set xs. bad fl n t N (entry_state q x))"
    show ?thesis
      using checkOptions_exact[OF C Suc.prems(2) IH x(2), of d "length (pp_options n p r)" "its + 1"] F(1) x(1,3) fin
      by (simp add: Let_def)
  qed
qed simp

end

end
