(* ===== verification/MinCheck_Plain.thy ===== *)
theory MinCheck_Plain
  imports MinCheck_Search
begin

text \<open>
  The search with \<open>pperm_plain\<close>, when every permutation is a symmetry: without a diagonal, or
  with the identity on it. \<open>pperm_plain\<close> keeps the contract of the search on total tables, and
  the one on partial tables with \<open>--propagate\<close>.
\<close>

section \<open>The setting\<close>

text \<open>
  With the identity on the diagonal the field \<open>diagIsId\<close> may be wrong (its computation reads past
  the end of a vector); the cycles have length one in any case.
\<close>

definition all_symmetric :: "flags \<Rightarrow> nat \<Rightarrow> (nat \<Rightarrow> nat) \<Rightarrow> mincheck \<Rightarrow> bool" where
  "all_symmetric fl n t M \<longleftrightarrow> 0 < n \<and> (fl_diag fl \<longrightarrow> (\<forall>i<n. t i = i)) \<and>
     (mc_diagIsId M \<or> (\<forall>i<n. cp_cycle n (mc_diag M) (int i) = Inr [i]))"

lemma all_symmetric_syms: "all_symmetric fl n t M \<Longrightarrow> syms n (diag_of fl t) = {s. perm_on n s}"
  by (auto simp: all_symmetric_def syms_def diag_of_def perm_on_less)

lemma all_symmetric_live: "all_symmetric fl n t M \<Longrightarrow> live fl n t p = pp_perms n p"
  by (auto simp: live_def all_symmetric_syms pp_perms_def)

lemma fixAndPropagate_id:
  assumes a: "all_symmetric fl n t M" and wf: "pp_wf n p" and i: "i < n" and j: "j < n"
  shows "fixAndPropagate n M p i j = Inr (pp_fix n p i j) \<or>
    fixAndPropagate n M p i j = Inl UB \<and> pp_permOf n (snd (pp_fix n p i j)) i = -1"
proof -
  obtain ok q where f: "pp_fix n p i j = (ok, q)" by fastforce
  have wq: "pp_wf n q" using pp.fix_wf[OF wf i j] f by simp
  show ?thesis
  proof (cases "ok \<and> \<not> mc_diagIsId M")
    case True
    then have cyc: "cp_cycle n (mc_diag M) (int k) = Inr [k]" if "k < n" for k
      using a that by (auto simp: all_symmetric_def)
    show ?thesis
    proof (cases "pp_fixed n q i")
      case True
      define x where "x = nat (pp_permOf n q i)"
      have x: "pp_permOf n q i = int x" "x < n"
        using pp.perm_of_fixed[OF wq i True] pp.options_range[OF wq i] by (auto simp: x_def)
      show ?thesis using \<open>ok \<and> _\<close> f cyc[OF i] cyc[OF x(2)] x(1)
        by (simp add: fixAndPropagate_def propagateDecision_def Let_def)
    next
      case False
      have d: "pp_permOf n q i = -1" by (rule pp.perm_of_free[OF wq i False])
      have "cp_cycle n (mc_diag M) (-1) = Inl UB" by (simp add: cp_cycle_def)
      then show ?thesis using \<open>ok \<and> _\<close> f cyc[OF i] d by (simp add: fixAndPropagate_def propagateDecision_def)
    qed
  next
    case False
    then show ?thesis by (auto simp: fixAndPropagate_def f)
  qed
qed

definition plain_ready :: "flags \<Rightarrow> nat \<Rightarrow> (nat \<Rightarrow> nat) \<Rightarrow> mincheck \<Rightarrow> pperm \<Rightarrow> bool" where
  "plain_ready fl n t M p \<longleftrightarrow> all_symmetric fl n t M \<and> (\<exists>q. p = Plain q \<and> plain_wf n q)"

lemma plain_readyD:
  assumes "plain_ready fl n t M p"
  shows "all_symmetric fl n t M" "pp_wf n p" "live fl n t p = pp_perms n p" "0 < n"
proof -
  show a: "all_symmetric fl n t M" and "pp_wf n p" using assms by (auto simp: plain_ready_def)
  show "live fl n t p = pp_perms n p" "0 < n" using all_symmetric_live[OF a] a by (simp_all add: all_symmetric_def)
qed

section \<open>Fixing\<close>

lemma plain_options_ne: "plain_wf n q \<Longrightarrow> i < n \<Longrightarrow> set (plain_options n q i) \<noteq> {}"
  by (auto simp: set_plain_options)

lemma shrinks_keeps_fixed:
  assumes "plain_wf n q" "plain_wf n q'" "\<And>m. m < n \<Longrightarrow> set (plain_options n q' m) \<subseteq> set (plain_options n q m)"
  shows "keeps_fixed n (Plain q) (Plain q')"
proof -
  have "plain_fixed n q' i" if i: "i < n" and f: "plain_fixed n q i" for i
  proof -
    obtain x where "set (plain_options n q i) = {x}" using plain.fixed_iff[OF assms(1) i] f by blast
    then have "set (plain_options n q' i) = {x}" using assms(3)[OF i] plain_options_ne[OF assms(2) i] subset_singletonD by metis
    then show ?thesis using plain.fixed_iff[OF assms(2) i] by blast
  qed
  then show ?thesis by (simp add: keeps_fixed_def)
qed

text \<open>Fixing the first row of a block.\<close>

lemma plain_fix_start:
  assumes p: "plain_ready fl n t M (Plain q)" and i: "i < n" and st: "pl_part q ! i" and j: "j \<in> set (plain_options n q i)"
  obtains q' where "fixAndPropagate n M (Plain q) i j = Inr (True, Plain q')" "plain_ready fl n t M (Plain q')"
    "keeps_fixed n (Plain q) (Plain q')" "pp_fixed n (Plain q') i" "live fl n t (Plain q') = {s \<in> live fl n t (Plain q). s i = j}"
proof -
  have wf: "plain_wf n q" and a: "all_symmetric fl n t M" using p by (auto simp: plain_ready_def)
  obtain q' where q': "plain_fix n q i j = (True, q')" "plain_wf n q'" "set (plain_options n q' i) = {j}"
    "\<forall>m<n. m \<noteq> i \<longrightarrow> set (plain_options n q' m) = set (plain_options n q m) - {j}"
    using plain_fix_law[OF wf i j st] by blast
  have f: "pp_fix n (Plain q) i j = (True, Plain q')" using q'(1) by simp
  have r: "plain_ready fl n t M (Plain q')" using a q'(2) by (simp add: plain_ready_def)
  have fx: "pp_fixed n (Plain q') i" using plain.fixed_iff[OF q'(2) i] q'(3) by simp
  have "j < n" using j plain.options_range[OF wf i] by auto
  then have "fixAndPropagate n M (Plain q) i j = Inr (True, Plain q')"
    using fixAndPropagate_id[OF a _ i, of "Plain q" j] wf fx pp.perm_of_fixed[of n "Plain q'" i] q'(1,2) i by auto
  moreover have "set (plain_options n q' m) \<subseteq> set (plain_options n q m)" if "m < n" for m
    using q'(3,4) that j by (cases "m = i") auto
  then have "keeps_fixed n (Plain q) (Plain q')" by (rule shrinks_keeps_fixed[OF wf q'(2)])
  moreover have "live fl n t (Plain q') = {s \<in> live fl n t (Plain q). s i = j}"
    using pp.fix_repr[OF _ i _ _ f] wf j st plain_readyD(3)[OF p] plain_readyD(3)[OF r] by (simp add: pp_perms_repr)
  ultimately show thesis using that r fx by blast
qed

lemma fixed_before_start:
  assumes "plain_wf n q" "fixed_upto n r (Plain q)" "r < n"
  shows "pl_part q ! r"
proof (cases r)
  case 0
  then show ?thesis using assms(1) by (simp add: plain_wf_def)
next
  case (Suc k)
  then have "plain_fixed n q k" using assms(2) by (simp add: fixed_upto_def)
  then show ?thesis using Suc assms(3) by (simp add: plain_fixed_def split: if_splits)
qed

lemma plain_least:
  assumes wf: "plain_wf n q" and v: "v < n" and i: "i = Min (set (plain_invOptions n q v))"
  shows "i < n" "pl_part q ! i" "v \<in> set (plain_options n q i)"
proof -
  let ?k = "position (pl_element q) v"
  note k = position_spec[OF wf v]
  let ?s = "block_start q ?k"
  have s: "?s \<le> ?k" "pl_part q ! ?s" using start_spec[OF wf] by simp_all
  have ss: "block_start q ?s = ?s" by (rule start_eqI[OF wf]) (use s in auto)
  have mem: "m \<in> set (plain_invOptions n q v) \<longleftrightarrow> m < n \<and> block_start q m = ?s" for m
  proof -
    have "v \<in> set (plain_options n q m) \<longleftrightarrow> block_start q m = ?s" if mn: "m < n"
    proof
      assume "v \<in> set (plain_options n q m)"
      then obtain x where x: "x < n" "block_start q x = block_start q m" "v = pl_element q ! x"
        unfolding set_plain_options[OF wf mn] by blast
      then have "?k = x" using k element_inj[OF wf k(1) x(1)] by simp
      then show "block_start q m = ?s" using x(2) by simp
    next
      assume b: "block_start q m = ?s"
      then show "v \<in> set (plain_options n q m)"
        unfolding set_plain_options[OF wf mn] using k by (intro image_eqI[of _ _ ?k]) simp_all
    qed
    then show ?thesis using plain_inv_options[OF wf v, of m] by blast
  qed
  have "Min (set (plain_invOptions n q v)) = ?s"
  proof (rule Min_eqI)
    fix y assume "y \<in> set (plain_invOptions n q v)"
    then have "block_start q y = ?s" using mem by blast
    then show "?s \<le> y" using start_spec(1)[OF wf, of y] by simp
  next
    show "?s \<in> set (plain_invOptions n q v)" using mem ss le_less_trans[OF s(1) k(1)] by blast
  qed simp
  then have e: "i = ?s" using i by simp
  show "i < n" "pl_part q ! i" using e s k(1) by simp_all
  have "i \<in> set (plain_invOptions n q v)" using mem e ss s(1) k(1) by simp
  then show "v \<in> set (plain_options n q i)" using plain_inv_options[OF wf v, of i] by blast
qed

section \<open>Completing\<close>

lemma element_member:
  assumes p: "plain_ready fl n t M p"
  shows "perm_vec n (pp_getPerm n p)" "vec_perm (pp_getPerm n p) \<in> live fl n t p"
proof -
  obtain q where q: "p = Plain q" "plain_wf n q" using p by (auto simp: plain_ready_def)
  have len: "length (pl_element q) = n" and ds: "distinct (pl_element q)" "set (pl_element q) = {..<n}"
    using q(2) by (simp_all add: plain_wf_def)
  have v: "vec_perm (pp_getPerm n p) i = pl_element q ! i" if "i < n" for i
    using that len q(1) by (simp add: vec_perm_def plain_getPerm_def)
  have bij: "perm_on n (vec_perm (pp_getPerm n p))"
  proof (rule perm_onI)
    show "vec_perm (pp_getPerm n p) i < n" if "i < n" for i using v[OF that] element_less[OF q(2) that] by simp
    show "i = j" if "i < n" "j < n" "vec_perm (pp_getPerm n p) i = vec_perm (pp_getPerm n p) j" for i j
      using that v element_inj[OF q(2)] by simp
  qed
  then show "perm_vec n (pp_getPerm n p)" using q(1) len by (auto simp: perm_vec_def plain_getPerm_def)
  have "vec_perm (pp_getPerm n p) i \<in> set (pp_options n p i)" if i: "i < n" for i
    using v[OF i] set_plain_options[OF q(2) i] i q(1) by auto
  then show "vec_perm (pp_getPerm n p) \<in> live fl n t p"
    using bij plain_readyD(3)[OF p] by (simp add: pp_perms_def)
qed

lemma plain_extend:
  assumes p: "plain_ready fl n t M p"
  shows "\<exists>q. extendPerm fl n M p = Inr q \<and> plain_ready fl n t M q \<and> keeps_fixed n p q \<and> live fl n t q \<subseteq> live fl n t p"
proof (cases "\<not> fl_bit fl \<or> pp_fullDefined n p")
  case True
  then show ?thesis using p by (simp add: extendPerm_def)
next
  case False
  have "\<exists>q. extendPerm fl n M p = Inr q \<and> plain_ready fl n t M q \<and> keeps_fixed n p q \<and> live fl n t q \<subseteq> live fl n t p \<and> fixed_upto n n q"
  proof (rule extend_loop[where R = "plain_ready fl n t M" and p = p])
    show "plain_ready fl n t M p" "\<not> (\<not> fl_bit fl \<or> pp_fullDefined n p)" by (fact p, fact False)
    show "pp_wf n q" if "plain_ready fl n t M q" for q using that by (auto simp: plain_ready_def)
    show "pp_options n q i \<noteq> []" if "plain_ready fl n t M q" "i < n" for q i
      using that plain_options_ne[of n _ i] by (fastforce simp: plain_ready_def)
    fix q i j assume q: "plain_ready fl n t M q" and i: "i < n"
    then obtain u where u: "q = Plain u" "plain_wf n u" by (auto simp: plain_ready_def)
    assume f: "fixed_upto n i q" and j: "j \<in> set (pp_options n q i)"
    have "pl_part u ! i" using fixed_before_start[OF u(2) _ i] f u(1) by simp
    from plain_fix_start[OF q[unfolded u(1)] i this] j u(1)
    obtain u' where "fixAndPropagate n M q i j = Inr (True, Plain u')" "plain_ready fl n t M (Plain u')"
      "keeps_fixed n q (Plain u')" "pp_fixed n (Plain u') i" "live fl n t (Plain u') = {s \<in> live fl n t q. s i = j}" by auto
    then show "\<exists>q'. fixAndPropagate n M q i j = Inr (True, q') \<and> plain_ready fl n t M q' \<and> keeps_fixed n q q' \<and>
        pp_fixed n q' i \<and> live fl n t q' \<subseteq> live fl n t q" by blast
  qed
  then show ?thesis by blast
qed

section \<open>The contract\<close>

interpretation plain_search: symmetry_search fl n M t "plain_ready fl n t M" for fl n M t
proof unfold_locales
  fix p
  assume p: "plain_ready fl n t M p"
  obtain q where q: "p = Plain q" "plain_wf n q" using p by (auto simp: plain_ready_def)
  show "pp_wf n p" using q by simp
  show "\<exists>ok q. fixAndPropagate n M p r j = Inr (ok, q) \<and>
      (if ok then plain_ready fl n t M q \<and> keeps_fixed n p q \<and> pp_fixed n q r \<and> live fl n t q = {s \<in> live fl n t p. s r = j}
       else {s \<in> live fl n t p. s r = j} = {})"
    if r: "r < n" "fixed_upto n r p" and j: "j \<in> set (pp_options n p r)" for r j
  proof -
    have st: "pl_part q ! r" using fixed_before_start[OF q(2) _ r(1)] r(2) q(1) by simp
    have "j \<in> set (plain_options n q r)" using j q(1) by simp
    from plain_fix_start[OF p[unfolded q(1)] r(1) st this] obtain q' where
      "fixAndPropagate n M p r j = Inr (True, Plain q')" "plain_ready fl n t M (Plain q')" "keeps_fixed n p (Plain q')"
      "pp_fixed n (Plain q') r" "live fl n t (Plain q') = {s \<in> live fl n t p. s r = j}" unfolding q(1)[symmetric] by blast
    then show ?thesis by (intro exI[of _ True] exI[of _ "Plain q'"]) simp
  qed
  show "\<exists>ok q. fixAndPropagate n M p i v = Inr (ok, q) \<and>
      plain_ready fl n t M q \<and> keeps_fixed n p q \<and> live fl n t q = {s \<in> live fl n t p. s i = v}"
    if v: "v < n" and i: "i = Min (set (pp_invOptions n p v))" for v i
  proof -
    note l = plain_least[OF q(2) v i[unfolded q(1) pp_invOptions.simps]]
    from plain_fix_start[OF p[unfolded q(1)] l(1,2,3)] show ?thesis unfolding q(1)[symmetric] by blast
  qed
  show "\<exists>q. extendPerm fl n M p = Inr q \<and> plain_ready fl n t M q \<and> keeps_fixed n p q \<and> live fl n t q \<subseteq> live fl n t p \<and>
      perm_vec n (pp_getPerm n q) \<and> vec_perm (pp_getPerm n q) \<in> live fl n t q"
    using plain_extend[OF p] element_member by blast
  show "pp_invPermOf n p (t (nat (pp_permOf n p i))) \<noteq> -1" if d: "fl_diag fl" and i: "i < n" "pp_fixed n p i" for i
  proof -
    have wf: "pp_wf n p" using q by simp
    note pf = pp.perm_of_fixed[OF wf i]
    have x: "nat (pp_permOf n p i) < n" using pf pp.options_range[OF wf i(1)] by auto
    have "t (nat (pp_permOf n p i)) = nat (pp_permOf n p i)" using plain_readyD(1)[OF p] d x by (simp add: all_symmetric_def)
    then show ?thesis using pp.inv_perm_of_none[OF wf x _ i(1)] pf by auto
  qed
qed

section \<open>Partial tables\<close>

text \<open>On a partial table other rows than the first of a block are fixed, too: the block is split and no row gains an image.\<close>

lemma block_refine:
  assumes p: "plain_wf n p" and p': "plain_wf n p'" and sub: "\<And>x. x < n \<Longrightarrow> pl_part p ! x \<Longrightarrow> pl_part p' ! x"
    and m: "x \<le> m" "m < n" and eq: "block_start p' x = block_start p' m"
  shows "block_start p x = block_start p m"
proof -
  have le: "block_start p m \<le> x"
  proof (rule ccontr)
    assume "\<not> block_start p m \<le> x"
    then have "block_start p' m < block_start p m" using start_spec(1)[OF p', of x] eq by simp
    moreover have "block_start p m \<le> m" "pl_part p ! block_start p m" using start_spec[OF p] by simp_all
    ultimately show False using start_spec(3)[OF p', of m "block_start p m"] sub m(2) by simp
  qed
  show ?thesis
    by (rule start_eqI[OF p le]) (use start_spec(2,3)[OF p] m(1) in auto)
qed

lemma block_refine_eq:
  assumes "plain_wf n p" "plain_wf n p'" "\<And>x. x < n \<Longrightarrow> pl_part p ! x \<Longrightarrow> pl_part p' ! x" "x < n" "m < n"
    "block_start p' x = block_start p' m"
  shows "block_start p x = block_start p m"
proof (cases "x \<le> m")
  case True
  then show ?thesis by (intro block_refine[OF assms(1,2,3)]) (use assms in simp_all)
next
  case False
  then have "block_start p m = block_start p x" by (intro block_refine[OF assms(1,2,3)]) (use assms in simp_all)
  then show ?thesis ..
qed

lemma plain_fix_shrinks:
  assumes wf: "plain_wf n q" and i: "i < n" "j < n" "j \<in> set (plain_options n q i) \<or> plain_fixed n q i"
    and f: "plain_fix n q i j = (ok, q')"
  shows "plain_wf n q'" "m < n \<Longrightarrow> set (plain_options n q' m) \<subseteq> set (plain_options n q m)"
proof -
  show wf': "plain_wf n q'" using plain_fix_wf[OF wf i(1,2)] f by simp
  let ?k = "position (pl_element q) j"
  note k = position_spec[OF wf i(2)]
  have "q' = q \<or> (block_start q ?k = block_start q i \<and>
      pl_element q' = (pl_element q)[i := pl_element q ! ?k, ?k := pl_element q ! i] \<and> (\<forall>x<n. pl_part q ! x \<longrightarrow> pl_part q' ! x))"
  proof (cases "plain_fixed n q i \<or> (plain_invPermOf n q j \<noteq> -1 \<and> plain_fixed n q (nat (plain_invPermOf n q j)))")
    case True
    then show ?thesis using f by (simp add: plain_fix_def Let_def)
  next
    case False
    then have "block_start q ?k = block_start q i"
      using i(3) set_plain_options[OF wf i(1)] position_element[OF wf] by auto
    moreover have "(pl_element q)[i := pl_element q ! ?k, ?k := pl_element q ! i] = pl_element q" if "pl_element q ! i = j"
    proof -
      have "?k = i" using that element_inj[OF wf k(1) i(1)] k(2) by simp
      then show ?thesis by simp
    qed
    moreover have "length (pl_part q) = n" using wf by (simp add: plain_wf_def)
    ultimately show ?thesis using False f by (auto simp: plain_fix_def Let_def nth_list_update)
  qed
  then show "set (plain_options n q' m) \<subseteq> set (plain_options n q m)" if m: "m < n"
  proof (elim disjE conjE)
    assume b: "block_start q ?k = block_start q i" and e: "pl_element q' = (pl_element q)[i := pl_element q ! ?k, ?k := pl_element q ! i]"
      and sub: "\<forall>x<n. pl_part q ! x \<longrightarrow> pl_part q' ! x"
    have len: "length (pl_element q) = n" using wf by (simp add: plain_wf_def)
    show ?thesis
    proof
      fix v assume "v \<in> set (plain_options n q' m)"
      then obtain x where x: "x < n" "block_start q' x = block_start q' m" "v = pl_element q' ! x"
        unfolding set_plain_options[OF wf' m] by blast
      have bx: "block_start q x = block_start q m" using block_refine_eq[OF wf wf' _ x(1) m x(2)] sub by blast
      have "v = pl_element q ! (if x = ?k then i else if x = i then ?k else x)"
        using x(1,3) i(1) k(1) len unfolding e by (simp add: nth_list_update)
      moreover have "block_start q (if x = ?k then i else if x = i then ?k else x) = block_start q m"
      proof -
        consider "x = ?k" | "x \<noteq> ?k" "x = i" | "x \<noteq> ?k" "x \<noteq> i" by blast
        then show ?thesis
        proof cases
          case 1
          then have "block_start q i = block_start q m" using b bx by simp
          then show ?thesis unfolding if_P[OF 1] .
        next
          case 2
          then have "block_start q ?k = block_start q m" using b bx by simp
          then show ?thesis unfolding if_not_P[OF 2(1)] if_P[OF 2(2)] .
        next
          case 3
          show ?thesis unfolding if_not_P[OF 3(1)] if_not_P[OF 3(2)] by (rule bx)
        qed
      qed
      moreover have "(if x = ?k then i else if x = i then ?k else x) < n" using x(1) i(1) k(1) by simp
      ultimately show "v \<in> set (plain_options n q m)" unfolding set_plain_options[OF wf m] by blast
    qed
  qed simp
qed

interpretation plain_partial: partial_search fl n M t "\<lambda>p. plain_ready fl n t M p \<and> fl_prop fl" for fl n M t
proof unfold_locales
  fix p
  assume "plain_ready fl n t M p \<and> fl_prop fl"
  then have p: "plain_ready fl n t M p" and pf: "fl_prop fl" by simp_all
  obtain q where q: "p = Plain q" "plain_wf n q" using p by (auto simp: plain_ready_def)
  show "pp_wf n p" using q by simp
  show "\<exists>ok q. fixAndPropagate n M p r j = Inr (ok, q) \<and>
      (if ok then (plain_ready fl n t M q \<and> fl_prop fl) \<and> keeps_fixed n p q \<and> pp_fixed n q r \<and> live fl n t q = {s \<in> live fl n t p. s r = j}
       else {s \<in> live fl n t p. s r = j} = {})"
    if "r < n" "fixed_upto n r p" "\<not> pp_fixed n p r" "j \<in> set (pp_options n p r)" for r j
    unfolding eqTrueI[OF pf] simp_thms by (rule plain_search.fix_open[OF p that])
  show "\<exists>ok q. fixAndPropagate n M p i v = Inr (ok, q) \<and>
      (plain_ready fl n t M q \<and> fl_prop fl) \<and> keeps_fixed n p q \<and> live fl n t q = {s \<in> live fl n t p. s i = v}"
    if "v < n" "pp_invPermOf n p v = -1" "i = Min (set (pp_invOptions n p v))" for v i
    unfolding eqTrueI[OF pf] simp_thms by (rule plain_search.fix_least[OF p that])
  show "\<exists>q. extendPerm fl n M p = Inr q \<and> (plain_ready fl n t M q \<and> fl_prop fl) \<and> keeps_fixed n p q \<and>
      live fl n t q \<subseteq> live fl n t p \<and> perm_vec n (pp_getPerm n q) \<and> vec_perm (pp_getPerm n q) \<in> live fl n t q"
    unfolding eqTrueI[OF pf] simp_thms by (rule plain_search.extend[OF p])
  show "pp_invPermOf n p (t (nat (pp_permOf n p i))) \<noteq> -1" if "fl_diag fl" "i < n" "pp_fixed n p i" "t i < n" for i
    by (rule plain_search.diag_known[OF p that])
  show "(plain_ready fl n t M q' \<and> fl_prop fl) \<and> keeps_fixed n p q' \<and> live fl n t q' \<subseteq> live fl n t p \<and>
      (\<not> fl_prop fl \<longrightarrow> j \<in> set (pp_options n p i) \<longrightarrow> (\<forall>s\<in>live fl n t q'. s i = j))"
    if ij: "i < n" "j < n" "j \<in> set (pp_options n p i) \<or> pp_fixed n p i" and f: "fixAndPropagate n M p i j = Inr (ok, q')"
    for i j ok q'
  proof -
    have a: "all_symmetric fl n t M" by (rule plain_readyD(1)[OF p])
    obtain b u where u': "plain_fix n q i j = (b, u)" by fastforce
    have "pp_wf n p" using q by simp
    from fixAndPropagate_id[OF a this ij(1,2)] have "pp_fix n p i j = (ok, q')" using f by simp
    then have u: "plain_fix n q i j = (ok, u)" "q' = Plain u" using u' q(1) by simp_all
    have w: "plain_wf n u" and sub: "\<And>m. m < n \<Longrightarrow> set (plain_options n u m) \<subseteq> set (plain_options n q m)"
      using plain_fix_shrinks[OF q(2) ij(1,2) _ u(1)] ij(3) q(1) by auto
    have r: "plain_ready fl n t M q'" using a u(2) w by (simp add: plain_ready_def)
    have "pp_perms n q' \<subseteq> pp_perms n p" using sub u(2) q(1) by (auto simp: pp_perms_def)
    then have "live fl n t q' \<subseteq> live fl n t p" unfolding plain_readyD(3)[OF r] plain_readyD(3)[OF p] .
    moreover have "keeps_fixed n p q'" unfolding u(2) q(1) by (rule shrinks_keeps_fixed[OF q(2) w sub])
    ultimately show ?thesis using r pf by blast
  qed
  show "pp_fixed n p i" if v: "v < n" and i: "pp_invOptions n p v = [i]" for v i
  proof -
    have io: "k < n \<and> v \<in> set (plain_options n q k) \<longleftrightarrow> k = i" for k
      using plain_inv_options[OF q(2) v, of k] i q(1) by simp
    then have ii: "i < n" "v \<in> set (plain_options n q i)" by blast+
    have "k = i" if k: "k < n" "block_start q k = block_start q i" for k
    proof -
      have "set (plain_options n q k) = set (plain_options n q i)"
        unfolding set_plain_options[OF q(2) k(1)] set_plain_options[OF q(2) ii(1)] k(2) ..
      then show ?thesis using io[of k] k(1) ii(2) by simp
    qed
    then have "{k. k < n \<and> block_start q k = block_start q i} = {i}" using ii(1) by auto
    then show ?thesis using plain_fixed_start[OF q(2) ii(1)] q(1) by simp
  qed
qed

end
