(* ===== verification/MinCheck_Bit.thy ===== *)
theory MinCheck_Bit
  imports MinCheck_Search
begin

text \<open>
  The search with \<open>pperm_bit\<close> and a diagonal whose cycles \<open>cyclePerm_t\<close> reads correctly (those of
  \<open>makeDiagonals\<close>): \<open>propagateDecision\<close> fixes a whole cycle of the diagonal at once, so the
  partial permutations are the maps that commute with the diagonal on a union of its cycles,
  and every row outside may take every value outside on a cycle of the same length.
\<close>

section \<open>The setting\<close>

definition bit_setting :: "flags \<Rightarrow> nat \<Rightarrow> (nat \<Rightarrow> nat) \<Rightarrow> mincheck \<Rightarrow> bool" where
  "bit_setting fl n t M \<longleftrightarrow> 0 < n \<and> fl_diag fl \<and> fl_bit fl \<and> perm_on n t \<and>
     (\<forall>i<n. \<exists>c. cp_cycle n (mc_diag M) (int i) = Inr c \<and> is_cycle t c \<and> set c \<subseteq> {..<n} \<and> c ! 0 = i) \<and>
     (mc_diagIsId M \<longrightarrow> (\<forall>i<n. t i = i))"

lemma bit_setting_syms: "bit_setting fl n t M \<Longrightarrow> syms n (diag_of fl t) = {s. perm_on n s \<and> (\<forall>i<n. s (t i) = t (s i))}"
  by (auto simp: bit_setting_def syms_def diag_of_def)

lemma same_length_equiv:
  "same_cycle_length t x x" "same_cycle_length t x y \<Longrightarrow> same_cycle_length t y x"
  "same_cycle_length t x y \<Longrightarrow> same_cycle_length t y z \<Longrightarrow> same_cycle_length t x z"
  by (auto simp: same_cycle_length_def)

lemma iterate_less: "perm_on n t \<Longrightarrow> x < n \<Longrightarrow> (t ^^ k) x < n"
  by (induction k) (auto simp: perm_on_less)

lemma iterate_same_length: "perm_on n t \<Longrightarrow> x < n \<Longrightarrow> same_cycle_length t x ((t ^^ k) x)"
proof (induction k)
  case (Suc k)
  have "same_cycle_length t ((t ^^ k) x) (t ((t ^^ k) x))"
    using iterate_less[OF Suc.prems] by (intro commuting_same_length[of n t t]) (use Suc.prems in auto)
  then show ?case using Suc same_length_equiv(3)[of t x "(t ^^ k) x"] by simp
qed (simp add: same_length_equiv)

text \<open>A set closed under the diagonal is closed under going back, too.\<close>

lemma closed_back:
  assumes t: "perm_on n t" and S: "S \<subseteq> {..<n}" "t ` S \<subseteq> S" and x: "x < n"
  shows "(t ^^ k) x \<in> S \<Longrightarrow> x \<in> S"
proof (induction k)
  case (Suc k)
  have inj: "inj_on t {..<n}" using t by (simp add: perm_on_def bij_betw_def)
  have "t ` S = S" using endo_inj_surj[of S t] S finite_subset[OF S(1)] inj_on_subset[OF inj S(1)] by simp
  then obtain y where y: "y \<in> S" "t y = t ((t ^^ k) x)" using Suc.prems by (metis funpow.simps(2) comp_apply imageE)
  have "y = (t ^^ k) x" using perm_on_inj[OF t _ iterate_less[OF t x], of y k] y S(1) by blast
  then show ?case using Suc.IH y(1) by simp
qed simp

section \<open>Partial maps between classes\<close>

definition pmap :: "nat \<Rightarrow> (nat \<Rightarrow> nat) \<Rightarrow> nat set \<Rightarrow> (nat \<Rightarrow> nat) \<Rightarrow> bitdomains2 \<Rightarrow> bool" where
  "pmap n t S f q \<longleftrightarrow> bd2_inv n q \<and> S \<subseteq> {..<n} \<and> inj_on f S \<and>
     (\<forall>i\<in>S. f i < n \<and> same_cycle_length t i (f i) \<and> set (bd2_options n q i) = {f i}) \<and>
     (\<forall>i<n. i \<notin> S \<longrightarrow> set (bd2_options n q i) = {x. x < n \<and> x \<notin> f ` S \<and> same_cycle_length t i x})"

lemma pmapD:
  assumes "pmap n t S f q"
  shows "bd2_inv n q" "S \<subseteq> {..<n}" "inj_on f S" "i \<in> S \<Longrightarrow> f i < n" "i \<in> S \<Longrightarrow> same_cycle_length t i (f i)"
    "i \<in> S \<Longrightarrow> set (bd2_options n q i) = {f i}"
    "i < n \<Longrightarrow> i \<notin> S \<Longrightarrow> set (bd2_options n q i) = {x. x < n \<and> x \<notin> f ` S \<and> same_cycle_length t i x}"
  using assms by (auto simp: pmap_def)

text \<open>In every class there are as many open rows as free values.\<close>

lemma free_count:
  assumes p: "pmap n t S f q"
  shows "card {x. x < n \<and> x \<notin> f ` S \<and> same_cycle_length t i x} = card {x. x < n \<and> x \<notin> S \<and> same_cycle_length t i x}"
proof -
  let ?K = "{x. x < n \<and> same_cycle_length t i x}"
  have fin: "finite ?K" "finite S" using pmapD(2)[OF p] finite_subset by auto
  have "f ` S \<inter> ?K = f ` (S \<inter> ?K)"
  proof (intro equalityI subsetI)
    fix y assume "y \<in> f ` S \<inter> ?K"
    then obtain x where x: "x \<in> S" "y = f x" "same_cycle_length t i y" by auto
    then have "same_cycle_length t i x" using pmapD(5)[OF p x(1)] same_length_equiv(2,3) by metis
    then show "y \<in> f ` (S \<inter> ?K)" using x pmapD(2)[OF p] by auto
  next
    fix y assume "y \<in> f ` (S \<inter> ?K)"
    then obtain x where x: "x \<in> S" "y = f x" "same_cycle_length t i x" by auto
    then have "same_cycle_length t i y" using pmapD(5)[OF p x(1)] same_length_equiv(3) by metis
    then show "y \<in> f ` S \<inter> ?K" using x pmapD(4)[OF p x(1)] by auto
  qed
  moreover have "card (f ` (S \<inter> ?K)) = card (S \<inter> ?K)"
    using inj_on_subset[OF pmapD(3)[OF p]] by (intro card_image) blast
  ultimately have c: "card (?K \<inter> f ` S) = card (?K \<inter> S)" by (simp add: Int_commute)
  have "card (?K - f ` S) = card (?K - S)"
    using c card_Diff_subset_Int[of ?K "f ` S"] card_Diff_subset_Int[of ?K S] fin by simp
  moreover have "?K - f ` S = {x. x < n \<and> x \<notin> f ` S \<and> same_cycle_length t i x}"
    "?K - S = {x. x < n \<and> x \<notin> S \<and> same_cycle_length t i x}" by auto
  ultimately show ?thesis by simp
qed

lemma two_open:
  assumes p: "pmap n t S f q" and i: "i < n" "i \<notin> S" and i': "i' < n" "i' \<notin> S" "i' \<noteq> i" "same_cycle_length t i i'"
  shows "\<not> set (bd2_options n q i) \<subseteq> {x}"
proof
  assume "set (bd2_options n q i) \<subseteq> {x}"
  then have "card {x. x < n \<and> x \<notin> f ` S \<and> same_cycle_length t i x} \<le> 1"
    using pmapD(7)[OF p i] card_mono[of "{x}"] by fastforce
  moreover have "{i, i'} \<subseteq> {x. x < n \<and> x \<notin> S \<and> same_cycle_length t i x}"
    using i i' same_length_equiv(1) by auto
  then have "card {i, i'} \<le> card {x. x < n \<and> x \<notin> S \<and> same_cycle_length t i x}" by (intro card_mono) auto
  ultimately show False using free_count[OF p, of i] i'(3) by simp
qed

lemma pmap_options_ne:
  assumes p: "pmap n t S f q" and i: "i < n"
  shows "set (bd2_options n q i) \<noteq> {}"
proof (cases "i \<in> S")
  case False
  have "i \<in> {x. x < n \<and> x \<notin> S \<and> same_cycle_length t i x}" using i False same_length_equiv(1) by simp
  then have "card {x. x < n \<and> x \<notin> S \<and> same_cycle_length t i x} > 0" by (intro card_gt_0_iff[THEN iffD2]) auto
  then have "card {x. x < n \<and> x \<notin> f ` S \<and> same_cycle_length t i x} > 0" using free_count[OF p, of i] by simp
  then show ?thesis using pmapD(7)[OF p i False] by (metis card.empty less_irrefl)
qed (simp add: pmapD(6)[OF p])

text \<open>The pairs that may be fixed.\<close>

definition may_fix :: "nat \<Rightarrow> (nat \<Rightarrow> nat) \<Rightarrow> nat set \<Rightarrow> (nat \<Rightarrow> nat) \<Rightarrow> nat \<times> nat \<Rightarrow> bool" where
  "may_fix n t S f x \<longleftrightarrow> fst x < n \<and> snd x < n \<and> (if fst x \<in> S then snd x = f (fst x)
     else snd x \<notin> f ` S \<and> same_cycle_length t (fst x) (snd x))"

lemma pmap_fix:
  assumes p: "pmap n t S f q" and m: "may_fix n t S f (i, j)"
  shows "\<exists>q'. bit_fix n q i j = (True, q') \<and> pmap n t (insert i S) (f(i := j)) q'"
proof -
  have ij: "i < n" "j < n" using m by (simp_all add: may_fix_def)
  have jo: "j \<in> set (bd2_options n q i)"
    using m pmapD(6)[OF p] pmapD(7)[OF p ij(1)] by (cases "i \<in> S") (simp_all add: may_fix_def)
  obtain ok q' where f: "bit_fix n q i j = (ok, q')" by fastforce
  have ok: ok
  proof (rule ccontr)
    assume "\<not> ok"
    then obtain i' where i': "i' < n" "i' \<noteq> i" "set (bd2_options n q i') \<subseteq> {j}"
      using bit.fix_fails[OF pmapD(1)[OF p] ij(1) jo TrueI] f by auto
    show False
    proof (cases "i' \<in> S")
      case True
      then have "f i' = j" using pmapD(6)[OF p True] i'(3) by simp
      then show False using m True i'(2) pmapD(3)[OF p] by (auto simp: may_fix_def inj_on_def split: if_splits)
    next
      case False
      have "j \<in> set (bd2_options n q i')" using pmap_options_ne[OF p i'(1)] i'(3) by (metis insertI1 subset_singletonD)
      then have s: "same_cycle_length t i' j" "j \<notin> f ` S" using pmapD(7)[OF p i'(1) False] by auto
      then have "i \<notin> S" "same_cycle_length t i j" using m by (auto simp: may_fix_def split: if_splits)
      then have "same_cycle_length t i' i" using s(1) same_length_equiv(2,3) by blast
      then show False using two_open[OF p i'(1) False ij(1) \<open>i \<notin> S\<close>] i'(2,3) by simp
    qed
  qed
  note o = bit.fix_ok[OF pmapD(1)[OF p] ij(1) jo TrueI f[unfolded eqTrueI[OF ok]]]
  have "pmap n t (insert i S) (f(i := j)) q'"
  proof (cases "i \<in> S")
    case True
    have e: "f(i := j) = f" "insert i S = S" using m True by (auto simp: may_fix_def)
    have jS: "j \<in> f ` S" using m True by (auto simp: may_fix_def)
    have "set (bd2_options n q' k) = set (bd2_options n q k)" if k: "k < n" for k
    proof (cases "k = i")
      case False
      have "j \<notin> set (bd2_options n q k)"
      proof (cases "k \<in> S")
        case kS: True
        have "f k \<noteq> f i" using pmapD(3)[OF p] kS True False by (auto simp: inj_on_def)
        then show ?thesis using pmapD(6)[OF p kS] m True by (simp add: may_fix_def)
      next
        case kS: False
        then show ?thesis using pmapD(7)[OF p k kS] jS by simp
      qed
      then show ?thesis using o k False by simp
    qed (use o pmapD(6)[OF p True] m True in \<open>simp add: may_fix_def\<close>)
    then show ?thesis unfolding e using p o by (auto simp: pmap_def subset_iff)
  next
    case False
    have j: "j \<notin> f ` S" "same_cycle_length t i j" using m False by (simp_all add: may_fix_def)
    have img: "(f(i := j)) ` insert i S = insert j (f ` S)" using False by auto
    have eq: "(f(i := j)) k = f k" if "k \<in> S" for k using that False by auto
    have "inj_on (f(i := j)) (insert i S)"
      using pmapD(3)[OF p] False j(1) by (auto simp: inj_on_def)
    moreover have "set (bd2_options n q' k) = {f k}" if k: "k \<in> S" for k
    proof -
      have "k < n" "k \<noteq> i" using k pmapD(2)[OF p] False by auto
      then show ?thesis using o pmapD(6)[OF p k] j(1) k by auto
    qed
    moreover have "set (bd2_options n q' k) = {x. x < n \<and> x \<notin> insert j (f ` S) \<and> same_cycle_length t k x}"
      if k: "k < n" "k \<noteq> i" "k \<notin> S" for k using o k pmapD(7)[OF p k(1,3)] by auto
    ultimately show ?thesis
      unfolding pmap_def img using o p ij j eq False by (auto simp: pmap_def)
  qed
  then show ?thesis using f ok by simp
qed

lemma fix_all_pmap:
  assumes "pmap n t S f q" "distinct (map fst xs)" "distinct (map snd xs)" "\<forall>x\<in>set xs. may_fix n t S f x"
  shows "\<exists>q' f'. fix_all n xs (Bit q) = (True, Bit q') \<and> pmap n t (S \<union> fst ` set xs) f' q' \<and>
    (\<forall>x\<in>S. f' x = f x) \<and> (\<forall>x\<in>set xs. f' (fst x) = snd x)"
  using assms
proof (induction xs arbitrary: S f q)
  case (Cons x xs)
  obtain i j where x: "x = (i, j)" by fastforce
  have m: "may_fix n t S f (i, j)" using Cons.prems(4) x by simp
  obtain q1 where q1: "bit_fix n q i j = (True, q1)" "pmap n t (insert i S) (f(i := j)) q1"
    using pmap_fix[OF Cons.prems(1) m] by blast
  have ext: "(f(i := j)) y = f y" if "y \<in> S" for y using m that by (auto simp: may_fix_def)
  have rest: "\<forall>y\<in>set xs. may_fix n t (insert i S) (f(i := j)) y"
  proof
    fix y assume y: "y \<in> set xs"
    have ne: "fst y \<noteq> i" "snd y \<noteq> j" using Cons.prems(2,3) y x by auto
    have my: "may_fix n t S f y" using Cons.prems(4) y by simp
    have "(f(i := j)) ` insert i S \<subseteq> insert j (f ` S)" by auto
    then show "may_fix n t (insert i S) (f(i := j)) y" using my ne by (auto simp: may_fix_def split: if_splits)
  qed
  have d: "distinct (map fst xs)" "distinct (map snd xs)" using Cons.prems(2,3) by simp_all
  obtain q' f' where r: "fix_all n xs (Bit q1) = (True, Bit q')" "pmap n t (insert i S \<union> fst ` set xs) f' q'"
    "\<forall>y\<in>insert i S. f' y = (f(i := j)) y" "\<forall>y\<in>set xs. f' (fst y) = snd y"
    using Cons.IH[OF q1(2) d rest] by blast
  have "insert i S \<union> fst ` set xs = S \<union> fst ` set (x # xs)" using x by auto
  then show ?case using r q1(1) ext x by (intro exI[of _ q'] exI[of _ f']) auto
qed auto

section \<open>Whole cycles\<close>

definition commuting :: "(nat \<Rightarrow> nat) \<Rightarrow> nat set \<Rightarrow> (nat \<Rightarrow> nat) \<Rightarrow> bool" where
  "commuting t S f \<longleftrightarrow> t ` S \<subseteq> S \<and> (\<forall>i\<in>S. f (t i) = t (f i))"

lemma commuting_iterate: "commuting t S f \<Longrightarrow> i \<in> S \<Longrightarrow> (t ^^ k) i \<in> S \<and> f ((t ^^ k) i) = (t ^^ k) (f i)"
  by (induction k) (auto simp: commuting_def)

lemma commuting_image: "commuting t S f \<Longrightarrow> t ` (f ` S) \<subseteq> f ` S"
  by (force simp: commuting_def)

text \<open>The symmetries left are those that extend the map.\<close>

lemma live_pmap:
  assumes b: "bit_setting fl n t M" and p: "pmap n t S f q"
  shows "live fl n t (Bit q) = {s \<in> syms n (diag_of fl t). \<forall>i\<in>S. s i = f i}"
proof (intro equalityI subsetI)
  fix s assume "s \<in> live fl n t (Bit q)"
  then have s: "s \<in> syms n (diag_of fl t)" "\<forall>i<n. s i \<in> set (bd2_options n q i)" by (auto simp: live_def pp_perms_def)
  have "s i = f i" if "i \<in> S" for i using s(2) pmapD(2,6)[OF p] that by auto
  then show "s \<in> {s \<in> syms n (diag_of fl t). \<forall>i\<in>S. s i = f i}" using s(1) by simp
next
  fix s assume "s \<in> {s \<in> syms n (diag_of fl t). \<forall>i\<in>S. s i = f i}"
  then have s: "s \<in> syms n (diag_of fl t)" "\<forall>i\<in>S. s i = f i" by simp_all
  then have sp: "perm_on n s" "\<forall>i<n. s (t i) = t (s i)" using bit_setting_syms[OF b] by simp_all
  have t: "perm_on n t" using b by (simp add: bit_setting_def)
  have "s i \<in> set (bd2_options n q i)" if i: "i < n" for i
  proof (cases "i \<in> S")
    case False
    have "s i \<notin> f ` S"
    proof
      assume "s i \<in> f ` S"
      then obtain k where k: "k \<in> S" "s i = s k" using s(2) by auto
      then have "k < n" using pmapD(2)[OF p] by auto
      then show False using perm_on_inj[OF sp(1) i \<open>k < n\<close>] k False by simp
    qed
    then show ?thesis
      using pmapD(7)[OF p i False] perm_on_less[OF sp(1) i] commuting_same_length[OF sp(1) t sp(2) i] by simp
  qed (use pmapD(6)[OF p] s(2) in simp)
  then show "s \<in> live fl n t (Bit q)" using s(1) sp(1) by (simp add: live_def pp_perms_def)
qed

lemma position_nth: "x \<in> set c \<Longrightarrow> position c x < length c \<and> c ! position c x = x"
proof (induction c)
  case (Cons a c)
  then show ?case by (cases "a = x") (auto simp: position_def)
qed simp

lemma cycle_zero: "is_cycle t c \<Longrightarrow> k < length c \<Longrightarrow> (t ^^ k) (c ! 0) = c ! k"
  using cycle_iterate[of t c 0 k] by (cases c) (auto simp: is_cycle_def)

text \<open>The three cases of \<open>propagateDecision\<close> fix the same pairs.\<close>

lemma propagate_pairs:
  assumes c: "is_cycle t c" "c ! 0 = i" "is_cycle t cj" "cj ! 0 = j" "length cj = length c"
    and cyc: "cp_cycle n (mc_diag M) (int i) = Inr c" "cp_cycle n (mc_diag M) (int j) = Inr cj"
    and dec: "pp_permOf n p i = int j"
  shows "propagateDecision n M p i = Inr (fix_all n (map (\<lambda>k. (c ! k, cj ! k)) [1..<length c]) p)"
proof -
  let ?P = "map (\<lambda>k. (c ! k, cj ! k)) [1..<length c]"
  have cj: "cj ! k = (t ^^ k) j" if "k < length c" for k using cycle_zero[OF c(3)] c(4,5) that by simp
  have ci: "c ! k = (t ^^ k) i" if "k < length c" for k using cycle_zero[OF c(1)] c(2) that by simp
  consider "j = i" | "j \<noteq> i" "j \<in> set c" | "j \<noteq> i" "j \<notin> set c" by blast
  then show ?thesis
  proof cases
    case 1
    have e: "map (\<lambda>k. (c ! k, c ! k)) [1..<length c] = ?P" using cj ci 1 by (intro map_cong) auto
    have "propagateDecision n M p i = Inr (fix_all n (map (\<lambda>k. (c ! k, c ! k)) [1..<length c]) p)"
      using cyc(1) dec 1 by (simp add: propagateDecision_def Let_def)
    then show ?thesis unfolding e .
  next
    case 2
    note pn = position_nth[OF 2(2)]
    have "c ! ((k + position c j) mod length c) = cj ! k" if k: "k < length c" for k
      using cycle_iterate[OF c(1), of "position c j" k] pn cj[OF k] by (simp add: add.commute)
    then have e: "map (\<lambda>k. (c ! k, c ! ((k + position c j) mod length c))) [1..<length c] = ?P" by (intro map_cong) auto
    have "propagateDecision n M p i = Inr (fix_all n (map (\<lambda>k. (c ! k, c ! ((k + position c j) mod length c))) [1..<length c]) p)"
      using cyc(1) dec 2 by (auto simp: propagateDecision_def Let_def)
    then show ?thesis unfolding e .
  next
    case 3
    then have "int j \<notin> int ` set c" by auto
    then show ?thesis using cyc dec 3 c(5) by (simp add: propagateDecision_def Let_def)
  qed
qed

lemma bit_fix_cycle:
  assumes b: "bit_setting fl n t M" and p: "pmap n t S f q" "commuting t S f" and m: "may_fix n t S f (i, j)"
  shows "\<exists>q' f' S'. fixAndPropagate n M (Bit q) i j = Inr (True, Bit q') \<and> pmap n t S' f' q' \<and> commuting t S' f' \<and>
    S' = S \<union> {(t ^^ k) i | k. True} \<and> (\<forall>x\<in>S. f' x = f x) \<and> (\<forall>k. f' ((t ^^ k) i) = (t ^^ k) j)"
proof -
  have t: "perm_on n t" and ij: "i < n" "j < n" using b m by (simp_all add: bit_setting_def may_fix_def)
  obtain c where c: "cp_cycle n (mc_diag M) (int i) = Inr c" "is_cycle t c" "set c \<subseteq> {..<n}" "c ! 0 = i"
    using b ij(1) by (auto simp: bit_setting_def)
  obtain cj where cj: "cp_cycle n (mc_diag M) (int j) = Inr cj" "is_cycle t cj" "set cj \<subseteq> {..<n}" "cj ! 0 = j"
    using b ij(2) by (auto simp: bit_setting_def)
  have ne: "0 < length c" "0 < length cj" using c(2) cj(2) by (simp_all add: is_cycle_def)
  have mem: "i \<in> set c" "j \<in> set cj" using c(4) cj(4) ne nth_mem by metis+
  have scl: "same_cycle_length t i j" using m pmapD(5)[OF p(1)] by (auto simp: may_fix_def split: if_splits)
  then have len: "length cj = length c" using same_length_iff[OF c(2) cj(2) mem] by simp
  have ck: "c ! k = (t ^^ k) i" "cj ! k = (t ^^ k) j" if "k < length c" for k
    using cycle_zero[OF c(2)] cycle_zero[OF cj(2)] c(4) cj(4) len that by simp_all
  let ?P = "map (\<lambda>k. (c ! k, cj ! k)) [0..<length c]"
  have "map fst ?P = c" "map snd ?P = cj" using len by (auto intro!: nth_equalityI)
  then have dist: "distinct (map fst ?P)" "distinct (map snd ?P)" using c(2) cj(2) by (simp_all add: is_cycle_def)
  have fS: "f ` S \<subseteq> {..<n}" using pmapD(4)[OF p(1)] by auto
  have "may_fix n t S f x" if "x \<in> set ?P" for x
  proof -
    have "x \<in> (\<lambda>k. (c ! k, cj ! k)) ` {0..<length c}" using that unfolding set_map set_upt .
    then obtain k where k: "k < length c" "x = ((t ^^ k) i, (t ^^ k) j)" using ck by auto
    have "same_cycle_length t ((t ^^ k) i) ((t ^^ k) j)"
      using iterate_same_length[OF t ij(1), of k] iterate_same_length[OF t ij(2), of k] scl same_length_equiv(2,3) by metis
    moreover have "(t ^^ k) j = f ((t ^^ k) i)" if "(t ^^ k) i \<in> S"
    proof -
      have "i \<in> S" using closed_back[OF t pmapD(2)[OF p(1)] _ ij(1) that] p(2) by (simp add: commuting_def)
      then show ?thesis using commuting_iterate[OF p(2), of i k] m by (simp add: may_fix_def)
    qed
    moreover have "(t ^^ k) j \<notin> f ` S" if "(t ^^ k) i \<notin> S"
    proof
      assume "(t ^^ k) j \<in> f ` S"
      then have "j \<in> f ` S" using closed_back[OF t fS commuting_image[OF p(2)] ij(2)] by blast
      moreover have "i \<notin> S" using commuting_iterate[OF p(2)] that by blast
      ultimately show False using m by (simp add: may_fix_def)
    qed
    ultimately show ?thesis using k iterate_less[OF t] ij by (simp add: may_fix_def)
  qed
  then obtain q' f' where r: "fix_all n ?P (Bit q) = (True, Bit q')" "pmap n t (S \<union> fst ` set ?P) f' q'"
    "\<forall>x\<in>S. f' x = f x" "\<forall>x\<in>set ?P. f' (fst x) = snd x"
    using fix_all_pmap[OF p(1) dist] by blast
  have P: "?P = (i, j) # map (\<lambda>k. (c ! k, cj ! k)) [1..<length c]" using ne(1) c(4) cj(4) by (simp add: upt_rec)
  obtain q1 where q1: "bit_fix n q i j = (True, q1)" "pmap n t (insert i S) (f(i := j)) q1" using pmap_fix[OF p(1) m] by blast
  have f1: "pp_fix n (Bit q) i j = (True, Bit q1)" using q1(1) by simp
  have rest: "fix_all n (map (\<lambda>k. (c ! k, cj ! k)) [1..<length c]) (Bit q1) = (True, Bit q')" using r(1) f1 unfolding P by simp
  have run: "fixAndPropagate n M (Bit q) i j = Inr (True, Bit q')"
  proof (cases "mc_diagIsId M")
    case True
    then have "t i = i" using b ij(1) by (auto simp: bit_setting_def)
    have "length c = 1"
    proof (rule ccontr)
      assume "length c \<noteq> 1"
      then have "1 < length c" using ne(1) by linarith
      then have "c ! 1 = c ! 0" using ck(1)[of 1] \<open>t i = i\<close> c(4) by simp
      then show False using c(2) \<open>1 < length c\<close> by (auto simp: is_cycle_def nth_eq_iff_index_eq)
    qed
    then show ?thesis using rest f1 True by (simp add: fixAndPropagate_def)
  next
    case False
    have "pp_wf n (Bit q1)" using pmapD(1)[OF q1(2)] by simp
    moreover have o: "set (pp_options n (Bit q1) i) = {j}" using pmapD(6)[OF q1(2), of i] by simp
    ultimately have "pp_fixed n (Bit q1) i" using pp.fixed_iff[of n "Bit q1" i] ij(1) by blast
    then have "pp_permOf n (Bit q1) i = int j"
      using pp.perm_of_fixed[OF \<open>pp_wf n (Bit q1)\<close> ij(1)] o by auto
    from propagate_pairs[OF c(2,4) cj(2,4) len c(1) cj(1) this] show ?thesis
      using rest f1 False by (simp add: fixAndPropagate_def)
  qed
  have per: "(t ^^ (k mod length c)) i = (t ^^ k) i" "(t ^^ (k mod length c)) j = (t ^^ k) j" for k
    using cycle_iterate[OF c(2) ne(1), of k] cycle_iterate[OF cj(2) ne(2), of k] ck[of "k mod length c"] ne(1) c(4) cj(4) len by simp_all
  have orb: "fst ` set ?P = {(t ^^ k) i | k. True}"
  proof (intro equalityI subsetI)
    fix x assume "x \<in> {(t ^^ k) i | k. True}"
    then obtain k where "x = (t ^^ k) i" by blast
    then have "x = c ! (k mod length c)" using per(1)[of k] ck(1)[of "k mod length c"] ne(1) by simp
    then show "x \<in> fst ` set ?P" using ne(1) by force
  qed (use ck in auto)
  have val: "f' ((t ^^ k) i) = (t ^^ k) j" for k
  proof -
    have k: "k mod length c < length c" using ne(1) by simp
    then have "(c ! (k mod length c), cj ! (k mod length c)) \<in> set ?P" by auto
    then show ?thesis using r(4) ck[OF k] per[of k] by fastforce
  qed
  have "commuting t (S \<union> {(t ^^ k) i | k. True}) f'"
    unfolding commuting_def
  proof (intro conjI subsetI ballI)
    fix x assume "x \<in> t ` (S \<union> {(t ^^ k) i | k. True})"
    moreover have "t ((t ^^ k) i) \<in> {(t ^^ k) i | k. True}" for k by (rule CollectI, rule exI[of _ "Suc k"]) simp
    ultimately show "x \<in> S \<union> {(t ^^ k) i | k. True}" using p(2) by (auto simp: commuting_def)
  next
    fix x assume "x \<in> S \<union> {(t ^^ k) i | k. True}"
    then show "f' (t x) = t (f' x)"
    proof
      assume "x \<in> S"
      then show ?thesis using r(3) p(2) by (auto simp: commuting_def)
    next
      assume "x \<in> {(t ^^ k) i | k. True}"
      then obtain k where "x = (t ^^ k) i" by blast
      then show ?thesis using val[of "Suc k"] val[of k] by simp
    qed
  qed
  then show ?thesis using run r(2,3) val unfolding orb by blast
qed


section \<open>The states of the search\<close>

definition bit_ready :: "flags \<Rightarrow> nat \<Rightarrow> (nat \<Rightarrow> nat) \<Rightarrow> mincheck \<Rightarrow> pperm \<Rightarrow> bool" where
  "bit_ready fl n t M p \<longleftrightarrow> bit_setting fl n t M \<and> (\<exists>q S f. p = Bit q \<and> pmap n t S f q \<and> commuting t S f)"

lemma bit_readyE:
  assumes "bit_ready fl n t M p"
  obtains q S f where "p = Bit q" "bit_setting fl n t M" "perm_on n t" "pmap n t S f q" "commuting t S f" "pp_wf n p"
proof -
  obtain q S f where *: "p = Bit q" "bit_setting fl n t M" "pmap n t S f q" "commuting t S f"
    using assms by (auto simp: bit_ready_def)
  moreover have "perm_on n t" using *(2) by (simp add: bit_setting_def)
  moreover have "pp_wf n p" using *(1) pmapD(1)[OF *(3)] by simp
  ultimately show thesis using that by blast
qed

lemma option_may_fix:
  assumes p: "pmap n t S f q" and i: "i < n" and j: "j \<in> set (bd2_options n q i)"
  shows "may_fix n t S f (i, j)"
proof (cases "i \<in> S")
  case True
  then show ?thesis using pmapD(6)[OF p True] pmapD(4)[OF p True] j i by (simp add: may_fix_def)
next
  case False
  then show ?thesis using pmapD(7)[OF p i False] j i by (simp add: may_fix_def)
qed

lemma pmap_mono:
  assumes p: "pmap n t S f q" and p': "pmap n t S' f' q'" and S: "S \<subseteq> S'" "\<forall>x\<in>S. f' x = f x" and m: "m < n"
  shows "set (bd2_options n q' m) \<subseteq> set (bd2_options n q m)"
proof -
  have img: "f ` S \<subseteq> f' ` S'" using S by force
  consider "m \<in> S" | "m \<in> S'" "m \<notin> S" | "m \<notin> S'" "m \<notin> S" using S(1) by blast
  then show ?thesis
  proof cases
    case 1
    then have "m \<in> S'" using S(1) by blast
    then show ?thesis using pmapD(6)[OF p 1] pmapD(6)[OF p'] S(2) 1 by simp
  next
    case 2
    have "f' m \<notin> f ` S"
    proof
      assume "f' m \<in> f ` S"
      then obtain k where k: "k \<in> S" "f' m = f' k" using S(2) by auto
      then have "m = k" using pmapD(3)[OF p'] 2(1) S(1) by (auto simp: inj_on_def)
      then show False using k(1) 2(2) by simp
    qed
    then show ?thesis using pmapD(6)[OF p' 2(1)] pmapD(7)[OF p m 2(2)] pmapD(4,5)[OF p' 2(1)] by simp
  next
    case 3
    then show ?thesis using pmapD(7)[OF p' m 3(1)] pmapD(7)[OF p m 3(2)] img by auto
  qed
qed

lemma pmap_keeps_fixed:
  assumes p: "pmap n t S f q" and p': "pmap n t S' f' q'" and S: "S \<subseteq> S'" "\<forall>x\<in>S. f' x = f x"
  shows "keeps_fixed n (Bit q) (Bit q')"
  unfolding keeps_fixed_def
proof (intro allI impI)
  fix m assume m: "m < n" and "pp_fixed n (Bit q) m"
  then obtain x where "set (bd2_options n q m) = {x}" using bit.fixed_iff[OF pmapD(1)[OF p] m] by auto
  then have "set (bd2_options n q' m) = {x}"
    using pmap_mono[OF p p' S m] pmap_options_ne[OF p' m] by (metis subset_singletonD)
  then show "pp_fixed n (Bit q') m" using bit.fixed_iff[OF pmapD(1)[OF p'] m] by auto
qed

text \<open>Fixing a row to one of its options.\<close>

lemma bit_fix_option:
  assumes r: "bit_ready fl n t M p" and i: "i < n" and j: "j \<in> set (pp_options n p i)"
  shows "\<exists>q'. fixAndPropagate n M p i j = Inr (True, q') \<and> bit_ready fl n t M q' \<and> keeps_fixed n p q' \<and>
    pp_fixed n q' i \<and> live fl n t q' = {s \<in> live fl n t p. s i = j}"
proof -
  obtain q S f where q: "p = Bit q" "bit_setting fl n t M" "perm_on n t" "pmap n t S f q" "commuting t S f"
    using bit_readyE[OF r] by metis
  have "may_fix n t S f (i, j)" using option_may_fix[OF q(4) i] j q(1) by simp
  from bit_fix_cycle[OF q(2,4,5) this] obtain q' f' S' where R: "fixAndPropagate n M (Bit q) i j = Inr (True, Bit q')"
    "pmap n t S' f' q'" "commuting t S' f'" "S' = S \<union> {(t ^^ k) i | k. True}" "\<forall>x\<in>S. f' x = f x" "\<forall>k. f' ((t ^^ k) i) = (t ^^ k) j"
    by (elim exE conjE)
  have iS: "i \<in> S'" "f' i = j" using R(4) R(6)[rule_format, of 0] by (auto intro: exI[of _ 0])
  have SS: "S \<subseteq> S'" using R(4) by blast
  have rd: "bit_ready fl n t M (Bit q')" using q(2) R(2,3) by (auto simp: bit_ready_def)
  have fx: "pp_fixed n (Bit q') i" using bit.fixed_iff[OF pmapD(1)[OF R(2)] i] pmapD(6)[OF R(2) iS(1)] by simp
  have it: "s ((t ^^ k) i) = (t ^^ k) (s i)" if s: "s \<in> syms n (diag_of fl t)" for s k
  proof (induction k)
    case (Suc k)
    then show ?case using s bit_setting_syms[OF q(2)] iterate_less[OF q(3) i, of k] by simp
  qed simp
  have "live fl n t (Bit q') = {s \<in> live fl n t (Bit q). s i = j}"
    unfolding live_pmap[OF q(2) R(2)] live_pmap[OF q(2,4)]
  proof (intro equalityI subsetI)
    fix s assume "s \<in> {s \<in> syms n (diag_of fl t). \<forall>i\<in>S'. s i = f' i}"
    then show "s \<in> {s \<in> {s \<in> syms n (diag_of fl t). \<forall>i\<in>S. s i = f i}. s i = j}"
      using iS SS R(5) by (auto simp: subset_iff)
  next
    fix s assume "s \<in> {s \<in> {s \<in> syms n (diag_of fl t). \<forall>i\<in>S. s i = f i}. s i = j}"
    then have s: "s \<in> syms n (diag_of fl t)" "\<forall>i\<in>S. s i = f i" "s i = j" by simp_all
    have "s x = f' x" if "x \<in> S'" for x using that s(2,3) it[OF s(1)] R(5,6) unfolding R(4) by auto
    then show "s \<in> {s \<in> syms n (diag_of fl t). \<forall>i\<in>S'. s i = f' i}" using s(1) by simp
  qed
  then show ?thesis
    unfolding q(1) using R(1) rd fx pmap_keeps_fixed[OF q(4) R(2) SS R(5)] by (intro exI[of _ "Bit q'"]) simp
qed

text \<open>A row that is fixed because nothing else is left for it is a fixed point of the diagonal, and so is its image.\<close>

lemma lone_row:
  assumes t: "perm_on n t" and p: "pmap n t S f q" "commuting t S f" and i: "i < n" "i \<notin> S" "set (bd2_options n q i) = {x}"
  shows "t i = i" "t x = x"
proof -
  have fS: "f ` S \<subseteq> {..<n}" using pmapD(4)[OF p(1)] by auto
  have tS: "t ` S \<subseteq> S" using p(2) by (simp add: commuting_def)
  have "t i \<notin> S" using closed_back[OF t pmapD(2)[OF p(1)] tS i(1), of 1] i(2) by auto
  then show "t i = i"
    using two_open[OF p(1) i(1,2), of "t i" x] perm_on_less[OF t i(1)] iterate_same_length[OF t i(1), of 1] i(3) by auto
  have x: "x < n" "x \<notin> f ` S" "same_cycle_length t i x" using pmapD(7)[OF p(1) i(1,2)] i(3) by auto
  have "t x \<notin> f ` S" using closed_back[OF t fS commuting_image[OF p(2)] x(1), of 1] x(2) by auto
  moreover have "same_cycle_length t i (t x)"
    using same_length_equiv(3)[OF x(3)] iterate_same_length[OF t x(1), of 1] by simp
  ultimately have "t x \<in> set (bd2_options n q i)" using pmapD(7)[OF p(1) i(1,2)] perm_on_less[OF t x(1)] by simp
  then show "t x = x" using i(3) by simp
qed

lemma bit_full_member:
  assumes r: "bit_ready fl n t M p" and F: "pp_fullDefined n p"
  shows "perm_vec n (pp_getPerm n p)" "vec_perm (pp_getPerm n p) \<in> live fl n t p"
proof -
  obtain q S f where q: "p = Bit q" "bit_setting fl n t M" "perm_on n t" "pmap n t S f q" "commuting t S f"
    using bit_readyE[OF r] by metis
  note wf = pmapD(1)[OF q(4)]
  let ?s = "vec_perm (pp_getPerm n p)"
  have fx: "bit_fixed q i" if "i < n" for i using F q(1) bit.full_defined_iff[OF wf] that by simp
  have gp: "pp_getPerm n p = map (bit_permOf q) [0..<n]" using bit.get_perm_full[OF wf] F q(1) by simp
  have o: "set (bd2_options n q i) = {?s i}" if i: "i < n" for i
    using bit.perm_of_fixed[OF wf i fx[OF i]] i by (simp add: gp vec_perm_def)
  have on_S: "?s i = f i" if "i \<in> S" for i using o[of i] pmapD(2,6)[OF q(4)] that by auto
  have off_S: "?s i < n" "?s i \<notin> f ` S" "same_cycle_length t i (?s i)" if "i < n" "i \<notin> S" for i
    using o[OF that(1)] pmapD(7)[OF q(4) that] by auto
  have lt: "?s i < n" if "i < n" for i using on_S pmapD(4)[OF q(4)] off_S(1) that by (cases "i \<in> S") auto
  have P: "perm_on n ?s"
  proof (rule perm_onI[OF lt])
    fix i k assume ik: "i < n" "k < n" "?s i = ?s k"
    show "i = k"
    proof (rule ccontr)
      assume ne: "i \<noteq> k"
      consider "i \<in> S" "k \<in> S" | "i \<in> S" "k \<notin> S" | "i \<notin> S" "k \<in> S" | "i \<notin> S" "k \<notin> S" by blast
      then show False
      proof cases
        case 1
        then show False using ne ik(3) on_S pmapD(3)[OF q(4)] by (auto simp: inj_on_def)
      next
        case 4
        have "same_cycle_length t i k"
          using off_S(3)[OF ik(1) 4(1)] off_S(3)[OF ik(2) 4(2)] ik(3) same_length_equiv(2,3) by metis
        then show False using two_open[OF q(4) ik(1) 4(1) ik(2) 4(2)] ne o[OF ik(1)] by auto
      qed (use ik on_S off_S(2) in force)+
    qed
  qed
  have "?s (t i) = t (?s i)" if i: "i < n" for i
  proof (cases "i \<in> S")
    case True
    then show ?thesis using q(5) on_S by (auto simp: commuting_def)
  next
    case False
    show ?thesis using lone_row[OF q(3,4,5) i False o[OF i]] by simp
  qed
  then have S: "?s \<in> syms n (diag_of fl t)" using P bit_setting_syms[OF q(2)] by simp
  then show "vec_perm (pp_getPerm n p) \<in> live fl n t p" using on_S unfolding q(1) live_pmap[OF q(2,4)] by simp
  have "length (pp_getPerm n p) = n" by (simp add: gp)
  moreover have "\<forall>x\<in>set (pp_getPerm n p). 0 \<le> x"
    using bit.perm_of_fixed[OF wf _ fx] by (auto simp: gp)
  ultimately show "perm_vec n (pp_getPerm n p)" using P by (auto simp: perm_vec_def)
qed

section \<open>The contract\<close>

lemma bit_options_ne: "bit_ready fl n t M p \<Longrightarrow> i < n \<Longrightarrow> pp_options n p i \<noteq> []"
  using pmap_options_ne by (auto simp: bit_ready_def)

lemma bit_extend:
  assumes p: "bit_ready fl n t M p"
  shows "\<exists>q. extendPerm fl n M p = Inr q \<and> bit_ready fl n t M q \<and> keeps_fixed n p q \<and> live fl n t q \<subseteq> live fl n t p \<and> pp_fullDefined n q"
proof (cases "pp_fullDefined n p")
  case True
  then show ?thesis using p by (simp add: extendPerm_def)
next
  case False
  have b: "fl_bit fl" using p by (auto simp: bit_ready_def bit_setting_def)
  have wf: "pp_wf n q" if "bit_ready fl n t M q" for q by (rule bit_readyE[OF that])
  have "\<exists>q. extendPerm fl n M p = Inr q \<and> bit_ready fl n t M q \<and> keeps_fixed n p q \<and> live fl n t q \<subseteq> live fl n t p \<and> fixed_upto n n q"
  proof (rule extend_loop[where R = "bit_ready fl n t M" and p = p])
    show "bit_ready fl n t M p" "\<not> (\<not> fl_bit fl \<or> pp_fullDefined n p)" using p False b by simp_all
    show "pp_options n q i \<noteq> []" if "bit_ready fl n t M q" "i < n" for q i by (rule bit_options_ne[OF that])
    fix q i j assume q: "bit_ready fl n t M q" "i < n" "j \<in> set (pp_options n q i)"
    from bit_fix_option[OF q] show "\<exists>q'. fixAndPropagate n M q i j = Inr (True, q') \<and> bit_ready fl n t M q' \<and> keeps_fixed n q q' \<and>
        pp_fixed n q' i \<and> live fl n t q' \<subseteq> live fl n t q" by blast
  qed (rule wf)
  then obtain q where q: "extendPerm fl n M p = Inr q" "bit_ready fl n t M q" "keeps_fixed n p q"
    "live fl n t q \<subseteq> live fl n t p" "fixed_upto n n q" by blast
  have "pp_fullDefined n q" using pp.full_defined_iff[OF wf[OF q(2)]] q(5) by (simp add: fixed_upto_def)
  then show ?thesis using q by blast
qed

lemma bit_least:
  assumes r: "bit_ready fl n t M p" and v: "v < n" and i: "i = Min (set (pp_invOptions n p v))"
  shows "i < n" "v \<in> set (pp_options n p i)"
proof -
  obtain q S f where q: "p = Bit q" "pmap n t S f q" and wf: "pp_wf n p" using bit_readyE[OF r] by metis
  have "set (pp_invOptions n p v) \<noteq> {}"
  proof (cases "v \<in> f ` S")
    case True
    then obtain k where k: "k \<in> S" "v = f k" by blast
    then have "k \<in> set (pp_invOptions n p v)"
      using pp.inv_options_iff[OF wf v, of k] pmapD(6)[OF q(2) k(1)] pmapD(2)[OF q(2)] q(1) by auto
    then show ?thesis by auto
  next
    case False
    have "card {x. x < n \<and> x \<notin> f ` S \<and> same_cycle_length t v x} > 0"
      using v False same_length_equiv(1) by (intro card_gt_0_iff[THEN iffD2]) auto
    then have "card {x. x < n \<and> x \<notin> S \<and> same_cycle_length t v x} > 0" using free_count[OF q(2), of v] by simp
    then obtain k where k: "k < n" "k \<notin> S" "same_cycle_length t v k" by (auto simp: card_gt_0_iff)
    then have "v \<in> set (bd2_options n q k)" using pmapD(7)[OF q(2) k(1,2)] v False same_length_equiv(2) by simp
    then have "k \<in> set (pp_invOptions n p v)" using pp.inv_options_iff[OF wf v, of k] k(1) q(1) by simp
    then show ?thesis by auto
  qed
  then have "i \<in> set (pp_invOptions n p v)" using Min_in[of "set (pp_invOptions n p v)"] i by simp
  then show "i < n" "v \<in> set (pp_options n p i)" using pp.inv_options_iff[OF wf v, of i] by auto
qed

lemma bit_diag_known:
  assumes r: "bit_ready fl n t M p" and i: "i < n" "pp_fixed n p i"
  shows "pp_invPermOf n p (t (nat (pp_permOf n p i))) \<noteq> -1"
proof
  obtain q S f where q: "p = Bit q" "perm_on n t" "pmap n t S f q" "commuting t S f" and wf: "pp_wf n p"
    using bit_readyE[OF r] by metis
  let ?x = "nat (pp_permOf n p i)"
  have o: "set (pp_options n p i) = {?x}" "0 \<le> pp_permOf n p i" using pp.perm_of_fixed[OF wf i] by simp_all
  have "?x < n" using pp.options_range[OF wf i(1)] o by auto
  then have tx: "t ?x < n" by (rule perm_on_less[OF q(2)])
  assume none: "pp_invPermOf n p (t ?x) = -1"
  show False
  proof (cases "i \<in> S")
    case True
    have "?x = f i" using o(1) pmapD(6)[OF q(3) True] q(1) by simp
    have ti: "t i \<in> S" "f (t i) = t ?x" using q(4) True \<open>?x = f i\<close> by (auto simp: commuting_def)
    have tn: "t i < n" by (rule perm_on_less[OF q(2) i(1)])
    have ot: "set (pp_options n p (t i)) = {t ?x}" using pmapD(6)[OF q(3) ti(1)] ti(2) q(1) by simp
    then have "pp_fixed n p (t i)" using pp.fixed_iff[OF wf tn] by blast
    then have "pp_permOf n p (t i) = int (t ?x)" using pp.perm_of_fixed[OF wf tn] ot by auto
    then show False using pp.inv_perm_of_none[OF wf tx none tn] by simp
  next
    case False
    have "t ?x = ?x" using lone_row(2)[OF q(2-4) i(1) False] o(1) q(1) by simp
    then show False using pp.inv_perm_of_none[OF wf tx none i(1)] o(2) by simp
  qed
qed

interpretation bit_search: symmetry_search fl n M t "bit_ready fl n t M" for fl n M t
proof unfold_locales
  fix p
  assume p: "bit_ready fl n t M p"
  show "pp_wf n p" by (rule bit_readyE[OF p])
  show "\<exists>ok q. fixAndPropagate n M p r j = Inr (ok, q) \<and>
      (if ok then bit_ready fl n t M q \<and> keeps_fixed n p q \<and> pp_fixed n q r \<and> live fl n t q = {s \<in> live fl n t p. s r = j}
       else {s \<in> live fl n t p. s r = j} = {})"
    if rj: "r < n" "j \<in> set (pp_options n p r)" for r j
  proof -
    obtain q' where "fixAndPropagate n M p r j = Inr (True, q')" "bit_ready fl n t M q'" "keeps_fixed n p q'" "pp_fixed n q' r"
      "live fl n t q' = {s \<in> live fl n t p. s r = j}" using bit_fix_option[OF p rj] by blast
    then show ?thesis by (intro exI[of _ True] exI[of _ q']) simp
  qed
  show "\<exists>ok q. fixAndPropagate n M p i v = Inr (ok, q) \<and>
      bit_ready fl n t M q \<and> keeps_fixed n p q \<and> live fl n t q = {s \<in> live fl n t p. s i = v}"
    if v: "v < n" and i: "i = Min (set (pp_invOptions n p v))" for v i
    using bit_fix_option[OF p bit_least[OF p v i]] by blast
  show "\<exists>q. extendPerm fl n M p = Inr q \<and> bit_ready fl n t M q \<and> keeps_fixed n p q \<and> live fl n t q \<subseteq> live fl n t p \<and>
      perm_vec n (pp_getPerm n q) \<and> vec_perm (pp_getPerm n q) \<in> live fl n t q"
    using bit_extend[OF p] bit_full_member by blast
  show "pp_invPermOf n p (t (nat (pp_permOf n p i))) \<noteq> -1" if "i < n" "pp_fixed n p i" for i
    by (rule bit_diag_known[OF p that])
qed

text \<open>Fixing a fixed row to another value fails and changes nothing.\<close>

interpretation bit_partial: partial_search fl n M t "bit_ready fl n t M" for fl n M t
proof unfold_locales
  fix p
  assume p: "bit_ready fl n t M p"
  obtain q S f where q: "p = Bit q" "pmap n t S f q" and wf: "pp_wf n p" using bit_readyE[OF p] by metis
  show "bit_ready fl n t M q' \<and> keeps_fixed n p q' \<and> live fl n t q' \<subseteq> live fl n t p \<and>
      (\<not> fl_prop fl \<longrightarrow> j \<in> set (pp_options n p i) \<longrightarrow> (\<forall>s\<in>live fl n t q'. s i = j))"
    if ij: "i < n" "j < n" "j \<in> set (pp_options n p i) \<or> pp_fixed n p i" and f: "fixAndPropagate n M p i j = Inr (ok, q')"
    for i j ok q'
  proof (cases "j \<in> set (pp_options n p i)")
    case True
    show ?thesis using bit_fix_option[OF p ij(1) True] f by auto
  next
    case False
    have "\<not> bd2_get q i j"
      using False q(1) bit.inv_options_iff[OF pmapD(1)[OF q(2)] ij(2), of i] ij(1) by (simp add: bit_invOptions_def)
    then have "q' = p" using f q(1) by (simp add: fixAndPropagate_def bit_fix_def)
    then show ?thesis using p False by simp
  qed
  show "pp_fixed n p i" if v: "v < n" and i: "pp_invOptions n p v = [i]" for v i
  proof -
    have io: "k < n \<and> v \<in> set (bd2_options n q k) \<longleftrightarrow> k = i" for k
      using pp.inv_options_iff[OF wf v, of k] i q(1) by simp
    then have ii: "i < n" "v \<in> set (bd2_options n q i)" by blast+
    show ?thesis
    proof (cases "i \<in> S")
      case True
      then show ?thesis using pp.fixed_iff[OF wf ii(1)] pmapD(6)[OF q(2) True] q(1) by simp
    next
      case False
      have vi: "v \<notin> f ` S" "same_cycle_length t i v" using pmapD(7)[OF q(2) ii(1) False] ii(2) by auto
      have "{x. x < n \<and> x \<notin> S \<and> same_cycle_length t i x} \<subseteq> {i}"
      proof
        fix x assume x: "x \<in> {x. x < n \<and> x \<notin> S \<and> same_cycle_length t i x}"
        then have "same_cycle_length t x v" using vi(2) same_length_equiv(2,3) by blast
        then show "x \<in> {i}" using io[of x] pmapD(7)[OF q(2), of x] x vi(1) v by simp
      qed
      then have "card {x. x < n \<and> x \<notin> S \<and> same_cycle_length t i x} \<le> 1"
        using card_mono[of "{i}"] by fastforce
      then have "card (set (bd2_options n q i)) \<le> 1" using free_count[OF q(2), of i] pmapD(7)[OF q(2) ii(1) False] by simp
      then have "set (bd2_options n q i) = {v}" using ii(2) by (auto simp: card_le_Suc0_iff_eq)
      then show ?thesis using pp.fixed_iff[OF wf ii(1)] q(1) by simp
    qed
  qed
qed

end
