(* ===== verification/MinCheck_Start.thy ===== *)
theory MinCheck_Start
  imports MinCheck_Plain MinCheck_Bit Partitions
begin

text \<open>
  The start of the check: the constructor of \<open>MinCheck_V2\<close> on the diagonals of the program
  (consecutive cycles, \<open>makeDiagonals\<close>) and without a diagonal gives a partial permutation that
  meets the contract of the search and stands for all symmetries.
\<close>

section \<open>Consecutive cycles\<close>

definition consecutive :: "nat \<Rightarrow> (nat \<Rightarrow> nat) \<Rightarrow> nat list \<Rightarrow> bool" where
  "consecutive n t p \<longleftrightarrow> (\<forall>l\<in>set p. 1 \<le> l) \<and> sum_list p = n \<and> (\<forall>x<n. t x = block_perm p 0 x)"

lemma block_perm_ones: "block_perm (replicate k 1) off x = x"
  by (induction k arbitrary: off) auto

lemma block_perm_pad: "block_perm (p @ replicate k 1) off x = block_perm p off x"
  by (induction p arbitrary: off) (auto simp: block_perm_ones simp del: One_nat_def)

lemma consecutive_diag:
  assumes "\<forall>l\<in>set p. 2 \<le> l" "sum_list p \<le> n"
  shows "consecutive n (\<lambda>i. diag_list n p ! i) (p @ replicate (n - sum_list p) 1)"
  using assms by (fastforce simp: consecutive_def diag_list_def block_perm_pad sum_list_replicate simp del: One_nat_def)

lemma consecutive_id: "consecutive n (\<lambda>i. i) (replicate n 1)"
  by (auto simp: consecutive_def block_perm_ones sum_list_replicate simp del: One_nat_def)

lemma walk_block:
  assumes "\<And>x. off \<le> x \<Longrightarrow> x < off + l \<Longrightarrow> vget perm (int x) = Inr (int (if Suc x = off + l then off else Suc x))" "off + l \<le> m"
  shows "off \<le> a \<Longrightarrow> a < off + l \<Longrightarrow> walk perm [a..<m] [off..<a] (int a) = Inr ([off + l..<m], [off..<off + l])"
proof (induction "off + l - a" arbitrary: a)
  case (Suc k)
  have r: "remove1 a [a..<m] = [Suc a..<m]" using Suc.prems assms(2) by (simp add: upt_rec)
  have e: "[off..<a] @ [a] = [off..<Suc a]" using Suc.prems by simp
  have w: "walk perm [a..<m] [off..<a] (int a) =
      walk perm [Suc a..<m] [off..<Suc a] (int (if Suc a = off + l then off else Suc a))"
    using Suc.prems assms r e by (subst walk.simps) auto
  show ?case
  proof (cases "Suc a = off + l")
    case True
    have "walk perm [Suc a..<m] [off..<Suc a] (int off) = Inr ([Suc a..<m], [off..<Suc a])"
      using Suc.prems by (subst walk.simps) auto
    then show ?thesis using w True by simp
  next
    case False
    have "walk perm [Suc a..<m] [off..<Suc a] (int (Suc a)) = Inr ([off + l..<m], [off..<off + l])"
      by (rule Suc.hyps(1)) (use Suc.hyps(2) Suc.prems False in auto)
    then show ?thesis using w False by simp
  qed
qed simp

lemma all_cycles_blocks:
  assumes "\<forall>l\<in>set p. 1 \<le> l" "off + sum_list p = n"
    and "\<And>x. off \<le> x \<Longrightarrow> x < n \<Longrightarrow> vget perm (int x) = Inr (int (block_perm p off x))"
  shows "all_cycles perm [off..<n] cs = Inr (cs @ blocks p off)"
  using assms
proof (induction p arbitrary: off cs)
  case (Cons l p)
  have l: "1 \<le> l" "off + l \<le> n" "off < n" using Cons.prems(1,2) by simp_all
  have m: "Min (set [off..<n]) = off" using l(3) by (intro Min_eqI) auto
  have "walk perm [off..<n] [off..<off] (int off) = Inr ([off + l..<n], [off..<off + l])"
  proof (rule walk_block)
    show "vget perm (int x) = Inr (int (if Suc x = off + l then off else Suc x))" if "off \<le> x" "x < off + l" for x
      using Cons.prems(3)[of x] that l(2) by auto
  qed (use l in auto)
  moreover have "all_cycles perm [off + l..<n] (cs @ [[off..<off + l]]) = Inr ((cs @ [[off..<off + l]]) @ blocks p (off + l))"
  proof (rule Cons.IH)
    show "vget perm (int x) = Inr (int (block_perm p (off + l) x))" if "off + l \<le> x" "x < n" for x
      using Cons.prems(3)[of x] that by simp
  qed (use Cons.prems in auto)
  ultimately show ?case using l(3) m by (subst all_cycles.simps) simp
qed (simp add: all_cycles.simps)

definition diag_vec :: "nat \<Rightarrow> int list \<Rightarrow> nat list \<Rightarrow> bool" where
  "diag_vec n d p \<longleftrightarrow> 0 < n \<and> perm_vec n d \<and> consecutive n (vec_perm d) p"

lemma diag_vec_cycles:
  assumes "diag_vec n d p"
  shows "permToCyclePerm n d = Inr (blocks p 0)"
  using all_cycles_blocks[of p 0 n d "[]"] assms perm_vec_get[of n d] unfolding permToCyclePerm_def
  by (auto simp: diag_vec_def consecutive_def)

lemma concat_blocks: "concat (blocks p off) = [off..<off + sum_list p]"
proof (induction p arbitrary: off)
  case (Cons l p)
  have "[off..<off + l] @ [off + l..<off + l + sum_list p] = [off..<off + (l + sum_list p)]"
    by (metis add.assoc le_add1 upt_add_eq_append)
  then show ?case using Cons by simp
qed simp

section \<open>The cycles \<open>cyclePerm_t\<close> reads\<close>

definition starts :: "nat list \<Rightarrow> nat list" where
  "starts p = concat (map (\<lambda>l. map (\<lambda>k. if k = 0 then l else 0) [0..<l]) p)"

lemma starts_blocks: "concat (map (\<lambda>cyc. map (\<lambda>k. if k = 0 then length cyc else 0) [0..<length cyc]) (blocks p off)) = starts p"
  by (induction p arbitrary: off) (simp_all add: starts_def)

lemma length_starts: "length (starts p) = sum_list p"
  by (induction p) (simp_all add: starts_def)

lemma starts_nth:
  assumes "k < l"
  shows "starts (p1 @ l # p2) ! (sum_list p1 + k) = (if k = 0 then l else 0)"
proof -
  have "starts (p1 @ l # p2) = starts p1 @ map (\<lambda>k. if k = 0 then l else 0) [0..<l] @ starts p2" by (simp add: starts_def)
  then show ?thesis using assms by (simp add: nth_append length_starts)
qed

lemma in_block: "(x::nat) < sum_list p \<Longrightarrow> \<exists>p1 l p2 k. p = p1 @ l # p2 \<and> x = sum_list p1 + k \<and> k < l"
proof (induction p arbitrary: x)
  case (Cons l p)
  show ?case
  proof (cases "x < l")
    case True
    then show ?thesis by (intro exI[of _ "[]"] exI[of _ l] exI[of _ p] exI[of _ x]) simp
  next
    case False
    then have "x - l < sum_list p" using Cons.prems by simp
    from Cons.IH[OF this] obtain p1 l' p2 k where *: "p = p1 @ l' # p2" "x - l = sum_list p1 + k" "k < l'" by blast
    then show ?thesis using False by (intro exI[of _ "l # p1"] exI[of _ l'] exI[of _ p2] exI[of _ k]) simp
  qed
qed simp

lemma block_perm_at: "k < l \<Longrightarrow> block_perm (p1 @ l # p2) off (off + sum_list p1 + k) = off + sum_list p1 + Suc k mod l"
proof (induction p1 arbitrary: off)
  case Nil
  then show ?case by (cases "Suc k = l") auto
next
  case (Cons l' p1)
  have "block_perm ((l' # p1) @ l # p2) off (off + sum_list (l' # p1) + k) = block_perm (p1 @ l # p2) (off + l') (off + l' + sum_list p1 + k)"
    by (simp add: add.assoc)
  then show ?case using Cons.IH[OF Cons.prems, of "off + l'"] by (simp add: add.assoc)
qed

lemma rotation_nth:
  assumes "k < l" "i < l"
  shows "([off + k..<off + l] @ [off..<off + k]) ! i = off + (k + i) mod l"
proof (cases "i < l - k")
  case True
  then show ?thesis using assms by (simp add: nth_append)
next
  case False
  then have "l \<le> k + i" "k + i - l < l" using assms by linarith+
  then have "(k + i) mod l = k + i - l" by (simp add: le_mod_geq)
  then show ?thesis using False assms by (simp add: nth_append)
qed

lemma rotation_cycle:
  assumes k: "k < l" and t: "\<And>j. j < l \<Longrightarrow> t (off + j) = off + Suc j mod l"
  shows "is_cycle t ([off + k..<off + l] @ [off..<off + k])"
proof -
  let ?c = "[off + k..<off + l] @ [off..<off + k]"
  have len: "length ?c = l" using k by simp
  have "t (?c ! i) = ?c ! (Suc i mod length ?c)" if i: "i < l" for i
  proof -
    have m: "Suc i mod l < l" "(k + i) mod l < l" using k by simp_all
    have "t (?c ! i) = off + Suc ((k + i) mod l) mod l" unfolding rotation_nth[OF k i] by (rule t[OF m(2)])
    also have "\<dots> = off + (k + Suc i mod l) mod l" by (simp add: mod_Suc_eq mod_add_right_eq)
    also have "\<dots> = ?c ! (Suc i mod l)" by (rule rotation_nth[OF k m(1), symmetric])
    finally show ?thesis unfolding len .
  qed
  then show ?thesis using k len unfolding is_cycle_def by auto
qed

lemma cp_cycle_rotation:
  assumes p: "\<forall>l\<in>set p. 1 \<le> l" "sum_list p = n" "p = p1 @ l # p2" and k: "k < l" and c: "cp_part c = starts p"
  shows "cp_cycle n c (int (sum_list p1 + k)) = Inr ([sum_list p1 + k..<sum_list p1 + l] @ [sum_list p1..<sum_list p1 + k])"
proof -
  let ?off = "sum_list p1" and ?P = "\<lambda>i. 0 < starts p ! i"
  have n: "?off + l \<le> n" "?off + k < n" using p(2,3) k by simp_all
  have st: "?P (?off + j) \<longleftrightarrow> j = 0" if "j < l" for j using starts_nth[OF that, of p1 p2] that p(3) by simp
  have P0: "?P 0"
  proof (cases p1)
    case (Cons a p1')
    have "p = [] @ a # (p1' @ l # p2)" "0 < a" using p(1,3) Cons by auto
    then show ?thesis using starts_nth[of 0 a "[]" "p1' @ l # p2"] by simp
  qed (use st[of 0] k in simp)
  have nx: "?P (?off + l)" if "?off + l < n"
  proof -
    have "p2 \<noteq> []" using that p(2,3) by auto
    then obtain m p2' where m: "p2 = m # p2'" by (auto simp: neq_Nil_conv)
    have "p = (p1 @ [l]) @ m # p2'" "0 < m" using p(1,3) m by auto
    then show ?thesis using starts_nth[of 0 m "p1 @ [l]" p2'] by simp
  qed
  have lu: "last_upto ?P (?off + k) = ?off"
  proof (rule last_upto_eq[of ?P])
    show "\<not> ?P i" if "?off < i" "i \<le> ?off + k" for i using st[of "i - ?off"] that k by simp
  qed (use P0 st[of 0] k in auto)
  have tw: "takeWhile (\<lambda>i. \<not> (i \<noteq> ?off \<and> ?P i)) [?off + k..<n] = [?off + k..<?off + l]"
  proof -
    have s: "[?off + k..<n] = [?off + k..<?off + l] @ [?off + l..<n]"
      using n k upt_add_eq_append[of "?off + k" "?off + l" "n - (?off + l)"] by simp
    have "\<not> (i \<noteq> ?off \<and> ?P i)" if "i \<in> set [?off + k..<?off + l]" for i
    proof -
      have "?off \<le> i" "i - ?off < l" "?off + (i - ?off) = i" using that by auto
      then show ?thesis using st[of "i - ?off"] by auto
    qed
    then have "takeWhile (\<lambda>i. \<not> (i \<noteq> ?off \<and> ?P i)) [?off + k..<n] =
        [?off + k..<?off + l] @ takeWhile (\<lambda>i. \<not> (i \<noteq> ?off \<and> ?P i)) [?off + l..<n]"
      unfolding s by (rule takeWhile_append2)
    moreover have "takeWhile (\<lambda>i. \<not> (i \<noteq> ?off \<and> ?P i)) [?off + l..<n] = []"
      using nx k by (cases "?off + l < n") (simp_all add: upt_rec[of "?off + l"])
    ultimately show ?thesis by simp
  qed
  have one: "[?off + k] = [?off + k..<?off + l] @ [?off..<?off + k]"
    if "?off = ?off + k \<and> (?off = n - 1 \<or> ?P (?off + 1))"
  proof -
    have "l = 1"
    proof (rule ccontr)
      assume "l \<noteq> 1"
      then have "1 < l" using k by simp
      then show False using st[of 1] that n by auto
    qed
    then show ?thesis using that by simp
  qed
  show ?thesis unfolding cp_cycle_def c Let_def nat_int lu tw using n one by (auto simp del: upt_Suc)
qed

lemma diag_vec_rotation:
  assumes d: "diag_vec n d p" and c: "cyclePerm_new n d = Inr cp" and i: "i < n"
  shows "\<exists>c. cp_cycle n cp (int i) = Inr c \<and> is_cycle (vec_perm d) c \<and> set c \<subseteq> {..<n} \<and> c ! 0 = i"
proof -
  have p: "\<forall>l\<in>set p. 1 \<le> l" "sum_list p = n" "\<And>x. x < n \<Longrightarrow> vec_perm d x = block_perm p 0 x"
    using d by (simp_all add: diag_vec_def consecutive_def)
  obtain p1 l p2 k where b: "p = p1 @ l # p2" "i = sum_list p1 + k" "k < l" using in_block[of i p] i p(2) by blast
  have cp: "cp_part cp = starts p" using c diag_vec_cycles[OF d] by (auto simp: cyclePerm_new_def starts_blocks)
  have le: "sum_list p1 + l \<le> n" using p(2) b(1) by simp
  let ?c = "[sum_list p1 + k..<sum_list p1 + l] @ [sum_list p1..<sum_list p1 + k]"
  have "cp_cycle n cp (int i) = Inr ?c" unfolding b(2) by (rule cp_cycle_rotation[OF p(1,2) b(1,3) cp])
  moreover have "is_cycle (vec_perm d) ?c"
  proof (rule rotation_cycle[OF b(3)])
    fix j assume j: "j < l"
    show "vec_perm d (sum_list p1 + j) = sum_list p1 + Suc j mod l"
      using p(3)[of "sum_list p1 + j"] block_perm_at[OF j, of p1 p2 0] le j b(1) by simp
  qed
  moreover have "?c ! 0 = i" using rotation_nth[OF b(3), of 0 "sum_list p1"] b by simp
  moreover have "set ?c \<subseteq> {..<n}" using le b(3) by auto
  ultimately show ?thesis by blast
qed

section \<open>The setting of the search\<close>

lemma diag_is_id:
  assumes d: "diag_vec n d p" and c: "cyclePerm_new n d = Inr cp"
    and id: "list_all (\<lambda>i. cp_permOf n beyond cp i = i) [0..<n]" and i: "i < n"
  shows "vec_perm d i = i"
proof -
  have p: "\<forall>l\<in>set p. 1 \<le> l" "sum_list p = n" "\<And>x. x < n \<Longrightarrow> vec_perm d x = block_perm p 0 x"
    using d by (simp_all add: diag_vec_def consecutive_def)
  have cp: "cp_part cp = starts p" "cp_element cp = [0..<n]"
    using c diag_vec_cycles[OF d] p(2) by (auto simp: cyclePerm_new_def starts_blocks concat_blocks)
  have len: "length (starts p) = n" using p(2) by (simp add: length_starts)
  obtain p1 l p2 k where b: "p = p1 @ l # p2" "i = sum_list p1 + k" "k < l" using in_block[of i p] i p(2) by blast
  have le: "sum_list p1 + l \<le> n" using p(2) b(1) by simp
  have "l = 1"
  proof (rule ccontr)
    assume "l \<noteq> 1"
    then have l: "1 < l" using b(3) by simp
    let ?x = "sum_list p1"
    have x: "Suc ?x < n" using le l by simp
    have "cp_permOf n beyond cp ?x = ?x" using id x by (auto simp: list_all_iff)
    moreover have "starts p ! Suc ?x = 0" using starts_nth[of 1 l p1 p2] l b(1) by simp
    ultimately show False using x len by (simp add: cp_permOf_def cp nth_append)
  qed
  then have "k = 0" "block_perm p 0 (0 + sum_list p1 + 0) = 0 + sum_list p1 + Suc 0 mod l"
    using b(3) block_perm_at[of 0 l p1 p2 0] by (simp_all add: b(1))
  then show ?thesis using p(3)[OF i] b(2) \<open>l = 1\<close> by simp
qed

lemma mc_new_diag:
  assumes d: "diag_vec n d p" and fl: "fl_diag fl" "fl_bit fl"
  shows "\<exists>M info. mc_new fl n beyond d L = Inr M \<and> mc_init M = Bit info \<and> mc_lits M = L \<and>
    bit_ready fl n (vec_perm d) M (mc_init M) \<and> pmap n (vec_perm d) {} (\<lambda>i. i) info"
proof -
  have pv: "perm_vec n d" and n: "0 < n" using d by (simp_all add: diag_vec_def)
  obtain info where info: "bit_new n d = Inr info" "bd2_inv n info"
    "\<forall>e<n. bd2_vals n info e = {x. x < n \<and> same_cycle_length (vec_perm d) e x}"
    using bit_new_classes[OF pv n] by blast
  obtain cp where cp: "cyclePerm_new n d = Inr cp" using diag_vec_cycles[OF d] by (simp add: cyclePerm_new_def)
  obtain M where M: "mc_new fl n beyond d L = Inr M" "mc_init M = Bit info" "mc_lits M = L" "mc_diag M = cp"
    "mc_diagIsId M \<longleftrightarrow> list_all (\<lambda>i. cp_permOf n beyond cp i = i) [0..<n]"
    using cp info(1) fl by (auto simp: mc_new_def)
  have "bit_setting fl n (vec_perm d) M"
    unfolding bit_setting_def M(4,5)
    using n fl pv diag_vec_rotation[OF d cp] diag_is_id[OF d cp] by (auto simp: perm_vec_def)
  moreover have "pmap n (vec_perm d) {} (\<lambda>i. i) info"
    using info(2,3) bd2.set_options[OF info(2)] by (auto simp: pmap_def bd2_key_def)
  moreover have "commuting (vec_perm d) {} (\<lambda>i. i)" by (simp add: commuting_def)
  ultimately show ?thesis using M by (auto simp: bit_ready_def)
qed

text \<open>Without a diagonal, and for the identity.\<close>

definition id_vec :: "nat \<Rightarrow> int list" where
  "id_vec n = map int [0..<n]"

lemma id_diag_vec: "0 < n \<Longrightarrow> diag_vec n (id_vec n) (replicate n 1)"
proof -
  have v: "vec_perm (id_vec n) x = x" if "x < n" for x using that by (simp add: vec_perm_def id_vec_def)
  have "perm_on n (vec_perm (id_vec n))" by (intro perm_onI) (simp_all add: v)
  then show "0 < n \<Longrightarrow> diag_vec n (id_vec n) (replicate n 1)"
    using v consecutive_id[of n] by (auto simp: diag_vec_def perm_vec_def id_vec_def consecutive_def)
qed

lemma blocks_ones: "blocks (replicate k 1) off = map (\<lambda>i. [i]) [off..<off + k]"
proof (induction k arbitrary: off)
  case (Suc k)
  have "[off..<off + Suc k] = off # [Suc off..<Suc off + k]" by (simp add: upt_rec)
  then show ?case using Suc[of "Suc off"] by (simp del: upt_Suc add: upt_rec[of off "Suc off"])
qed simp

lemma plain_new_id:
  assumes n: "0 < n"
  shows "\<exists>q. plain_new n (id_vec n) = Inr q \<and> plain_wf n q \<and> (\<forall>i<n. set (plain_options n q i) = {..<n})"
proof -
  let ?cs = "map (\<lambda>i. [i]) [0..<n]"
  have cyc: "permToCyclePerm n (id_vec n) = Inr ?cs"
    using diag_vec_cycles[OF id_diag_vec[OF n]] unfolding blocks_ones by simp
  have C: "classes_ok n (class_set ?cs) (length_classes n ?cs)"
    by (rule length_classes_ok[OF _ n]) (use n in auto)
  let ?P = "length_classes n ?cs"
  have cs: "class_set ?cs l = (if l = 0 then {..<n} else {})" for l by (auto simp: class_set_def)
  have P: "length ?P = n" "\<And>l. l < n \<Longrightarrow> bd_inv n (?P ! l)" "\<And>l. l < n \<Longrightarrow> bd_vals (?P ! l) = (if l = 0 then {..<n} else {})"
    using C by (simp_all add: classes_ok_def cs)
  have "?P = ?P ! 0 # tl ?P" using P(1) n by (cases ?P) auto
  moreover have "\<forall>d\<in>set (tl ?P). bd_none d"
  proof
    fix d assume "d \<in> set (tl ?P)"
    then obtain l where "l < n - 1" "d = ?P ! Suc l" using P(1) by (auto simp: in_set_conv_nth nth_tl)
    then show "bd_none d" using bd_none_iff[OF P(2)[of "Suc l"]] P(3)[of "Suc l"] by auto
  qed
  moreover have "\<not> bd_none (?P ! 0)" using bd_none_iff[OF P(2)[OF n]] P(3)[OF n] n by auto
  ultimately have live: "live_classes n ?cs = [?P ! 0]"
    unfolding live_classes_def by (cases ?P) simp_all
  have inv: "bd_inv n (?P ! 0)" and vals: "bd_vals (?P ! 0) = {..<n}" using P(2,3)[OF n] by simp_all
  have "class_elements n (?P ! 0) = [0..<n]"
    unfolding class_elements_eq[OF inv] vals lessThan_atLeast0 by (rule sorted_list_of_set_range)
  then have "cycleToParts n ?cs ([], []) = ([0..<n], map (\<lambda>k. k = 0) [0..<n])" by (simp add: cycleToParts_def live Let_def)
  then have new: "plain_new n (id_vec n) = Inr \<lparr>pl_element = [0..<n], pl_part = map (\<lambda>k. k = 0) [0..<n]\<rparr>"
    using cyc by (simp add: plain_new_def)
  let ?q = "\<lparr>pl_element = [0..<n], pl_part = map (\<lambda>k. k = 0) [0..<n]\<rparr>"
  have wf: "plain_wf n ?q" using n by (auto simp: plain_wf_def)
  have bs: "block_start ?q i = 0" if "i < n" for i
    by (rule start_eqI[OF wf]) (use that n in auto)
  have "set (plain_options n ?q i) = {..<n}" if i: "i < n" for i
  proof -
    have "{k. k < n \<and> block_start ?q k = block_start ?q i} = {..<n}" using bs i by auto
    moreover have "(\<lambda>x. [0..<n] ! x) ` {..<n} = {..<n}" by (auto simp: image_iff)
    ultimately show ?thesis unfolding set_plain_options[OF wf i] by simp
  qed
  then show ?thesis using new wf by blast
qed

end
