(* ===== verification/MinCheck_Correct.thy ===== *)
theory MinCheck_Correct
  imports MinCheck_Start
begin

text \<open>
  The whole check, from the constructor to the result: on a complete table the final check accepts
  exactly the tables that are minimal in their orbit, on a partial table every clause it throws
  holds in all minimal tables.
\<close>

section \<open>The modes of the program\<close>

text \<open>
  The vector of a diagonal of \<open>makeDiagonals\<close> with the block lengths \<open>q\<close>. With a diagonal other
  than the identity \<open>--useBit\<close> is needed: \<open>pperm_plain\<close> does not follow the cycles.
\<close>

definition diag_ints :: "nat \<Rightarrow> nat list \<Rightarrow> int list" where
  "diag_ints n q = map int (diag_list n q)"

definition mode_ok :: "flags \<Rightarrow> nat \<Rightarrow> nat list \<Rightarrow> bool" where
  "mode_ok fl n q \<longleftrightarrow> 0 < n \<and> (\<forall>l\<in>set q. 2 \<le> l) \<and> sum_list q \<le> n \<and> (fl_diag fl \<longrightarrow> fl_bit fl \<or> q = []) \<and>
     (fl_smaller fl \<longrightarrow> fl_diag fl) \<and> \<not> fl_old fl"

abbreviation diag_fun :: "nat \<Rightarrow> nat list \<Rightarrow> nat \<Rightarrow> nat" where
  "diag_fun n q \<equiv> vec_perm (diag_ints n q)"

lemma diag_ints_vec:
  assumes "mode_ok fl n q"
  shows "diag_vec n (diag_ints n q) (q @ replicate (n - sum_list q) 1)"
proof -
  have q: "\<forall>l\<in>set q. 2 \<le> l" "sum_list q \<le> n" "0 < n" using assms by (simp_all add: mode_ok_def)
  have v: "diag_fun n q x = diag_list n q ! x" if "x < n" for x
    using that by (simp add: vec_perm_def diag_ints_def diag_list_def)
  have "perm_on n (diag_fun n q)"
    using block_perm_perm[OF q(2)] perm_on_cong[of n "diag_fun n q" "block_perm q 0"] v by (simp add: diag_list_def)
  then have "perm_vec n (diag_ints n q)" by (auto simp: perm_vec_def diag_ints_def diag_list_def)
  moreover have "consecutive n (diag_fun n q) (q @ replicate (n - sum_list q) 1)"
    using consecutive_diag[OF q(1,2)] v by (simp add: consecutive_def)
  ultimately show ?thesis using q(3) by (simp add: diag_vec_def)
qed

lemma diag_ints_id: "diag_ints n [] = id_vec n"
  by (simp add: diag_ints_def diag_list_def id_vec_def)

section \<open>The constructor\<close>

text \<open>The state after the constructor: ready for the search, with all symmetries left.\<close>

definition started :: "flags \<Rightarrow> nat \<Rightarrow> nat list \<Rightarrow> lits3 \<Rightarrow> mincheck \<Rightarrow> bool" where
  "started fl n q L M \<longleftrightarrow> mc_lits M = L \<and> live fl n (diag_fun n q) (mc_init M) = syms n (diag_of fl (diag_fun n q)) \<and>
     (1 < n \<longrightarrow> \<not> pp_fixed n (mc_init M) 0) \<and>
     (bit_ready fl n (diag_fun n q) M (mc_init M) \<or> \<not> (fl_diag fl \<and> fl_bit fl) \<and> plain_ready fl n (diag_fun n q) M (mc_init M))"

lemma second_in_class:
  assumes "mode_ok fl n q" "1 < n" "q \<noteq> []"
  shows "same_cycle_length (diag_fun n q) 0 1"
proof -
  obtain l q' where q: "q = l # q'" "2 \<le> l" using assms(1,3) by (cases q) (auto simp: mode_ok_def)
  have "diag_fun n q 0 = 1" using q assms(2) by (simp add: vec_perm_def diag_ints_def diag_list_def)
  moreover have "perm_on n (diag_fun n q)" using diag_ints_vec[OF assms(1)] by (simp add: diag_vec_def perm_vec_def)
  ultimately show ?thesis using iterate_same_length[of n "diag_fun n q" 0 1] assms(2) by simp
qed

lemma id_same_length: "(\<And>x. x < n \<Longrightarrow> t x = x) \<Longrightarrow> x < n \<Longrightarrow> y < n \<Longrightarrow> same_cycle_length t x y"
proof -
  assume t: "\<And>x. x < n \<Longrightarrow> t x = x" and x: "x < n" "y < n"
  have "(t ^^ k) z = z" if "z < n" for k z using t[OF that] by (induction k) simp_all
  then show ?thesis using x by (simp add: same_cycle_length_def)
qed

lemma started_bit:
  assumes m: "mode_ok fl n q" and fl: "fl_diag fl" "fl_bit fl"
  shows "\<exists>M. mc_new fl n beyond (diag_ints n q) L = Inr M \<and> started fl n q L M"
proof -
  obtain M info where M: "mc_new fl n beyond (diag_ints n q) L = Inr M" "mc_init M = Bit info" "mc_lits M = L"
    "bit_ready fl n (diag_fun n q) M (mc_init M)" "pmap n (diag_fun n q) {} (\<lambda>i. i) info"
    using mc_new_diag[OF diag_ints_vec[OF m] fl] by blast
  have b: "bit_setting fl n (diag_fun n q) M" using M(4) by (simp add: bit_ready_def)
  have "live fl n (diag_fun n q) (mc_init M) = syms n (diag_of fl (diag_fun n q))"
    unfolding M(2) live_pmap[OF b M(5)] by simp
  moreover have "\<not> pp_fixed n (mc_init M) 0" if n: "1 < n"
  proof
    have n0: "0 < n" using n by simp
    note o = pmapD(7)[OF M(5) n0]
    have "same_cycle_length (diag_fun n q) 0 1"
    proof (cases "q = []")
      case True
      have "diag_fun n q x = x" if "x < n" for x using that by (simp add: True diag_ints_id id_vec_def vec_perm_def)
      then show ?thesis using id_same_length[of n _ 0 1] n by simp
    qed (rule second_in_class[OF m n])
    then have "{0, 1} \<subseteq> set (bd2_options n info 0)" using o n same_length_equiv(1) by simp
    moreover assume "pp_fixed n (mc_init M) 0"
    then obtain x where "set (bd2_options n info 0) = {x}" using bit.fixed_iff[OF pmapD(1)[OF M(5)] n0] M(2) by auto
    ultimately show False by auto
  qed
  ultimately show ?thesis using M by (auto simp: started_def)
qed

lemma id_symmetric:
  assumes n: "0 < n" and cp: "cyclePerm_new n (id_vec n) = Inr cp" and i: "i < n"
  shows "cp_cycle n cp (int i) = Inr [i]"
proof -
  obtain c where c: "cp_cycle n cp (int i) = Inr c" "is_cycle (vec_perm (id_vec n)) c" "c ! 0 = i"
    using diag_vec_rotation[OF id_diag_vec[OF n] cp i] by blast
  have "c \<noteq> []" using c(2) by (simp add: is_cycle_def)
  have "length c = 1"
  proof (rule ccontr)
    assume "length c \<noteq> 1"
    then have l: "1 < length c" using \<open>c \<noteq> []\<close> by (cases c) auto
    then have "vec_perm (id_vec n) (c ! 0) = c ! 1" using c(2) by (auto simp: is_cycle_def)
    then have "c ! 1 = c ! 0" using c(3) i by (simp add: vec_perm_def id_vec_def)
    then show False using c(2) l by (auto simp: is_cycle_def nth_eq_iff_index_eq)
  qed
  then have "c = [i]" using c(3) by (cases c) auto
  then show ?thesis using c(1) by simp
qed

lemma started_plain:
  assumes m: "mode_ok fl n q" and fl: "\<not> fl_diag fl \<or> (q = [] \<and> \<not> fl_bit fl)"
  shows "\<exists>M. mc_new fl n beyond (diag_ints n q) L = Inr M \<and> started fl n q L M"
proof -
  have n: "0 < n" using m by (simp add: mode_ok_def)
  obtain u where u: "plain_new n (id_vec n) = Inr u" "plain_wf n u" "\<forall>i<n. set (plain_options n u i) = {..<n}"
    using plain_new_id[OF n] by blast
  obtain cp where cp: "cyclePerm_new n (id_vec n) = Inr cp"
    using diag_vec_cycles[OF id_diag_vec[OF n]] by (simp add: cyclePerm_new_def)
  obtain M where M: "mc_new fl n beyond (diag_ints n q) L = Inr M" "mc_init M = Plain u" "mc_lits M = L"
    "\<not> fl_diag fl \<longrightarrow> mc_diagIsId M" "fl_diag fl \<longrightarrow> mc_diag M = cp"
  proof (cases "fl_diag fl")
    case True
    then have "q = []" "\<not> fl_bit fl" using fl by simp_all
    then show thesis using that u(1) cp True by (auto simp: mc_new_def diag_ints_id)
  next
    case False
    then show thesis using that u(1) by (auto simp: mc_new_def id_vec_def)
  qed
  have id: "diag_fun n q i = i" if "fl_diag fl" "i < n" for i
    using that fl by (simp add: diag_ints_id vec_perm_def id_vec_def)
  have a: "all_symmetric fl n (diag_fun n q) M"
    unfolding all_symmetric_def using n id M(4,5) id_symmetric[OF n cp] by auto
  have r: "plain_ready fl n (diag_fun n q) M (mc_init M)" using a u(2) M(2) by (simp add: plain_ready_def)
  have "live fl n (diag_fun n q) (mc_init M) = syms n (diag_of fl (diag_fun n q))"
    unfolding plain_readyD(3)[OF r] all_symmetric_syms[OF a] using u(3) M(2) perm_on_less by (auto simp: pp_perms_def)
  moreover have "\<not> pp_fixed n (mc_init M) 0" if n1: "1 < n"
  proof
    assume "pp_fixed n (mc_init M) 0"
    then obtain x where "set (plain_options n u 0) = {x}" using plain.fixed_iff[OF u(2) n] M(2) by auto
    then have "{0, 1} \<subseteq> {x}" using u(3) n n1 by auto
    then show False by auto
  qed
  ultimately show ?thesis using M r fl by (auto simp: started_def)
qed

lemma constructor_started:
  assumes "mode_ok fl n q"
  shows "\<exists>M. mc_new fl n beyond (diag_ints n q) L = Inr M \<and> started fl n q L M"
proof (cases "fl_diag fl \<and> fl_bit fl")
  case True
  then show ?thesis using started_bit[OF assms] by blast
next
  case False
  then have "\<not> fl_diag fl \<or> (q = [] \<and> \<not> fl_bit fl)" using assms by (auto simp: mode_ok_def)
  then show ?thesis by (rule started_plain[OF assms])
qed

section \<open>The result of the check\<close>

definition with_table :: "mincheck \<Rightarrow> cyc \<Rightarrow> mincheck" where
  "with_table M C = M\<lparr>mc_its := 0, mc_cyc := C\<rparr>"

lemma ready_with_table:
  "bit_ready fl n t (with_table (M\<lparr>mc_final := f\<rparr>) C) = bit_ready fl n t M"
  "plain_ready fl n t (with_table (M\<lparr>mc_final := f\<rparr>) C) = plain_ready fl n t M"
  by (simp_all add: fun_eq_iff bit_ready_def bit_setting_def plain_ready_def all_symmetric_def with_table_def)

lemma run_eq:
  "fst (run_MinCheck fl n M C) = fst (checkMinimality fl n (with_table M C) 0 0 (0, mc_init M))"
  "mc_init (snd (run_MinCheck fl n M C)) = snd (snd (checkMinimality fl n (with_table M C) 0 0 (0, mc_init M)))"
  by (simp_all add: run_MinCheck_def with_table_def split_beta Let_def del: checkMinimality.simps)

lemma run_total:
  assumes S: "started fl n q L M" and m: "mode_ok fl n q"
    and C: "cyc_ok fl n (diag_fun n q) C" "lits_live fl n (diag_fun n q) L"
    and N: "table_ok fl n (diag_fun n q) N" "total_table n C N"
  shows "exact_res (fst (run_MinCheck fl n (M\<lparr>mc_final := True\<rparr>) C)) (\<not> lexmin n (diag_of fl (diag_fun n q)) N)"
proof -
  let ?t = "diag_fun n q" and ?M = "with_table (M\<lparr>mc_final := True\<rparr>) C"
  have n: "0 < n" using m by (simp add: mode_ok_def)
  have L: "mc_lits M = L" "live fl n ?t (mc_init M) = syms n (diag_of fl ?t)" using S by (simp_all add: started_def)
  have ck: "check_total fl n ?t ?M N"
    using C N m L(1) by (simp add: check_total_def check_ok_def mode_ok_def with_table_def)
  have bad: "bad fl n ?t N (mc_init M) \<longleftrightarrow> \<not> lexmin n (diag_of fl ?t) N" by (auto simp: bad_def lexmin_def L(2))
  have ag: "agree_upto fl n ?t N (mc_init M) 0" "fixed_upto n 0 (mc_init M)" by (simp_all add: agree_upto_def fixed_upto_def)
  consider "bit_ready fl n ?t M (mc_init M)" | "plain_ready fl n ?t M (mc_init M)" using S by (auto simp: started_def)
  then have "exact_res (fst (checkMinimality fl n ?M 0 0 (0, mc_init M))) (bad fl n ?t N (mc_init M))"
  proof cases
    case 1
    then have "bit_search.open_node fl n ?t ?M N (mc_init M) 0"
      using ag unfolding bit_search.open_node_def by (simp add: ready_with_table)
    from bit_search.checkMinimality_exact[OF ck this n] show ?thesis .
  next
    case 2
    then have "plain_search.open_node fl n ?t ?M N (mc_init M) 0"
      using ag unfolding plain_search.open_node_def by (simp add: ready_with_table)
    from plain_search.checkMinimality_exact[OF ck this n] show ?thesis .
  qed
  then show ?thesis unfolding bad run_eq by simp
qed

lemma run_partial:
  assumes S: "started fl n q L M" and m: "mode_ok fl n q" "fl_prop fl \<or> fl_diag fl \<and> fl_bit fl"
    and C: "cyc_ok fl n (diag_fun n q) C" "lits_live fl n (diag_fun n q) L"
  shows "throws_sound fl n (diag_fun n q) L (fst (run_MinCheck fl n (M\<lparr>mc_final := f\<rparr>) C)) \<and>
    (1 < n \<longrightarrow> mc_init (snd (run_MinCheck fl n (M\<lparr>mc_final := f\<rparr>) C)) = mc_init M)"
proof -
  let ?t = "diag_fun n q" and ?M = "with_table (M\<lparr>mc_final := f\<rparr>) C"
  have n: "0 < n" using m by (simp add: mode_ok_def)
  have L: "mc_lits ?M = L" using S by (simp add: started_def with_table_def)
  have ck: "check_ok fl n ?t ?M" using C m L by (simp add: check_ok_def mode_ok_def with_table_def)
  have ag: "passed fl n ?t (mc_cyc ?M) (mc_init M) 0" "fixed_upto n 0 (mc_init M)" by (simp_all add: passed_def fixed_upto_def)
  have fx: "1 < n \<longrightarrow> \<not> pp_fixed n (mc_init M) 0" using S by (simp add: started_def)
  consider "bit_ready fl n ?t M (mc_init M)" | "fl_prop fl" "plain_ready fl n ?t M (mc_init M)" using S m(2) by (auto simp: started_def)
  then have "throws_sound fl n ?t (mc_lits ?M) (fst (checkMinimality fl n ?M 0 0 (0, mc_init M))) \<and>
      (\<not> pp_fixed n (mc_init M) 0 \<longrightarrow> snd (snd (checkMinimality fl n ?M 0 0 (0, mc_init M))) = mc_init M)"
  proof cases
    case 1
    then have "bit_partial.node fl n ?M ?t (mc_init M) 0"
      using ag unfolding bit_partial.node_def by (simp add: ready_with_table)
    then show ?thesis by (rule bit_partial.checkMinimality_sound[OF ck _ n])
  next
    case 2
    then have "plain_partial.node fl n ?M ?t (mc_init M) 0"
      using ag unfolding plain_partial.node_def by (simp add: ready_with_table)
    then show ?thesis by (rule plain_partial.checkMinimality_sound[OF ck _ n])
  qed
  then show ?thesis unfolding run_eq L using fx by simp
qed




section \<open>The number of nodes\<close>

definition counted :: "int \<Rightarrow> int \<Rightarrow> unit res \<times> (int \<times> pperm) \<Rightarrow> bool" where
  "counted m its x \<longleftrightarrow> its \<le> fst (snd x) \<and> fst (snd x) \<le> max its m \<and> (fst x = Inr () \<longrightarrow> fst (snd x) < m)"

lemma checkOptions_counted:
  assumes M: "\<not> mc_final M" and r: "r < n"
    and IH: "\<And>d its p. Suc r < n \<Longrightarrow> counted (fl_maxMC fl) (its + 1) (checkMinimality fl n M (Suc r) d (its, p))"
  shows "its < fl_maxMC fl \<Longrightarrow> counted (fl_maxMC fl) its (checkOptions fl n M r d k xs (its, p))"
proof (induction xs arbitrary: its p)
  case Nil
  then show ?case by (simp add: counted_def)
next
  case (Cons x xs)
  let ?q = "case x of Same \<Rightarrow> p | Copy q \<Rightarrow> q"
  show ?case
  proof (cases "pp_fullDefined n ?q")
    case True
    show ?thesis
      unfolding checkOptions.simps Let_def if_P[OF True] using Cons by (auto simp: counted_def split: sum.splits)
  next
    case False
    show ?thesis
    proof (cases "r + 1 < n \<and> (0 < k \<and> (mc_final M \<or> d + 1 \<le> fl_maxDepth fl) \<or> k = 0)")
      case deep: True
      obtain res its' q' where c: "checkMinimality fl n M (r + 1) (if 0 < k then d + 1 else d) (its, ?q) = (res, (its', q'))"
        by (metis prod.collapse)
      then have C: "counted (fl_maxMC fl) (its + 1) (res, (its', q'))" using IH[of its] deep by (metis Suc_eq_plus1)
      show ?thesis
      proof (cases res)
        case (Inl e)
        then show ?thesis
          unfolding checkOptions.simps Let_def if_not_P[OF False] if_P[OF deep] c using C Cons.prems by (auto simp: counted_def)
      next
        case (Inr u)
        then have "its' < fl_maxMC fl" "its \<le> its'" using C by (simp_all add: counted_def)
        moreover note Cons.IH[OF this(1), of "case x of Same \<Rightarrow> q' | Copy _ \<Rightarrow> p"]
        ultimately show ?thesis
          unfolding checkOptions.simps Let_def if_not_P[OF False] if_P[OF deep] c Inr by (auto simp: counted_def)
      qed
    next
      case shallow: False
      show ?thesis unfolding checkOptions.simps Let_def if_not_P[OF False] if_not_P[OF shallow] by (rule Cons.IH[OF Cons.prems])
    qed
  qed
qed

lemma checkMinimality_counted:
  assumes "\<not> mc_final M"
  shows "r < n \<Longrightarrow> counted (fl_maxMC fl) (its + 1) (checkMinimality fl n M r d (its, p))"
proof (induction "n - r" arbitrary: r d its p)
  case (Suc m)
  have IH: "Suc r < n \<Longrightarrow> counted (fl_maxMC fl) (its' + 1) (checkMinimality fl n M (Suc r) d' (its', p'))" for d' its' p'
    using Suc.hyps(1)[of "Suc r"] Suc.hyps(2) by simp
  obtain res p' where f: "filterOptions fl n M r (pp_options n p r) p = (res, p')" by fastforce
  show ?case
  proof (cases "fl_maxMC fl \<le> its + 1")
    case False
    then show ?thesis
      using checkOptions_counted[OF assms Suc.prems IH, of "its + 1"] f assms
      by (cases res) (auto simp: counted_def Let_def)
  qed (use assms in \<open>simp add: counted_def\<close>)
qed simp

text \<open>
  C27: a check that is not final visits at most \<open>maxMC\<close> nodes (one when the limit is smaller), and
  fewer when it ends normally; \<open>its\<close> is their number.
\<close>

theorem run_MinCheck_limit:
  assumes "\<not> mc_final M" "0 < n"
  shows "1 \<le> mc_its (snd (run_MinCheck fl n M C)) \<and> mc_its (snd (run_MinCheck fl n M C)) \<le> max 1 (fl_maxMC fl) \<and>
    (fst (run_MinCheck fl n M C) = Inr () \<longrightarrow> mc_its (snd (run_MinCheck fl n M C)) < fl_maxMC fl)"
proof -
  have "counted (fl_maxMC fl) (0 + 1) (checkMinimality fl n (M\<lparr>mc_its := 0, mc_cyc := C\<rparr>) 0 0 (0, mc_init M))"
    by (rule checkMinimality_counted) (use assms in simp_all)
  then show ?thesis by (simp add: run_MinCheck_def Let_def counted_def split_beta del: checkMinimality.simps)
qed

section \<open>Instances\<close>

text \<open>Two elements with their swap as the diagonal, and without a diagonal.\<close>

definition bit_flags :: flags where
  "bit_flags = \<lparr>fl_diag = True, fl_smaller = False, fl_prop = True, fl_old = False, fl_bit = True, fl_maxDepth = 9, fl_maxMC = 9\<rparr>"

definition diag_cyc :: cyc where
  "diag_cyc = \<lparr>cy_matrix = [[1, 0], [1, 0]], cy_asg = const3 2 Unknown_t, cy_lits = swap_lits,
     cy_dom = [[swap_dom 1, swap_dom 0], [swap_dom 1, swap_dom 0]]\<rparr>"

lemma diag_fun_two: "i < 2 \<Longrightarrow> diag_fun 2 [2] i = 1 - i"
  by (auto simp: less2 vec_perm_def diag_ints_def diag_list_def)

lemma diag_cyc_ok: "cyc_ok bit_flags 2 (diag_fun 2 [2]) diag_cyc"
  unfolding cyc_ok_def cyc_dims_def using bd_inv_swap_dom diag_fun_two
  by (simp add: diag_cyc_def bit_flags_def less2 dims2_def nth_Cons' split: if_splits)



theorem run_MinCheck_limit_witness:
  "mc_its (snd (run_MinCheck (swap_flags\<lparr>fl_maxMC := 1\<rparr>) 2 (mc_new_table swap_flags 2 swap_cyc swap_lits) swap_cyc)) = 1"
  using run_MinCheck_limit[of "mc_new_table swap_flags 2 swap_cyc swap_lits" 2 "swap_flags\<lparr>fl_maxMC := 1\<rparr>" swap_cyc]
  by (simp add: mc_new_table_def del: run_MinCheck_def)

end
