(* ===== verification/Propagator.thy ===== *)
theory Propagator
  imports MinCheck_V2
begin

text \<open>
  The external propagator (\<^verbatim>\<open>solveGeneral.cpp\<close>, \<^verbatim>\<open>solveCadicalClass.hpp\<close>,
  \<^verbatim>\<open>solveCadicalClass.cpp\<close>): the object the SAT solver notifies of assignments, decision levels
  and backtracking, which keeps the partially defined table and hands out symmetry breaking
  clauses. \<open>CommonInterface\<close> and \<open>CadicalSolver\<close> are one record; time measurements are left out.

  Parameters: \<open>val\<close> is the solver's \<open>val\<close>, \<open>rnd\<close> the value of \<open>rand()\<close>, \<open>timeout\<close> whether the
  time limit has passed. The solver is only called to add clauses and to observe variables; the
  calls are collected in \<open>sv_added\<close>.
\<close>

section \<open>State\<close>

record opts =
  op_fl :: flags
  op_allModels :: bool
  op_propLits :: bool
  op_checkSols :: bool
  op_checkFreq :: int
  op_fixedRow :: int
  op_saveState :: bool

record stats =
  st_callsPropagator :: nat
  st_nSymBreakClauses :: nat
  st_FullCheckSucc :: nat
  st_PartCheckSucc :: nat
  st_FullCheckFail :: nat
  st_PartCheckFail :: nat
  st_callsFullCheck :: nat
  st_callsPartCheck :: nat

definition stats0 :: stats where
  "stats0 = \<lparr>st_callsPropagator = 0, st_nSymBreakClauses = 0, st_FullCheckSucc = 0, st_PartCheckSucc = 0,
     st_FullCheckFail = 0, st_PartCheckFail = 0, st_callsFullCheck = 0, st_callsPartCheck = 0\<rparr>"

text \<open>\<open>sv_l2e\<close> is \<open>lit2entry\<close>, with \<open>None\<close> for the dummy at index 0.\<close>

record solver =
  sv_nModels :: nat
  sv_out :: string
  sv_warn :: nat
  sv_sbc :: string
  sv_sols :: string
  sv_stats :: stats
  sv_cyc :: cyc
  sv_fixed :: "bool list list list"
  sv_trail :: "nat list list"
  sv_l2e :: "(nat \<times> nat \<times> nat) option list"
  sv_clauses :: "int list list"
  sv_change :: bool
  sv_checkMode :: bool
  sv_pos :: "int list list"
  sv_neg :: "int list list"
  sv_mc :: mincheck
  sv_lits :: lits3
  sv_added :: "int list"

definition var_of :: "int \<Rightarrow> nat" where
  "var_of l = nat \<bar>l\<bar>"

definition entry_of :: "solver \<Rightarrow> nat \<Rightarrow> (nat \<times> nat \<times> nat) res" where
  "entry_of s x = bindE (vget (sv_l2e s) (int x)) (\<lambda>e. case e of None \<Rightarrow> Inl UB | Some e \<Rightarrow> Inr e)"

section \<open>Notifications\<close>

text \<open>The table after a literal is set.\<close>

definition dom_upd :: "nat \<Rightarrow> nat \<Rightarrow> (bitdomain \<Rightarrow> bitdomain) \<Rightarrow> cyc \<Rightarrow> cyc" where
  "dom_upd i j f C = C\<lparr>cy_dom := upd2 (cy_dom C) i j (f (dom_at C i j))\<rparr>"

definition assign_true :: "nat \<Rightarrow> nat \<times> nat \<times> nat \<Rightarrow> cyc \<Rightarrow> cyc" where
  "assign_true n e C = (case e of (i, j, k) \<Rightarrow>
     let C1 = C\<lparr>cy_asg := upd3 (cy_asg C) i j k True_t, cy_matrix := upd2 (cy_matrix C) i j (int k)\<rparr>;
         C2 = dom_upd i j (\<lambda>d. bd_set1 (bd_reset_all d) k) C1
     in fold (\<lambda>l C. if j = l then C
          else if bd_numTrue (dom_at C i l) \<noteq> 1 then dom_upd i l (\<lambda>d. bd_reset1 d k) C else C) [0..<n] C2)"

definition assign_false :: "nat \<times> nat \<times> nat \<Rightarrow> cyc \<Rightarrow> cyc" where
  "assign_false e C = (case e of (i, j, k) \<Rightarrow>
     dom_upd i j (\<lambda>d. bd_reset1 d k) (C\<lparr>cy_asg := upd3 (cy_asg C) i j k False_t\<rparr>))"

definition push_trail :: "nat \<Rightarrow> nat list list \<Rightarrow> nat list list res" where
  "push_trail x tr = (if tr = [] then Inl UB else Inr (butlast tr @ [last tr @ [x]]))"

definition notify_assignment :: "nat \<Rightarrow> int \<Rightarrow> bool \<Rightarrow> solver \<Rightarrow> solver res" where
  "notify_assignment n lit is_fixed s =
     bindE (if \<not> is_fixed then push_trail (var_of lit) (sv_trail s) else Inr (sv_trail s)) (\<lambda>tr.
     bindE (entry_of s (var_of lit)) (\<lambda>(i, j, k).
     Inr (s\<lparr>sv_change := True, sv_trail := tr,
            sv_cyc := (if 0 < lit then assign_true n (i, j, k) (sv_cyc s) else assign_false (i, j, k) (sv_cyc s)),
            sv_fixed := (if is_fixed then upd3 (sv_fixed s) i j k True else sv_fixed s)\<rparr>)))"

definition notify_new_decision_level :: "solver \<Rightarrow> solver" where
  "notify_new_decision_level s = s\<lparr>sv_trail := sv_trail s @ [[]]\<rparr>"

text \<open>Undoing one literal of the trail.\<close>

definition undo_true_step :: "nat \<times> nat \<times> nat \<Rightarrow> nat \<Rightarrow> cyc \<Rightarrow> cyc" where
  "undo_true_step e x C = (case e of (i, j, k) \<Rightarrow>
     let C1 = (if x \<noteq> j
               then (if mat_at C i x \<noteq> -1 then dom_upd i j (\<lambda>d. bd_reset1 d (nat (mat_at C i x))) C
                     else if asg_at C i x k \<noteq> False_t then dom_upd i x (\<lambda>d. bd_set1 d k) C
                     else C)
               else C)
     in if asg_at C1 i j x = False_t then dom_upd i j (\<lambda>d. bd_reset1 d x) C1 else C1)"

definition undo_true :: "nat \<Rightarrow> nat \<times> nat \<times> nat \<Rightarrow> cyc \<Rightarrow> cyc" where
  "undo_true n e C = (case e of (i, j, k) \<Rightarrow>
     fold (undo_true_step e) [0..<n] (dom_upd i j bd_set_all (C\<lparr>cy_matrix := upd2 (cy_matrix C) i j (-1)\<rparr>)))"

definition undo_entry :: "nat \<Rightarrow> nat \<times> nat \<times> nat \<Rightarrow> cyc \<Rightarrow> cyc" where
  "undo_entry n e C = (case e of (i, j, k) \<Rightarrow>
     let C1 = (if asg_at C i j k = True_t then undo_true n e C else C);
         C2 = (if asg_at C1 i j k = False_t then dom_upd i j (\<lambda>d. bd_set1 d k) C1 else C1)
     in C2\<lparr>cy_asg := upd3 (cy_asg C2) i j k Unknown_t\<rparr>)"

definition undo_lit :: "nat \<Rightarrow> nat \<Rightarrow> solver \<Rightarrow> solver res" where
  "undo_lit n l s = bindE (entry_of s l) (\<lambda>(i, j, k).
     Inr (if sv_fixed s ! i ! j ! k then s else s\<lparr>sv_cyc := undo_entry n (i, j, k) (sv_cyc s)\<rparr>))"

definition pop_level :: "nat \<Rightarrow> solver \<Rightarrow> solver res" where
  "pop_level n s = bindE (foldE (undo_lit n) (last (sv_trail s)) s) (\<lambda>s. Inr (s\<lparr>sv_trail := butlast (sv_trail s)\<rparr>))"

definition notify_backtrack :: "nat \<Rightarrow> nat \<Rightarrow> solver \<Rightarrow> solver res" where
  "notify_backtrack n level s = foldE (\<lambda>_. pop_level n) [0..<length (sv_trail s) - (level + 1)] s"

section \<open>The table and the clauses\<close>

text \<open>With \<open>checkMode\<close> the table is read from the solver.\<close>

definition read_entry :: "flags \<Rightarrow> nat \<Rightarrow> (int \<Rightarrow> int) \<Rightarrow> solver \<Rightarrow> nat \<times> nat \<times> nat \<Rightarrow> cyc \<Rightarrow> cyc" where
  "read_entry fl n val s e C = (case e of (i, j, k) \<Rightarrow>
     let settle = (\<lambda>C. fold (\<lambda>l C. if j \<noteq> l then dom_upd i l (\<lambda>d. bd_reset1 d k) C else C) [0..<n]
                    (dom_upd i j (\<lambda>d. bd_set1 (bd_reset_all d) k) (C\<lparr>cy_asg := upd3 (cy_asg C) i j k True_t\<rparr>)));
         L = sv_lits s ! i ! j ! k
     in if L \<noteq> 0
        then (let C1 = (if 0 < val L then settle (C\<lparr>cy_matrix := upd2 (cy_matrix C) i j (int k)\<rparr>) else C)
              in if val L < 0 then dom_upd i j (\<lambda>d. bd_reset1 d k) (C1\<lparr>cy_asg := upd3 (cy_asg C1) i j k False_t\<rparr>) else C1)
        else if fl_diag fl \<and> i = j then settle (C\<lparr>cy_matrix := upd2 (cy_matrix C) i j (mat_at (sv_cyc s) i j)\<rparr>)
        else C)"

definition getCycleSet :: "flags \<Rightarrow> nat \<Rightarrow> (int \<Rightarrow> int) \<Rightarrow> solver \<Rightarrow> cyc" where
  "getCycleSet fl n val s =
     (if \<not> sv_checkMode s then sv_cyc s
      else fold (read_entry fl n val s) (triples n) (cyc_new n (cy_lits (sv_cyc s))))"

definition clause_line :: "int list \<Rightarrow> string" where
  "clause_line c = concat (map (\<lambda>l. show_int l @ '' '') c) @ ''0'' @ [char_of (10 :: nat)]"

text \<open>Whether a clause is satisfied, and which of its variables are open; the loop stops at a satisfied literal.\<close>

fun scan_clause :: "solver \<Rightarrow> int list \<Rightarrow> nat list \<Rightarrow> (bool \<times> nat list) res" where
  "scan_clause s [] unknown = Inr (True, unknown)"
| "scan_clause s (l # ls) unknown = bindE (entry_of s (var_of l)) (\<lambda>(i, j, k).
     let a = asg_at (sv_cyc s) i j k
     in if 0 < l \<and> a = True_t \<or> l < 0 \<and> a = False_t then Inr (False, unknown)
        else if l \<noteq> 0 \<and> a = Unknown_t \<and> var_of l \<notin> set unknown then scan_clause s ls (unknown @ [var_of l])
        else scan_clause s ls unknown)"

definition addClause :: "opts \<Rightarrow> int list \<Rightarrow> bool \<Rightarrow> solver \<Rightarrow> solver res" where
  "addClause op c redundant s =
     (let s1 = (if \<not> sv_checkMode s then s\<lparr>sv_clauses := sv_clauses s @ [c]\<rparr> else s\<lparr>sv_added := sv_added s @ c @ [0]\<rparr>)
      in if op_saveState op \<and> redundant then Inr (s1\<lparr>sv_sbc := sv_sbc s1 @ clause_line c\<rparr>)
         else if op_saveState op then Inr (s1\<lparr>sv_sols := sv_sols s1 @ clause_line c\<rparr>)
         else if redundant
         then bindE (scan_clause s1 c []) (\<lambda>(unitOrFalse, unknown).
                Inr (if \<not> unitOrFalse \<or> 1 < length unknown then s1\<lparr>sv_warn := sv_warn s1 + 1\<rparr> else s1))
         else Inr s1)"

section \<open>The minimality check of the current table\<close>

definition table_full :: "nat \<Rightarrow> cyc \<Rightarrow> bool" where
  "table_full n C = list_all (\<lambda>(i, j). mat_at C i j \<noteq> -1) (cells n)"

text \<open>The clause that excludes the table.\<close>

definition exclude_clause :: "flags \<Rightarrow> nat \<Rightarrow> cyc \<Rightarrow> lits3 \<Rightarrow> int list" where
  "exclude_clause fl n C L = concat (map (\<lambda>(i, j). if fl_diag fl \<and> i = j then []
     else map (\<lambda>k. - (L ! i ! j ! k)) (filter (\<lambda>k. asg_at C i j k = True_t) [0..<n])) (cells n))"

definition print_solution :: "cyc \<Rightarrow> solver \<Rightarrow> solver" where
  "print_solution C s = s\<lparr>sv_nModels := sv_nModels s + 1,
     sv_out := fprintCycleSet (sv_out s @ ''Solution '' @ digits (sv_nModels s + 1) @ [char_of (10 :: nat)]) C\<rparr>"

text \<open>
  The result is \<open>res\<close>. The handler of \<open>LimitReachedException\<close> sets a variable of its own, so
  \<open>failed\<close> stays false there.
\<close>

definition checkMin :: "opts \<Rightarrow> nat \<Rightarrow> (int \<Rightarrow> int) \<Rightarrow> bool \<Rightarrow> solver \<Rightarrow> (bool \<times> solver) res" where
  "checkMin op n val final s =
     (let fl = op_fl op; C = getCycleSet fl n val s; full = table_full n C; fin = (full \<or> final);
          M = (sv_mc s)\<lparr>mc_final := fin\<rparr>;
          (r, M') = (if preCheck n C then (Inr (), M) else run_MinCheck fl n M C);
          s1 = s\<lparr>sv_mc := M'\<rparr>;
          count = (\<lambda>f s. s\<lparr>sv_stats := f (sv_stats s)\<rparr>)
      in bindE (case r of
            Inr _ \<Rightarrow> Inr (True, False, s1)
          | Inl (SymBreak c) \<Rightarrow> bindE (addClause op c True (count (\<lambda>t. t\<lparr>st_nSymBreakClauses := st_nSymBreakClauses t + 1\<rparr>) s1)) (\<lambda>s2.
              Inr (False, True, count (\<lambda>t. if fin then t\<lparr>st_FullCheckSucc := st_FullCheckSucc t + 1\<rparr>
                                          else t\<lparr>st_PartCheckSucc := st_PartCheckSucc t + 1\<rparr>) s2))
          | Inl LimitReached \<Rightarrow> Inr (True, False, s1)
          | Inl e \<Rightarrow> Inl e) (\<lambda>(res, failed, s2).
         bindE (if full \<and> \<not> failed \<and> op_allModels op
            then bindE (addClause op (exclude_clause fl n C (sv_lits s2)) False (print_solution C s2)) (\<lambda>s3.
                   Inr (False, count (\<lambda>t. t\<lparr>st_FullCheckFail := st_FullCheckFail t + 1\<rparr>) s3))
            else Inr (res, s2)) (\<lambda>(res, s3).
         Inr (res, count (\<lambda>t. let t1 = (if res \<and> \<not> fin then t\<lparr>st_PartCheckFail := st_PartCheckFail t + 1\<rparr> else t)
                in if fin then t1\<lparr>st_callsFullCheck := st_callsFullCheck t1 + 1\<rparr>
                   else t1\<lparr>st_callsPartCheck := st_callsPartCheck t1 + 1\<rparr>) s3))))"

definition propagate :: "opts \<Rightarrow> nat \<Rightarrow> (int \<Rightarrow> int) \<Rightarrow> int \<Rightarrow> solver \<Rightarrow> (bool \<times> solver) res" where
  "propagate op n val rnd s =
     (let s1 = s\<lparr>sv_stats := (sv_stats s)\<lparr>st_callsPropagator := st_callsPropagator (sv_stats s) + 1\<rparr>\<rparr>
      in if op_checkFreq op = 0 then Inl UB
         else if rnd mod op_checkFreq op = 0 \<and> op_checkSols op then checkMin op n val False s1
         else Inr (True, s1))"

definition check :: "opts \<Rightarrow> nat \<Rightarrow> (int \<Rightarrow> int) \<Rightarrow> solver \<Rightarrow> (bool \<times> solver) res" where
  "check op n val s = bindE (checkMin op n val True s) (\<lambda>(res, s1).
     if \<not> res then Inr (False, s1)
     else let C = getCycleSet (op_fl op) n val s1; s2 = print_solution C s1
          in if op_allModels op
             then bindE (addClause op (exclude_clause (op_fl op) n C (sv_lits s2)) False s2) (\<lambda>s3. Inr (False, s3))
             else Inr (True, s2))"

section \<open>Callbacks\<close>

definition cb_check_found_model :: "opts \<Rightarrow> nat \<Rightarrow> (int \<Rightarrow> int) \<Rightarrow> solver \<Rightarrow> (bool \<times> solver) res" where
  "cb_check_found_model op n val s = (if sv_clauses s \<noteq> [] then Inr (False, s) else check op n val s)"

definition cb_has_external_clause :: "opts \<Rightarrow> nat \<Rightarrow> (int \<Rightarrow> int) \<Rightarrow> int \<Rightarrow> solver \<Rightarrow> (bool \<times> solver) res" where
  "cb_has_external_clause op n val rnd s =
     bindE (if sv_clauses s = [] \<and> sv_change s \<and> \<not> op_propLits op
            then bindE (propagate op n val rnd (s\<lparr>sv_change := False\<rparr>)) (\<lambda>x. Inr (snd x)) else Inr s) (\<lambda>s1.
     Inr (sv_clauses s1 \<noteq> [], s1))"

definition cb_add_external_clause_lit :: "solver \<Rightarrow> (int \<times> solver) res" where
  "cb_add_external_clause_lit s =
     (if sv_clauses s = [] then Inl UB
      else let c = last (sv_clauses s)
           in if c = [] then Inr (0, s\<lparr>sv_clauses := butlast (sv_clauses s)\<rparr>)
              else Inr (last c, s\<lparr>sv_clauses := butlast (sv_clauses s) @ [butlast c]\<rparr>))"

definition cb_decide :: "flags \<Rightarrow> nat \<Rightarrow> solver \<Rightarrow> int" where
  "cb_decide fl n s =
     (case List.find (\<lambda>(i, j). (\<not> fl_diag fl \<or> i \<noteq> j) \<and> 1 < bd_numTrue (dom_at (sv_cyc s) i j)) (cells n) of
        None \<Rightarrow> 0 | Some (i, j) \<Rightarrow> sv_lits s ! i ! j ! nat (bd_firstel (dom_at (sv_cyc s) i j)))"

text \<open>The loop of \<open>cb_propagate\<close>: \<open>None\<close> when a literal already holds.\<close>

fun scan_unit :: "solver \<Rightarrow> int list \<Rightarrow> nat \<times> int \<Rightarrow> (nat \<times> int) option res" where
  "scan_unit s [] u = Inr (Some u)"
| "scan_unit s (l # ls) u = bindE (entry_of s (var_of l)) (\<lambda>(i, j, k).
     let a = asg_at (sv_cyc s) i j k
     in if a = Unknown_t then scan_unit s ls (fst u + 1, l)
        else if a = True_t \<and> 0 < l then Inr None
        else if a = False_t \<and> l < 0 then Inr None
        else scan_unit s ls u)"

definition cb_propagate :: "opts \<Rightarrow> nat \<Rightarrow> (int \<Rightarrow> int) \<Rightarrow> int \<Rightarrow> bool \<Rightarrow> solver \<Rightarrow> (int \<times> solver) res" where
  "cb_propagate op n val rnd timeout s =
     (if timeout \<or> \<not> op_propLits op \<or> \<not> sv_change s then Inr (0, s)
      else bindE (propagate op n val rnd s) (\<lambda>(_, s1).
        if sv_clauses s1 = [] then Inr (0, s1)
        else let c = last (sv_clauses s1)
          in if c = [] then Inl ExitFailure
             else bindE (scan_unit s1 c (0, 0)) (\<lambda>u. case u of None \<Rightarrow> Inr (0, s1)
               | Some (nUnknown, l) \<Rightarrow>
                   if nUnknown = 1
                   then (let s2 = s1\<lparr>sv_clauses := butlast (sv_clauses s1)\<rparr>
                         in if 0 < l then Inr (l, s2\<lparr>sv_pos := (sv_pos s2)[var_of l := c]\<rparr>)
                            else Inr (l, s2\<lparr>sv_neg := (sv_neg s2)[var_of l := c]\<rparr>))
                   else Inr (0, s1))))"

definition cb_add_reason_clause_lit :: "int \<Rightarrow> solver \<Rightarrow> (int \<times> solver) res" where
  "cb_add_reason_clause_lit plit s =
     (let x = var_of plit
      in if 0 < plit
         then bindE (vget (sv_pos s) (int x)) (\<lambda>c. if c = [] then Inr (0, s)
                else Inr (last c, s\<lparr>sv_pos := (sv_pos s)[x := butlast c]\<rparr>))
         else bindE (vget (sv_neg s) (int x)) (\<lambda>c. if c = [] then Inr (0, s)
                else Inr (last c, s\<lparr>sv_neg := (sv_neg s)[x := butlast c]\<rparr>)))"

section \<open>Construction\<close>

definition fixDiag :: "nat \<Rightarrow> (nat \<Rightarrow> nat) \<Rightarrow> solver \<Rightarrow> solver" where
  "fixDiag n d s = fold (\<lambda>i s.
     let s1 = fold (\<lambda>k s. s\<lparr>
           sv_cyc := (let C = (sv_cyc s)\<lparr>cy_asg := upd3 (cy_asg (sv_cyc s)) i i k (if k \<noteq> d i then False_t else True_t)\<rparr>
                      in if k \<noteq> i then dom_upd i k (\<lambda>b. bd_reset1 b (d i)) C
                         else dom_upd i k (\<lambda>b. bd_set1 (bd_reset_all b) (d i)) C),
           sv_fixed := upd3 (sv_fixed s) i i k True\<rparr>) [0..<n] s
     in s1\<lparr>sv_cyc := (sv_cyc s1)\<lparr>cy_matrix := upd2 (cy_matrix (sv_cyc s1)) i i (int (d i))\<rparr>\<rparr>) [0..<n] s"

text \<open>The first two rows, whatever number of rows is fixed; a value outside the row is an access out of range.\<close>

definition fixFirstRow :: "flags \<Rightarrow> nat \<Rightarrow> int list \<Rightarrow> solver \<Rightarrow> solver res" where
  "fixFirstRow fl n firstRow s = foldE (\<lambda>(r, k) s.
     if fl_diag fl \<and> k = r then Inr s
     else bindE (vget firstRow (int k)) (\<lambda>v.
       if v < 0 \<or> int n \<le> v \<or> n \<le> r then Inl UB
       else Inr (s\<lparr>sv_cyc := dom_upd r k (\<lambda>b. bd_set1 b (nat v)) (sv_cyc s), sv_fixed := upd3 (sv_fixed s) r k (nat v) True\<rparr>)))
     (List.product [0, 1] [0..<n]) s"

text \<open>\<open>lit2entry\<close> and the variables the solver is told to observe.\<close>

definition l2e_keep :: "flags \<Rightarrow> (nat \<Rightarrow> nat) \<Rightarrow> nat \<times> nat \<times> nat \<Rightarrow> bool" where
  "l2e_keep fl d e = (case e of (i, j, k) \<Rightarrow> \<not> fl_diag fl \<or> (\<not> fl_smaller fl \<or> (i \<noteq> j \<and> k \<noteq> d i)))"

definition lit2entry :: "flags \<Rightarrow> nat \<Rightarrow> (nat \<Rightarrow> nat) \<Rightarrow> (nat \<times> nat \<times> nat) option list" where
  "lit2entry fl n d = None # map Some (filter (l2e_keep fl d) (triples n))"

definition observed :: "flags \<Rightarrow> nat \<Rightarrow> (nat \<Rightarrow> nat) \<Rightarrow> lits3 \<Rightarrow> int list" where
  "observed fl n d L = map (\<lambda>(i, j, k). L ! i ! j ! k)
     (filter (\<lambda>(i, j, k). \<not> fl_diag fl \<or> (i \<noteq> j \<and> (\<not> fl_smaller fl \<or> k \<noteq> d i))) (triples n))"

text \<open>
  \<open>configured\<close> is the result of the solver's \<open>configure\<close>. The output, state and clause files are
  opened by name; they are empty strings here.
\<close>

definition new_solver ::
  "opts \<Rightarrow> nat \<Rightarrow> nat \<times> nat \<Rightarrow> bool \<Rightarrow> cnf \<Rightarrow> int list \<Rightarrow> int list \<Rightarrow> lits3 \<Rightarrow> solver res" where
  "new_solver op n beyond configured F d firstRow L =
     (let fl = op_fl op; dd = vec_perm d;
          s0 = \<lparr>sv_nModels = 0, sv_out = [], sv_warn = 0, sv_sbc = [], sv_sols = [], sv_stats = stats0,
            sv_cyc = cyc_new n L, sv_fixed = const3 n False, sv_trail = [[]], sv_l2e = lit2entry fl n dd,
            sv_clauses = [], sv_change = True, sv_checkMode = False,
            sv_pos = replicate (length (lit2entry fl n dd)) [], sv_neg = replicate (length (lit2entry fl n dd)) [],
            sv_mc = mc_new_table fl n no_cyc L, sv_lits = L, sv_added = []\<rparr>
      in if \<not> configured then Inl ExitFailure
         else if list_ex (\<lambda>c. c = [] \<or> 0 \<in> set c) F then Inl ExitFailure
         else let s1 = s0\<lparr>sv_added := concat (map (\<lambda>c. c @ [0]) F)\<rparr>;
                  s2 = (if fl_diag fl then fixDiag n dd s1 else s1)
           in bindE (if 0 < op_fixedRow op then fixFirstRow fl n firstRow s2 else Inr s2) (\<lambda>s3.
              bindE (mc_new fl n beyond d L) (\<lambda>M. Inr (s3\<lparr>sv_mc := M\<rparr>))))"

end
