(* ===== verification/Propagator_Table.thy ===== *)
theory Propagator_Table
  imports Propagator
begin

text \<open>
  The table the propagator keeps: what the notifications do to its entries and domains, and the
  invariant that makes it a legal input of the minimality check. Backtracking does not restore
  saved domains but recomputes them from the assignments, so the invariant has to survive in the
  middle of an undone level, too.
\<close>

section \<open>One step, entry by entry\<close>

lemma dom_upd_simps [simp]:
  "cy_matrix (dom_upd i j f C) = cy_matrix C" "cy_asg (dom_upd i j f C) = cy_asg C" "cy_lits (dom_upd i j f C) = cy_lits C"
  by (simp_all add: dom_upd_def)

lemma dom_upd_at:
  "cyc_dims n C \<Longrightarrow> i < n \<Longrightarrow> j < n \<Longrightarrow> a < n \<Longrightarrow> b < n \<Longrightarrow>
   dom_at (dom_upd i j f C) a b = (if a = i \<and> b = j then f (dom_at C i j) else dom_at C a b)"
  by (simp add: dom_upd_def cyc_dims_def upd2_nth[where n = n])

lemma dom_upd_dims:
  assumes "cyc_dims n C" "i < n" "j < n" "bd_inv n (f (dom_at C i j))"
  shows "cyc_dims n (dom_upd i j f C)"
  using assms dom_upd_at[OF assms(1-3), of _ _ f] by (simp add: cyc_dims_def) (simp add: dom_upd_def)

lemma dims_dom: "cyc_dims n C \<Longrightarrow> i < n \<Longrightarrow> j < n \<Longrightarrow> bd_inv n (dom_at C i j)"
  by (simp add: cyc_dims_def)

lemma set_mat_dims: "cyc_dims n C \<Longrightarrow> cyc_dims n (C\<lparr>cy_matrix := upd2 (cy_matrix C) i j x\<rparr>)"
  by (simp add: cyc_dims_def)

lemma set_asg_dims: "cyc_dims n C \<Longrightarrow> cyc_dims n (C\<lparr>cy_asg := upd3 (cy_asg C) i j k x\<rparr>)"
  by (simp add: cyc_dims_def)

lemma mat_upd: "cyc_dims n C \<Longrightarrow> i < n \<Longrightarrow> j < n \<Longrightarrow> a < n \<Longrightarrow> b < n \<Longrightarrow>
  upd2 (cy_matrix C) i j x ! a ! b = (if a = i \<and> b = j then x else mat_at C a b)"
  by (simp add: cyc_dims_def upd2_nth[where n = n])

lemma asg_upd: "cyc_dims n C \<Longrightarrow> i < n \<Longrightarrow> j < n \<Longrightarrow> k < n \<Longrightarrow> a < n \<Longrightarrow> b < n \<Longrightarrow> c < n \<Longrightarrow>
  upd3 (cy_asg C) i j k x ! a ! b ! c = (if a = i \<and> b = j \<and> c = k then x else asg_at C a b c)"
  by (simp add: cyc_dims_def upd3_nth[where n = n])

abbreviation vals_at :: "cyc \<Rightarrow> nat \<Rightarrow> nat \<Rightarrow> nat set" where
  "vals_at C i j \<equiv> bd_vals (dom_at C i j)"

text \<open>The state after one change: the entries of a cell, and the domains as a function of the old ones.\<close>

definition changed :: "nat \<Rightarrow> cyc \<Rightarrow> cyc \<Rightarrow> nat \<Rightarrow> nat \<Rightarrow> nat \<Rightarrow> int \<Rightarrow> truth \<Rightarrow> (nat \<Rightarrow> nat set) \<Rightarrow> bool" where
  "changed n C C' i j k m a V \<longleftrightarrow> cyc_dims n C' \<and>
     (\<forall>x<n. \<forall>y<n. mat_at C' x y = (if x = i \<and> y = j then m else mat_at C x y)) \<and>
     (\<forall>x<n. \<forall>y<n. \<forall>z<n. asg_at C' x y z = (if x = i \<and> y = j \<and> z = k then a else asg_at C x y z)) \<and>
     (\<forall>x<n. \<forall>y<n. vals_at C' x y = (if x = i then V y else vals_at C x y))"

lemma changedD:
  assumes "changed n C C' i j k m a V"
  shows "cyc_dims n C'" "x < n \<Longrightarrow> y < n \<Longrightarrow> mat_at C' x y = (if x = i \<and> y = j then m else mat_at C x y)"
    "x < n \<Longrightarrow> y < n \<Longrightarrow> z < n \<Longrightarrow> asg_at C' x y z = (if x = i \<and> y = j \<and> z = k then a else asg_at C x y z)"
    "x < n \<Longrightarrow> y < n \<Longrightarrow> vals_at C' x y = (if x = i then V y else vals_at C x y)"
  using assms by (simp_all add: changed_def)

lemma assign_false_changed:
  assumes C: "cyc_dims n C" and e: "i < n" "j < n" "k < n"
  shows "changed n C (assign_false (i, j, k) C) i j k (mat_at C i j) False_t
    (\<lambda>y. if y = j then vals_at C i j - {k} else vals_at C i y)"
proof -
  let ?C = "C\<lparr>cy_asg := upd3 (cy_asg C) i j k False_t\<rparr>"
  have d: "cyc_dims n ?C" by (rule set_asg_dims[OF C])
  have v: "bd_vals (bd_reset1 (dom_at C i j) k) = vals_at C i j - {k}" "bd_inv n (bd_reset1 (dom_at C i j) k)"
    using bd_reset1_vals bd_reset1_inv dims_dom[OF C e(1,2)] e(3) by blast+
  have "cyc_dims n (assign_false (i, j, k) C)"
    unfolding assign_false_def prod.case using dom_upd_dims[OF d e(1,2)] v(2) by simp
  then show ?thesis
    using e asg_upd[OF C e] dom_upd_at[OF d e(1,2)] v(1) by (simp add: changed_def assign_false_def)
qed

text \<open>The loop of an assignment to true.\<close>

lemma clear_row:
  fixes j :: nat
  assumes C: "cyc_dims n C" and i: "i < n" and k: "k < n"
  defines "C' \<equiv> fold (\<lambda>l C. if j = l then C else if bd_numTrue (dom_at C i l) \<noteq> 1 then dom_upd i l (\<lambda>d. bd_reset1 d k) C else C) [0..<n] C"
  shows "cyc_dims n C'" "cy_matrix C' = cy_matrix C" "cy_asg C' = cy_asg C"
    "x < n \<Longrightarrow> y < n \<Longrightarrow> vals_at C' x y = (if x = i \<and> y \<noteq> j \<and> card (vals_at C i y) \<noteq> 1 then vals_at C i y - {k} else vals_at C x y)"
proof -
  let ?P = "\<lambda>m D. cyc_dims n D \<and> cy_matrix D = cy_matrix C \<and> cy_asg D = cy_asg C \<and>
    (\<forall>x<n. \<forall>y<n. vals_at D x y = (if x = i \<and> y \<noteq> j \<and> y < m \<and> card (vals_at C i y) \<noteq> 1 then vals_at C i y - {k} else vals_at C x y))"
  have "?P n C'"
    unfolding C'_def
  proof (rule fold_upt_inv[where P = ?P])
    show "?P 0 C" using C by simp
    fix l D assume l: "l < n" and P: "?P l D"
    have D: "cyc_dims n D" using P by blast
    have num: "bd_numTrue (dom_at D i l) \<noteq> 1 \<longleftrightarrow> card (vals_at C i l) \<noteq> 1"
      using dims_dom[OF D i l] P i l by (simp add: bd_inv_def)
    have v: "bd_vals (bd_reset1 (dom_at D i l) k) = vals_at D i l - {k}" "bd_inv n (bd_reset1 (dom_at D i l) k)"
      using bd_reset1_vals bd_reset1_inv dims_dom[OF D i l] k by blast+
    show "?P (Suc l) (if j = l then D else if bd_numTrue (dom_at D i l) \<noteq> 1 then dom_upd i l (\<lambda>d. bd_reset1 d k) D else D)"
    proof (cases "j = l \<or> card (vals_at C i l) = 1")
      case True
      then show ?thesis using P num by (auto simp: less_Suc_eq)
    next
      case False
      have "cyc_dims n (dom_upd i l (\<lambda>d. bd_reset1 d k) D)" using dom_upd_dims[OF D i l, of "\<lambda>d. bd_reset1 d k"] v(2) by simp
      moreover have "vals_at (dom_upd i l (\<lambda>d. bd_reset1 d k) D) x y =
          (if x = i \<and> y \<noteq> j \<and> y < Suc l \<and> card (vals_at C i y) \<noteq> 1 then vals_at C i y - {k} else vals_at C x y)"
        if "x < n" "y < n" for x y
        using that P False v(1) i l dom_upd_at[OF D i l that] by (auto simp: less_Suc_eq)
      ultimately show ?thesis using P num False by simp
    qed
  qed simp
  then show "cyc_dims n C'" "cy_matrix C' = cy_matrix C" "cy_asg C' = cy_asg C"
    "x < n \<Longrightarrow> y < n \<Longrightarrow> vals_at C' x y = (if x = i \<and> y \<noteq> j \<and> card (vals_at C i y) \<noteq> 1 then vals_at C i y - {k} else vals_at C x y)"
    by auto
qed

lemma assign_true_changed:
  assumes C: "cyc_dims n C" and e: "i < n" "j < n" "k < n"
  shows "changed n C (assign_true n (i, j, k) C) i j k (int k) True_t
    (\<lambda>y. if y = j then {k} else if card (vals_at C i y) \<noteq> 1 then vals_at C i y - {k} else vals_at C i y)"
proof -
  let ?C1 = "C\<lparr>cy_asg := upd3 (cy_asg C) i j k True_t, cy_matrix := upd2 (cy_matrix C) i j (int k)\<rparr>"
  have d1: "cyc_dims n ?C1" using C by (simp add: cyc_dims_def)
  let ?f = "\<lambda>d. bd_set1 (bd_reset_all d) k"
  have inv: "bd_inv n (bd_reset_all (dom_at C i j))" by (rule bd_reset_all_inv[OF dims_dom[OF C e(1,2)]])
  have v: "bd_vals (?f (dom_at C i j)) = {k}" "bd_inv n (?f (dom_at C i j))"
    using bd_set1_vals[OF inv e(3)] bd_set1_inv[OF inv e(3)] by (simp_all add: bd_reset_all_vals)
  let ?C2 = "dom_upd i j ?f ?C1"
  have d2: "cyc_dims n ?C2" by (rule dom_upd_dims[OF d1 e(1,2)]) (use v(2) in simp)
  have v2: "vals_at ?C2 x y = (if x = i \<and> y = j then {k} else vals_at C x y)" if "x < n" "y < n" for x y
    using dom_upd_at[OF d1 e(1,2) that, of ?f] v(1) by simp
  note R = clear_row[OF d2 e(1,3), where j = j]
  have eq: "assign_true n (i, j, k) C = fold (\<lambda>l C. if j = l then C else if bd_numTrue (dom_at C i l) \<noteq> 1 then dom_upd i l (\<lambda>d. bd_reset1 d k) C else C) [0..<n] ?C2"
    by (simp add: assign_true_def Let_def)
  show ?thesis
    unfolding changed_def eq R(2,3)
  proof (intro conjI allI impI)
    fix x y assume xy: "x < n" "y < n"
    show "cy_matrix ?C2 ! x ! y = (if x = i \<and> y = j then int k else mat_at C x y)" using mat_upd[OF C e(1,2) xy] by simp
    show "cy_asg ?C2 ! x ! y ! z = (if x = i \<and> y = j \<and> z = k then True_t else asg_at C x y z)" if "z < n" for z
      using asg_upd[OF C e xy that] by simp
    show "vals_at (fold (\<lambda>l C. if j = l then C else if bd_numTrue (dom_at C i l) \<noteq> 1 then dom_upd i l (\<lambda>d. bd_reset1 d k) C else C) [0..<n] ?C2) x y =
      (if x = i then if y = j then {k} else if card (vals_at C i y) \<noteq> 1 then vals_at C i y - {k} else vals_at C i y else vals_at C x y)"
      unfolding R(4)[OF xy] v2[OF e(1) xy(2)] v2[OF xy] by auto
  qed (rule R(1))
qed

text \<open>Undoing recomputes the row.\<close>

lemma undo_loop:
  assumes C: "cyc_dims n C" and e: "i < n" "j < n" "k < n"
    and mats: "\<forall>y<n. mat_at C i y \<noteq> -1 \<longrightarrow> 0 \<le> mat_at C i y \<and> mat_at C i y < int n" and open_cell: "mat_at C i j = -1"
  defines "C' \<equiv> fold (undo_true_step (i, j, k)) [0..<n] C"
  shows "cyc_dims n C'" "cy_matrix C' = cy_matrix C" "cy_asg C' = cy_asg C"
    "x < n \<Longrightarrow> y < n \<Longrightarrow> vals_at C' x y = (if x \<noteq> i then vals_at C x y
       else if y = j then vals_at C i j - {z. z < n \<and> (asg_at C i j z = False_t \<or> (\<exists>y<n. y \<noteq> j \<and> mat_at C i y = int z))}
       else if mat_at C i y = -1 \<and> asg_at C i y k \<noteq> False_t then insert k (vals_at C i y) else vals_at C i y)"
proof -
  define A where "A = (\<lambda>m. {z. z < n \<and> z < m \<and> asg_at C i j z = False_t})"
  define K where "K = (\<lambda>m. {z. z < n \<and> (\<exists>y<m. y \<noteq> j \<and> mat_at C i y = int z)})"
  have K0: "A 0 = {}" "K 0 = {}" by (simp_all add: A_def K_def)
  have KS: "K (Suc l) = K l" if "l = j \<or> mat_at C i l = -1" for l using that by (auto simp: K_def less_Suc_eq)
  have KI: "K (Suc l) = insert z (K l)" if "l \<noteq> j" "mat_at C i l = int z" "z < n" for l z
    using that by (auto simp: K_def less_Suc_eq)
  have AS: "A (Suc l) = (if asg_at C i j l = False_t then insert l (A l) else A l)" if "l < n" for l
    using that by (auto simp: A_def less_Suc_eq)
  let ?V = "\<lambda>m x y. (if x \<noteq> i then vals_at C x y
       else if y = j then vals_at C i j - (A m \<union> K m)
       else if y < m \<and> mat_at C i y = -1 \<and> asg_at C i y k \<noteq> False_t then insert k (vals_at C i y) else vals_at C i y)"
  let ?P = "\<lambda>m D. cyc_dims n D \<and> cy_matrix D = cy_matrix C \<and> cy_asg D = cy_asg C \<and> (\<forall>x<n. \<forall>y<n. vals_at D x y = ?V m x y)"
  have "?P n C'"
    unfolding C'_def
  proof (rule fold_upt_inv[where P = ?P])
    show "?P 0 C" using C K0 by simp
    fix l D assume l: "l < n" and P: "?P l D"
    have D: "cyc_dims n D" and mD: "cy_matrix D = cy_matrix C" "cy_asg D = cy_asg C" and vD: "\<And>x y. x < n \<Longrightarrow> y < n \<Longrightarrow> vals_at D x y = ?V l x y"
      using P by blast+
    let ?D1 = "if l \<noteq> j then (if mat_at D i l \<noteq> -1 then dom_upd i j (\<lambda>d. bd_reset1 d (nat (mat_at D i l))) D
                 else if asg_at D i l k \<noteq> False_t then dom_upd i l (\<lambda>d. bd_set1 d k) D else D) else D"
    let ?V1 = "\<lambda>x y. (if x \<noteq> i then vals_at C x y
       else if y = j then vals_at C i j - (A l \<union> K (Suc l))
       else if y < Suc l \<and> mat_at C i y = -1 \<and> asg_at C i y k \<noteq> False_t then insert k (vals_at C i y) else vals_at C i y)"
    have D1: "cyc_dims n ?D1 \<and> cy_matrix ?D1 = cy_matrix C \<and> cy_asg ?D1 = cy_asg C \<and> (\<forall>x<n. \<forall>y<n. vals_at ?D1 x y = ?V1 x y)"
    proof -
      consider "l = j" | "l \<noteq> j" "mat_at C i l \<noteq> -1" | "l \<noteq> j" "mat_at C i l = -1" "asg_at C i l k \<noteq> False_t"
        | "l \<noteq> j" "mat_at C i l = -1" "asg_at C i l k = False_t" by blast
      then show ?thesis
      proof cases
        case 1
        then show ?thesis using P KS[of l] by (auto simp: less_Suc_eq)
      next
        case 2
        define z where "z = nat (mat_at C i l)"
        have z: "z < n" "mat_at C i l = int z" using mats l 2(2) unfolding z_def by (auto simp: nat_less_iff)
        have v: "bd_vals (bd_reset1 (dom_at D i j) z) = vals_at D i j - {z}" "bd_inv n (bd_reset1 (dom_at D i j) z)"
          using bd_reset1_vals bd_reset1_inv dims_dom[OF D e(1,2)] z(1) by blast+
        have eq: "?D1 = dom_upd i j (\<lambda>d. bd_reset1 d z) D" using 2 mD z(2) by simp
        have "vals_at (dom_upd i j (\<lambda>d. bd_reset1 d z) D) x y = ?V1 x y" if "x < n" "y < n" for x y
          using dom_upd_at[OF D e(1,2) that] v(1) vD[OF that] vD[OF e(1,2)] z(2) 2 KI[OF 2(1) z(2,1)] by (auto simp: less_Suc_eq)
        then show ?thesis unfolding eq using dom_upd_dims[OF D e(1,2), of "\<lambda>d. bd_reset1 d z"] v(2) mD by simp
      next
        case 3
        have v: "bd_vals (bd_set1 (dom_at D i l) k) = insert k (vals_at D i l)" "bd_inv n (bd_set1 (dom_at D i l) k)"
          using bd_set1_vals bd_set1_inv dims_dom[OF D e(1) l] e(3) by blast+
        have eq: "?D1 = dom_upd i l (\<lambda>d. bd_set1 d k) D" using 3 mD by simp
        have "vals_at (dom_upd i l (\<lambda>d. bd_set1 d k) D) x y = ?V1 x y" if "x < n" "y < n" for x y
          using dom_upd_at[OF D e(1) l that] v(1) vD[OF that] vD[OF e(1) l] 3 KS[of l] by (auto simp: less_Suc_eq)
        then show ?thesis unfolding eq using dom_upd_dims[OF D e(1) l, of "\<lambda>d. bd_set1 d k"] v(2) mD by simp
      next
        case 4
        have eq: "?D1 = D" using 4 mD by simp
        show ?thesis unfolding eq using P 4 KS[of l] by (auto simp: less_Suc_eq)
      qed
    qed
    have step: "undo_true_step (i, j, k) l D = (if asg_at ?D1 i j l = False_t then dom_upd i j (\<lambda>d. bd_reset1 d l) ?D1 else ?D1)"
      by (simp add: undo_true_step_def Let_def)
    show "?P (Suc l) (undo_true_step (i, j, k) l D)"
    proof (cases "asg_at C i j l = False_t")
      case True
      have d: "cyc_dims n ?D1" using D1 by blast
      have v: "bd_vals (bd_reset1 (dom_at ?D1 i j) l) = vals_at ?D1 i j - {l}" "bd_inv n (bd_reset1 (dom_at ?D1 i j) l)"
        using bd_reset1_vals bd_reset1_inv dims_dom[OF d e(1,2)] l by blast+
      have "vals_at (dom_upd i j (\<lambda>d. bd_reset1 d l) ?D1) x y = ?V (Suc l) x y" if "x < n" "y < n" for x y
        using dom_upd_at[OF d e(1,2) that] v(1) D1 that e True AS[OF l] by (auto simp: less_Suc_eq)
      then show ?thesis unfolding step using D1 True dom_upd_dims[OF d e(1,2), of "\<lambda>d. bd_reset1 d l"] v(2) by simp
    next
      case False
      have "?V1 x y = ?V (Suc l) x y" for x y using False AS[OF l] by simp
      then show ?thesis unfolding step using D1 False by simp
    qed
  qed simp
  then show "cyc_dims n C'" "cy_matrix C' = cy_matrix C" "cy_asg C' = cy_asg C"
    "x < n \<Longrightarrow> y < n \<Longrightarrow> vals_at C' x y = (if x \<noteq> i then vals_at C x y
       else if y = j then vals_at C i j - {z. z < n \<and> (asg_at C i j z = False_t \<or> (\<exists>y<n. y \<noteq> j \<and> mat_at C i y = int z))}
       else if mat_at C i y = -1 \<and> asg_at C i y k \<noteq> False_t then insert k (vals_at C i y) else vals_at C i y)"
    by (auto simp: A_def K_def)
qed

lemma undo_true_changed:
  assumes C: "cyc_dims n C" and e: "i < n" "j < n" "k < n"
    and mats: "\<forall>y<n. mat_at C i y \<noteq> -1 \<longrightarrow> 0 \<le> mat_at C i y \<and> mat_at C i y < int n"
  shows "changed n C (undo_true n (i, j, k) C) i j k (-1) (asg_at C i j k)
    (\<lambda>y. if y = j then {z. z < n \<and> asg_at C i j z \<noteq> False_t \<and> (\<forall>y<n. y \<noteq> j \<longrightarrow> mat_at C i y \<noteq> int z)}
       else if mat_at C i y = -1 \<and> asg_at C i y k \<noteq> False_t then insert k (vals_at C i y) else vals_at C i y)"
proof -
  let ?C1 = "C\<lparr>cy_matrix := upd2 (cy_matrix C) i j (-1)\<rparr>"
  let ?C2 = "dom_upd i j bd_set_all ?C1"
  have d1: "cyc_dims n ?C1" by (rule set_mat_dims[OF C])
  note inv = dims_dom[OF C e(1,2)]
  have d2: "cyc_dims n ?C2" by (rule dom_upd_dims[OF d1 e(1,2)]) (simp add: bd_set_all_inv[OF inv])
  have v2: "vals_at ?C2 x y = (if x = i \<and> y = j then {..<n} else vals_at C x y)" if "x < n" "y < n" for x y
    using dom_upd_at[OF d1 e(1,2) that, of bd_set_all] inv by (simp add: bd_set_all_vals bd_inv_def)
  have m2: "cy_matrix ?C2 ! x ! y = (if x = i \<and> y = j then -1 else mat_at C x y)" if "x < n" "y < n" for x y
    using mat_upd[OF C e(1,2) that] by simp
  have mats2: "\<forall>y<n. mat_at ?C2 i y \<noteq> -1 \<longrightarrow> 0 \<le> mat_at ?C2 i y \<and> mat_at ?C2 i y < int n"
    using mats m2[OF e(1)] by simp
  have "mat_at ?C2 i j = -1" using m2[OF e(1,2)] by simp
  note U = undo_loop[OF d2 e mats2 this]
  have run: "undo_true n (i, j, k) C = fold (undo_true_step (i, j, k)) [0..<n] ?C2" by (simp add: undo_true_def)
  have k: "{..<n} - {z. z < n \<and> (asg_at C i j z = False_t \<or> (\<exists>y<n. y \<noteq> j \<and> mat_at ?C2 i y = int z))} =
      {z. z < n \<and> asg_at C i j z \<noteq> False_t \<and> (\<forall>y<n. y \<noteq> j \<longrightarrow> mat_at C i y \<noteq> int z)}"
    using m2[OF e(1)] by auto
  have v: "vals_at (undo_true n (i, j, k) C) x y =
      (if x = i then if y = j then {z. z < n \<and> asg_at C i j z \<noteq> False_t \<and> (\<forall>y<n. y \<noteq> j \<longrightarrow> mat_at C i y \<noteq> int z)}
         else if mat_at C i y = -1 \<and> asg_at C i y k \<noteq> False_t then insert k (vals_at C i y) else vals_at C i y else vals_at C x y)"
    if xy: "x < n" "y < n" for x y
  proof -
    consider "x \<noteq> i" | "x = i" "y = j" | "x = i" "y \<noteq> j" by blast
    then show ?thesis
    proof cases
      case 1
      then show ?thesis using U(4)[OF xy] v2[OF xy] unfolding run by simp
    next
      case 2
      then show ?thesis using U(4)[OF xy] v2[OF xy] k unfolding run by simp
    next
      case 3
      then show ?thesis using U(4)[OF xy] v2[OF xy] m2[OF xy] unfolding run by simp
    qed
  qed
  have "mat_at (undo_true n (i, j, k) C) x y = (if x = i \<and> y = j then -1 else mat_at C x y)" if "x < n" "y < n" for x y
    unfolding run U(2) by (rule m2[OF that])
  moreover have "cy_asg (undo_true n (i, j, k) C) = cy_asg C" unfolding run U(3) by simp
  ultimately show ?thesis using v U(1) unfolding run[symmetric] changed_def by simp
qed

lemma forget_changed:
  assumes "changed n C C' i j k m a V" "i < n" "j < n" "k < n"
  shows "changed n C (C'\<lparr>cy_asg := upd3 (cy_asg C') i j k b\<rparr>) i j k m b V"
  using assms set_asg_dims[of n C' i j k b] asg_upd[OF changedD(1)[OF assms(1)] assms(2-4)] unfolding changed_def by simp

lemma undo_true_entry:
  assumes C: "cyc_dims n C" and e: "i < n" "j < n" "k < n" and a: "asg_at C i j k = True_t"
    and mats: "\<forall>y<n. mat_at C i y \<noteq> -1 \<longrightarrow> 0 \<le> mat_at C i y \<and> mat_at C i y < int n"
  shows "changed n C (undo_entry n (i, j, k) C) i j k (-1) Unknown_t
    (\<lambda>y. if y = j then {z. z < n \<and> asg_at C i j z \<noteq> False_t \<and> (\<forall>y<n. y \<noteq> j \<longrightarrow> mat_at C i y \<noteq> int z)}
       else if mat_at C i y = -1 \<and> asg_at C i y k \<noteq> False_t then insert k (vals_at C i y) else vals_at C i y)"
proof -
  note U = undo_true_changed[OF C e mats]
  have "asg_at (undo_true n (i, j, k) C) i j k = True_t" using changedD(3)[OF U e] a by simp
  then show ?thesis using forget_changed[OF U e, of Unknown_t] a by (simp add: undo_entry_def Let_def)
qed

lemma undo_false_entry:
  assumes C: "cyc_dims n C" and e: "i < n" "j < n" "k < n" and a: "asg_at C i j k = False_t"
  shows "changed n C (undo_entry n (i, j, k) C) i j k (mat_at C i j) Unknown_t
    (\<lambda>y. if y = j then insert k (vals_at C i j) else vals_at C i y)"
proof -
  let ?C = "dom_upd i j (\<lambda>d. bd_set1 d k) C"
  have v: "bd_vals (bd_set1 (dom_at C i j) k) = insert k (vals_at C i j)" "bd_inv n (bd_set1 (dom_at C i j) k)"
    using bd_set1_vals bd_set1_inv dims_dom[OF C e(1,2)] e(3) by blast+
  have "cyc_dims n ?C" using dom_upd_dims[OF C e(1,2), of "\<lambda>d. bd_set1 d k"] v(2) by simp
  then have "changed n C ?C i j k (mat_at C i j) False_t (\<lambda>y. if y = j then insert k (vals_at C i j) else vals_at C i y)"
    using dom_upd_at[OF C e(1,2), of _ _ "\<lambda>d. bd_set1 d k"] v(1) e a by (auto simp: changed_def)
  from forget_changed[OF this e, of Unknown_t] show ?thesis using a by (simp add: undo_entry_def Let_def)
qed

section \<open>The invariant\<close>

text \<open>
  \<open>T\<close> is the trail with entries for variables, \<open>F\<close> tells which entries are never undone. While a
  level is undone (\<open>b\<close>) its entries are taken from the last list one by one; a known cell whose
  domain is not a single value is then still on that list.
\<close>

definition table_inv :: "flags \<Rightarrow> nat \<Rightarrow> (nat \<Rightarrow> nat) \<Rightarrow> bool \<Rightarrow> (nat \<times> nat \<times> nat) list list \<Rightarrow> cyc \<Rightarrow> bool" where
  "table_inv fl n t b T C \<longleftrightarrow> cyc_dims n C \<and>
     (\<forall>i<n. \<forall>j<n. mat_at C i j \<noteq> -1 \<longrightarrow> (\<exists>m<n. mat_at C i j = int m \<and> (vals_at C i j = {m} \<or> b \<and> (i, j, m) \<in> set (last T)))) \<and>
     (\<forall>i<n. \<forall>j<n. \<forall>k<n. asg_at C i j k = True_t \<longleftrightarrow> mat_at C i j = int k) \<and>
     (fl_diag fl \<longrightarrow> (\<forall>r<n. t r < n \<and> mat_at C r r = int (t r) \<and> vals_at C r r = {t r} \<and>
        (\<forall>c<n. c \<noteq> r \<longrightarrow> t r \<notin> vals_at C r c \<and> mat_at C r c \<noteq> int (t r))))"

definition trail_inv ::
  "flags \<Rightarrow> nat \<Rightarrow> (nat \<Rightarrow> nat) \<Rightarrow> bool list list list \<Rightarrow> (nat \<times> nat \<times> nat) list list \<Rightarrow> cyc \<Rightarrow> bool" where
  "trail_inv fl n t F T C \<longleftrightarrow> T \<noteq> [] \<and> distinct (concat T) \<and>
     (\<forall>l<length T. \<forall>i j k. (i, j, k) \<in> set (T ! l) \<longrightarrow> i < n \<and> j < n \<and> k < n \<and> asg_at C i j k \<noteq> Unknown_t \<and> \<not> F ! i ! j ! k \<and>
        (fl_diag fl \<longrightarrow> i \<noteq> j \<and> k \<noteq> t i) \<and>
        (asg_at C i j k = False_t \<longrightarrow> mat_at C i j \<noteq> -1 \<longrightarrow> (i, j, nat (mat_at C i j)) \<in> set (concat (drop l T))))"

lemma table_invD:
  assumes "table_inv fl n t b T C"
  shows "cyc_dims n C" "i < n \<Longrightarrow> j < n \<Longrightarrow> mat_at C i j \<noteq> -1 \<Longrightarrow> \<exists>m<n. mat_at C i j = int m \<and> (vals_at C i j = {m} \<or> b \<and> (i, j, m) \<in> set (last T))"
    "i < n \<Longrightarrow> j < n \<Longrightarrow> k < n \<Longrightarrow> asg_at C i j k = True_t \<longleftrightarrow> mat_at C i j = int k"
    "fl_diag fl \<Longrightarrow> r < n \<Longrightarrow> t r < n \<and> mat_at C r r = int (t r) \<and> vals_at C r r = {t r}"
    "fl_diag fl \<Longrightarrow> r < n \<Longrightarrow> c < n \<Longrightarrow> c \<noteq> r \<Longrightarrow> t r \<notin> vals_at C r c \<and> mat_at C r c \<noteq> int (t r)"
  using assms by (auto simp: table_inv_def)

lemma trail_invD:
  assumes "trail_inv fl n t F T C"
  shows "T \<noteq> []" "distinct (concat T)"
    "l < length T \<Longrightarrow> (i, j, k) \<in> set (T ! l) \<Longrightarrow> i < n \<and> j < n \<and> k < n \<and> asg_at C i j k \<noteq> Unknown_t \<and> \<not> F ! i ! j ! k \<and> (fl_diag fl \<longrightarrow> i \<noteq> j \<and> k \<noteq> t i)"
    "l < length T \<Longrightarrow> (i, j, k) \<in> set (T ! l) \<Longrightarrow> asg_at C i j k = False_t \<Longrightarrow> mat_at C i j \<noteq> -1 \<Longrightarrow> (i, j, nat (mat_at C i j)) \<in> set (concat (drop l T))"
  using assms unfolding trail_inv_def by blast+

text \<open>Undoing one entry.\<close>

lemma undo_entry_inv:
  assumes I: "table_inv fl n t True (T @ [(i, j, k) # R]) C" and Tr: "trail_inv fl n t F (T @ [(i, j, k) # R]) C"
  shows "table_inv fl n t True (T @ [R]) (undo_entry n (i, j, k) C)" "trail_inv fl n t F (T @ [R]) (undo_entry n (i, j, k) C)"
proof -
  let ?T = "T @ [(i, j, k) # R]" and ?C = "undo_entry n (i, j, k) C"
  have last: "?T ! length T = (i, j, k) # R" "length T < length ?T" by simp_all
  have e: "i < n" "j < n" "k < n" "asg_at C i j k \<noteq> Unknown_t" "fl_diag fl \<longrightarrow> i \<noteq> j \<and> k \<noteq> t i"
    using trail_invD(3)[OF Tr last(2), of i j k] by simp_all
  have C: "cyc_dims n C" by (rule table_invD(1)[OF I])
  have row: "0 \<le> mat_at C x y \<and> mat_at C x y < int n" if "x < n" "y < n" "mat_at C x y \<noteq> -1" for x y
    using table_invD(2)[OF I that] by auto
  have mats: "\<forall>y<n. mat_at C i y \<noteq> -1 \<longrightarrow> 0 \<le> mat_at C i y \<and> mat_at C i y < int n" using row[OF e(1)] by blast
  have nin: "(i, j, k) \<notin> set R" "\<And>l. l < length T \<Longrightarrow> (i, j, k) \<notin> set (T ! l)"
    using trail_invD(2)[OF Tr] by (auto dest: nth_mem)
  have tr: "l < length (T @ [R]) \<Longrightarrow> x \<in> set ((T @ [R]) ! l) \<Longrightarrow> x \<in> set (?T ! l) \<and> x \<noteq> (i, j, k)" for l x
    using nin by (auto simp: nth_append split: if_splits)
  have dr: "x \<in> set (concat (drop l ?T)) \<longleftrightarrow> x = (i, j, k) \<or> x \<in> set (concat (drop l (T @ [R])))" if "l < length ?T" for l x
    using that by (auto simp: drop_Cons' split: if_splits)
  have dist: "distinct (concat (T @ [R]))" using trail_invD(2)[OF Tr] by auto
  consider (T) "asg_at C i j k = True_t" | (F) "asg_at C i j k = False_t" using e(4) by (cases "asg_at C i j k") auto
  then have "table_inv fl n t True (T @ [R]) ?C \<and> trail_inv fl n t F (T @ [R]) ?C"
  proof cases
    case T
    note U = undo_true_entry[OF C e(1-3) T mats]
    have m: "mat_at C i j = int k" using table_invD(3)[OF I e(1-3)] T by simp
    have "table_inv fl n t True (T @ [R]) ?C"
      unfolding table_inv_def
    proof (intro conjI allI impI)
      show "cyc_dims n ?C" by (rule changedD(1)[OF U])
      fix x y assume xy: "x < n" "y < n"
      show "\<exists>m<n. mat_at ?C x y = int m \<and> (vals_at ?C x y = {m} \<or> True \<and> (x, y, m) \<in> set (last (T @ [R])))" if "mat_at ?C x y \<noteq> -1"
      proof -
        have ne: "\<not> (x = i \<and> y = j)" and mx: "mat_at ?C x y = mat_at C x y" using that changedD(2)[OF U xy] by auto
        have "vals_at ?C x y = vals_at C x y" using changedD(4)[OF U xy] ne that mx by auto
        then show ?thesis using table_invD(2)[OF I xy] that mx ne by auto
      qed
      show "asg_at ?C x y z = True_t \<longleftrightarrow> mat_at ?C x y = int z" if "z < n" for z
        using changedD(2)[OF U xy] changedD(3)[OF U xy that] table_invD(3)[OF I xy that] m by auto
    next
      fix r assume d: "fl_diag fl" and r: "r < n"
      have D: "t r < n" "mat_at C r r = int (t r)" "vals_at C r r = {t r}" using table_invD(4)[OF I d r] by simp_all
      show "t r < n" by (rule D(1))
      have "\<not> (r = i \<and> r = j)" using d e(5) by auto
      then show "mat_at ?C r r = int (t r)" using changedD(2)[OF U r r] D(2) by simp
      show "vals_at ?C r r = {t r}" using changedD(4)[OF U r r] D \<open>\<not> (r = i \<and> r = j)\<close> by auto
      fix c assume c: "c < n" "c \<noteq> r"
      note E = table_invD(5)[OF I d r c]
      show "mat_at ?C r c \<noteq> int (t r)" using changedD(2)[OF U r c(1)] E by auto
      show "t r \<notin> vals_at ?C r c"
        using changedD(4)[OF U r c(1)] E d e(5) D(2) r by (auto split: if_splits)
    qed
    moreover have "trail_inv fl n t F (T @ [R]) ?C"
      unfolding trail_inv_def
    proof (intro conjI allI impI dist)
      fix l x y z assume l: "l < length (T @ [R])" and x: "(x, y, z) \<in> set ((T @ [R]) ! l)"
      have x': "(x, y, z) \<in> set (?T ! l)" "(x, y, z) \<noteq> (i, j, k)" "l < length ?T" using tr[OF l x] l by auto
      note E = trail_invD(3)[OF Tr x'(3,1)]
      then have xyz: "x < n" "y < n" "z < n" by simp_all
      show "x < n" "y < n" "z < n" "\<not> F ! x ! y ! z" using E by simp_all
      show "asg_at ?C x y z \<noteq> Unknown_t" using changedD(3)[OF U xyz] E x'(2) by auto
      show "x \<noteq> y" "z \<noteq> t x" if "fl_diag fl" using E that by simp_all
      assume a: "asg_at ?C x y z = False_t" "mat_at ?C x y \<noteq> -1"
      have "\<not> (x = i \<and> y = j)" "mat_at ?C x y = mat_at C x y" using a(2) changedD(2)[OF U xyz(1,2)] by auto
      moreover have "asg_at C x y z = False_t" using a(1) changedD(3)[OF U xyz] by (auto split: if_splits)
      ultimately show "(x, y, nat (mat_at ?C x y)) \<in> set (concat (drop l (T @ [R])))"
        using trail_invD(4)[OF Tr x'(3,1)] a(2) dr[OF x'(3), of "(x, y, nat (mat_at C x y))"] by auto
    qed simp
    ultimately show ?thesis by blast
  next
    case F
    note U = undo_false_entry[OF C e(1-3) F]
    have mk: "mat_at C i j \<noteq> int k" using table_invD(3)[OF I e(1-3)] F by simp
    have M: "mat_at ?C x y = mat_at C x y" if "x < n" "y < n" for x y using changedD(2)[OF U that] by simp
    have held: "(i, j, nat (mat_at C i j)) \<in> set R" if "mat_at C i j \<noteq> -1"
    proof -
      have "(i, j, nat (mat_at C i j)) \<in> set (concat (drop (length T) ?T))"
        by (rule trail_invD(4)[OF Tr last(2) _ F that]) simp
      moreover have "nat (mat_at C i j) \<noteq> k" using mk row[OF e(1,2) that] by auto
      ultimately show ?thesis by simp
    qed
    have "table_inv fl n t True (T @ [R]) ?C"
      unfolding table_inv_def
    proof (intro conjI allI impI)
      show "cyc_dims n ?C" by (rule changedD(1)[OF U])
      fix x y assume xy: "x < n" "y < n"
      show "\<exists>m<n. mat_at ?C x y = int m \<and> (vals_at ?C x y = {m} \<or> True \<and> (x, y, m) \<in> set (last (T @ [R])))" if mm: "mat_at ?C x y \<noteq> -1"
      proof -
        obtain m where m: "m < n" "mat_at C x y = int m" "vals_at C x y = {m} \<or> (x, y, m) \<in> set ((i, j, k) # R)"
          using table_invD(2)[OF I xy] M[OF xy] mm by auto
        show ?thesis
        proof (cases "x = i \<and> y = j")
          case True
          then show ?thesis using held m M[OF xy] mm by auto
        next
          case False
          then show ?thesis using m M[OF xy] changedD(4)[OF U xy] by auto
        qed
      qed
      show "asg_at ?C x y z = True_t \<longleftrightarrow> mat_at ?C x y = int z" if "z < n" for z
        using M[OF xy] changedD(3)[OF U xy that] table_invD(3)[OF I xy that] mk by auto
    next
      fix r assume d: "fl_diag fl" and r: "r < n"
      have D: "t r < n" "mat_at C r r = int (t r)" "vals_at C r r = {t r}" using table_invD(4)[OF I d r] by simp_all
      show "t r < n" "mat_at ?C r r = int (t r)" using D M[OF r r] by simp_all
      show "vals_at ?C r r = {t r}" using changedD(4)[OF U r r] D d e(5) by auto
      fix c assume c: "c < n" "c \<noteq> r"
      note E = table_invD(5)[OF I d r c]
      show "mat_at ?C r c \<noteq> int (t r)" using M[OF r c(1)] E by auto
      show "t r \<notin> vals_at ?C r c" using changedD(4)[OF U r c(1)] E d e(5) by auto
    qed
    moreover have "trail_inv fl n t F (T @ [R]) ?C"
      unfolding trail_inv_def
    proof (intro conjI allI impI dist)
      fix l x y z assume l: "l < length (T @ [R])" and x: "(x, y, z) \<in> set ((T @ [R]) ! l)"
      have x': "(x, y, z) \<in> set (?T ! l)" "(x, y, z) \<noteq> (i, j, k)" "l < length ?T" using tr[OF l x] l by auto
      note E = trail_invD(3)[OF Tr x'(3,1)]
      then have xyz: "x < n" "y < n" "z < n" by simp_all
      show "x < n" "y < n" "z < n" "\<not> F ! x ! y ! z" using E by simp_all
      show "asg_at ?C x y z \<noteq> Unknown_t" using changedD(3)[OF U xyz] E x'(2) by auto
      show "x \<noteq> y" "z \<noteq> t x" if "fl_diag fl" using E that by simp_all
      assume a: "asg_at ?C x y z = False_t" "mat_at ?C x y \<noteq> -1"
      have "asg_at C x y z = False_t" using a(1) changedD(3)[OF U xyz] by (auto split: if_splits)
      then have "(x, y, nat (mat_at C x y)) \<in> set (concat (drop l ?T))"
        using trail_invD(4)[OF Tr x'(3,1)] a(2) M[OF xyz(1,2)] by simp
      moreover have "(x, y, nat (mat_at C x y)) \<noteq> (i, j, k)"
        using mk row[OF xyz(1,2)] a(2) M[OF xyz(1,2)] by auto
      ultimately show "(x, y, nat (mat_at ?C x y)) \<in> set (concat (drop l (T @ [R])))"
        using dr[OF x'(3)] M[OF xyz(1,2)] by auto
    qed simp
    ultimately show ?thesis by blast
  qed
  then show "table_inv fl n t True (T @ [R]) ?C" "trail_inv fl n t F (T @ [R]) ?C" by simp_all
qed

text \<open>The assignments of a level are taken back one by one; the level is then dropped.\<close>

lemma undo_level_inv:
  assumes "table_inv fl n t True (T @ [R]) C" "trail_inv fl n t F (T @ [R]) C"
  shows "table_inv fl n t True (T @ [[]]) (fold (undo_entry n) R C) \<and> trail_inv fl n t F (T @ [[]]) (fold (undo_entry n) R C)"
  using assms
proof (induction R arbitrary: C)
  case (Cons e R)
  obtain i j k where e: "e = (i, j, k)" by (cases e) auto
  from undo_entry_inv[OF Cons.prems[unfolded e]] show ?case using Cons.IH by (simp add: e)
qed simp

lemma weaken_table:
  assumes "table_inv fl n t False T C"
  shows "table_inv fl n t True T' C"
proof -
  have "\<exists>m<n. mat_at C i j = int m \<and> (vals_at C i j = {m} \<or> True \<and> (i, j, m) \<in> set (last T'))"
    if ij: "i < n" "j < n" "mat_at C i j \<noteq> -1" for i j
  proof -
    obtain m where "m < n" "mat_at C i j = int m" "vals_at C i j = {m}" using table_invD(2)[OF assms ij] by auto
    then show ?thesis by (intro exI[of _ m]) simp
  qed
  then show ?thesis using assms unfolding table_inv_def by (elim conjE, intro conjI) simp_all
qed

lemma strict_table: "table_inv fl n t True (T @ [[]]) C \<Longrightarrow> table_inv fl n t False T' C"
  by (simp add: table_inv_def)

lemma drop_level:
  assumes "trail_inv fl n t F (T @ [[]]) C" "T \<noteq> []"
  shows "trail_inv fl n t F T C"
  unfolding trail_inv_def
proof (intro conjI allI impI)
  show "T \<noteq> []" "distinct (concat T)" using assms trail_invD(2)[OF assms(1)] by simp_all
  fix l i j k assume l: "l < length T" and e: "(i, j, k) \<in> set (T ! l)"
  have e': "l < length (T @ [[]])" "(i, j, k) \<in> set ((T @ [[]]) ! l)" using l e by (simp_all add: nth_append)
  note D = trail_invD(3)[OF assms(1) e']
  show "i < n" "j < n" "k < n" "asg_at C i j k \<noteq> Unknown_t" "\<not> F ! i ! j ! k" using D by simp_all
  show "i \<noteq> j" "k \<noteq> t i" if "fl_diag fl" using D that by simp_all
  show "(i, j, nat (mat_at C i j)) \<in> set (concat (drop l T))" if "asg_at C i j k = False_t" "mat_at C i j \<noteq> -1"
    using trail_invD(4)[OF assms(1) e' that] l by simp
qed

lemma new_level:
  assumes "trail_inv fl n t F T C"
  shows "trail_inv fl n t F (T @ [[]]) C"
  unfolding trail_inv_def
proof (intro conjI allI impI)
  show "T @ [[]] \<noteq> []" "distinct (concat (T @ [[]]))" using trail_invD(2)[OF assms] by simp_all
  fix l i j k assume l: "l < length (T @ [[]])" and e: "(i, j, k) \<in> set ((T @ [[]]) ! l)"
  have e': "l < length T" "(i, j, k) \<in> set (T ! l)" using l e by (auto simp: nth_append split: if_splits)
  note D = trail_invD(3)[OF assms e']
  show "i < n" "j < n" "k < n" "asg_at C i j k \<noteq> Unknown_t" "\<not> F ! i ! j ! k" using D by simp_all
  show "i \<noteq> j" "k \<noteq> t i" if "fl_diag fl" using D that by simp_all
  show "(i, j, nat (mat_at C i j)) \<in> set (concat (drop l (T @ [[]])))" if "asg_at C i j k = False_t" "mat_at C i j \<noteq> -1"
    using trail_invD(4)[OF assms e' that] e' by simp
qed

text \<open>Assignments.\<close>

lemma assign_true_table:
  assumes I: "table_inv fl n t False T C" and e: "i < n" "j < n" "k < n"
    and g: "mat_at C i j = -1" "fl_diag fl \<longrightarrow> i \<noteq> j \<and> k \<noteq> t i"
  shows "table_inv fl n t False T' (assign_true n (i, j, k) C)"
proof -
  let ?C = "assign_true n (i, j, k) C"
  note U = assign_true_changed[OF table_invD(1)[OF I] e]
  show ?thesis
    unfolding table_inv_def
  proof (intro conjI allI impI)
    show "cyc_dims n ?C" by (rule changedD(1)[OF U])
    fix x y assume xy: "x < n" "y < n"
    show "\<exists>m<n. mat_at ?C x y = int m \<and> (vals_at ?C x y = {m} \<or> False \<and> (x, y, m) \<in> set (last T'))" if kn: "mat_at ?C x y \<noteq> -1"
    proof (cases "x = i \<and> y = j")
      case True
      then show ?thesis using changedD(2,4)[OF U xy] e(3) by auto
    next
      case False
      then have "mat_at ?C x y = mat_at C x y" using changedD(2)[OF U xy] by auto
      then obtain m where m: "m < n" "mat_at C x y = int m" "vals_at C x y = {m}" "mat_at ?C x y = mat_at C x y"
        using table_invD(2)[OF I xy] kn by auto
      then have "vals_at ?C x y = {m}" using changedD(4)[OF U xy] False by auto
      then show ?thesis using m by auto
    qed
    show "asg_at ?C x y z = True_t \<longleftrightarrow> mat_at ?C x y = int z" if "z < n" for z
      using changedD(2)[OF U xy] changedD(3)[OF U xy that] table_invD(3)[OF I xy that] g(1) by auto
  next
    fix r assume d: "fl_diag fl" and r: "r < n"
    have D: "t r < n" "mat_at C r r = int (t r)" "vals_at C r r = {t r}" using table_invD(4)[OF I d r] by simp_all
    have ne: "\<not> (r = i \<and> r = j)" using d g(2) by auto
    show "t r < n" "mat_at ?C r r = int (t r)" using D changedD(2)[OF U r r] ne by auto
    show "vals_at ?C r r = {t r}" using changedD(4)[OF U r r] D ne by auto
    fix c assume c: "c < n" "c \<noteq> r"
    note E = table_invD(5)[OF I d r c]
    show "mat_at ?C r c \<noteq> int (t r)" using changedD(2)[OF U r c(1)] E g(2) d by auto
    show "t r \<notin> vals_at ?C r c" using changedD(4)[OF U r c(1)] E d g(2) by auto
  qed
qed

lemma assign_false_table:
  assumes I: "table_inv fl n t False T C" and e: "i < n" "j < n" "k < n"
    and g: "asg_at C i j k = Unknown_t" "fl_diag fl \<longrightarrow> i \<noteq> j"
  shows "table_inv fl n t False T' (assign_false (i, j, k) C)"
proof -
  let ?C = "assign_false (i, j, k) C"
  note U = assign_false_changed[OF table_invD(1)[OF I] e]
  have M: "mat_at ?C x y = mat_at C x y" if "x < n" "y < n" for x y using changedD(2)[OF U that] by simp
  have mk: "mat_at C i j \<noteq> int k" using table_invD(3)[OF I e] g(1) by auto
  show ?thesis
    unfolding table_inv_def
  proof (intro conjI allI impI)
    show "cyc_dims n ?C" by (rule changedD(1)[OF U])
    fix x y assume xy: "x < n" "y < n"
    show "\<exists>m<n. mat_at ?C x y = int m \<and> (vals_at ?C x y = {m} \<or> False \<and> (x, y, m) \<in> set (last T'))" if kn: "mat_at ?C x y \<noteq> -1"
    proof -
      obtain m where m: "m < n" "mat_at C x y = int m" "vals_at C x y = {m}"
        using table_invD(2)[OF I xy] kn M[OF xy] by auto
      then have "vals_at ?C x y = {m}" using changedD(4)[OF U xy] mk by auto
      then show ?thesis using m M[OF xy] by auto
    qed
    show "asg_at ?C x y z = True_t \<longleftrightarrow> mat_at ?C x y = int z" if "z < n" for z
      using M[OF xy] changedD(3)[OF U xy that] table_invD(3)[OF I xy that] mk by auto
  next
    fix r assume d: "fl_diag fl" and r: "r < n"
    have D: "t r < n" "mat_at C r r = int (t r)" "vals_at C r r = {t r}" using table_invD(4)[OF I d r] by simp_all
    show "t r < n" "mat_at ?C r r = int (t r)" using D M[OF r r] by auto
    show "vals_at ?C r r = {t r}" using changedD(4)[OF U r r] D g(2) d by auto
    fix c assume c: "c < n" "c \<noteq> r"
    note E = table_invD(5)[OF I d r c]
    show "mat_at ?C r c \<noteq> int (t r)" using M[OF r c(1)] E by auto
    show "t r \<notin> vals_at ?C r c" using changedD(4)[OF U r c(1)] E by auto
  qed
qed

text \<open>
  A literal pushed on the last level: a false one of a known cell may only be pushed in the level
  that holds the cell's value.
\<close>

lemma push_trail_inv:
  assumes Tr: "trail_inv fl n t F (T @ [R]) C" and U: "changed n C C' i j k m a V"
    and e: "i < n" "j < n" "k < n" "asg_at C i j k = Unknown_t" "\<not> F ! i ! j ! k" "fl_diag fl \<longrightarrow> i \<noteq> j \<and> k \<noteq> t i"
    and a: "a = True_t \<and> m = int k \<or> a = False_t \<and> m = mat_at C i j \<and> (m \<noteq> -1 \<longrightarrow> (i, j, nat m) \<in> set R)"
  shows "trail_inv fl n t F (T @ [R @ [(i, j, k)]]) C'"
proof -
  let ?T = "T @ [R]" and ?T' = "T @ [R @ [(i, j, k)]]"
  have nin: "(i, j, k) \<notin> set (?T ! l)" if "l < length ?T" for l
    using trail_invD(3)[OF Tr that, of i j k] e(4) by blast
  have nc: "(i, j, k) \<notin> set (concat ?T)"
  proof
    assume "(i, j, k) \<in> set (concat ?T)"
    then obtain X where "X \<in> set ?T" "(i, j, k) \<in> set X" by auto
    then show False using nin by (metis in_set_conv_nth)
  qed
  have mem: "set (?T' ! l) = (if l = length T then insert (i, j, k) (set (?T ! l)) else set (?T ! l))" if "l < length ?T'" for l
    using that by (auto simp: nth_append)
  have dr: "set (concat (drop l ?T')) = insert (i, j, k) (set (concat (drop l ?T)))" if "l < length ?T'" for l
    using that by auto
  show ?thesis
    unfolding trail_inv_def
  proof (intro conjI allI impI)
    show "?T' \<noteq> []" by simp
    show "distinct (concat ?T')" using trail_invD(2)[OF Tr] nc by auto
    fix l x y z assume l: "l < length ?T'" and x: "(x, y, z) \<in> set (?T' ! l)"
    have l': "l < length ?T" using l by simp
    have cases: "(x, y, z) = (i, j, k) \<and> l = length T \<or> (x, y, z) \<in> set (?T ! l) \<and> (x, y, z) \<noteq> (i, j, k)"
      using x mem[OF l] nin[OF l'] by (auto split: if_splits)
    have old: "(x, y, z) \<in> set (?T ! l)" if "(x, y, z) \<noteq> (i, j, k)" using cases that by blast
    have E: "x < n \<and> y < n \<and> z < n \<and> \<not> F ! x ! y ! z \<and> (fl_diag fl \<longrightarrow> x \<noteq> y \<and> z \<noteq> t x)"
      using e(1-3,5,6) trail_invD(3)[OF Tr l' old] by (cases "(x, y, z) = (i, j, k)") auto
    then have xyz: "x < n" "y < n" "z < n" by simp_all
    show "x < n" "y < n" "z < n" "\<not> F ! x ! y ! z" using E by simp_all
    show "x \<noteq> y" "z \<noteq> t x" if "fl_diag fl" using E that by simp_all
    show "asg_at C' x y z \<noteq> Unknown_t"
      using changedD(3)[OF U xyz] a trail_invD(3)[OF Tr l' old] by (cases "(x, y, z) = (i, j, k)") auto
    assume f: "asg_at C' x y z = False_t" and known: "mat_at C' x y \<noteq> -1"
    show "(x, y, nat (mat_at C' x y)) \<in> set (concat (drop l ?T'))"
    proof (cases "x = i \<and> y = j")
      case True
      note M = changedD(2)[OF U xyz(1,2)]
      show ?thesis
      proof (cases "a = True_t")
        case t: True
        then show ?thesis using a M True dr[OF l] by auto
      next
        case False
        then have af: "a = False_t" "m = mat_at C i j" "m \<noteq> -1 \<longrightarrow> (i, j, nat m) \<in> set R" using a by auto
        then have "(i, j, nat m) \<in> set R" using M True known by auto
        then have "(i, j, nat m) \<in> set (concat (drop l ?T))" using l by auto
        then show ?thesis using dr[OF l] M True by auto
      qed
    next
      case False
      then have o: "(x, y, z) \<in> set (?T ! l)" "asg_at C x y z = False_t" "mat_at C' x y = mat_at C x y"
        using old f changedD(2)[OF U xyz(1,2)] changedD(3)[OF U xyz] by auto
      then show ?thesis using trail_invD(4)[OF Tr l' o(1,2)] known dr[OF l] by auto
    qed
  qed
qed

end
