(* ===== verification/Propagator_State.thy ===== *)
theory Propagator_State
  imports Propagator_Table MinCheck_Correct
begin

text \<open>
  The propagator as a state machine: the notifications and callbacks of the SAT solver as steps,
  what they keep, and what that means for the clauses that are handed out.
\<close>

section \<open>Entries of variables\<close>

definition entry_at :: "flags \<Rightarrow> nat \<Rightarrow> (nat \<Rightarrow> nat) \<Rightarrow> nat \<Rightarrow> nat \<times> nat \<times> nat" where
  "entry_at fl n t x = filter (l2e_keep fl t) (triples n) ! (x - 1)"

definition is_var :: "flags \<Rightarrow> nat \<Rightarrow> (nat \<Rightarrow> nat) \<Rightarrow> nat \<Rightarrow> bool" where
  "is_var fl n t x \<longleftrightarrow> 0 < x \<and> x < length (lit2entry fl n t)"

lemma entry_of_var:
  assumes "sv_l2e s = lit2entry fl n t"
  shows "is_var fl n t x \<Longrightarrow> entry_of s x = Inr (entry_at fl n t x)"
    "entry_of s x = Inr e \<Longrightarrow> is_var fl n t x \<and> e = entry_at fl n t x"
proof -
  have len: "length (lit2entry fl n t) = Suc (length (filter (l2e_keep fl t) (triples n)))" by (simp add: lit2entry_def)
  have at: "lit2entry fl n t ! x = Some (entry_at fl n t x)" if "is_var fl n t x"
    using that len by (auto simp: is_var_def lit2entry_def entry_at_def nth_Cons' nth_append)
  show E: "entry_of s x = Inr (entry_at fl n t x)" if "is_var fl n t x"
    using at[OF that] that assms by (simp add: entry_of_def is_var_def)
  assume e: "entry_of s x = Inr e"
  have "is_var fl n t x"
  proof (rule ccontr)
    assume nv: "\<not> is_var fl n t x"
    then have "x = 0 \<or> length (lit2entry fl n t) \<le> x" by (auto simp: is_var_def)
    then show False using e assms by (auto simp: entry_of_def vget_def lit2entry_def split: if_splits)
  qed
  then show "is_var fl n t x \<and> e = entry_at fl n t x" using E e by simp
qed

lemma entry_at_range:
  assumes "is_var fl n t x" "entry_at fl n t x = (i, j, k)"
  shows "i < n" "j < n" "k < n" "l2e_keep fl t (i, j, k)"
proof -
  let ?E = "filter (l2e_keep fl t) (triples n)"
  have "x - 1 < length ?E" using assms(1) by (auto simp: is_var_def lit2entry_def)
  then have "(i, j, k) \<in> set ?E" using assms(2) by (metis entry_at_def nth_mem)
  then show "i < n" "j < n" "k < n" "l2e_keep fl t (i, j, k)" by auto
qed

section \<open>The invariant of the state\<close>

abbreviation entries :: "flags \<Rightarrow> nat \<Rightarrow> (nat \<Rightarrow> nat) \<Rightarrow> nat list list \<Rightarrow> (nat \<times> nat \<times> nat) list list" where
  "entries fl n t \<equiv> map (map (entry_at fl n t))"

definition table_state :: "flags \<Rightarrow> nat \<Rightarrow> (nat \<Rightarrow> nat) \<Rightarrow> solver \<Rightarrow> bool" where
  "table_state fl n t s \<longleftrightarrow> sv_l2e s = lit2entry fl n t \<and> dims3 n (sv_fixed s) \<and> \<not> sv_checkMode s \<and>
     (\<forall>x\<in>set (concat (sv_trail s)). is_var fl n t x) \<and> sv_trail s \<noteq> [] \<and> hd (sv_trail s) = [] \<and>
     table_inv fl n t False (entries fl n t (sv_trail s)) (sv_cyc s) \<and>
     trail_inv fl n t (sv_fixed s) (entries fl n t (sv_trail s)) (sv_cyc s)"

lemma table_stateD:
  assumes "table_state fl n t s"
  shows "sv_l2e s = lit2entry fl n t" "dims3 n (sv_fixed s)" "\<not> sv_checkMode s"
    "x \<in> set (concat (sv_trail s)) \<Longrightarrow> is_var fl n t x" "sv_trail s \<noteq> []" "hd (sv_trail s) = []"
    "table_inv fl n t False (entries fl n t (sv_trail s)) (sv_cyc s)"
    "trail_inv fl n t (sv_fixed s) (entries fl n t (sv_trail s)) (sv_cyc s)"
  using assms unfolding table_state_def by blast+

text \<open>The state of the table and what the invariant depends on is left alone by the callbacks.\<close>

definition same_table :: "solver \<Rightarrow> solver \<Rightarrow> bool" where
  "same_table s s' \<longleftrightarrow> sv_l2e s' = sv_l2e s \<and> sv_fixed s' = sv_fixed s \<and> sv_checkMode s' = sv_checkMode s \<and>
     sv_trail s' = sv_trail s \<and> sv_cyc s' = sv_cyc s \<and> sv_lits s' = sv_lits s"

lemma same_table_state: "same_table s s' \<Longrightarrow> table_state fl n t s \<Longrightarrow> table_state fl n t s'"
  by (simp add: same_table_def table_state_def)

lemma same_table_trans: "same_table s s' \<Longrightarrow> same_table s' s'' \<Longrightarrow> same_table s s''"
  by (simp add: same_table_def)

text \<open>
  The minimality check gets a legal table: outside the cases the pre-check skips, the invariant
  gives the conditions the check relies on.
\<close>

lemma preCheck_domains:
  assumes "\<not> preCheck n C" "i < n" "j < n"
  shows "bd_numTrue (dom_at C i j) \<noteq> 0"
proof -
  have loop: "\<forall>x\<in>set xs. bd_numTrue (dom_at C (fst x) (snd x)) \<noteq> 0" if "\<not> preCheck_loop C xs b" for xs b
    using that
  proof (induction xs arbitrary: b)
    case (Cons x xs)
    obtain i j where x: "x = (i, j)" by (cases x)
    have "bd_numTrue (dom_at C i j) \<noteq> 0" using Cons.prems x by (auto simp: Let_def split: if_splits)
    moreover have "\<exists>b. \<not> preCheck_loop C xs b" using Cons.prems x by (auto simp: Let_def split: if_splits)
    ultimately show ?case using Cons.IH x by auto
  qed simp
  show ?thesis using loop[OF assms(1)[unfolded preCheck_def]] assms(2,3) by auto
qed

lemma table_state_cyc_ok:
  assumes "table_state fl n t s" "\<not> preCheck n (sv_cyc s)"
  shows "cyc_ok fl n t (sv_cyc s)"
proof -
  note I = table_stateD(7)[OF assms(1)]
  have C: "cyc_dims n (sv_cyc s)" by (rule table_invD(1)[OF I])
  have ne: "vals_at (sv_cyc s) r c \<noteq> {}" if "r < n" "c < n" for r c
    using preCheck_domains[OF assms(2) that] dims_dom[OF C that] by (auto simp: bd_inv_def)
  have one: "0 \<le> mat_at (sv_cyc s) r c \<and> vals_at (sv_cyc s) r c = {nat (mat_at (sv_cyc s) r c)}"
    if rc: "r < n" "c < n" "mat_at (sv_cyc s) r c \<noteq> -1" for r c
  proof -
    obtain m where "mat_at (sv_cyc s) r c = int m" "vals_at (sv_cyc s) r c = {m}" using table_invD(2)[OF I rc] by auto
    then show ?thesis by simp
  qed
  have off: "t r \<notin> vals_at (sv_cyc s) r c" if "fl_diag fl" "r < n" "c < n" "r \<noteq> c" for r c
    using table_invD(5)[OF I that(1-3)] that(4) by simp
  have diag: "t r < n \<and> mat_at (sv_cyc s) r r = int (t r)" if "fl_diag fl" "r < n" for r
    using table_invD(4)[OF I that] by simp
  show ?thesis unfolding cyc_ok_def using C ne one off diag by simp
qed

section \<open>Notifications\<close>

text \<open>
  What the solver keeps to (documented at \<open>ExternalPropagator\<close> and ensured by notifying only after
  propagation without conflict): only variables without a value are assigned, fixed ones at the
  root level; a cell gets one value, and a value that is excluded from a known cell belongs to
  the level of that cell, because propagation finds it there.
\<close>

definition may_notify :: "flags \<Rightarrow> nat \<Rightarrow> (nat \<Rightarrow> nat) \<Rightarrow> int \<Rightarrow> bool \<Rightarrow> solver \<Rightarrow> bool" where
  "may_notify fl n t lit fixed s \<longleftrightarrow> is_var fl n t (var_of lit) \<and>
     (case entry_at fl n t (var_of lit) of (i, j, k) \<Rightarrow>
        asg_at (sv_cyc s) i j k = Unknown_t \<and> (fl_diag fl \<longrightarrow> i \<noteq> j) \<and>
        (if fixed then length (sv_trail s) = 1 else 1 < length (sv_trail s) \<and> \<not> sv_fixed s ! i ! j ! k) \<and>
        (fl_diag fl \<and> k = t i \<longrightarrow> lit < 0 \<and> fixed) \<and>
        (if 0 < lit then mat_at (sv_cyc s) i j = -1
         else mat_at (sv_cyc s) i j \<noteq> -1 \<and> \<not> fixed \<longrightarrow>
           (i, j, nat (mat_at (sv_cyc s) i j)) \<in> entry_at fl n t ` set (last (sv_trail s))))"

lemma trail_inv_root:
  assumes "trail_inv fl n t F [[]] C" 
  shows "trail_inv fl n t F' [[]] C'"
  by (simp add: trail_inv_def)

lemma notify_table_state:
  assumes S: "table_state fl n t s" and g: "may_notify fl n t lit fixed s"
  shows "\<exists>s'. notify_assignment n lit fixed s = Inr s' \<and> table_state fl n t s'"
proof -
  obtain i j k where e: "entry_at fl n t (var_of lit) = (i, j, k)" by (cases "entry_at fl n t (var_of lit)") auto
  have v: "is_var fl n t (var_of lit)" using g by (simp add: may_notify_def)
  note r = entry_at_range[OF v e]
  have eo: "entry_of s (var_of lit) = Inr (i, j, k)" using entry_of_var(1)[OF table_stateD(1)[OF S] v] e by simp
  let ?C = "sv_cyc s" and ?C' = "if 0 < lit then assign_true n (i, j, k) (sv_cyc s) else assign_false (i, j, k) (sv_cyc s)"
  note G = g[unfolded may_notify_def e prod.case]
  have unk: "asg_at ?C i j k = Unknown_t" using G by blast
  note I = table_stateD(7)[OF S] and Tr = table_stateD(8)[OF S]
  have T': "table_inv fl n t False T' ?C'" for T'
  proof (cases "0 < lit")
    case True
    then show ?thesis using assign_true_table[OF I r(1-3)] G by auto
  next
    case False
    then show ?thesis using assign_false_table[OF I r(1-3) unk] G by auto
  qed
  obtain U R where tr: "sv_trail s = U @ [R]" using table_stateD(5)[OF S] by (metis append_butlast_last_id)
  show ?thesis
  proof (cases fixed)
    case True
    have t1: "sv_trail s = [[]]"
      using G True table_stateD(6)[OF S] by (cases "sv_trail s") auto
    let ?s = "s\<lparr>sv_change := True, sv_trail := [[]], sv_cyc := ?C', sv_fixed := upd3 (sv_fixed s) i j k True\<rparr>"
    have "notify_assignment n lit fixed s = Inr ?s"
      using True eo t1 unfolding notify_assignment_def by simp
    moreover have "table_state fl n t ?s"
      using S T' t1 dims3_upd3[OF table_stateD(2)[OF S]] unfolding table_state_def
      by (simp add: trail_inv_def)
    ultimately show ?thesis by blast
  next
    case False
    let ?s = "s\<lparr>sv_change := True, sv_trail := U @ [R @ [var_of lit]], sv_cyc := ?C', sv_fixed := sv_fixed s\<rparr>"
    have run: "notify_assignment n lit fixed s = Inr ?s"
      using False eo tr unfolding notify_assignment_def by (simp add: push_trail_def)
    have U: "U \<noteq> []" using G False tr by auto
    have ch: "changed n ?C ?C' i j k (if 0 < lit then int k else mat_at ?C i j) (if 0 < lit then True_t else False_t)
        (if 0 < lit then (\<lambda>y. if y = j then {k} else if card (vals_at ?C i y) \<noteq> 1 then vals_at ?C i y - {k} else vals_at ?C i y)
         else (\<lambda>y. if y = j then vals_at ?C i j - {k} else vals_at ?C i y))"
      using assign_true_changed[OF table_invD(1)[OF I] r(1-3)] assign_false_changed[OF table_invD(1)[OF I] r(1-3)] by simp
    have "trail_inv fl n t (sv_fixed s) (entries fl n t U @ [map (entry_at fl n t) R @ [(i, j, k)]]) ?C'"
    proof (rule push_trail_inv[OF _ ch r(1-3) unk])
      show "trail_inv fl n t (sv_fixed s) (entries fl n t U @ [map (entry_at fl n t) R]) ?C" using Tr tr by simp
      show "\<not> sv_fixed s ! i ! j ! k" "fl_diag fl \<longrightarrow> i \<noteq> j \<and> k \<noteq> t i" using G False by auto
      show "(if 0 < lit then True_t else False_t) = True_t \<and> (if 0 < lit then int k else mat_at ?C i j) = int k \<or>
          (if 0 < lit then True_t else False_t) = False_t \<and> (if 0 < lit then int k else mat_at ?C i j) = mat_at ?C i j \<and>
          ((if 0 < lit then int k else mat_at ?C i j) \<noteq> -1 \<longrightarrow>
           (i, j, nat (if 0 < lit then int k else mat_at ?C i j)) \<in> set (map (entry_at fl n t) R))"
        using G False tr by (cases "0 < lit") auto
    qed
    then have "table_state fl n t ?s"
      using S T' tr U v e unfolding table_state_def by (auto simp: hd_append)
    then show ?thesis using run by blast
  qed
qed

lemma level_table_state: "table_state fl n t s \<Longrightarrow> table_state fl n t (notify_new_decision_level s)"
  using new_level[of fl n t "sv_fixed s" "entries fl n t (sv_trail s)" "sv_cyc s"]
  by (auto simp: table_state_def notify_new_decision_level_def table_inv_def hd_append)

text \<open>Backtracking.\<close>

lemma undo_lits:
  assumes l2e: "sv_l2e s = lit2entry fl n t" and v: "\<forall>x\<in>set xs. is_var fl n t x"
    and nf: "\<forall>x\<in>set xs. case entry_at fl n t x of (i, j, k) \<Rightarrow> \<not> sv_fixed s ! i ! j ! k"
  shows "foldE (undo_lit n) xs s = Inr (s\<lparr>sv_cyc := fold (undo_entry n) (map (entry_at fl n t) xs) (sv_cyc s)\<rparr>)"
  using assms
proof (induction xs arbitrary: s)
  case (Cons x xs)
  obtain i j k where e: "entry_at fl n t x = (i, j, k)" by (cases "entry_at fl n t x") auto
  have "undo_lit n x s = Inr (s\<lparr>sv_cyc := undo_entry n (i, j, k) (sv_cyc s)\<rparr>)"
    using Cons.prems e entry_of_var(1)[OF Cons.prems(1), of x] by (simp add: undo_lit_def)
  moreover have "foldE (undo_lit n) xs (s\<lparr>sv_cyc := undo_entry n (i, j, k) (sv_cyc s)\<rparr>) =
      Inr (s\<lparr>sv_cyc := undo_entry n (i, j, k) (sv_cyc s)\<rparr>\<lparr>sv_cyc := fold (undo_entry n) (map (entry_at fl n t) xs) (undo_entry n (i, j, k) (sv_cyc s))\<rparr>)"
    using Cons.IH[of "s\<lparr>sv_cyc := undo_entry n (i, j, k) (sv_cyc s)\<rparr>"] Cons.prems by simp
  ultimately show ?case using e by simp
qed simp

lemma pop_table_state:
  assumes S: "table_state fl n t s" and l: "1 < length (sv_trail s)"
  shows "\<exists>s'. pop_level n s = Inr s' \<and> table_state fl n t s' \<and> sv_trail s' = butlast (sv_trail s) \<and>
    sv_cyc s' = fold (undo_entry n) (map (entry_at fl n t) (last (sv_trail s))) (sv_cyc s)"
proof -
  obtain U R where tr: "sv_trail s = U @ [R]" using table_stateD(5)[OF S] by (metis append_butlast_last_id)
  have U: "U \<noteq> []" using l tr by auto
  note I = table_stateD(7)[OF S] and Tr = table_stateD(8)[OF S]
  have v: "\<forall>x\<in>set R. is_var fl n t x" using table_stateD(4)[OF S] tr by auto
  have nf: "\<forall>x\<in>set R. case entry_at fl n t x of (i, j, k) \<Rightarrow> \<not> sv_fixed s ! i ! j ! k"
  proof
    fix x assume x: "x \<in> set R"
    obtain i j k where e: "entry_at fl n t x = (i, j, k)" by (cases "entry_at fl n t x") auto
    have "(i, j, k) \<in> set (entries fl n t (sv_trail s) ! length U)" using x e tr by (auto simp: nth_append intro: rev_image_eqI)
    then show "case entry_at fl n t x of (i, j, k) \<Rightarrow> \<not> sv_fixed s ! i ! j ! k"
      using trail_invD(3)[OF Tr, of "length U" i j k] tr e by simp
  qed
  let ?C' = "fold (undo_entry n) (map (entry_at fl n t) R) (sv_cyc s)"
  let ?s = "s\<lparr>sv_cyc := ?C', sv_trail := U\<rparr>"
  have run: "pop_level n s = Inr ?s"
    using undo_lits[OF table_stateD(1)[OF S] v nf] tr by (simp add: pop_level_def)
  have L: "table_inv fl n t True (entries fl n t U @ [[]]) ?C'" "trail_inv fl n t (sv_fixed s) (entries fl n t U @ [[]]) ?C'"
    using undo_level_inv[of fl n t "entries fl n t U" "map (entry_at fl n t) R" "sv_cyc s" "sv_fixed s"] weaken_table[OF I] Tr tr by auto
  have "table_state fl n t ?s"
    using S tr U strict_table[OF L(1)] drop_level[OF L(2)] unfolding table_state_def by (auto simp: hd_append)
  then show ?thesis using run tr by (intro exI[of _ ?s]) simp
qed

lemma backtrack_table_state:
  assumes S: "table_state fl n t s"
  shows "\<exists>s'. notify_backtrack n level s = Inr s' \<and> table_state fl n t s' \<and>
    sv_trail s' = take (level + 1) (sv_trail s)"
proof -
  have "m \<le> length (sv_trail s) - 1 \<Longrightarrow>
    \<exists>s'. foldE (\<lambda>_. pop_level n) [0..<m] s = Inr s' \<and> table_state fl n t s' \<and> sv_trail s' = take (length (sv_trail s) - m) (sv_trail s)" for m
  proof (induction m)
    case (Suc m)
    then obtain s' where s': "foldE (\<lambda>_. pop_level n) [0..<m] s = Inr s'" "table_state fl n t s'"
      "sv_trail s' = take (length (sv_trail s) - m) (sv_trail s)" by auto
    have "1 < length (sv_trail s')" using s'(3) Suc.prems by simp
    from pop_table_state[OF s'(2) this] obtain s'' where s'': "pop_level n s' = Inr s''" "table_state fl n t s''"
      "sv_trail s'' = butlast (sv_trail s')" by blast
    have "sv_trail s'' = take (length (sv_trail s) - Suc m) (sv_trail s)"
      using s''(3) s'(3) Suc.prems by (simp add: butlast_take)
    then show ?case using s'(1) s'' by (simp add: foldE_append)
  qed (use S in simp)
  from this[of "length (sv_trail s) - (level + 1)"] show ?thesis
    unfolding notify_backtrack_def by (cases "level + 1 \<le> length (sv_trail s)") auto
qed

end
