(* ===== verification/Propagator_Clauses.thy ===== *)
theory Propagator_Clauses
  imports Propagator_State
begin

text \<open>
  The clauses of the propagator: the numbering of the variables that \<open>lit2entry\<close> inverts, the
  clause that excludes a table, what one minimality check adds to the state, and how clauses are
  handed to the solver literal by literal.
\<close>

section \<open>The numbering of the variables\<close>

definition numbered :: "flags \<Rightarrow> nat \<Rightarrow> (nat \<Rightarrow> nat) \<Rightarrow> lits3 \<Rightarrow> bool" where
  "numbered fl n t L \<longleftrightarrow> (\<forall>x. is_var fl n t x \<longrightarrow> lit_at L (entry_at fl n t x) = int x)"

lemma kept_is_var:
  assumes "(i, j, k) \<in> set (filter (l2e_keep fl t) (triples n))"
  shows "\<exists>x. is_var fl n t x \<and> entry_at fl n t x = (i, j, k)"
proof -
  obtain p where "p < length (filter (l2e_keep fl t) (triples n))" "filter (l2e_keep fl t) (triples n) ! p = (i, j, k)"
    using assms by (metis in_set_conv_nth)
  then show ?thesis by (intro exI[of _ "Suc p"]) (simp add: is_var_def lit2entry_def entry_at_def)
qed

lemma var_kept: "fl_smaller fl \<longrightarrow> fl_diag fl \<Longrightarrow> l2e_keep fl t (i, j, k) \<longleftrightarrow> has_var fl t i j k"
  by (auto simp: l2e_keep_def has_var_def)

lemma numbered_lit:
  assumes L: "numbered fl n t L" and m: "fl_smaller fl \<longrightarrow> fl_diag fl"
    and e: "i < n" "j < n" "k < n" "has_var fl t i j k"
  shows "\<exists>x. is_var fl n t x \<and> entry_at fl n t x = (i, j, k) \<and> L ! i ! j ! k = int x"
proof -
  have "(i, j, k) \<in> set (filter (l2e_keep fl t) (triples n))" using e var_kept[OF m] by simp
  from kept_is_var[OF this] obtain x where "is_var fl n t x" "entry_at fl n t x = (i, j, k)" by blast
  then show ?thesis using L by (auto simp: numbered_def lit_at_def)
qed

lemma numbered_pos:
  assumes "numbered fl n t L" "fl_smaller fl \<longrightarrow> fl_diag fl" "i < n" "j < n" "k < n" "has_var fl t i j k"
  shows "0 < L ! i ! j ! k"
  using numbered_lit[OF assms] by (auto simp: is_var_def)

lemma numbered_live: "numbered fl n t L \<Longrightarrow> fl_smaller fl \<longrightarrow> fl_diag fl \<Longrightarrow> lits_live fl n t L"
  using numbered_pos[of fl n t L] by (force simp: lits_live_def)

lemma table_lit_var:
  assumes "numbered fl n t L" "fl_smaller fl \<longrightarrow> fl_diag fl" "table_lit fl n t L l"
  shows "is_var fl n t (var_of l)" "l \<noteq> 0"
proof -
  obtain r c i where e: "r < n" "c < n" "i < n" "has_var fl t r c i" "l = L ! r ! c ! i \<or> l = - (L ! r ! c ! i)"
    using assms(3) by (auto simp: table_lit_def)
  from numbered_lit[OF assms(1,2) e(1-4)] e(5) show "is_var fl n t (var_of l)" "l \<noteq> 0"
    by (auto simp: var_of_def is_var_def)
qed

text \<open>The allocation of the encoding numbers the entries \<open>lit2entry\<close> lists.\<close>

lemma alloc_numbered:
  assumes k: "\<forall>i<n. \<forall>j<n. \<forall>k<n. l2e_keep fl t (i, j, k) \<longleftrightarrow> keep i j k"
  shows "numbered fl n t (fst (fold (alloc_step keep) (triples n) (const3 n 0, 1))) \<and>
    snd (fold (alloc_step keep) (triples n) (const3 n 0, 1)) = int (length (lit2entry fl n t))"
proof -
  let ?r = "fold (alloc_step keep) (triples n) (const3 n 0, 1)" and ?k = "filter (\<lambda>(i, j, k). keep i j k) (triples n)"
  have eq: "filter (l2e_keep fl t) (triples n) = ?k" using k by (intro filter_cong) auto
  have F: "snd ?r = 1 + int (length ?k)" "\<And>p. p < length ?k \<Longrightarrow> lit_at (fst ?r) (?k ! p) = 1 + int p"
    using alloc_fold[of n "const3 n 0" "triples n" keep 1] by auto
  have "lit_at (fst ?r) (entry_at fl n t x) = int x" if "is_var fl n t x" for x
  proof -
    have x: "0 < x" "x - 1 < length ?k" using that eq by (auto simp: is_var_def lit2entry_def)
    then show ?thesis using F(2)[OF x(2)] eq by (simp add: entry_at_def)
  qed
  then show ?thesis using F(1) eq by (simp add: numbered_def lit2entry_def)
qed

section \<open>The clause that excludes a table\<close>

text \<open>\<open>excludes_only\<close>: among the tables, the clause is false for \<open>N\<close> only.\<close>

definition excludes_only :: "flags \<Rightarrow> nat \<Rightarrow> (nat \<Rightarrow> nat) \<Rightarrow> lits3 \<Rightarrow> cmat \<Rightarrow> clause \<Rightarrow> bool" where
  "excludes_only fl n t L N c \<longleftrightarrow> (\<forall>v N'. reads n L t v N' \<longrightarrow> table_ok fl n t N' \<longrightarrow>
     (clause_holds v c \<longleftrightarrow> (\<exists>i<n. \<exists>j<n. N' i j \<noteq> N i j)))"

definition mat_fun :: "cyc \<Rightarrow> cmat" where
  "mat_fun C i j = nat (mat_at C i j)"

lemma table_full_at: "table_full n C \<longleftrightarrow> (\<forall>i<n. \<forall>j<n. mat_at C i j \<noteq> -1)"
  by (auto simp: table_full_def list_all_iff)

lemma full_table:
  assumes "table_inv fl n t False T C" "table_full n C"
  shows "total_table n C (mat_fun C)" "i < n \<Longrightarrow> j < n \<Longrightarrow> mat_fun C i j < n \<and> mat_at C i j = int (mat_fun C i j)"
    "i < n \<Longrightarrow> j < n \<Longrightarrow> k < n \<Longrightarrow> asg_at C i j k = True_t \<longleftrightarrow> mat_fun C i j = k"
    "fl_diag fl \<Longrightarrow> has_diag n (diag_of fl t) (mat_fun C)"
proof -
  have *: "\<exists>m<n. mat_at C i j = int m \<and> vals_at C i j = {m}" if "i < n" "j < n" for i j
    using table_invD(2)[OF assms(1) that] assms(2) that by (auto simp: table_full_at)
  show at: "mat_fun C i j < n \<and> mat_at C i j = int (mat_fun C i j)" if "i < n" "j < n" for i j
    using *[OF that] by (auto simp: mat_fun_def)
  show "total_table n C (mat_fun C)" using * by (fastforce simp: total_table_def mat_fun_def)
  show "asg_at C i j k = True_t \<longleftrightarrow> mat_fun C i j = k" if "i < n" "j < n" "k < n"
    using table_invD(3)[OF assms(1) that] at[OF that(1,2)] by auto
  show "has_diag n (diag_of fl t) (mat_fun C)" if "fl_diag fl"
    using table_invD(4)[OF assms(1) that] that by (simp add: has_diag_def diag_of_def mat_fun_def)
qed

lemma exclude_clause_mem:
  assumes "table_inv fl n t False T C" "table_full n C"
  shows "l \<in> set (exclude_clause fl n C L) \<longleftrightarrow>
    (\<exists>i<n. \<exists>j<n. \<not> (fl_diag fl \<and> i = j) \<and> l = - (L ! i ! j ! mat_fun C i j))"
proof -
  have "filter (\<lambda>k. asg_at C i j k = True_t) [0..<n] = [mat_fun C i j]" if ij: "i < n" "j < n" for i j
  proof -
    have "filter (\<lambda>k. asg_at C i j k = True_t) [0..<n] = filter (\<lambda>k. mat_fun C i j = k) [0..<n]"
      using full_table(3)[OF assms ij] by (intro filter_cong) auto
    also have "\<dots> = [mat_fun C i j]"
    proof -
      have m: "mat_fun C i j < n" using full_table(2)[OF assms ij] by simp
      then have "[0..<n] = [0..<mat_fun C i j] @ mat_fun C i j # [Suc (mat_fun C i j)..<n]"
        using upt_add_eq_append[of 0 "mat_fun C i j" "n - mat_fun C i j"] by (simp add: upt_conv_Cons)
      moreover have "filter (\<lambda>k. mat_fun C i j = k) [0..<mat_fun C i j] = []" "filter (\<lambda>k. mat_fun C i j = k) [Suc (mat_fun C i j)..<n] = []"
        by (auto simp: filter_empty_conv)
      ultimately show ?thesis by simp
    qed
    finally show ?thesis .
  qed
  then show ?thesis unfolding exclude_clause_def by (auto split: if_splits)
qed

lemma exclude_clause_lits:
  assumes I: "table_inv fl n t False T C" "table_full n C" and m: "fl_smaller fl \<longrightarrow> fl_diag fl"
    and l: "l \<in> set (exclude_clause fl n C L)"
  shows "table_lit fl n t L l"
proof -
  obtain i j where e: "i < n" "j < n" "\<not> (fl_diag fl \<and> i = j)" "l = - (L ! i ! j ! mat_fun C i j)"
    using l exclude_clause_mem[OF I] by blast
  note f = full_table(2)[OF I e(1,2)]
  have "fl_diag fl \<Longrightarrow> mat_fun C i j \<noteq> t i" using table_invD(5)[OF I(1) _ e(1,2)] e(3) f by auto
  then have "has_var fl t i j (mat_fun C i j)" using e(3) m by (auto simp: has_var_def)
  then show ?thesis unfolding table_lit_def using e f by blast
qed

lemma exclude_clause_excludes:
  assumes I: "table_inv fl n t False T C" "table_full n C" and m: "fl_smaller fl \<longrightarrow> fl_diag fl" and L: "numbered fl n t L"
  shows "excludes_only fl n t L (mat_fun C) (exclude_clause fl n C L)"
  unfolding excludes_only_def
proof (intro allI impI)
  fix v N' assume r: "reads n L t v N'" and N': "table_ok fl n t N'"
  have cell: "lit_holds v (- (L ! i ! j ! mat_fun C i j)) \<longleftrightarrow> N' i j \<noteq> mat_fun C i j"
    if e: "i < n" "j < n" "\<not> (fl_diag fl \<and> i = j)" for i j
  proof -
    note f = full_table(2)[OF I e(1,2)]
    have "fl_diag fl \<Longrightarrow> mat_fun C i j \<noteq> t i" using table_invD(5)[OF I(1) _ e(1,2)] e(3) f by auto
    then have "0 < L ! i ! j ! mat_fun C i j" using numbered_pos[OF L m e(1,2)] f e(3) m by (auto simp: has_var_def)
    then show ?thesis using readsD(2)[OF r e(1,2), of "mat_fun C i j"] f by (simp add: entry_holds_def lit_holds_def)
  qed
  have diag: "N' i i = mat_fun C i i" if "fl_diag fl" "i < n" for i
    using full_table(4)[OF I that(1)] table_ok_diag[OF N' that] that by (simp add: has_diag_def diag_of_def)
  have "clause_holds v (exclude_clause fl n C L) \<longleftrightarrow>
      (\<exists>i<n. \<exists>j<n. \<not> (fl_diag fl \<and> i = j) \<and> lit_holds v (- (L ! i ! j ! mat_fun C i j)))"
    unfolding clause_holds_def Bex_def exclude_clause_mem[OF I] by auto
  also have "\<dots> \<longleftrightarrow> (\<exists>i<n. \<exists>j<n. N' i j \<noteq> mat_fun C i j)"
  proof
    assume "\<exists>i<n. \<exists>j<n. N' i j \<noteq> mat_fun C i j"
    then obtain i j where e: "i < n" "j < n" "N' i j \<noteq> mat_fun C i j" by blast
    then have "\<not> (fl_diag fl \<and> i = j)" using diag by blast
    then show "\<exists>i<n. \<exists>j<n. \<not> (fl_diag fl \<and> i = j) \<and> lit_holds v (- (L ! i ! j ! mat_fun C i j))" using cell e by blast
  next
    assume "\<exists>i<n. \<exists>j<n. \<not> (fl_diag fl \<and> i = j) \<and> lit_holds v (- (L ! i ! j ! mat_fun C i j))"
    then obtain i j where e: "i < n" "j < n" "\<not> (fl_diag fl \<and> i = j)" "lit_holds v (- (L ! i ! j ! mat_fun C i j))" by blast
    then show "\<exists>i<n. \<exists>j<n. N' i j \<noteq> mat_fun C i j" using cell[OF e(1-3)] by blast
  qed
  finally show "clause_holds v (exclude_clause fl n C L) \<longleftrightarrow> (\<exists>i<n. \<exists>j<n. N' i j \<noteq> mat_fun C i j)" .
qed

section \<open>Justified clauses\<close>

text \<open>
  A clause is justified when it holds in every table that is minimal in its orbit, or excludes_only one
  of the tables \<open>Ns\<close> and no other.
\<close>

definition justified :: "flags \<Rightarrow> nat \<Rightarrow> (nat \<Rightarrow> nat) \<Rightarrow> lits3 \<Rightarrow> cmat list \<Rightarrow> clause \<Rightarrow> bool" where
  "justified fl n t L Ns c \<longleftrightarrow> 0 \<notin> set c \<and> (clause_sound fl n t L c \<or> (\<exists>N\<in>set Ns. excludes_only fl n t L N c))"

lemma justified_cong: "set c = set d \<Longrightarrow> justified fl n t L Ns c = justified fl n t L Ns d"
  by (simp add: justified_def clause_sound_def excludes_only_def clause_holds_def)

lemma justified_more: "justified fl n t L Ns c \<Longrightarrow> set Ns \<subseteq> set Ms \<Longrightarrow> justified fl n t L Ms c"
  by (auto simp: justified_def)

section \<open>Adding a clause\<close>

lemma scan_clause_ok:
  "sv_l2e s = lit2entry fl n t \<Longrightarrow> \<forall>l\<in>set c. is_var fl n t (var_of l) \<Longrightarrow> \<exists>r. scan_clause s c u = Inr r"
proof (induction c arbitrary: u)
  case (Cons l c)
  obtain i j k where e: "entry_at fl n t (var_of l) = (i, j, k)" by (cases "entry_at fl n t (var_of l)") auto
  have "entry_of s (var_of l) = Inr (i, j, k)" using entry_of_var(1)[OF Cons.prems(1)] Cons.prems(2) e by simp
  then show ?case using Cons.IH[of "u @ [var_of l]"] Cons.IH[of u] Cons.prems by (auto simp: Let_def)
next
  case Nil
  show ?case by (intro exI) (rule scan_clause.simps(1))
qed

text \<open>What \<open>addClause\<close> does to the state outside the files and the warning.\<close>

lemma addClause_Inr:
  assumes "addClause op c r s = Inr s'" "\<not> sv_checkMode s"
  shows "\<exists>a b w. s' = s\<lparr>sv_clauses := sv_clauses s @ [c], sv_sbc := a, sv_sols := b, sv_warn := w\<rparr>"
proof -
  let ?s = "s\<lparr>sv_clauses := sv_clauses s @ [c]\<rparr>"
  have "s' = ?s\<lparr>sv_sbc := sv_sbc ?s @ clause_line c\<rparr> \<or> s' = ?s\<lparr>sv_sols := sv_sols ?s @ clause_line c\<rparr> \<or>
      s' = ?s\<lparr>sv_warn := sv_warn ?s + 1\<rparr> \<or> s' = ?s"
    using assms unfolding addClause_def by (auto simp: Let_def bindE_eq_Inr split: if_splits)
  then show ?thesis
  proof (elim disjE)
    assume "s' = ?s\<lparr>sv_sbc := sv_sbc ?s @ clause_line c\<rparr>"
    then show ?thesis by (intro exI[of _ "sv_sbc ?s @ clause_line c"] exI[of _ "sv_sols s"] exI[of _ "sv_warn s"]) simp
  next
    assume "s' = ?s\<lparr>sv_sols := sv_sols ?s @ clause_line c\<rparr>"
    then show ?thesis by (intro exI[of _ "sv_sbc s"] exI[of _ "sv_sols ?s @ clause_line c"] exI[of _ "sv_warn s"]) simp
  next
    assume "s' = ?s\<lparr>sv_warn := sv_warn ?s + 1\<rparr>"
    then show ?thesis by (intro exI[of _ "sv_sbc s"] exI[of _ "sv_sols s"] exI[of _ "sv_warn s + 1"]) simp
  next
    assume "s' = ?s"
    then show ?thesis by (intro exI[of _ "sv_sbc s"] exI[of _ "sv_sols s"] exI[of _ "sv_warn s"]) simp
  qed
qed

lemma addClause_ok:
  assumes "sv_l2e s = lit2entry fl n t" "\<not> sv_checkMode s" "\<forall>l\<in>set c. is_var fl n t (var_of l)"
  shows "\<exists>s'. addClause op c r s = Inr s'"
  using scan_clause_ok[of "s\<lparr>sv_clauses := sv_clauses s @ [c]\<rparr>" fl n t c "[]"] assms
  unfolding addClause_def by (auto simp: Let_def)

section \<open>One minimality check\<close>

text \<open>The table the pre-check skips: a row with a repeated value, an empty domain, or all rows the identity.\<close>

lemma preCheck_cases:
  assumes "preCheck n C"
  shows "(\<exists>i<n. \<exists>j<n. 1 < length (filter (\<lambda>x. x = int i) (cy_matrix C ! j))) \<or>
    (\<exists>i<n. \<exists>j<n. bd_numTrue (dom_at C i j) = 0) \<or> (\<forall>i<n. \<forall>j<n. mat_at C i j = int j)"
proof -
  have "preCheck_loop C xs b \<Longrightarrow>
    (\<exists>(i, j)\<in>set xs. 1 < length (filter (\<lambda>x. x = int i) (cy_matrix C ! j)) \<or> bd_numTrue (dom_at C i j) = 0) \<or>
    b \<and> (\<forall>(i, j)\<in>set xs. mat_at C i j = int j)" for xs b
    by (induction C xs b rule: preCheck_loop.induct) (auto split: if_splits)
  from this[OF assms[unfolded preCheck_def]] show ?thesis by auto
qed

lemma at_most_once:
  assumes "length xs = n" "\<And>i j. i < n \<Longrightarrow> j < n \<Longrightarrow> xs ! i = x \<Longrightarrow> xs ! j = x \<Longrightarrow> i = j"
  shows "length (filter (\<lambda>y. y = x) xs) \<le> 1"
proof (rule ccontr)
  assume "\<not> ?thesis"
  then have "2 \<le> length (filter (\<lambda>y. y = x) xs)" by simp
  then have two: "2 \<le> card {i. i < length xs \<and> xs ! i = x}" by (simp add: length_filter_conv_card)
  then have "{i. i < length xs \<and> xs ! i = x} \<noteq> {}" by (metis card.empty not_numeral_le_zero)
  then obtain i where i: "i < length xs" "xs ! i = x" by blast
  have "{i. i < length xs \<and> xs ! i = x} = {i}" using assms i by blast
  then show False using two by simp
qed

lemma trivial_lexmin:
  assumes N: "row_perms n N" and id: "\<And>i j. i < n \<Longrightarrow> j < n \<Longrightarrow> N i j = j"
  shows "lexmin n T N"
  unfolding lexmin_def lex_less_def mlist_def
proof
  fix p assume "p \<in> syms n T"
  then have p: "perm_on n p" by (rule syms_perm)
  have "pact n p N i j = N i j" if ij: "i < n" "j < n" for i j
    using id[OF perm_on_less[OF p ij(1)] perm_on_less[OF p ij(2)]] id[OF ij] pinv_left[OF p ij(2)] by (simp add: pact_def)
  then have "map (\<lambda>(i, j). pact n p N i j) (cells n) = map (\<lambda>(i, j). N i j) (cells n)" by (intro map_cong) auto
  then show "\<not> map (\<lambda>(i, j). pact n p N i j) (cells n) < map (\<lambda>(i, j). N i j) (cells n)" by (simp only: less_irrefl not_False_eq_True)
qed

lemma skipped_lexmin:
  assumes I: "table_inv fl n t False T C" "table_full n C" and p: "preCheck n C" and N: "table_ok fl n t (mat_fun C)"
  shows "lexmin n (diag_of fl t) (mat_fun C)"
proof -
  note C = table_invD(1)[OF I(1)]
  have r: "row_perms n (mat_fun C)" using N by (simp add: table_ok_def)
  have rep: "length (filter (\<lambda>x. x = int i) (cy_matrix C ! j)) \<le> 1" if "i < n" "j < n" for i j
  proof (rule at_most_once)
    show "length (cy_matrix C ! j) = n" using C that by (auto simp: cyc_dims_def dims2_def)
    fix a b assume "a < n" "b < n" "mat_at C j a = int i" "mat_at C j b = int i"
    then show "a = b" using row_perms_inj[OF r that(2), of a b] full_table(2)[OF I that(2)] by auto
  qed
  have "bd_numTrue (dom_at C i j) \<noteq> 0" if "i < n" "j < n" for i j
    using full_table(1)[OF I] dims_dom[OF C that] that by (auto simp: bd_inv_def total_table_def)
  then have "mat_at C i j = int j" if "i < n" "j < n" for i j
    using preCheck_cases[OF p] rep that by (meson not_le)
  then show ?thesis using full_table(2)[OF I] by (intro trivial_lexmin[OF r]) auto
qed

lemma run_started:
  assumes S: "started fl n q L M" and m: "mode_ok fl n q" "fl_prop fl \<or> fl_diag fl \<and> fl_bit fl" "1 < n"
    and C: "cyc_ok fl n (diag_fun n q) C" "lits_live fl n (diag_fun n q) L"
  shows "started fl n q L (snd (run_MinCheck fl n (M\<lparr>mc_final := f\<rparr>) C))"
proof -
  let ?M = "snd (run_MinCheck fl n (M\<lparr>mc_final := f\<rparr>) C)"
  have i: "mc_init ?M = mc_init M" using run_partial[OF S m(1,2) C] m(3) by blast
  have f: "mc_lits ?M = mc_lits M" "mc_diag ?M = mc_diag M" "mc_diagIsId ?M = mc_diagIsId M"
    by (simp_all add: run_MinCheck_def Let_def split_beta del: checkMinimality.simps)
  show ?thesis using S i f
    by (simp add: started_def bit_ready_def bit_setting_def plain_ready_def all_symmetric_def)
qed

lemma started_final: "started fl n q L (M\<lparr>mc_final := f\<rparr>) = started fl n q L M"
  by (simp add: started_def bit_ready_def bit_setting_def plain_ready_def all_symmetric_def)

text \<open>What the callbacks may assume of the options and the encoding.\<close>

definition run_ok :: "flags \<Rightarrow> nat \<Rightarrow> nat list \<Rightarrow> lits3 \<Rightarrow> bool" where
  "run_ok fl n q L \<longleftrightarrow> mode_ok fl n q \<and> 1 < n \<and> (fl_prop fl \<or> fl_diag fl \<and> fl_bit fl) \<and> (fl_smaller fl \<longrightarrow> n \<noteq> 2) \<and>
     numbered fl n (diag_fun n q) L"

lemma run_okD:
  assumes "run_ok fl n q L"
  shows "mode_ok fl n q" "1 < n" "fl_prop fl \<or> fl_diag fl \<and> fl_bit fl" "fl_smaller fl \<longrightarrow> n \<noteq> 2"
    "numbered fl n (diag_fun n q) L" "fl_smaller fl \<longrightarrow> fl_diag fl" "lits_live fl n (diag_fun n q) L"
  using assms numbered_live[of fl n "diag_fun n q" L] by (auto simp: run_ok_def mode_ok_def)

definition state_ok :: "flags \<Rightarrow> nat \<Rightarrow> nat list \<Rightarrow> lits3 \<Rightarrow> solver \<Rightarrow> bool" where
  "state_ok fl n q L s \<longleftrightarrow> table_state fl n (diag_fun n q) s \<and> started fl n q L (sv_mc s) \<and> sv_lits s = L"

lemma state_okD:
  assumes "state_ok fl n q L s"
  shows "table_state fl n (diag_fun n q) s" "started fl n q L (sv_mc s)" "sv_lits s = L"
  using assms by (simp_all add: state_ok_def)

text \<open>The verdict of the check on a table, as \<open>checkMin\<close> asks for it.\<close>

abbreviation verdict_of :: "flags \<Rightarrow> nat \<Rightarrow> bool \<Rightarrow> solver \<Rightarrow> unit res \<times> mincheck" where
  "verdict_of fl n fin s \<equiv> (if preCheck n (sv_cyc s) then (Inr (), (sv_mc s)\<lparr>mc_final := fin\<rparr>)
     else run_MinCheck fl n ((sv_mc s)\<lparr>mc_final := fin\<rparr>) (sv_cyc s))"

abbreviation canonical_table :: "flags \<Rightarrow> nat \<Rightarrow> nat list \<Rightarrow> cyc \<Rightarrow> bool" where
  "canonical_table fl n q C \<equiv> table_ok fl n (diag_fun n q) (mat_fun C) \<longrightarrow> lexmin n (diag_of fl (diag_fun n q)) (mat_fun C)"

lemma verdict:
  assumes R: "run_ok fl n q L" and S: "state_ok fl n q L s"
  shows "started fl n q L (snd (verdict_of fl n fin s))"
    "fst (verdict_of fl n fin s) = Inl (SymBreak c) \<Longrightarrow> clause_sound fl n (diag_fun n q) L c"
    "table_full n (sv_cyc s) \<Longrightarrow> table_ok fl n (diag_fun n q) (mat_fun (sv_cyc s)) \<Longrightarrow>
      exact_res (fst (verdict_of fl n True s)) (\<not> lexmin n (diag_of fl (diag_fun n q)) (mat_fun (sv_cyc s)))"
proof -
  note T = state_okD(1)[OF S] and M = state_okD(2)[OF S] and r = run_okD[OF R]
  show "started fl n q L (snd (verdict_of fl n fin s))"
  proof (cases "preCheck n (sv_cyc s)")
    case False
    then show ?thesis using run_started[OF M r(1,3,2) table_state_cyc_ok[OF T False] r(7)] by simp
  qed (use M in \<open>simp add: started_final\<close>)
  show "clause_sound fl n (diag_fun n q) L c" if "fst (verdict_of fl n fin s) = Inl (SymBreak c)"
  proof -
    have p: "\<not> preCheck n (sv_cyc s)" using that by auto
    then show ?thesis using run_partial[OF M r(1,3) table_state_cyc_ok[OF T p] r(7), of fin] that by (simp add: throws_sound_def)
  qed
  assume f: "table_full n (sv_cyc s)" "table_ok fl n (diag_fun n q) (mat_fun (sv_cyc s))"
  show "exact_res (fst (verdict_of fl n True s)) (\<not> lexmin n (diag_of fl (diag_fun n q)) (mat_fun (sv_cyc s)))"
  proof (cases "preCheck n (sv_cyc s)")
    case True
    then show ?thesis using skipped_lexmin[OF table_stateD(7)[OF T] f(1) True f(2)] by (simp add: exact_res_def)
  next
    case False
    then show ?thesis
      using run_total[OF M r(1) table_state_cyc_ok[OF T False] r(7) f(2) full_table(1)[OF table_stateD(7)[OF T] f(1)]] by simp
  qed
qed

text \<open>The three outcomes: nothing found, a symmetry breaking clause, a solution that is printed and excluded.\<close>

definition printed :: "nat \<Rightarrow> solver \<Rightarrow> solver \<Rightarrow> bool" where
  "printed n s s' \<longleftrightarrow> sv_nModels s' = sv_nModels s + 1 \<and>
     sv_out s' = fprintCycleSet (sv_out s @ ''Solution '' @ digits (sv_nModels s + 1) @ [char_of (10 :: nat)]) (sv_cyc s)"

definition same_out :: "solver \<Rightarrow> solver \<Rightarrow> bool" where
  "same_out s s' \<longleftrightarrow> sv_nModels s' = sv_nModels s \<and> sv_out s' = sv_out s"

definition rest_same :: "solver \<Rightarrow> solver \<Rightarrow> bool" where
  "rest_same s s' \<longleftrightarrow> same_table s s' \<and> sv_pos s' = sv_pos s \<and> sv_neg s' = sv_neg s"

datatype outcome = Passed | Broken clause | Printed

fun has_outcome :: "opts \<Rightarrow> nat \<Rightarrow> nat list \<Rightarrow> solver \<Rightarrow> solver \<Rightarrow> outcome \<Rightarrow> bool" where
  "has_outcome op n q s s' Passed \<longleftrightarrow> sv_clauses s' = sv_clauses s \<and> same_out s s' \<and>
     (table_full n (sv_cyc s) \<longrightarrow> \<not> op_allModels op \<and> canonical_table (op_fl op) n q (sv_cyc s))"
| "has_outcome op n q s s' (Broken c) \<longleftrightarrow> sv_clauses s' = sv_clauses s @ [c] \<and> same_out s s' \<and>
     clause_sound (op_fl op) n (diag_fun n q) (sv_lits s) c \<and>
     (table_full n (sv_cyc s) \<longrightarrow> table_ok (op_fl op) n (diag_fun n q) (mat_fun (sv_cyc s)) \<longrightarrow>
        \<not> lexmin n (diag_of (op_fl op) (diag_fun n q)) (mat_fun (sv_cyc s)))"
| "has_outcome op n q s s' Printed \<longleftrightarrow> sv_clauses s' = sv_clauses s @ [exclude_clause (op_fl op) n (sv_cyc s) (sv_lits s)] \<and>
     printed n s s' \<and> op_allModels op \<and> table_full n (sv_cyc s) \<and> canonical_table (op_fl op) n q (sv_cyc s)"

lemma same_simps [simp]: "rest_same s s" "same_out s s"
  by (simp_all add: rest_same_def same_table_def same_out_def)

lemma rest_same_trans: "rest_same s s' \<Longrightarrow> rest_same s' s'' \<Longrightarrow> rest_same s s''"
  by (simp add: rest_same_def same_table_def)

lemma state_ok_same: "state_ok fl n q L s \<Longrightarrow> rest_same s s' \<Longrightarrow> sv_mc s' = sv_mc s \<Longrightarrow> state_ok fl n q L s'"
  using same_table_state by (auto simp: state_ok_def rest_same_def same_table_def)

lemma addClause_same:
  assumes "addClause op c r s = Inr s'" "\<not> sv_checkMode s"
  shows "rest_same s s'" "same_out s s'" "sv_clauses s' = sv_clauses s @ [c]" "sv_mc s' = sv_mc s" "sv_change s' = sv_change s"
proof -
  obtain a b w where s': "s' = s\<lparr>sv_clauses := sv_clauses s @ [c], sv_sbc := a, sv_sols := b, sv_warn := w\<rparr>"
    using addClause_Inr[OF assms] by blast
  show "rest_same s s'" "same_out s s'" "sv_clauses s' = sv_clauses s @ [c]" "sv_mc s' = sv_mc s" "sv_change s' = sv_change s"
    unfolding s' by (simp_all add: rest_same_def same_table_def same_out_def)
qed

lemma checkMin_outcome:
  assumes R: "run_ok (op_fl op) n q L" and S: "state_ok (op_fl op) n q L s"
    and r: "checkMin op n val final s = Inr (res, s')"
  shows "\<exists>out. has_outcome op n q s s' out \<and> (res \<longleftrightarrow> out = Passed) \<and> rest_same s s' \<and> state_ok (op_fl op) n q L s'"
proof -
  let ?fl = "op_fl op" and ?full = "table_full n (sv_cyc s)"
  let ?fin = "?full \<or> final"
  obtain v M' where v: "verdict_of ?fl n ?fin s = (v, M')" by fastforce
  have nc: "\<not> sv_checkMode s" by (rule table_stateD(3)[OF state_okD(1)[OF S]])
  have C: "getCycleSet ?fl n val s = sv_cyc s" using nc by (simp add: getCycleSet_def)
  have M': "started ?fl n q L M'" using verdict(1)[OF R S, of ?fin] v by simp
  let ?s1 = "s\<lparr>sv_mc := M'\<rparr>"
  have vt: "verdict_of ?fl n True s = (v, M')" if "?full"
  proof -
    have "?fin = True" using that by simp
    then show ?thesis using v by (simp only:)
  qed
  have canon: "canonical_table ?fl n q (sv_cyc s)" if "?full" "\<And>c. v \<noteq> Inl (SymBreak c)"
    using verdict(3)[OF R S that(1)] vt[OF that(1)] that(2) by (auto simp: exact_res_def)
  have ok: "state_ok ?fl n q L s''" if "rest_same s s''" "sv_mc s'' = M'" for s''
    using S that M' same_table_state by (auto simp: state_ok_def rest_same_def same_table_def)
  let ?count = "\<lambda>f s. s\<lparr>sv_stats := f (sv_stats s)\<rparr>"
  have quiet: "?thesis" if w: "\<And>c. v \<noteq> Inl (SymBreak c)"
    and e: "checkMin op n val final s = bindE (if ?full \<and> op_allModels op
            then bindE (addClause op (exclude_clause ?fl n (sv_cyc s) (sv_lits ?s1)) False (print_solution (sv_cyc s) ?s1)) (\<lambda>s3.
                   Inr (False, ?count (\<lambda>t. t\<lparr>st_FullCheckFail := st_FullCheckFail t + 1\<rparr>) s3))
            else Inr (True, ?s1)) (\<lambda>(res, s3).
         Inr (res, ?count (\<lambda>t. let t1 = (if res \<and> \<not> ?fin then t\<lparr>st_PartCheckFail := st_PartCheckFail t + 1\<rparr> else t)
                in if ?fin then t1\<lparr>st_callsFullCheck := st_callsFullCheck t1 + 1\<rparr>
                   else t1\<lparr>st_callsPartCheck := st_callsPartCheck t1 + 1\<rparr>) s3))"
  proof (cases "?full \<and> op_allModels op")
    case True
    then obtain s3 f where s3: "addClause op (exclude_clause ?fl n (sv_cyc s) (sv_lits s)) False (print_solution (sv_cyc s) ?s1) = Inr s3"
      "s' = s3\<lparr>sv_stats := f\<rparr>" "\<not> res" using r e by (auto simp: bindE_eq_Inr)
    have p: "\<not> sv_checkMode (print_solution (sv_cyc s) ?s1)" using nc by (simp add: print_solution_def)
    note A = addClause_same[OF s3(1) p]
    have rs: "rest_same s s'" using A(1) s3(2) by (simp add: rest_same_def same_table_def print_solution_def)
    have "printed n s s'" using A(2) s3(2) by (simp add: printed_def same_out_def print_solution_def)
    moreover have "sv_clauses s' = sv_clauses s @ [exclude_clause ?fl n (sv_cyc s) (sv_lits s)]"
      using A(3) s3(2) by (simp add: print_solution_def)
    moreover have "sv_mc s' = M'" using A(4) s3(2) by (simp add: print_solution_def)
    ultimately show ?thesis using True w canon rs ok[OF rs] s3(3) by (intro exI[of _ Printed]) simp
  next
    case False
    then obtain f where "s' = ?s1\<lparr>sv_stats := f\<rparr>" "res" using r e by (auto simp: bindE_eq_Inr)
    moreover from this have "rest_same s s'" by (simp add: rest_same_def same_table_def)
    ultimately show ?thesis using False w canon ok[of s'] by (intro exI[of _ Passed]) (auto simp: same_out_def)
  qed
  show ?thesis
  proof (cases v)
    case (Inr u)
    show ?thesis
      by (rule quiet, simp add: Inr, simp only: checkMin_def Let_def C v Inr prod.case sum.case bindE_simps simp_thms)
  next
    case (Inl e)
    show ?thesis
    proof (cases e)
      case (SymBreak c)
      let ?s1' = "?count (\<lambda>t. t\<lparr>st_nSymBreakClauses := st_nSymBreakClauses t + 1\<rparr>) ?s1"
      note r' = r[unfolded checkMin_def Let_def C v prod.case Inl SymBreak sum.case exc.case]
      obtain s2 where a: "addClause op c True ?s1' = Inr s2" using r' by (cases "addClause op c True ?s1'") simp_all
      note r'' = r'[unfolded a bindE_simps prod.case not_True_eq_False simp_thms if_False sum.inject prod.inject]
      have "\<not> res" using r'' by simp
      moreover have "s' = s2\<lparr>sv_stats := sv_stats s'\<rparr>" unfolding conjunct2[OF r'', symmetric] by simp
      ultimately obtain f where "s' = s2\<lparr>sv_stats := f\<rparr>" "\<not> res" by blast
      note s2 = a this
      have p: "\<not> sv_checkMode ?s1'" using nc by simp
      note A = addClause_same[OF s2(1) p]
      have rs: "rest_same s s'" using A(1) s2(2) by (simp add: rest_same_def same_table_def)
      have "clause_sound ?fl n (diag_fun n q) (sv_lits s) c" 
        using verdict(2)[OF R S, of ?fin c, unfolded v fst_conv Inl SymBreak] state_okD(3)[OF S] by simp
      moreover have "\<not> lexmin n (diag_of ?fl (diag_fun n q)) (mat_fun (sv_cyc s))"
        if "?full" "table_ok ?fl n (diag_fun n q) (mat_fun (sv_cyc s))"
        using verdict(3)[OF R S that, unfolded vt[OF that(1)] fst_conv Inl SymBreak exact_res_def] by simp
      ultimately show ?thesis using A(2-4) s2(2,3) rs ok[OF rs]
        by (intro exI[of _ "Broken c"]) (simp add: same_out_def)
    next
      case LimitReached
      show ?thesis
        by (rule quiet, simp add: Inl LimitReached, simp only: checkMin_def Let_def C v Inl LimitReached prod.case sum.case exc.case bindE_simps simp_thms)
    qed (use r[unfolded checkMin_def Let_def C v prod.case Inl sum.case] in simp_all)
  qed
qed

end
