(* ===== verification/Propagator_Run.thy ===== *)
theory Propagator_Run
  imports Propagator_Clauses
begin

text \<open>
  Runs of the propagator under the SAT solver: the callbacks as labelled steps (the label lists
  the clauses the solver receives), the invariant of all runs, and what it means at the end.
\<close>

section \<open>Solutions and output\<close>

definition solution_text :: "nat \<Rightarrow> nat \<Rightarrow> cmat \<Rightarrow> string" where
  "solution_text n k N = fprintCycleSet (''Solution '' @ digits k @ [char_of (10 :: nat)])
     (no_cyc\<lparr>cy_matrix := map (\<lambda>i. map (\<lambda>j. int (N i j)) [0..<n]) [0..<n]\<rparr>)"

definition output_of :: "nat \<Rightarrow> cmat list \<Rightarrow> string" where
  "output_of n Ns = concat (map (\<lambda>k. solution_text n (Suc k) (Ns ! k)) [0..<length Ns])"

definition shown :: "nat \<Rightarrow> cmat list \<Rightarrow> solver \<Rightarrow> bool" where
  "shown n Ns s \<longleftrightarrow> sv_nModels s = length Ns \<and> sv_out s = output_of n Ns"

lemma output_snoc: "output_of n (Ns @ [N]) = output_of n Ns @ solution_text n (Suc (length Ns)) N"
proof -
  have "map (\<lambda>k. solution_text n (Suc k) ((Ns @ [N]) ! k)) [0..<length Ns] = map (\<lambda>k. solution_text n (Suc k) (Ns ! k)) [0..<length Ns]"
    by (intro map_cong) (simp_all add: nth_append)
  moreover have "output_of n (Ns @ [N]) = concat (map (\<lambda>k. solution_text n (Suc k) ((Ns @ [N]) ! k)) [0..<length Ns]) @ solution_text n (Suc (length Ns)) N"
    by (simp add: output_of_def)
  ultimately show ?thesis by (simp only: output_of_def)
qed

lemma full_matrix:
  assumes "table_inv fl n t False T C" "table_full n C"
  shows "cy_matrix C = map (\<lambda>i. map (\<lambda>j. int (mat_fun C i j)) [0..<n]) [0..<n]"
proof -
  have d: "length (cy_matrix C) = n" "\<And>i. i < n \<Longrightarrow> length (cy_matrix C ! i) = n"
    using table_invD(1)[OF assms(1)] by (simp_all add: cyc_dims_def dims2_def)
  show ?thesis
  proof (rule nth_equalityI)
    fix i assume i: "i < length (cy_matrix C)"
    then show "cy_matrix C ! i = map (\<lambda>i. map (\<lambda>j. int (mat_fun C i j)) [0..<n]) [0..<n] ! i"
      using d full_table(2)[OF assms] by (intro nth_equalityI) simp_all
  qed (use d in simp)
qed

lemma printed_shown:
  assumes p: "printed n s s'" and I: "table_inv fl n t False T (sv_cyc s)" "table_full n (sv_cyc s)" and sh: "shown n Ns s"
  shows "shown n (Ns @ [mat_fun (sv_cyc s)]) s'"
  using p sh unfolding shown_def output_snoc printed_def
  by (simp add: solution_text_def fprintCycleSet_def full_matrix[OF I, symmetric])

section \<open>The checks\<close>

lemma check_outcome:
  assumes R: "run_ok (op_fl op) n q L" and S: "state_ok (op_fl op) n q L s" and f: "table_full n (sv_cyc s)"
    and r: "check op n val s = Inr (res, s')"
  shows "rest_same s s' \<and> state_ok (op_fl op) n q L s' \<and>
    (if res then sv_clauses s' = sv_clauses s \<and> printed n s s' \<and> \<not> op_allModels op \<and> canonical_table (op_fl op) n q (sv_cyc s)
     else has_outcome op n q s s' Printed \<or> (\<exists>c. has_outcome op n q s s' (Broken c)))"
proof -
  obtain res1 s1 where m: "checkMin op n val True s = Inr (res1, s1)" using r by (auto simp: check_def bindE_eq_Inr)
  obtain out where o: "has_outcome op n q s s1 out" "res1 \<longleftrightarrow> out = Passed" "rest_same s s1" "state_ok (op_fl op) n q L s1"
    using checkMin_outcome[OF R S m] by blast
  show ?thesis
  proof (cases "out = Passed")
    case True
    have p: "sv_clauses s1 = sv_clauses s" "same_out s s1" "\<not> op_allModels op" "canonical_table (op_fl op) n q (sv_cyc s)"
      using o(1) f unfolding True by simp_all
    have c: "sv_cyc s1 = sv_cyc s" using o(3) by (simp add: rest_same_def same_table_def)
    have g: "getCycleSet (op_fl op) n val s1 = sv_cyc s"
      using table_stateD(3)[OF state_okD(1)[OF o(4)]] c by (simp add: getCycleSet_def)
    have s': "s' = print_solution (sv_cyc s) s1" "res"
      using r m o(2) True p(3) g by (simp_all add: check_def)
    have "rest_same s s'" using o(3) s'(1) by (simp add: rest_same_def same_table_def print_solution_def)
    moreover have "state_ok (op_fl op) n q L s'"
      by (rule state_ok_same[OF o(4)]) (simp_all add: s'(1) rest_same_def same_table_def print_solution_def)
    moreover have "printed n s s'" using p(2) s'(1) by (simp add: printed_def same_out_def print_solution_def)
    moreover have "sv_clauses s' = sv_clauses s" using p(1) s'(1) by (simp add: print_solution_def)
    ultimately show ?thesis using s'(2) p by simp
  next
    case False
    then have "s' = s1" "\<not> res" using r m o(2) by (simp_all add: check_def)
    then show ?thesis using o False by (cases out) auto
  qed
qed

section \<open>Streams of literals\<close>

text \<open>The solver asks for the literals of a clause until it gets 0.\<close>

fun take_lits :: "(solver \<Rightarrow> (int \<times> solver) res) \<Rightarrow> nat \<Rightarrow> solver \<Rightarrow> (int list \<times> solver) res" where
  "take_lits f 0 s = Inl UB"
| "take_lits f (Suc k) s = bindE (f s) (\<lambda>(l, s'). if l = 0 then Inr ([], s')
     else bindE (take_lits f k s') (\<lambda>(ls, s''). Inr (l # ls, s'')))"

text \<open>
  The contract of such a callback: it pops the last literal of a clause, and puts the store into
  its final form with the answer 0.
\<close>

locale literal_stream =
  fixes pull :: "solver \<Rightarrow> (int \<times> solver) res" and content :: "solver \<Rightarrow> clause" and replace :: "clause \<Rightarrow> solver \<Rightarrow> solver"
    and finish :: "solver \<Rightarrow> solver" and ready :: "solver \<Rightarrow> bool"
  assumes pull_more: "ready s \<Longrightarrow> content s \<noteq> [] \<Longrightarrow> pull s = Inr (last (content s), replace (butlast (content s)) s)"
    and pull_end: "ready s \<Longrightarrow> content s = [] \<Longrightarrow> pull s = Inr (0, finish s)"
    and replace_content: "ready s \<Longrightarrow> content (replace c s) = c" "ready s \<Longrightarrow> ready (replace c s)"
    and replace_same: "ready s \<Longrightarrow> replace (content s) s = s" "ready s \<Longrightarrow> replace c (replace d s) = replace c s"
begin

lemma take_all:
  assumes "ready s" "0 \<notin> set (content s)"
  shows "take_lits pull (Suc (length (content s))) s = Inr (rev (content s), finish (replace [] s))"
  using assms
proof (induction "content s" arbitrary: s rule: rev_induct)
  case Nil
  then show ?case using pull_end[of s] replace_same(1)[of s] by simp
next
  case (snoc x xs)
  note e = snoc.hyps(2)[symmetric]
  have "take_lits pull (Suc (length xs)) (replace xs s) = Inr (rev xs, finish (replace [] s))"
    using snoc.hyps(1)[of "replace xs s"] snoc.prems e by (simp add: replace_content replace_same)
  moreover have "pull s = Inr (x, replace xs s)" using pull_more[OF snoc.prems(1)] e by simp
  moreover have "x \<noteq> 0" using snoc.prems(2) e by auto
  ultimately show ?case using e by simp
qed

end

definition reason_of :: "int \<Rightarrow> solver \<Rightarrow> clause" where
  "reason_of p s = (if 0 < p then sv_pos s ! var_of p else sv_neg s ! var_of p)"

definition set_reason :: "int \<Rightarrow> clause \<Rightarrow> solver \<Rightarrow> solver" where
  "set_reason p c s = (if 0 < p then s\<lparr>sv_pos := (sv_pos s)[var_of p := c]\<rparr> else s\<lparr>sv_neg := (sv_neg s)[var_of p := c]\<rparr>)"

definition has_reason :: "int \<Rightarrow> solver \<Rightarrow> bool" where
  "has_reason p s \<longleftrightarrow> var_of p < length (if 0 < p then sv_pos s else sv_neg s)"

interpretation pending: literal_stream cb_add_external_clause_lit "\<lambda>s. last (sv_clauses s)"
  "\<lambda>c s. s\<lparr>sv_clauses := butlast (sv_clauses s) @ [c]\<rparr>" "\<lambda>s. s\<lparr>sv_clauses := butlast (sv_clauses s)\<rparr>" "\<lambda>s. sv_clauses s \<noteq> []"
  by unfold_locales (simp_all add: cb_add_external_clause_lit_def Let_def)

lemma reason_stream:
  "literal_stream (cb_add_reason_clause_lit p) (reason_of p) (set_reason p) (\<lambda>s. s) (has_reason p)"
proof (cases "0 < p")
  case True
  then show ?thesis
    by unfold_locales (simp_all add: cb_add_reason_clause_lit_def reason_of_def set_reason_def has_reason_def vget_def Let_def)
next
  case False
  then show ?thesis
    by unfold_locales (simp_all add: cb_add_reason_clause_lit_def reason_of_def set_reason_def has_reason_def vget_def Let_def)
qed

interpretation reason: literal_stream "cb_add_reason_clause_lit p" "reason_of p" "set_reason p" "\<lambda>s. s" "has_reason p" for p
  by (rule reason_stream)

section \<open>Steps\<close>

text \<open>
  The guards are what the solver keeps to: it notifies as \<open>may_notify\<close> says, it asks for clauses,
  for propagations and for the check of a model only when no received clause is falsified (after
  propagation), for the check only when all observed variables have values, for propagations only
  when no clause is pending, and for a reason only of a literal that has one. \<open>G\<close> are the clauses
  received so far.
\<close>

definition lit_false :: "solver \<Rightarrow> int \<Rightarrow> bool" where
  "lit_false s l = (case entry_of s (var_of l) of Inl _ \<Rightarrow> False
     | Inr (i, j, k) \<Rightarrow> asg_at (sv_cyc s) i j k = (if 0 < l then False_t else True_t))"

definition no_conflict :: "clause list \<Rightarrow> solver \<Rightarrow> bool" where
  "no_conflict G s = list_all (\<lambda>c. list_ex (\<lambda>l. \<not> lit_false s l) c) G"

inductive sat_step :: "opts \<Rightarrow> nat \<Rightarrow> (nat \<Rightarrow> nat) \<Rightarrow> (int \<Rightarrow> int) \<Rightarrow> clause list \<Rightarrow> solver \<Rightarrow> clause list \<Rightarrow> solver \<Rightarrow> bool"
  for op :: opts and n :: nat and t :: "nat \<Rightarrow> nat" and val :: "int \<Rightarrow> int" where
  assigned: "may_notify (op_fl op) n t lit fixed s \<Longrightarrow> notify_assignment n lit fixed s = Inr s' \<Longrightarrow> sat_step op n t val G s [] s'"
| decided: "sat_step op n t val G s [] (notify_new_decision_level s)"
| backtracked: "notify_backtrack n level s = Inr s' \<Longrightarrow> sat_step op n t val G s [] s'"
| clause: "no_conflict G s \<Longrightarrow> cb_has_external_clause op n val rnd s = Inr (True, s1) \<Longrightarrow>
    take_lits cb_add_external_clause_lit (Suc (length (last (sv_clauses s1)))) s1 = Inr (c, s') \<Longrightarrow> sat_step op n t val G s [c] s'"
| no_clause: "no_conflict G s \<Longrightarrow> cb_has_external_clause op n val rnd s = Inr (False, s') \<Longrightarrow> sat_step op n t val G s [] s'"
| model: "no_conflict G s \<Longrightarrow> table_full n (sv_cyc s) \<Longrightarrow> cb_check_found_model op n val s = Inr (b, s') \<Longrightarrow> sat_step op n t val G s [] s'"
| propagated: "no_conflict G s \<Longrightarrow> sv_clauses s = [] \<Longrightarrow> cb_propagate op n val rnd timeout s = Inr (l, s') \<Longrightarrow> sat_step op n t val G s [] s'"
| reason: "has_reason p s \<Longrightarrow> reason_of p s \<noteq> [] \<Longrightarrow>
    take_lits (cb_add_reason_clause_lit p) (Suc (length (reason_of p s))) s = Inr (c, s') \<Longrightarrow> sat_step op n t val G s [c] s'"

inductive sat_run :: "opts \<Rightarrow> nat \<Rightarrow> (nat \<Rightarrow> nat) \<Rightarrow> (int \<Rightarrow> int) \<Rightarrow> solver \<Rightarrow> clause list \<Rightarrow> solver \<Rightarrow> bool"
  for op :: opts and n :: nat and t :: "nat \<Rightarrow> nat" and val :: "int \<Rightarrow> int" and s0 :: solver where
  start: "sat_run op n t val s0 [] s0"
| more: "sat_run op n t val s0 G s \<Longrightarrow> sat_step op n t val G s g s' \<Longrightarrow> sat_run op n t val s0 (G @ g) s'"

inductive_cases sat_stepE: "sat_step op n t val G s g s'"

section \<open>The invariant of a run\<close>

definition differ :: "nat \<Rightarrow> cmat \<Rightarrow> cmat \<Rightarrow> bool" where
  "differ n A B \<longleftrightarrow> (\<exists>i<n. \<exists>j<n. A i j \<noteq> B i j)"

definition negated_lits :: "flags \<Rightarrow> nat \<Rightarrow> lits3 \<Rightarrow> cmat \<Rightarrow> int set" where
  "negated_lits fl n L N = {- (L ! i ! j ! N i j) | i j. i < n \<and> j < n \<and> \<not> (fl_diag fl \<and> i = j)}"

definition solution_ok :: "flags \<Rightarrow> nat \<Rightarrow> (nat \<Rightarrow> nat) \<Rightarrow> cmat \<Rightarrow> bool" where
  "solution_ok fl n t N \<longleftrightarrow> (\<forall>i<n. \<forall>j<n. N i j < n) \<and> has_diag n (diag_of fl t) N \<and>
     (table_ok fl n t N \<longrightarrow> lexmin n (diag_of fl t) N)"

definition clauses_ok :: "flags \<Rightarrow> nat \<Rightarrow> (nat \<Rightarrow> nat) \<Rightarrow> lits3 \<Rightarrow> clause list \<Rightarrow> cmat list \<Rightarrow> solver \<Rightarrow> bool" where
  "clauses_ok fl n t L G Ns s \<longleftrightarrow> (\<forall>c\<in>set G \<union> set (sv_clauses s). justified fl n t L Ns c) \<and>
     (\<forall>c\<in>set (sv_pos s) \<union> set (sv_neg s). c = [] \<or> justified fl n t L Ns c) \<and>
     length (sv_pos s) = length (lit2entry fl n t) \<and> length (sv_neg s) = length (lit2entry fl n t)"

definition blocked_ok :: "opts \<Rightarrow> nat \<Rightarrow> lits3 \<Rightarrow> clause list \<Rightarrow> cmat list \<Rightarrow> solver \<Rightarrow> bool" where
  "blocked_ok op n L G Ns s \<longleftrightarrow> op_allModels op \<longrightarrow> sorted_wrt (differ n) Ns \<and>
     (\<forall>N\<in>set Ns. \<exists>c\<in>set G \<union> set (sv_clauses s). set c = negated_lits (op_fl op) n L N)"

text \<open>Without \<open>--allModels\<close> a printed table is not excluded.\<close>

definition excluded :: "opts \<Rightarrow> cmat list \<Rightarrow> cmat list" where
  "excluded op Ns = (if op_allModels op then Ns else [])"

lemma excluded_sub: "set (excluded op Ns) \<subseteq> set Ns" "set (excluded op Ns) \<subseteq> set (excluded op (Ns @ Ms))"
  by (auto simp: excluded_def)

definition run_inv :: "opts \<Rightarrow> nat \<Rightarrow> nat list \<Rightarrow> lits3 \<Rightarrow> clause list \<Rightarrow> cmat list \<Rightarrow> solver \<Rightarrow> bool" where
  "run_inv op n q L G Ns s \<longleftrightarrow> state_ok (op_fl op) n q L s \<and> shown n Ns s \<and> (\<forall>N\<in>set Ns. solution_ok (op_fl op) n (diag_fun n q) N) \<and>
     clauses_ok (op_fl op) n (diag_fun n q) L G (excluded op Ns) s \<and> blocked_ok op n L G Ns s"

lemma run_invD:
  assumes "run_inv op n q L G Ns s"
  shows "state_ok (op_fl op) n q L s" "shown n Ns s" "\<forall>N\<in>set Ns. solution_ok (op_fl op) n (diag_fun n q) N"
    "clauses_ok (op_fl op) n (diag_fun n q) L G (excluded op Ns) s" "blocked_ok op n L G Ns s"
  using assms by (simp_all add: run_inv_def)

text \<open>Steps that leave output, clauses and check alone.\<close>

definition same_rest :: "solver \<Rightarrow> solver \<Rightarrow> bool" where
  "same_rest s s' \<longleftrightarrow> same_out s s' \<and> sv_clauses s' = sv_clauses s \<and> sv_pos s' = sv_pos s \<and> sv_neg s' = sv_neg s \<and>
     sv_mc s' = sv_mc s \<and> sv_lits s' = sv_lits s"

lemma quiet_step:
  assumes I: "run_inv op n q L G Ns s" and s: "same_rest s s'" "table_state (op_fl op) n (diag_fun n q) s'"
  shows "run_inv op n q L G Ns s'"
  using I s by (simp add: run_inv_def state_ok_def same_rest_def same_out_def shown_def clauses_ok_def blocked_ok_def)

lemma notify_same: "notify_assignment n lit fixed s = Inr s' \<Longrightarrow> same_rest s s'"
  by (auto simp: notify_assignment_def bindE_eq_Inr same_rest_def same_out_def)

lemma same_rest_trans: "same_rest s s' \<Longrightarrow> same_rest s' s'' \<Longrightarrow> same_rest s s''"
  by (simp add: same_rest_def same_out_def)

lemma foldE_same:
  assumes "\<And>x s s'. f x s = Inr s' \<Longrightarrow> same_rest s s'"
  shows "foldE f xs s = Inr s' \<Longrightarrow> same_rest s s'"
proof (induction xs arbitrary: s)
  case (Cons x xs)
  then obtain u where "f x s = Inr u" "foldE f xs u = Inr s'" by (auto simp: bindE_eq_Inr)
  then show ?case using assms Cons.IH same_rest_trans by blast
qed (simp add: same_rest_def same_out_def)

lemma pop_same: "pop_level n s = Inr s' \<Longrightarrow> same_rest s s'"
proof -
  assume "pop_level n s = Inr s'"
  then obtain u where u: "foldE (undo_lit n) (last (sv_trail s)) s = Inr u" "s' = u\<lparr>sv_trail := butlast (sv_trail u)\<rparr>"
    by (auto simp: pop_level_def bindE_eq_Inr)
  have "undo_lit n x s = Inr s' \<Longrightarrow> same_rest s s'" for x s s'
    by (auto simp: undo_lit_def bindE_eq_Inr same_rest_def same_out_def)
  from foldE_same[OF this u(1)] show ?thesis using u(2) by (simp add: same_rest_def same_out_def)
qed

lemma backtrack_same: "notify_backtrack n level s = Inr s' \<Longrightarrow> same_rest s s'"
  unfolding notify_backtrack_def by (rule foldE_same[where f = "\<lambda>_. pop_level n"]) (rule pop_same)

text \<open>A new solution.\<close>

lemma exclude_clause_set:
  assumes "table_inv fl n t False T C" "table_full n C"
  shows "set (exclude_clause fl n C L) = negated_lits fl n L (mat_fun C)"
  unfolding set_eq_iff exclude_clause_mem[OF assms] negated_lits_def by blast

lemma new_solution_ok:
  assumes I: "table_inv fl n (diag_fun n q) False T C" "table_full n C" and c: "canonical_table fl n q C"
  shows "solution_ok fl n (diag_fun n q) (mat_fun C)"
proof -
  have "has_diag n (diag_of fl (diag_fun n q)) (mat_fun C)"
    using full_table(4)[OF I] by (cases "fl_diag fl") (simp_all add: diag_of_def has_diag_def)
  then show ?thesis using full_table(2)[OF I] c by (simp add: solution_ok_def)
qed

lemma exclude_lit_entry:
  assumes R: "run_ok fl n q L" and T: "table_state fl n (diag_fun n q) s" "table_full n (sv_cyc s)"
    and l: "l \<in> negated_lits fl n L (mat_fun (sv_cyc s))"
  shows "lit_false s l" "\<exists>i j k. entry_of s (var_of l) = Inr (i, j, k) \<and> asg_at (sv_cyc s) i j k = True_t"
proof -
  let ?N = "mat_fun (sv_cyc s)"
  obtain i j where e: "i < n" "j < n" "\<not> (fl_diag fl \<and> i = j)" "l = - (L ! i ! j ! ?N i j)"
    using l by (auto simp: negated_lits_def)
  note I = table_stateD(7)[OF T(1)] and f = full_table(2)[OF table_stateD(7)[OF T(1)] T(2) e(1,2)]
  have "fl_diag fl \<Longrightarrow> ?N i j \<noteq> diag_fun n q i" using table_invD(5)[OF I _ e(1,2)] e(3) f by auto
  then have "has_var fl (diag_fun n q) i j (?N i j)" using e(3) run_okD(6)[OF R] by (auto simp: has_var_def)
  from numbered_lit[OF run_okD(5,6)[OF R] e(1,2) conjunct1[OF f] this] obtain x where
    x: "is_var fl n (diag_fun n q) x" "entry_at fl n (diag_fun n q) x = (i, j, ?N i j)" "L ! i ! j ! ?N i j = int x" by blast
  have en: "entry_of s (var_of l) = Inr (i, j, ?N i j)"
    using entry_of_var(1)[OF table_stateD(1)[OF T(1)] x(1)] x(2,3) e(4) by (simp add: var_of_def)
  have as: "asg_at (sv_cyc s) i j (?N i j) = True_t" using table_invD(3)[OF I e(1,2)] f by blast
  show "lit_false s l" using en as e(4) x(3) by (simp add: lit_false_def)
  show "\<exists>i j k. entry_of s (var_of l) = Inr (i, j, k) \<and> asg_at (sv_cyc s) i j k = True_t" using en as by blast
qed

lemma blocked_differ:
  assumes R: "run_ok fl n q L" and T: "table_state fl n (diag_fun n q) s" "table_full n (sv_cyc s)"
    and c: "set c = negated_lits fl n L M" "\<exists>l\<in>set c. \<not> lit_false s l"
  shows "differ n M (mat_fun (sv_cyc s))"
proof (rule ccontr)
  assume "\<not> ?thesis"
  then have eq: "M i j = mat_fun (sv_cyc s) i j" if "i < n" "j < n" for i j using that by (auto simp: differ_def)
  have "l \<in> negated_lits fl n L M \<longleftrightarrow> l \<in> negated_lits fl n L (mat_fun (sv_cyc s))" for l
    unfolding negated_lits_def mem_Collect_eq using eq by metis
  then show False using c exclude_lit_entry(1)[OF R T] by blast
qed

lemma clauses_more:
  assumes "clauses_ok fl n t L G Ns s" "sv_clauses s' = sv_clauses s @ cs" "sv_pos s' = sv_pos s" "sv_neg s' = sv_neg s"
    "set Ns \<subseteq> set Ms" "\<forall>c\<in>set cs. justified fl n t L Ms c"
  shows "clauses_ok fl n t L G Ms s'"
proof -
  have "justified fl n t L Ms c" if "justified fl n t L Ns c" for c by (rule justified_more[OF that assms(5)])
  then show ?thesis using assms(1-4,6) unfolding clauses_ok_def by auto
qed

lemma new_printed:
  assumes R: "run_ok (op_fl op) n q L" and I: "run_inv op n q L G Ns s"
    and p: "printed n s s'" "table_full n (sv_cyc s)" "canonical_table (op_fl op) n q (sv_cyc s)"
    and rs: "rest_same s s'" "state_ok (op_fl op) n q L s'" and nc: "no_conflict G s" "sv_clauses s = []"
    and cl: "sv_clauses s' = [] \<and> \<not> op_allModels op \<or> op_allModels op \<and> sv_clauses s' = [exclude_clause (op_fl op) n (sv_cyc s) L]"
  shows "run_inv op n q L G (Ns @ [mat_fun (sv_cyc s)]) s'"
proof -
  let ?fl = "op_fl op" and ?t = "diag_fun n q" and ?N = "mat_fun (sv_cyc s)" and ?x = "exclude_clause (op_fl op) n (sv_cyc s) L"
  note T = state_okD(1)[OF run_invD(1)[OF I]] and r = run_okD[OF R]
  note TI = table_stateD(7)[OF T]
  have lits: "table_lit ?fl n ?t L l" if "l \<in> set ?x" for l using exclude_clause_lits[OF TI p(2) r(6) that] .
  have "0 \<notin> set ?x" using table_lit_var(2)[OF r(5,6) lits] by blast
  then have j: "justified ?fl n ?t L (excluded op (Ns @ [?N])) ?x" if "op_allModels op"
    using exclude_clause_excludes[OF TI p(2) r(6,5)] that by (auto simp: justified_def excluded_def)
  have "clauses_ok ?fl n ?t L G (excluded op (Ns @ [?N])) s'"
    by (rule clauses_more[OF run_invD(4)[OF I], of _ "sv_clauses s'"])
      (use rs(1) nc(2) cl j excluded_sub in \<open>auto simp: rest_same_def\<close>)
  moreover have "blocked_ok op n L G (Ns @ [?N]) s'" if a: "op_allModels op"
  proof -
    have B: "sorted_wrt (differ n) Ns" "\<forall>N\<in>set Ns. \<exists>c\<in>set G. set c = negated_lits ?fl n L N"
      using run_invD(5)[OF I] a nc(2) by (simp_all add: blocked_ok_def)
    have x: "sv_clauses s' = [?x]" using cl a by simp
    have "differ n M ?N" if M: "M \<in> set Ns" for M
    proof -
      obtain c where c: "c \<in> set G" "set c = negated_lits ?fl n L M" using B(2) M by blast
      have "\<exists>l\<in>set c. \<not> lit_false s l" using nc(1) c(1) by (auto simp: no_conflict_def list_all_iff list_ex_iff)
      then show ?thesis by (rule blocked_differ[OF R T p(2) c(2)])
    qed
    then show ?thesis using B x exclude_clause_set[OF TI p(2), of L]
      by (auto simp: blocked_ok_def sorted_wrt_append)
  qed
  moreover have "shown n (Ns @ [?N]) s'" by (rule printed_shown[OF p(1) TI p(2) run_invD(2)[OF I]])
  moreover have "solution_ok ?fl n ?t ?N" by (rule new_solution_ok[OF TI p(2,3)])
  ultimately show ?thesis using rs(2) run_invD(3)[OF I] by (auto simp: run_inv_def blocked_ok_def)
qed

definition blocked_by :: "opts \<Rightarrow> nat \<Rightarrow> lits3 \<Rightarrow> clause list \<Rightarrow> cmat list \<Rightarrow> bool" where
  "blocked_by op n L G Ns \<longleftrightarrow> op_allModels op \<longrightarrow> (\<forall>N\<in>set Ns. \<exists>c\<in>set G. set c = negated_lits (op_fl op) n L N)"

lemma outcome_inv:
  assumes R: "run_ok (op_fl op) n q L" and I: "run_inv op n q L G Ns s" and o: "has_outcome op n q s s' out"
    and rs: "rest_same s s'" "state_ok (op_fl op) n q L s'" and nc: "no_conflict G s" "sv_clauses s = []"
  shows "\<exists>Ms. run_inv op n q L G Ms s' \<and>
    (blocked_by op n L G Ms \<or> sv_clauses s' = [exclude_clause (op_fl op) n (sv_cyc s) L] \<and> table_full n (sv_cyc s))"
proof -
  have blocked: "blocked_by op n L G Ns"
    using run_invD(5)[OF I] nc(2) by (simp add: blocked_ok_def blocked_by_def)
  show ?thesis
proof (cases out)
  case Passed
  then have c: "sv_clauses s' = sv_clauses s @ []" "same_out s s'" using o by simp_all
  then have "run_inv op n q L G Ns s'"
    using I rs clauses_more[OF run_invD(4)[OF I] c(1), of "excluded op Ns"]
    by (simp add: run_inv_def shown_def same_out_def rest_same_def blocked_ok_def)
  then show ?thesis using blocked by blast
next
  case (Broken c)
  note r = run_okD[OF R]
  have c: "sv_clauses s' = sv_clauses s @ [c]" "same_out s s'" "clause_sound (op_fl op) n (diag_fun n q) L c"
    using o state_okD(3)[OF run_invD(1)[OF I]] by (simp_all add: Broken)
  have "0 \<notin> set c" using c(3) r(4) table_lit_var(2)[OF r(5,6)] by (auto simp: clause_sound_def)
  then have "justified (op_fl op) n (diag_fun n q) L (excluded op Ns) c" using c(3) by (simp add: justified_def)
  then have "clauses_ok (op_fl op) n (diag_fun n q) L G (excluded op Ns) s'"
    using clauses_more[OF run_invD(4)[OF I] c(1), of "excluded op Ns"] rs(1) by (simp add: rest_same_def)
  then have "run_inv op n q L G Ns s'"
    using I rs c(1,2) nc(2) by (auto simp: run_inv_def shown_def same_out_def blocked_ok_def)
  then show ?thesis using blocked by blast
next
  case Printed
  have p: "printed n s s'" "table_full n (sv_cyc s)" "canonical_table (op_fl op) n q (sv_cyc s)"
    "sv_clauses s' = [exclude_clause (op_fl op) n (sv_cyc s) L]" "op_allModels op"
    using o nc(2) state_okD(3)[OF run_invD(1)[OF I]] by (simp_all add: Printed)
  show ?thesis using new_printed[OF R I p(1-3) rs nc] p(2,4,5) by blast
qed
qed

section \<open>Callbacks\<close>

lemma same_conflict: "same_table s s' \<Longrightarrow> no_conflict G s' = no_conflict G s"
proof -
  assume s: "same_table s s'"
  then have "sv_l2e s' = sv_l2e s" "sv_cyc s' = sv_cyc s" by (simp_all add: same_table_def)
  then have "lit_false s' = lit_false s" by (simp only: fun_eq_iff lit_false_def entry_of_def simp_thms)
  then show ?thesis by (simp only: no_conflict_def)
qed

lemma propagate_inv:
  assumes R: "run_ok (op_fl op) n q L" and I: "run_inv op n q L G Ns s" and nc: "no_conflict G s" "sv_clauses s = []"
    and p: "propagate op n val rnd s = Inr (b, s')"
  shows "\<exists>Ms. run_inv op n q L G Ms s' \<and> same_table s s' \<and>
    (blocked_by op n L G Ms \<or> sv_clauses s' = [exclude_clause (op_fl op) n (sv_cyc s) L] \<and> table_full n (sv_cyc s))"
proof -
  let ?s = "s\<lparr>sv_stats := (sv_stats s)\<lparr>st_callsPropagator := st_callsPropagator (sv_stats s) + 1\<rparr>\<rparr>"
  have same: "same_table s ?s" "same_rest s ?s" by (simp_all add: same_table_def same_rest_def same_out_def)
  have I': "run_inv op n q L G Ns ?s"
    by (rule quiet_step[OF I same(2) same_table_state[OF same(1) state_okD(1)[OF run_invD(1)[OF I]]]])
  have nc': "no_conflict G ?s" "sv_clauses ?s = []" using nc same_conflict[OF same(1)] by simp_all
  show ?thesis
  proof (cases "rnd mod op_checkFreq op = 0 \<and> op_checkSols op \<and> op_checkFreq op \<noteq> 0")
    case True
    then have "checkMin op n val False ?s = Inr (b, s')" using p by (simp add: propagate_def Let_def)
    from checkMin_outcome[OF R run_invD(1)[OF I'] this] obtain out where
      o: "has_outcome op n q ?s s' out" "rest_same ?s s'" "state_ok (op_fl op) n q L s'" by blast
    have "same_table s s'" using same(1) o(2) by (simp add: rest_same_def same_table_def)
    then show ?thesis using outcome_inv[OF R I' o nc'] by simp
  next
    case False
    then have "s' = ?s" using p by (auto simp: propagate_def Let_def split: if_splits)
    moreover have "blocked_by op n L G Ns" using run_invD(5)[OF I] nc(2) by (simp add: blocked_ok_def blocked_by_def)
    ultimately show ?thesis using I' same(1) by blast
  qed
qed

text \<open>The clause that is handed over, and the reason.\<close>

lemma deliver_inv:
  assumes I: "run_inv op n q L G Ns s" and c: "sv_clauses s = cs @ [c]"
  shows "run_inv op n q L (G @ [rev c]) Ns (s\<lparr>sv_clauses := cs\<rparr>)"
proof -
  have "state_ok (op_fl op) n q L (s\<lparr>sv_clauses := cs\<rparr>)"
    using state_ok_same[OF run_invD(1)[OF I], of "s\<lparr>sv_clauses := cs\<rparr>"] by (simp add: rest_same_def same_table_def)
  moreover have "shown n Ns (s\<lparr>sv_clauses := cs\<rparr>)" using run_invD(2)[OF I] by (simp add: shown_def)
  moreover have "clauses_ok (op_fl op) n (diag_fun n q) L (G @ [rev c]) (excluded op Ns) (s\<lparr>sv_clauses := cs\<rparr>)"
    using run_invD(4)[OF I] c justified_cong[of "rev c" c] by (auto simp: clauses_ok_def)
  moreover have "blocked_ok op n L (G @ [rev c]) Ns (s\<lparr>sv_clauses := cs\<rparr>)"
    using run_invD(5)[OF I] c by (fastforce simp: blocked_ok_def)
  ultimately show ?thesis using run_invD(3)[OF I] by (simp add: run_inv_def)
qed

lemma reason_in: "has_reason p s \<Longrightarrow> reason_of p s \<in> set (sv_pos s) \<union> set (sv_neg s)"
  by (auto simp: has_reason_def reason_of_def split: if_splits)

lemma set_reason_in: "x \<in> set (sv_pos (set_reason p c s)) \<union> set (sv_neg (set_reason p c s)) \<Longrightarrow>
  x = c \<or> x \<in> set (sv_pos s) \<union> set (sv_neg s)"
  using set_update_subset_insert[of "sv_pos s" "var_of p" c] set_update_subset_insert[of "sv_neg s" "var_of p" c]
  by (auto simp: set_reason_def split: if_splits)

lemma set_reason_same:
  "same_table s (set_reason p c s)" "sv_clauses (set_reason p c s) = sv_clauses s" "same_out s (set_reason p c s)"
  "sv_mc (set_reason p c s) = sv_mc s" "length (sv_pos (set_reason p c s)) = length (sv_pos s)"
  "length (sv_neg (set_reason p c s)) = length (sv_neg s)"
  by (simp_all add: set_reason_def same_table_def same_out_def)

lemma set_reason_inv:
  assumes I: "run_inv op n q L G Ns s" and c: "c = [] \<or> justified (op_fl op) n (diag_fun n q) L (excluded op Ns) c"
  shows "run_inv op n q L G Ns (set_reason p c s)"
proof -
  note S = set_reason_same[where s = s and p = p and c = c]
  have "state_ok (op_fl op) n q L (set_reason p c s)"
    using run_invD(1)[OF I] same_table_state[OF S(1)] S(1,4) by (simp add: state_ok_def same_table_def)
  moreover have "clauses_ok (op_fl op) n (diag_fun n q) L G (excluded op Ns) (set_reason p c s)"
    unfolding clauses_ok_def S(2,5,6)
  proof (intro conjI ballI)
    fix x assume "x \<in> set (sv_pos (set_reason p c s)) \<union> set (sv_neg (set_reason p c s))"
    from set_reason_in[OF this] show "x = [] \<or> justified (op_fl op) n (diag_fun n q) L (excluded op Ns) x"
      using run_invD(4)[OF I] c by (auto simp: clauses_ok_def)
  qed (use run_invD(4)[OF I] in \<open>simp_all add: clauses_ok_def\<close>)
  ultimately show ?thesis using I S by (simp add: run_inv_def shown_def same_out_def blocked_ok_def)
qed

lemma reason_inv:
  assumes I: "run_inv op n q L G Ns s" and c: "justified (op_fl op) n (diag_fun n q) L (excluded op Ns) c"
  shows "run_inv op n q L (G @ [rev c]) Ns s"
  using I c justified_cong[of "rev c" c] by (fastforce simp: run_inv_def clauses_ok_def blocked_ok_def)

text \<open>The scan of \<open>cb_propagate\<close> counts the open literals; the others are false.\<close>

definition lit_open :: "solver \<Rightarrow> int \<Rightarrow> bool" where
  "lit_open s l = (case entry_of s (var_of l) of Inl _ \<Rightarrow> False | Inr (i, j, k) \<Rightarrow> asg_at (sv_cyc s) i j k = Unknown_t)"

lemma scan_unit_count:
  assumes l2e: "sv_l2e s = lit2entry fl n t"
  shows "scan_unit s c (m, l0) = Inr (Some (k, l)) \<Longrightarrow>
    k = m + length (filter (lit_open s) c) \<and> (\<forall>x\<in>set c. lit_open s x \<or> lit_false s x) \<and>
    l = (if filter (lit_open s) c = [] then l0 else last (filter (lit_open s) c))"
proof (induction c arbitrary: m l0)
  case (Cons x c)
  obtain i j k' where e: "entry_of s (var_of x) = Inr (i, j, k')" using Cons.prems by (auto simp: bindE_eq_Inr)
  note p = Cons.prems[unfolded scan_unit.simps e bindE_simps prod.case Let_def fst_conv]
  have x: "x \<noteq> 0" using entry_of_var(2)[OF l2e e] by (auto simp: is_var_def var_of_def)
  show ?case
  proof (cases "asg_at (sv_cyc s) i j k' = Unknown_t")
    case True
    then have o: "lit_open s x" using e by (simp add: lit_open_def)
    have "scan_unit s c (m + 1, x) = Inr (Some (k, l))" using p True by simp
    from Cons.IH[OF this] o show ?thesis by auto
  next
    case False
    then have o: "\<not> lit_open s x" using e by (simp add: lit_open_def)
    have "lit_false s x" "scan_unit s c (m, l0) = Inr (Some (k, l))"
      using p False x e by (cases "asg_at (sv_cyc s) i j k'"; auto simp: lit_false_def split: if_splits)+
    from Cons.IH[OF this(2)] this(1) o show ?thesis by auto
  qed
qed simp

lemma filter_one_split:
  assumes "length (filter P xs) = 1"
  shows "\<exists>ys zs. xs = ys @ last (filter P xs) # zs \<and> P (last (filter P xs)) \<and> (\<forall>x\<in>set (ys @ zs). \<not> P x)"
proof -
  obtain x where x: "filter P xs = [x]" using assms by (auto simp: length_Suc_conv)
  then obtain us vs where v: "xs = us @ x # vs" "\<forall>u\<in>set us. \<not> P u" "P x" "[] = filter P vs"
    using filter_eq_Cons_iff[of P xs x "[]"] by auto
  moreover from this(4) have "\<forall>u\<in>set vs. \<not> P u" by (simp add: eq_commute[of "[]"] filter_empty_conv)
  ultimately have "xs = us @ last (filter P xs) # vs \<and> P (last (filter P xs)) \<and> (\<forall>x\<in>set (us @ vs). \<not> P x)"
    using x by auto
  then show ?thesis by blast
qed

lemma lits_cong:
  assumes "sv_l2e s' = sv_l2e s" "sv_cyc s' = sv_cyc s"
  shows "lit_false s' = lit_false s" "lit_open s' = lit_open s"
  using assms by (simp_all only: fun_eq_iff lit_false_def lit_open_def entry_of_def simp_thms)

text \<open>What \<open>cb_propagate\<close> does to the state: nothing more than \<open>propagate\<close>, or one pending clause becomes a reason.\<close>

lemma cb_propagate_cases:
  assumes l2e: "\<forall>b s1. propagate op n val rnd s = Inr (b, s1) \<longrightarrow> sv_l2e s1 = lit2entry fl n t"
    and p: "cb_propagate op n val rnd timeout s = Inr (l, s')"
  shows "l = 0 \<and> s' = s \<or> (\<exists>b s1. propagate op n val rnd s = Inr (b, s1) \<and>
    (l = 0 \<and> s' = s1 \<or> (\<exists>cs ys zs. sv_clauses s1 = cs @ [ys @ l # zs] \<and> lit_open s1 l \<and>
       (\<forall>x\<in>set (ys @ zs). lit_false s1 x) \<and> s' = set_reason l (ys @ l # zs) (s1\<lparr>sv_clauses := cs\<rparr>))))"
proof (cases "timeout \<or> \<not> op_propLits op \<or> \<not> sv_change s")
  case True
  then show ?thesis using p by (simp add: cb_propagate_def)
next
  case False
  then obtain b s1 where s1: "propagate op n val rnd s = Inr (b, s1)" using p by (auto simp: cb_propagate_def bindE_eq_Inr)
  note p' = p[unfolded cb_propagate_def if_not_P[OF False] s1 bindE_simps prod.case Let_def]
  show ?thesis
  proof (cases "sv_clauses s1 = []")
    case True
    then show ?thesis using p' s1 by simp
  next
    case ne: False
    then obtain cs c where c: "sv_clauses s1 = cs @ [c]" by (metis append_butlast_last_id)
    have "c \<noteq> []" using p' c by auto
    then obtain u where u: "scan_unit s1 c (0, 0) = Inr u" using p' c by (auto simp: bindE_eq_Inr)
    show ?thesis
    proof (cases u)
      case None
      then show ?thesis using p' c u s1 \<open>c \<noteq> []\<close> by simp
    next
      case (Some kl)
      obtain k l' where kl: "kl = (k, l')" by (cases kl)
      show ?thesis
      proof (cases "k = 1")
        case False
        then show ?thesis using p' c u s1 Some kl \<open>c \<noteq> []\<close> by simp
      next
        case True
        note C = scan_unit_count[OF l2e[rule_format, OF s1] u[unfolded Some kl]]
        have one: "length (filter (lit_open s1) c) = 1" using C True by simp
        then have l': "l' = last (filter (lit_open s1) c)" using C by auto
        from filter_one_split[OF one] obtain ys zs where y: "c = ys @ l' # zs" "lit_open s1 l'" "\<forall>x\<in>set (ys @ zs). \<not> lit_open s1 x"
          unfolding l' by blast
        have f: "\<forall>x\<in>set (ys @ zs). lit_false s1 x" using C y by auto
        have "l = l' \<and> s' = set_reason l' c (s1\<lparr>sv_clauses := cs\<rparr>)"
          using p' c u Some kl True \<open>c \<noteq> []\<close> by (auto simp: set_reason_def split: if_splits)
        then show ?thesis using s1 c y f by blast
      qed
    qed
  qed
qed

section \<open>The invariant holds in every run\<close>

lemma has_clause_inv:
  assumes R: "run_ok (op_fl op) n q L" and I: "run_inv op n q L G Ns s" and nc: "no_conflict G s"
    and h: "cb_has_external_clause op n val rnd s = Inr (b, s')"
  shows "\<exists>Ms. run_inv op n q L G Ms s' \<and> (b \<longleftrightarrow> sv_clauses s' \<noteq> [])"
proof (cases "sv_clauses s = [] \<and> sv_change s \<and> \<not> op_propLits op")
  case True
  let ?s = "s\<lparr>sv_change := False\<rparr>"
  have same: "same_table s ?s" "same_rest s ?s" by (simp_all add: same_table_def same_rest_def same_out_def)
  have I': "run_inv op n q L G Ns ?s"
    by (rule quiet_step[OF I same(2) same_table_state[OF same(1) state_okD(1)[OF run_invD(1)[OF I]]]])
  obtain b' where p: "propagate op n val rnd ?s = Inr (b', s')" "b \<longleftrightarrow> sv_clauses s' \<noteq> []"
    using h True by (auto simp: cb_has_external_clause_def bindE_eq_Inr)
  have "no_conflict G ?s" "sv_clauses ?s = []" using nc same_conflict[OF same(1)] True by simp_all
  from propagate_inv[OF R I' this p(1)] p(2) show ?thesis by blast
next
  case False
  then have "s' = s" "b \<longleftrightarrow> sv_clauses s \<noteq> []" using h by (auto simp: cb_has_external_clause_def)
  then show ?thesis using I by blast
qed

lemma model_inv:
  assumes R: "run_ok (op_fl op) n q L" and I: "run_inv op n q L G Ns s" and nc: "no_conflict G s"
    and f: "table_full n (sv_cyc s)" and h: "cb_check_found_model op n val s = Inr (b, s')"
  shows "\<exists>Ms. run_inv op n q L G Ms s'"
proof (cases "sv_clauses s = []")
  case False
  then show ?thesis using h I by (auto simp: cb_check_found_model_def)
next
  case True
  then have "check op n val s = Inr (b, s')" using h by (simp add: cb_check_found_model_def)
  note O = check_outcome[OF R run_invD(1)[OF I] f this]
  show ?thesis
  proof (cases b)
    case res: True
    then show ?thesis using new_printed[OF R I _ f _ _ _ nc True, of s'] O True by auto
  next
    case False
    then obtain out where "has_outcome op n q s s' out" "rest_same s s'" "state_ok (op_fl op) n q L s'"
      using O by (simp del: has_outcome.simps) blast
    then show ?thesis using outcome_inv[OF R I _ _ _ nc True] by blast
  qed
qed

lemma popped_inv:
  assumes I: "run_inv op n q L G Ns s" and b: "blocked_by op n L G Ns" and c: "sv_clauses s = cs @ [c]"
  shows "run_inv op n q L G Ns (s\<lparr>sv_clauses := cs\<rparr>)" "justified (op_fl op) n (diag_fun n q) L (excluded op Ns) c"
proof -
  have "state_ok (op_fl op) n q L (s\<lparr>sv_clauses := cs\<rparr>)"
    using state_ok_same[OF run_invD(1)[OF I], of "s\<lparr>sv_clauses := cs\<rparr>"] by (simp add: rest_same_def same_table_def)
  moreover have "blocked_ok op n L G Ns (s\<lparr>sv_clauses := cs\<rparr>)"
    using run_invD(5)[OF I] b by (simp add: blocked_ok_def blocked_by_def) blast
  ultimately show "run_inv op n q L G Ns (s\<lparr>sv_clauses := cs\<rparr>)"
    using I c by (simp add: run_inv_def shown_def clauses_ok_def)
  show "justified (op_fl op) n (diag_fun n q) L (excluded op Ns) c" using run_invD(4)[OF I] c by (simp add: clauses_ok_def)
qed

lemma propagated_inv:
  assumes R: "run_ok (op_fl op) n q L" and I: "run_inv op n q L G Ns s" and nc: "no_conflict G s" "sv_clauses s = []"
    and h: "cb_propagate op n val rnd timeout s = Inr (l, s')"
  shows "\<exists>Ms. run_inv op n q L G Ms s'"
proof -
  note T = state_okD(1)[OF run_invD(1)[OF I]]
  have l2e: "\<forall>b s1. propagate op n val rnd s = Inr (b, s1) \<longrightarrow> sv_l2e s1 = lit2entry (op_fl op) n (diag_fun n q)"
    using propagate_inv[OF R I nc] table_stateD(1)[OF T] by (fastforce simp: same_table_def)
  from cb_propagate_cases[OF l2e h] consider "s' = s" | b s1 where "propagate op n val rnd s = Inr (b, s1)" "s' = s1"
    | b s1 cs ys zs where "propagate op n val rnd s = Inr (b, s1)" "sv_clauses s1 = cs @ [ys @ l # zs]" "lit_open s1 l"
      "s' = set_reason l (ys @ l # zs) (s1\<lparr>sv_clauses := cs\<rparr>)" by blast
  then show ?thesis
  proof cases
    case 1
    then show ?thesis using I by blast
  next
    case 2
    then show ?thesis using propagate_inv[OF R I nc] by blast
  next
    case 3
    obtain Ms where M: "run_inv op n q L G Ms s1" "same_table s s1"
      "blocked_by op n L G Ms \<or> sv_clauses s1 = [exclude_clause (op_fl op) n (sv_cyc s) L] \<and> table_full n (sv_cyc s)"
      using propagate_inv[OF R I nc 3(1)] by blast
    have "blocked_by op n L G Ms"
    proof (rule ccontr)
      assume "\<not> ?thesis"
      then have x: "ys @ l # zs = exclude_clause (op_fl op) n (sv_cyc s) L" "table_full n (sv_cyc s)" using M(3) 3(2) by auto
      have c: "sv_cyc s1 = sv_cyc s" using M(2) by (simp add: same_table_def)
      have "l \<in> negated_lits (op_fl op) n L (mat_fun (sv_cyc s))"
        using exclude_clause_set[OF table_stateD(7)[OF T] x(2), of L] x(1) by (metis in_set_conv_decomp)
      then show False
        using exclude_lit_entry(2)[OF R state_okD(1)[OF run_invD(1)[OF M(1)]], of l] 3(3) x(2) c by (auto simp: lit_open_def)
    qed
    note P = popped_inv[OF M(1) this 3(2)]
    show ?thesis unfolding 3(4) using set_reason_inv[OF P(1)] P(2) by blast
  qed
qed

lemma step_inv:
  assumes R: "run_ok (op_fl op) n q L" and I: "run_inv op n q L G Ns s" and st: "sat_step op n (diag_fun n q) val G s g s'"
  shows "\<exists>Ms. run_inv op n q L (G @ g) Ms s'"
proof -
  note T = state_okD(1)[OF run_invD(1)[OF I]]
  from st show ?thesis
  proof cases
    case (assigned lit fixed)
    then have "table_state (op_fl op) n (diag_fun n q) s'" using notify_table_state[OF T assigned(2)] by auto
    then show ?thesis using quiet_step[OF I notify_same[OF assigned(3)]] assigned(1) by auto
  next
    case decided
    have "same_rest s s'" using decided(2) by (simp add: same_rest_def same_out_def notify_new_decision_level_def)
    then show ?thesis using quiet_step[OF I _ level_table_state[OF T]] decided by auto
  next
    case (backtracked level)
    then have "table_state (op_fl op) n (diag_fun n q) s'" using backtrack_table_state[OF T, of level] by auto
    then show ?thesis using quiet_step[OF I backtrack_same[OF backtracked(2)]] backtracked(1) by auto
  next
    case (clause rnd s1 c)
    obtain Ms where M: "run_inv op n q L G Ms s1" "sv_clauses s1 \<noteq> []" using has_clause_inv[OF R I clause(2,3)] by blast
    then obtain cs d where d: "sv_clauses s1 = cs @ [d]" by (metis append_butlast_last_id)
    have "justified (op_fl op) n (diag_fun n q) L (excluded op Ms) d" using run_invD(4)[OF M(1)] d by (simp add: clauses_ok_def)
    then have "0 \<notin> set d" by (simp add: justified_def)
    then have "c = rev d \<and> s' = s1\<lparr>sv_clauses := cs\<rparr>" using pending.take_all[of s1] clause(4) d by simp
    then show ?thesis using deliver_inv[OF M(1) d] clause(1) by blast
  next
    case (no_clause rnd)
    then show ?thesis using has_clause_inv[OF R I no_clause(2,3)] by auto
  next
    case (model b)
    then show ?thesis using model_inv[OF R I model(2-4)] by auto
  next
    case (propagated rnd timeout l)
    then show ?thesis using propagated_inv[OF R I propagated(2-4)] by auto
  next
    case (reason p c)
    have j: "justified (op_fl op) n (diag_fun n q) L (excluded op Ns) (reason_of p s)"
      using run_invD(4)[OF I] reason_in[OF reason(2)] reason(3) by (auto simp: clauses_ok_def)
    then have "0 \<notin> set (reason_of p s)" by (simp add: justified_def)
    then have "c = rev (reason_of p s)" "s' = set_reason p [] s" using reason.take_all[OF reason(2)] reason(4) by simp_all
    then show ?thesis using reason_inv[OF set_reason_inv[OF I] j] reason(1) by blast
  qed
qed

lemma sat_run_inv:
  assumes "run_ok (op_fl op) n q L" "run_inv op n q L [] [] s0" "sat_run op n (diag_fun n q) val s0 G s"
  shows "\<exists>Ns. run_inv op n q L G Ns s"
  using assms(3)
proof induction
  case start
  then show ?case using assms(2) by blast
next
  case (more G s g s')
  then show ?case using step_inv[OF assms(1)] by blast
qed

end
