(* ===== verification/Propagator_Start.thy ===== *)
theory Propagator_Start
  imports Propagator_Run Encoding
begin

text \<open>
  The constructor of the propagator, and the theorems about all runs from it: every clause is
  justified, every printed table canonical, and when the solver has refuted the formula with the
  clauses it received, every canonical cycle set has been printed.
\<close>

section \<open>The constructor\<close>

definition fixed_rows :: "nat \<Rightarrow> (nat \<Rightarrow> nat) \<Rightarrow> nat \<Rightarrow> cyc \<Rightarrow> bool" where
  "fixed_rows n d m C \<longleftrightarrow> cyc_dims n C \<and>
     (\<forall>r<n. \<forall>c<n. mat_at C r c = (if r = c \<and> r < m then int (d r) else -1)) \<and>
     (\<forall>r<n. \<forall>c<n. \<forall>k<n. asg_at C r c k = True_t \<longleftrightarrow> r = c \<and> r < m \<and> k = d r) \<and>
     (\<forall>r<n. \<forall>c<n. vals_at C r c = (if m \<le> r then {..<n} else if r = c then {d r} else {..<n} - {d r}))"

text \<open>One row of \<open>fixDiag\<close>.\<close>

definition diag_step :: "nat \<Rightarrow> (nat \<Rightarrow> nat) \<Rightarrow> nat \<Rightarrow> cyc \<Rightarrow> cyc" where
  "diag_step i d k C = (let C1 = C\<lparr>cy_asg := upd3 (cy_asg C) i i k (if k \<noteq> d i then False_t else True_t)\<rparr>
     in if k \<noteq> i then dom_upd i k (\<lambda>b. bd_reset1 b (d i)) C1 else dom_upd i k (\<lambda>b. bd_set1 (bd_reset_all b) (d i)) C1)"

definition diag_row :: "nat \<Rightarrow> (nat \<Rightarrow> nat) \<Rightarrow> nat \<Rightarrow> cyc \<Rightarrow> cyc" where
  "diag_row n d i C = (let C1 = fold (diag_step i d) [0..<n] C in C1\<lparr>cy_matrix := upd2 (cy_matrix C1) i i (int (d i))\<rparr>)"

lemma diag_row_fixed:
  assumes C: "fixed_rows n d i C" and i: "i < n" and d: "d i < n"
  shows "fixed_rows n d (Suc i) (diag_row n d i C)"
proof -
  let ?P = "\<lambda>m D. cyc_dims n D \<and> cy_matrix D = cy_matrix C \<and>
    (\<forall>r<n. \<forall>c<n. \<forall>k<n. asg_at D r c k = True_t \<longleftrightarrow> r = c \<and> (r < i \<or> r = i \<and> k < m) \<and> k = d r) \<and>
    (\<forall>r<n. \<forall>c<n. vals_at D r c = (if r = i \<and> c < m then (if r = c then {d r} else {..<n} - {d r}) else vals_at C r c))"
  have C': "cyc_dims n C" "\<And>r c k. r < n \<Longrightarrow> c < n \<Longrightarrow> k < n \<Longrightarrow> asg_at C r c k = True_t \<longleftrightarrow> r = c \<and> r < i \<and> k = d r"
    using C by (simp_all add: fixed_rows_def)
  have row: "vals_at C i c = {..<n}" if "c < n" for c using C i that by (simp add: fixed_rows_def)
  have "?P n (fold (diag_step i d) [0..<n] C)"
  proof (rule fold_upt_inv[where P = ?P])
    show "?P 0 C" using C' by simp
    fix k D assume k: "k < n" and P: "?P k D"
    let ?D = "D\<lparr>cy_asg := upd3 (cy_asg D) i i k (if k \<noteq> d i then False_t else True_t)\<rparr>"
    have D: "cyc_dims n D" "cyc_dims n ?D" using P set_asg_dims by blast+
    have asg: "asg_at ?D r c z = True_t \<longleftrightarrow> r = c \<and> (r < i \<or> r = i \<and> z < Suc k) \<and> z = d r" if "r < n" "c < n" "z < n" for r c z
      using that P asg_upd[OF D(1) i i k that] by (auto simp: less_Suc_eq)
    let ?f = "if k \<noteq> i then (\<lambda>b. bd_reset1 b (d i)) else (\<lambda>b. bd_set1 (bd_reset_all b) (d i))"
    have step: "diag_step i d k D = dom_upd i k ?f ?D" by (simp add: diag_step_def Let_def)
    note inv = dims_dom[OF D(1) i k]
    have ra: "bd_inv n (bd_reset_all (dom_at D i k))" by (rule bd_reset_all_inv[OF inv])
    have v: "bd_vals (?f (dom_at D i k)) = (if i = k then {d i} else {..<n} - {d i})" "bd_inv n (?f (dom_at D i k))"
    proof -
      have "vals_at D i k = {..<n}" using P i k row by auto
      then show "bd_vals (?f (dom_at D i k)) = (if i = k then {d i} else {..<n} - {d i})"
        using bd_reset1_vals[OF inv d] bd_set1_vals[OF ra d] by (auto simp: bd_reset_all_vals)
      show "bd_inv n (?f (dom_at D i k))" using bd_reset1_inv[OF inv d] bd_set1_inv[OF ra d] by auto
    qed
    have "cyc_dims n (dom_upd i k ?f ?D)" by (rule dom_upd_dims[OF D(2) i k]) (use v(2) in simp)
    moreover have "vals_at (dom_upd i k ?f ?D) r c =
        (if r = i \<and> c < Suc k then (if r = c then {d r} else {..<n} - {d r}) else vals_at C r c)" if "r < n" "c < n" for r c
      using dom_upd_at[OF D(2) i k that, of ?f] v(1) P that by (auto simp: less_Suc_eq)
    ultimately show "?P (Suc k) (diag_step i d k D)" unfolding step using P asg by simp
  qed simp
  note P = this
  let ?C1 = "fold (diag_step i d) [0..<n] C"
  have "cyc_dims n (diag_row n d i C)" unfolding diag_row_def Let_def using P set_mat_dims by blast
  moreover have "mat_at (diag_row n d i C) r c = (if r = c \<and> r < Suc i then int (d r) else -1)" if "r < n" "c < n" for r c
  proof -
    have "mat_at (diag_row n d i C) r c = (if r = i \<and> c = i then int (d i) else mat_at ?C1 r c)"
      unfolding diag_row_def Let_def using mat_upd[of n ?C1 i i r c "int (d i)"] P i that by simp
    moreover have "mat_at ?C1 r c = (if r = c \<and> r < i then int (d r) else -1)" using P C that by (simp add: fixed_rows_def)
    ultimately show ?thesis by (auto simp: less_Suc_eq)
  qed
  moreover have "asg_at (diag_row n d i C) r c k = True_t \<longleftrightarrow> r = c \<and> r < Suc i \<and> k = d r" if "r < n" "c < n" "k < n" for r c k
    using P that by (auto simp: diag_row_def Let_def less_Suc_eq)
  moreover have "vals_at (diag_row n d i C) r c = (if Suc i \<le> r then {..<n} else if r = c then {d r} else {..<n} - {d r})"
    if "r < n" "c < n" for r c
  proof -
    have "vals_at (diag_row n d i C) r c = vals_at ?C1 r c" by (simp add: diag_row_def Let_def)
    also have "\<dots> = (if r = i then (if r = c then {d r} else {..<n} - {d r}) else vals_at C r c)" using P that by simp
    also have "\<dots> = (if Suc i \<le> r then {..<n} else if r = c then {d r} else {..<n} - {d r})"
      using C that unfolding fixed_rows_def by (auto simp: not_less_eq_eq)
    finally show ?thesis .
  qed
  ultimately show ?thesis by (simp add: fixed_rows_def)
qed

lemma fold_fields:
  "fold (\<lambda>k s. s\<lparr>sv_cyc := f k (sv_cyc s), sv_fixed := g k (sv_fixed s)\<rparr>) xs s =
    s\<lparr>sv_cyc := fold f xs (sv_cyc s), sv_fixed := fold g xs (sv_fixed s)\<rparr>"
  by (induction xs arbitrary: s) simp_all

lemma fold_dims: "dims3 n F \<Longrightarrow> dims3 n (fold (\<lambda>k F. upd3 F i j k x) xs F)"
  by (induction xs arbitrary: F) simp_all

lemma fixDiag_eq:
  "fixDiag n d s = s\<lparr>sv_cyc := fold (diag_row n d) [0..<n] (sv_cyc s),
     sv_fixed := fold (\<lambda>i F. fold (\<lambda>k F. upd3 F i i k True) [0..<n] F) [0..<n] (sv_fixed s)\<rparr>"
proof -
  have inner: "fold (\<lambda>k s. s\<lparr>sv_cyc := (let C = (sv_cyc s)\<lparr>cy_asg := upd3 (cy_asg (sv_cyc s)) i i k (if k \<noteq> d i then False_t else True_t)\<rparr>
                      in if k \<noteq> i then dom_upd i k (\<lambda>b. bd_reset1 b (d i)) C
                         else dom_upd i k (\<lambda>b. bd_set1 (bd_reset_all b) (d i)) C),
           sv_fixed := upd3 (sv_fixed s) i i k True\<rparr>) [0..<n] s =
      s\<lparr>sv_cyc := fold (diag_step i d) [0..<n] (sv_cyc s), sv_fixed := fold (\<lambda>k F. upd3 F i i k True) [0..<n] (sv_fixed s)\<rparr>" for i s
    using fold_fields[where f = "diag_step i d" and g = "\<lambda>k F. upd3 F i i k True"] by (simp only: diag_step_def)
  have outer: "fold (\<lambda>i s. s\<lparr>sv_cyc := diag_row n d i (sv_cyc s), sv_fixed := fold (\<lambda>k F. upd3 F i i k True) [0..<n] (sv_fixed s)\<rparr>) [0..<n] s =
      s\<lparr>sv_cyc := fold (diag_row n d) [0..<n] (sv_cyc s),
        sv_fixed := fold (\<lambda>i F. fold (\<lambda>k F. upd3 F i i k True) [0..<n] F) [0..<n] (sv_fixed s)\<rparr>"
    by (rule fold_fields)
  have swap: "x\<lparr>sv_fixed := F, sv_cyc := C\<rparr> = x\<lparr>sv_cyc := C, sv_fixed := F\<rparr>" for x :: solver and F C by simp
  show ?thesis unfolding outer[symmetric] fixDiag_def inner by (simp add: diag_row_def Let_def swap)
qed

lemma fixed_rows_new: "0 < n \<Longrightarrow> fixed_rows n d 0 (cyc_new n L)"
  using cyc_new_dims[of n L] by (simp add: fixed_rows_def cyc_new_def bitdomain_new_vals)

lemma fixed_rows_all:
  assumes "0 < n" "\<forall>i<n. d i < n"
  shows "fixed_rows n d n (fold (diag_row n d) [0..<n] (cyc_new n L))"
  by (rule fold_upt_inv[where P = "\<lambda>m. fixed_rows n d m"]) (use fixed_rows_new[OF assms(1)] diag_row_fixed assms(2) in auto)

lemma diag_table:
  assumes C: "fixed_rows n d n C" and d: "\<forall>i<n. d i < n"
  shows "table_inv fl n d False T C"
  unfolding table_inv_def
proof (intro conjI allI impI)
  show "cyc_dims n C" using C by (simp add: fixed_rows_def)
  fix i j assume ij: "i < n" "j < n"
  have m: "mat_at C i j = (if i = j then int (d i) else -1)" "vals_at C i j = (if i = j then {d i} else {..<n} - {d i})"
    using C ij by (simp_all add: fixed_rows_def)
  show "\<exists>m<n. mat_at C i j = int m \<and> (vals_at C i j = {m} \<or> False \<and> (i, j, m) \<in> set (last T))" if "mat_at C i j \<noteq> -1"
    using that m d ij by (intro exI[of _ "d i"]) (auto split: if_splits)
  show "asg_at C i j k = True_t \<longleftrightarrow> mat_at C i j = int k" if "k < n" for k
    using C ij that m(1) by (auto simp: fixed_rows_def)
next
  fix r assume r: "r < n"
  show "d r < n" "mat_at C r r = int (d r)" "vals_at C r r = {d r}" using C r d by (simp_all add: fixed_rows_def)
  fix c assume c: "c < n" "c \<noteq> r"
  show "d r \<notin> vals_at C r c" "mat_at C r c \<noteq> int (d r)" using C r c by (simp_all add: fixed_rows_def)
qed

lemma empty_table:
  assumes "0 < n" "\<not> fl_diag fl"
  shows "table_inv fl n d False T (cyc_new n L)"
  using fixed_rows_new[OF assms(1), of d L] assms(2) by (simp add: table_inv_def fixed_rows_def)

text \<open>The diagonal of a run: the vector of the diagonal with \<open>diagPart\<close>, an empty vector without.\<close>

definition run_diag :: "flags \<Rightarrow> nat \<Rightarrow> nat list \<Rightarrow> int list" where
  "run_diag fl n q = (if fl_diag fl then diag_ints n q else [])"

lemma new_solver_inv:
  assumes R: "run_ok (op_fl op) n q L" and fr: "op_fixedRow op \<le> 0"
    and new: "new_solver op n beyond True F (run_diag (op_fl op) n q) firstRow L = Inr s"
  shows "run_inv op n q L [] [] s"
proof -
  let ?fl = "op_fl op" and ?t = "diag_fun n q" and ?d = "run_diag (op_fl op) n q"
  let ?dd = "vec_perm ?d"
  note r = run_okD[OF R]
  have n: "0 < n" using r(2) by simp
  have t: "\<forall>i<n. ?t i < n" using diag_ints_vec[OF r(1)] perm_on_less by (auto simp: diag_vec_def perm_vec_def)
  have l2e: "lit2entry ?fl n ?dd = lit2entry ?fl n ?t"
  proof (cases "fl_diag ?fl")
    case False
    then have "l2e_keep ?fl ?dd = l2e_keep ?fl ?t" by (auto simp: fun_eq_iff l2e_keep_def)
    then show ?thesis by (simp only: lit2entry_def)
  qed (simp add: run_diag_def)
  let ?C = "if fl_diag ?fl then fold (diag_row n ?t) [0..<n] (cyc_new n L) else cyc_new n L"
  obtain M where M: "mc_new ?fl n beyond ?d L = Inr M" and s: "sv_nModels s = 0" "sv_out s = []" "sv_cyc s = ?C" "sv_trail s = [[]]"
    "sv_l2e s = lit2entry ?fl n ?t" "sv_clauses s = []" "\<not> sv_checkMode s" "set (sv_pos s) \<union> set (sv_neg s) \<subseteq> {[]}"
    "sv_mc s = M" "sv_lits s = L" "dims3 n (sv_fixed s)"
    "length (sv_pos s) = length (lit2entry ?fl n ?t)" "length (sv_neg s) = length (lit2entry ?fl n ?t)"
  proof -
    have dims: "dims3 n (fold (\<lambda>i F. fold (\<lambda>k F. upd3 F i i k True) [0..<n] F) xs F)" if "dims3 n F" for xs F
      using that by (induction xs arbitrary: F) (simp_all add: fold_dims)
    have tt: "?dd = ?t" if "fl_diag ?fl" using that by (simp add: run_diag_def)
    from new[unfolded new_solver_def Let_def] fr show thesis
      by (intro that[of "sv_mc s"]) (auto simp: bindE_eq_Inr fixDiag_eq l2e tt dims split: if_splits)
  qed
  have "mc_new ?fl n beyond (diag_ints n q) L = Inr M" using M by (auto simp: run_diag_def mc_new_def)
  then have S: "started ?fl n q L M" using constructor_started[OF r(1), of beyond L] by simp
  have "table_inv ?fl n ?t False T (sv_cyc s)" for T
    unfolding s(3) using diag_table[OF fixed_rows_all[OF n t] t] empty_table[OF n] by simp
  then have "table_state ?fl n ?t s" using s by (simp add: table_state_def trail_inv_def)
  then have "state_ok ?fl n q L s" using S s(9,10) by (simp add: state_ok_def)
  moreover have "clauses_ok ?fl n ?t L [] (excluded op []) s" using s(6,8,12,13) by (auto simp: clauses_ok_def)
  ultimately show ?thesis using s(1,2) by (simp add: run_inv_def shown_def output_of_def blocked_ok_def)
qed

section \<open>The formula and its variables\<close>

lemma diag_list_fun: "i < n \<Longrightarrow> diag_fun n q i = diag_list n q ! i"
  by (simp add: vec_perm_def diag_ints_def diag_list_def)

lemma encode_diag_numbered:
  assumes "fl_diag fl" "encode_diag nc (fl_smaller fl) n (diag_list n q) = (L, e)"
  shows "numbered fl n (diag_fun n q) L"
proof -
  have "l2e_keep fl (diag_fun n q) (i, j, k) \<longleftrightarrow> diag_keep (fl_smaller fl) (diag_list n q) i j k" if "i < n" for i j k
    using diag_list_fun[OF that, of q] assms(1) by (auto simp: l2e_keep_def diag_keep_def)
  moreover have "L = fst (alloc_diag (fl_smaller fl) n (diag_list n q) (no_lits n, 1))"
    using assms(2) by (auto simp: encode_diag_def encodeEntries_diag_def split: prod.splits)
  ultimately show ?thesis using alloc_numbered[of n fl "diag_fun n q" "diag_keep (fl_smaller fl) (diag_list n q)"]
    by (simp add: alloc_diag_def no_lits_def)
qed

lemma encode_all_numbered:
  assumes "\<not> fl_diag fl" "encode_all nc n = (L, e)"
  shows "numbered fl n t L"
proof -
  have "L = fst (alloc_all n (no_lits n, 1))" using assms(2) by (auto simp: encode_all_def split: prod.splits)
  then show ?thesis using alloc_numbered[of n fl t "\<lambda>i j k. True"] assms(1)
    by (simp add: alloc_all_def no_lits_def l2e_keep_def)
qed

text \<open>
  The formula of a mode: with a diagonal, or without. \<open>search_mode\<close> are the option settings for which
  partial checks are sound.
\<close>

definition formula_of :: "flags \<Rightarrow> bool \<Rightarrow> nat \<Rightarrow> nat list \<Rightarrow> lits3 \<times> enc" where
  "formula_of fl nc n q = (if fl_diag fl then encode_diag nc (fl_smaller fl) n (diag_list n q) else encode_all nc n)"

definition search_mode :: "flags \<Rightarrow> nat \<Rightarrow> nat list \<Rightarrow> bool" where
  "search_mode fl n q \<longleftrightarrow> mode_ok fl n q \<and> 1 < n \<and> (fl_prop fl \<or> fl_diag fl \<and> fl_bit fl) \<and> (fl_smaller fl \<longrightarrow> n \<noteq> 2)"

lemma formula_run_ok:
  assumes "search_mode fl n q" "formula_of fl nc n q = (L, e)"
  shows "run_ok fl n q L"
  using assms encode_diag_numbered[of fl nc n q L e] encode_all_numbered[of fl nc n L e]
  by (auto simp: search_mode_def run_ok_def formula_of_def split: if_splits)

lemma formula_table:
  assumes m: "search_mode fl n q" and e: "formula_of fl nc n q = (L, e)"
    and N: "cycle_set n N" "has_diag n (diag_of fl (diag_fun n q)) N"
  shows "\<exists>v. cnf_holds v (fst e) \<and> reads n L (diag_fun n q) v N"
proof (cases "fl_diag fl")
  case False
  then show ?thesis using encode_all_models[of nc n L e] e N(1) by (simp add: formula_of_def)
next
  case True
  let ?d = "diag_list n q"
  have e': "encode_diag nc (fl_smaller fl) n ?d = (L, e)" using e True by (simp add: formula_of_def)
  have p: "perm_on n (diag_fun n q)" using diag_ints_vec m by (auto simp: search_mode_def diag_vec_def perm_vec_def)
  then have p': "perm_on n (\<lambda>i. ?d ! i)" using perm_on_cong[of n "diag_fun n q" "\<lambda>i. ?d ! i"] diag_list_fun by blast
  have "has_diag n (Some (\<lambda>i. ?d ! i)) N" using N(2) True diag_list_fun by (simp add: diag_of_def has_diag_def)
  from encode_diag_models[OF e' p' N(1) this] obtain v where v: "cnf_holds v (fst e)" "reads n L (\<lambda>i. ?d ! i) v N" by blast
  have "entry_holds L (diag_fun n q) v i j k = entry_holds L (\<lambda>i. ?d ! i) v i j k" if "i < n" for i j k
    using diag_list_fun[OF that, of q] by (simp add: entry_holds_def)
  then have "reads n L (diag_fun n q) v N" using v(2) by (simp add: reads_def)
  then show ?thesis using v(1) by blast
qed

section \<open>The initial state\<close>

definition init_solver :: "flags \<Rightarrow> nat \<Rightarrow> (nat \<Rightarrow> nat) \<Rightarrow> lits3 \<Rightarrow> mincheck \<Rightarrow> int list \<Rightarrow> solver" where
  "init_solver fl n t L M a = \<lparr>sv_nModels = 0, sv_out = [], sv_warn = 0, sv_sbc = [], sv_sols = [], sv_stats = stats0,
     sv_cyc = (if fl_diag fl then fold (diag_row n t) [0..<n] (cyc_new n L) else cyc_new n L),
     sv_fixed = (if fl_diag fl then fold (\<lambda>i F. fold (\<lambda>k F. upd3 F i i k True) [0..<n] F) [0..<n] (const3 n False) else const3 n False),
     sv_trail = [[]], sv_l2e = lit2entry fl n t, sv_clauses = [], sv_change = True, sv_checkMode = False,
     sv_pos = replicate (length (lit2entry fl n t)) [], sv_neg = replicate (length (lit2entry fl n t)) [],
     sv_mc = M, sv_lits = L, sv_added = a\<rparr>"

lemma new_solver_init:
  assumes "\<not> list_ex (\<lambda>c. c = [] \<or> 0 \<in> set c) F" "op_fixedRow op \<le> 0" "mc_new (op_fl op) n beyond d L = Inr M"
  shows "new_solver op n beyond True F d firstRow L = Inr (init_solver (op_fl op) n (vec_perm d) L M (concat (map (\<lambda>c. c @ [0]) F)))"
  using assms by (simp add: new_solver_def Let_def fixDiag_eq init_solver_def)

lemma formula_clean:
  assumes m: "search_mode fl n q" and e: "formula_of fl nc n q = (L, e)"
    and N: "cycle_set n N" "has_diag n (diag_of fl (diag_fun n q)) N"
  shows "\<not> list_ex (\<lambda>c. c = [] \<or> 0 \<in> set c) (fst e)"
proof -
  obtain v where v: "cnf_holds v (fst e)" using formula_table[OF assms] by blast
  have "c \<noteq> []" if "c \<in> set (fst e)" for c using v that by (auto simp: cnf_holds_def clause_holds_def)
  moreover have "0 \<notin> set c" if c: "c \<in> set (fst e)" for c
  proof -
    have "\<not> has_zero (fst e)"
    proof (cases "fl_diag fl")
      case False
      then obtain nf where "encodes (\<lambda>v. \<exists>N. reads n L (diag_fun n q) v N \<and> cycle_set n N) ([], nf) e"
        using encode_all_encodes[of nc n L e] e by (auto simp: formula_of_def)
      from encodes_prepare[OF this] show ?thesis by (auto simp: prepare_def split: if_splits)
    next
      case True
      have p: "perm_on n (diag_fun n q)" using diag_ints_vec m by (auto simp: search_mode_def diag_vec_def perm_vec_def)
      then have "perm_on n (\<lambda>i. diag_list n q ! i)"
        using perm_on_cong[of n "diag_fun n q" "\<lambda>i. diag_list n q ! i"] diag_list_fun by blast
      then obtain nf where "encodes (\<lambda>v. \<exists>N. reads n L (\<lambda>i. diag_list n q ! i) v N \<and> cycle_set n N \<and>
          has_diag n (Some (\<lambda>i. diag_list n q ! i)) N) ([], nf) e"
        using encode_diag_encodes[of nc "fl_smaller fl" n "diag_list n q" L e] e True by (auto simp: formula_of_def)
      from encodes_prepare[OF this] show ?thesis by (auto simp: prepare_def split: if_splits)
    qed
    then show ?thesis using c by (auto simp: has_zero_def list_ex_iff)
  qed
  ultimately show ?thesis by (auto simp: list_ex_iff)
qed

section \<open>Runs of the program\<close>

text \<open>A state reached from the constructor with the formula of the mode, without \<open>--fixFR\<close>.\<close>

definition reaches ::
  "opts \<Rightarrow> bool \<Rightarrow> nat \<Rightarrow> nat list \<Rightarrow> nat \<times> nat \<Rightarrow> (int \<Rightarrow> int) \<Rightarrow> clause list \<Rightarrow> solver \<Rightarrow> bool" where
  "reaches op nc n q beyond val G s \<longleftrightarrow> (\<exists>L e s0. formula_of (op_fl op) nc n q = (L, e) \<and>
     new_solver op n beyond True (fst e) (run_diag (op_fl op) n q) [] L = Inr s0 \<and> sat_run op n (diag_fun n q) val s0 G s)"

lemma reaches_inv:
  assumes m: "search_mode (op_fl op) n q" "op_fixedRow op \<le> 0" and r: "reaches op nc n q beyond val G s"
  obtains L e Ns where "formula_of (op_fl op) nc n q = (L, e)" "run_ok (op_fl op) n q L" "run_inv op n q L G Ns s" "sv_lits s = L"
proof -
  obtain L e s0 where e: "formula_of (op_fl op) nc n q = (L, e)"
    "new_solver op n beyond True (fst e) (run_diag (op_fl op) n q) [] L = Inr s0" "sat_run op n (diag_fun n q) val s0 G s"
    using r by (auto simp: reaches_def)
  have R: "run_ok (op_fl op) n q L" by (rule formula_run_ok[OF m(1) e(1)])
  obtain Ns where I: "run_inv op n q L G Ns s" using sat_run_inv[OF R new_solver_inv[OF R m(2) e(2)] e(3)] by blast
  show thesis by (rule that[OF e(1) R I]) (use run_invD(1)[OF I] in \<open>simp add: state_ok_def\<close>)
qed

text \<open>
  Nothing is left: the formula together with the clauses the solver received and the ones it can
  still ask for has no model.
\<close>

definition refuted :: "cnf \<Rightarrow> clause list \<Rightarrow> solver \<Rightarrow> bool" where
  "refuted F G s \<longleftrightarrow> (\<forall>v. cnf_holds v F \<longrightarrow> \<not> cnf_holds v (G @ sv_clauses s @ filter (\<lambda>c. c \<noteq> []) (sv_pos s @ sv_neg s)))"

lemma enumeration:
  assumes "search_mode (op_fl op) n q" "op_fixedRow op \<le> 0" "reaches op nc n q beyond val G s"
    and unsat: "refuted (fst (snd (formula_of (op_fl op) nc n q))) G s"
  shows "\<exists>Ns. sv_out s = output_of n Ns \<and> sv_nModels s = length Ns \<and>
    (\<forall>N. cycle_set n N \<and> has_diag n (diag_of (op_fl op) (diag_fun n q)) N \<and> lexmin n (diag_of (op_fl op) (diag_fun n q)) N \<longrightarrow>
      (\<exists>M\<in>set (excluded op Ns). \<not> differ n M N)) \<and>
    (\<forall>N\<in>set Ns. (\<forall>i<n. \<forall>j<n. N i j < n) \<and> has_diag n (diag_of (op_fl op) (diag_fun n q)) N) \<and>
    (\<forall>N\<in>set Ns. row_perms n N \<longrightarrow> lexmin n (diag_of (op_fl op) (diag_fun n q)) N) \<and>
    (op_allModels op \<longrightarrow> sorted_wrt (differ n) Ns)"
proof -
  let ?fl = "op_fl op" and ?t = "diag_fun n q"
  from assms(1-3) obtain L e Ns where e: "formula_of ?fl nc n q = (L, e)" and I: "run_inv op n q L G Ns s"
    by (rule reaches_inv)
  have "\<exists>M\<in>set (excluded op Ns). \<not> differ n M N"
    if N: "cycle_set n N" "has_diag n (diag_of ?fl ?t) N" "lexmin n (diag_of ?fl ?t) N" for N
  proof -
    obtain v where v: "cnf_holds v (fst e)" "reads n L ?t v N" using formula_table[OF assms(1) e N(1,2)] by blast
    have t: "table_ok ?fl n ?t N" using N(1,2) by (simp add: table_ok_def cycle_set_def)
    obtain c where c: "c \<in> set (G @ sv_clauses s @ filter (\<lambda>c. c \<noteq> []) (sv_pos s @ sv_neg s))" "\<not> clause_holds v c"
      using unsat v(1) e by (auto simp: refuted_def cnf_holds_def)
    have "justified ?fl n ?t L (excluded op Ns) c" using run_invD(4)[OF I] c(1) by (auto simp: clauses_ok_def)
    moreover have "\<not> clause_sound ?fl n ?t L c" using c(2) v(2) t N(3) by (auto simp: clause_sound_def)
    ultimately obtain M where M: "M \<in> set (excluded op Ns)" "excludes_only ?fl n ?t L M c" by (auto simp: justified_def)
    then have "\<not> differ n N M" using c(2) v(2) t by (auto simp: excludes_only_def differ_def)
    then show ?thesis using M(1) by (auto simp: differ_def)
  qed
  moreover have "\<forall>N\<in>set Ns. row_perms n N \<longrightarrow> lexmin n (diag_of ?fl ?t) N"
    using run_invD(3)[OF I] by (auto simp: solution_ok_def table_ok_def)
  moreover have "\<forall>N\<in>set Ns. (\<forall>i<n. \<forall>j<n. N i j < n) \<and> has_diag n (diag_of ?fl ?t) N"
    using run_invD(3)[OF I] by (simp add: solution_ok_def)
  ultimately show ?thesis using run_invD(2,5)[OF I] by (intro exI[of _ Ns]) (simp add: shown_def blocked_ok_def)
qed


section \<open>The verdict on a model\<close>

lemma addClause_plain: "\<exists>s'. addClause op c False s = Inr s'"
  by (simp add: addClause_def Let_def)

lemma checkMin_total:
  assumes R: "run_ok (op_fl op) n q L" and S: "state_ok (op_fl op) n q L s"
    and f: "table_full n (sv_cyc s)" "table_ok (op_fl op) n (diag_fun n q) (mat_fun (sv_cyc s))"
  shows "\<not> isl (checkMin op n val final s)"
proof -
  let ?fl = "op_fl op"
  note T = state_okD(1)[OF S] and r = run_okD[OF R]
  have C: "getCycleSet ?fl n val s = sv_cyc s" using table_stateD(3)[OF T] by (simp add: getCycleSet_def)
  obtain v M' where v: "verdict_of ?fl n True s = (v, M')" by fastforce
  have fin: "(table_full n (sv_cyc s) \<or> final) = True" using f(1) by simp
  note D = checkMin_def[of op n val final s, unfolded Let_def C fin v prod.case]
  consider "v = Inr ()" | c where "v = Inl (SymBreak c)" "clause_sound ?fl n (diag_fun n q) L c"
    using verdict(3)[OF R S f] verdict(2)[OF R S, of True] v by (auto simp: exact_res_def)
  then show ?thesis
  proof cases
    case 1
    obtain s3 where "addClause op (exclude_clause ?fl n (sv_cyc s) (sv_lits (s\<lparr>sv_mc := M'\<rparr>))) False
        (print_solution (sv_cyc s) (s\<lparr>sv_mc := M'\<rparr>)) = Inr s3" using addClause_plain by blast
    then show ?thesis unfolding D 1 by simp
  next
    case (2 c)
    let ?s = "s\<lparr>sv_mc := M', sv_stats := (sv_stats (s\<lparr>sv_mc := M'\<rparr>))\<lparr>st_nSymBreakClauses := st_nSymBreakClauses (sv_stats (s\<lparr>sv_mc := M'\<rparr>)) + 1\<rparr>\<rparr>"
    have "\<forall>l\<in>set c. is_var ?fl n (diag_fun n q) (var_of l)"
      using 2(2) r(4) table_lit_var(1)[OF r(5,6)] by (auto simp: clause_sound_def)
    then obtain s2 where "addClause op c True ?s = Inr s2"
      using addClause_ok[of ?s ?fl n "diag_fun n q" c op True] table_stateD(1,3)[OF T] by auto
    then show ?thesis unfolding D 2(1) by simp
  qed
qed


section \<open>Backtracking restores the table\<close>

lemma undo_entry_asg:
  assumes I: "table_inv fl n t True (T @ [(i, j, k) # R]) C" and Tr: "trail_inv fl n t F (T @ [(i, j, k) # R]) C"
    and x: "x < n" "y < n" "z < n"
  shows "asg_at (undo_entry n (i, j, k) C) x y z = (if (x, y, z) = (i, j, k) then Unknown_t else asg_at C x y z)"
proof -
  have e: "i < n" "j < n" "k < n" "asg_at C i j k \<noteq> Unknown_t"
    using trail_invD(3)[OF Tr, of "length T" i j k] by simp_all
  have mats: "\<forall>y<n. mat_at C i y \<noteq> -1 \<longrightarrow> 0 \<le> mat_at C i y \<and> mat_at C i y < int n"
    using table_invD(2)[OF I e(1)] by fastforce
  show ?thesis
  proof (cases "asg_at C i j k")
    case True_t
    from changedD(3)[OF undo_true_entry[OF table_invD(1)[OF I] e(1-3) this mats] x] show ?thesis by simp
  next
    case False_t
    from changedD(3)[OF undo_false_entry[OF table_invD(1)[OF I] e(1-3) this] x] show ?thesis by simp
  qed (use e(4) in simp)
qed

lemma undo_level_asg:
  assumes "table_inv fl n t True (T @ [R]) C" "trail_inv fl n t F (T @ [R]) C" "x < n" "y < n" "z < n"
  shows "asg_at (fold (undo_entry n) R C) x y z = (if (x, y, z) \<in> set R then Unknown_t else asg_at C x y z)"
  using assms(1,2)
proof (induction R arbitrary: C)
  case (Cons e R)
  obtain i j k where e: "e = (i, j, k)" by (cases e) auto
  note I = undo_entry_inv[OF Cons.prems[unfolded e]]
  show ?case using Cons.IH[OF I] undo_entry_asg[OF Cons.prems[unfolded e] assms(3-5)] by (auto simp: e)
qed simp

text \<open>The notifications of one decision level.\<close>

fun notify_all :: "flags \<Rightarrow> nat \<Rightarrow> (nat \<Rightarrow> nat) \<Rightarrow> int list \<Rightarrow> solver \<Rightarrow> solver res" where
  "notify_all fl n t [] s = Inr s"
| "notify_all fl n t (l # ls) s = (if may_notify fl n t l False s then bindE (notify_assignment n l False s) (notify_all fl n t ls) else Inl UB)"

lemma notify_asg:
  assumes S: "table_state fl n t s" and g: "may_notify fl n t lit False s" and r: "notify_assignment n lit False s = Inr s'"
  shows "x < n \<Longrightarrow> y < n \<Longrightarrow> z < n \<Longrightarrow> asg_at (sv_cyc s') x y z = asg_at (sv_cyc s) x y z \<or>
      (x, y, z) = entry_at fl n t (var_of lit) \<and> asg_at (sv_cyc s) x y z = Unknown_t"
    "sv_trail s' = butlast (sv_trail s) @ [last (sv_trail s) @ [var_of lit]]"
proof -
  obtain i j k where e: "entry_at fl n t (var_of lit) = (i, j, k)" by (cases "entry_at fl n t (var_of lit)") auto
  have v: "is_var fl n t (var_of lit)" using g by (simp add: may_notify_def)
  note R = entry_at_range[OF v e]
  have unk: "asg_at (sv_cyc s) i j k = Unknown_t" using g by (simp add: may_notify_def e)
  have "entry_of s (var_of lit) = Inr (i, j, k)" using entry_of_var(1)[OF table_stateD(1)[OF S] v] e by simp
  then have s': "sv_cyc s' = (if 0 < lit then assign_true n (i, j, k) (sv_cyc s) else assign_false (i, j, k) (sv_cyc s))"
    "sv_trail s' = butlast (sv_trail s) @ [last (sv_trail s) @ [var_of lit]]"
    using r table_stateD(5)[OF S] by (auto simp: notify_assignment_def push_trail_def)
  show "sv_trail s' = butlast (sv_trail s) @ [last (sv_trail s) @ [var_of lit]]" by (rule s'(2))
  note C = table_invD(1)[OF table_stateD(7)[OF S]]
  assume x: "x < n" "y < n" "z < n"
  show "asg_at (sv_cyc s') x y z = asg_at (sv_cyc s) x y z \<or>
      (x, y, z) = entry_at fl n t (var_of lit) \<and> asg_at (sv_cyc s) x y z = Unknown_t"
    using changedD(3)[OF assign_true_changed[OF C R(1-3)] x] changedD(3)[OF assign_false_changed[OF C R(1-3)] x] unk s'(1) e by auto
qed

lemma notify_all_level:
  assumes "table_state fl n t s" "notify_all fl n t ls s = Inr s'"
  shows "table_state fl n t s' \<and> sv_trail s' = butlast (sv_trail s) @ [last (sv_trail s) @ map var_of ls] \<and>
    (\<forall>x<n. \<forall>y<n. \<forall>z<n. if (x, y, z) \<in> entry_at fl n t ` var_of ` set ls then asg_at (sv_cyc s) x y z = Unknown_t
      else asg_at (sv_cyc s') x y z = asg_at (sv_cyc s) x y z)"
  using assms
proof (induction ls arbitrary: s)
  case Nil
  then show ?case using table_stateD(5)[OF Nil(1)] by simp
next
  case (Cons l ls)
  obtain u where u: "may_notify fl n t l False s" "notify_assignment n l False s = Inr u" "notify_all fl n t ls u = Inr s'"
    using Cons.prems(2) by (auto simp: bindE_eq_Inr split: if_splits)
  have tu: "table_state fl n t u" using notify_table_state[OF Cons.prems(1) u(1)] u(2) by auto
  note IH = Cons.IH[OF tu u(3)]
  have "if (x, y, z) \<in> entry_at fl n t ` var_of ` set (l # ls) then asg_at (sv_cyc s) x y z = Unknown_t
      else asg_at (sv_cyc s') x y z = asg_at (sv_cyc s) x y z"
    if x: "x < n" "y < n" "z < n" for x y z
  proof -
    have "if (x, y, z) \<in> entry_at fl n t ` var_of ` set ls then asg_at (sv_cyc u) x y z = Unknown_t
      else asg_at (sv_cyc s') x y z = asg_at (sv_cyc u) x y z" using IH x by blast
    moreover have "asg_at (sv_cyc s) x y z = Unknown_t" if "(x, y, z) = entry_at fl n t (var_of l)"
      using u(1) that by (auto simp: may_notify_def split: prod.splits)
    ultimately show ?thesis using notify_asg(1)[OF Cons.prems(1) u(1,2) x] by (auto split: if_splits)
  qed
  then show ?case using IH notify_asg(2)[OF Cons.prems(1) u(1,2)] by simp
qed

lemma mat_of_asg:
  assumes I: "table_inv fl n t False T C" and J: "table_inv fl n t False T' D"
    and eq: "\<And>k. k < n \<Longrightarrow> asg_at C i j k = asg_at D i j k" and ij: "i < n" "j < n"
  shows "mat_at C i j = mat_at D i j"
proof -
  have *: "mat_at C i j = int k \<longleftrightarrow> mat_at D i j = int k" if "k < n" for k
    using table_invD(3)[OF I ij that] table_invD(3)[OF J ij that] eq[OF that] by simp
  consider "mat_at C i j = -1" "mat_at D i j = -1" | k where "k < n" "mat_at C i j = int k" | k where "k < n" "mat_at D i j = int k"
    using table_invD(2)[OF I ij] table_invD(2)[OF J ij] by blast
  then show ?thesis using * by cases (metis+)
qed


end
