(* ===== verification/Propagator_Correct.thy ===== *)
theory Propagator_Correct
  imports Propagator_Start
begin

text \<open>
  Properties of the single callbacks in every reachable state: the table they keep, what the
  notifications, the streams of literals and the propagated literals guarantee.
\<close>



text \<open>
  C20: clauses and reasons are streamed completely: asking for literals of a pending clause gives all its
  literals, the last first, then 0, and the clause is no longer pending; likewise for a reason.
\<close>

theorem streams_end:
  assumes "search_mode (op_fl op) n q" "op_fixedRow op \<le> 0" "reaches op nc n q beyond val G s"
  shows "(\<forall>cs c. sv_clauses s = cs @ [c] \<longrightarrow>
      take_lits cb_add_external_clause_lit (Suc (length c)) s = Inr (rev c, s\<lparr>sv_clauses := cs\<rparr>)) \<and>
    (\<forall>p. has_reason p s \<longrightarrow>
      take_lits (cb_add_reason_clause_lit p) (Suc (length (reason_of p s))) s = Inr (rev (reason_of p s), set_reason p [] s))"
proof -
  from assms obtain L e Ns where I: "run_inv op n q L G Ns s" by (rule reaches_inv)
  note K = run_invD(4)[OF I]
  have "take_lits cb_add_external_clause_lit (Suc (length c)) s = Inr (rev c, s\<lparr>sv_clauses := cs\<rparr>)"
    if "sv_clauses s = cs @ [c]" for cs c
  proof -
    have "0 \<notin> set c" using K that by (auto simp: clauses_ok_def justified_def)
    then show ?thesis using pending.take_all[of s] that by simp
  qed
  moreover have "0 \<notin> set (reason_of p s)" if "has_reason p s" for p
  proof -
    have "reason_of p s = [] \<or> justified (op_fl op) n (diag_fun n q) L (excluded op Ns) (reason_of p s)"
      using K reason_in[OF that] unfolding clauses_ok_def by blast
    then show ?thesis by (auto simp: justified_def)
  qed
  ultimately show ?thesis using reason.take_all by blast
qed


text \<open>
  C22: \<open>lit2entry\<close> inverts the numbering of the table variables: every variable of the table is listed with the entry whose
  literal it is, and every entry that has a literal is found under it.
\<close>

theorem lit2entry_roundtrip:
  assumes "mode_ok fl n q" "formula_of fl nc n q = (L, e)"
  shows "(\<forall>x. 0 < x \<and> x < length (lit2entry fl n (diag_fun n q)) \<longrightarrow>
      (\<exists>i<n. \<exists>j<n. \<exists>k<n. lit2entry fl n (diag_fun n q) ! x = Some (i, j, k) \<and> L ! i ! j ! k = int x)) \<and>
    (\<forall>i<n. \<forall>j<n. \<forall>k<n. L ! i ! j ! k \<noteq> 0 \<longrightarrow> lit2entry fl n (diag_fun n q) ! nat (L ! i ! j ! k) = Some (i, j, k))"
proof -
  let ?t = "diag_fun n q"
  have m: "fl_smaller fl \<longrightarrow> fl_diag fl" using assms(1) by (simp add: mode_ok_def)
  have N: "numbered fl n ?t L"
    using assms(2) encode_diag_numbered[of fl nc n q L e] encode_all_numbered[of fl nc n L e] by (auto simp: formula_of_def split: if_splits)
  have at: "lit2entry fl n ?t ! x = Some (entry_at fl n ?t x)" if "is_var fl n ?t x" for x
    using that by (auto simp: is_var_def lit2entry_def entry_at_def nth_Cons')
  have "\<exists>i<n. \<exists>j<n. \<exists>k<n. lit2entry fl n ?t ! x = Some (i, j, k) \<and> L ! i ! j ! k = int x" if "is_var fl n ?t x" for x
  proof -
    obtain i j k where e: "entry_at fl n ?t x = (i, j, k)" by (cases "entry_at fl n ?t x") auto
    have "L ! i ! j ! k = int x" using N that e by (auto simp: numbered_def lit_at_def)
    then show ?thesis using entry_at_range[OF that e] at[OF that] e by auto
  qed
  moreover have "lit2entry fl n ?t ! nat (L ! i ! j ! k) = Some (i, j, k)"
    if ij: "i < n" "j < n" "k < n" "L ! i ! j ! k \<noteq> 0" for i j k
  proof -
    have "has_var fl ?t i j k"
    proof (rule ccontr)
      assume h: "\<not> has_var fl ?t i j k"
      then have d: "fl_diag fl" "fl_smaller fl" using m by (auto simp: has_var_def)
      obtain nf where a: "(L, nf) = alloc_diag (fl_smaller fl) n (diag_list n q) (no_lits n, 1)"
        using assms(2) d by (auto simp: formula_of_def encode_diag_def encodeEntries_diag_def split: prod.splits)
      have "alloc_ok n (diag_keep (fl_smaller fl) (diag_list n q)) 1 L nf" by (rule alloc_diag_ok) (simp add: a)
      moreover have "\<not> diag_keep (fl_smaller fl) (diag_list n q) i j k"
        using h d diag_list_fun[OF ij(1), of q] by (auto simp: has_var_def diag_keep_def)
      ultimately show False using ij by (auto simp: alloc_ok_def)
    qed
    from numbered_lit[OF N m ij(1-3) this] at show ?thesis by auto
  qed
  ultimately show ?thesis by (auto simp: is_var_def)
qed

end
