(* ===== verification/Propagator_Example.thy ===== *)
theory Propagator_Example
  imports Propagator_Correct
begin

text \<open>
  Runs on two elements, used to instantiate the theorems about runs: with the swap as the
  diagonal up to the clause that excludes the only cycle set, and without a diagonal up to a
  literal the propagator forces. The formula only ends up in \<open>sv_added\<close>, so the states are computed
  with a variable for it.
\<close>

text \<open>The states after notifications at the root level, the last one first, and the guards they need.\<close>

fun root_state :: "flags \<Rightarrow> nat \<Rightarrow> nat list \<Rightarrow> lits3 \<Rightarrow> mincheck \<Rightarrow> int list \<Rightarrow> int list \<Rightarrow> solver res" where
  "root_state fl n q L M a [] = Inr (init_solver fl n (vec_perm (run_diag fl n q)) L M a)"
| "root_state fl n q L M a (l # ls) = bindE (root_state fl n q L M a ls) (notify_assignment n l True)"

definition ok_state :: "'a res \<Rightarrow> ('a \<Rightarrow> bool) \<Rightarrow> bool" where
  "ok_state r P = (case r of Inl _ \<Rightarrow> False | Inr s \<Rightarrow> P s)"

lemma ok_stateE: "ok_state r P \<Longrightarrow> \<exists>s. r = Inr s \<and> P s"
  by (cases r) (simp_all add: ok_state_def)

fun guarded :: "flags \<Rightarrow> nat \<Rightarrow> nat list \<Rightarrow> lits3 \<Rightarrow> mincheck \<Rightarrow> int list \<Rightarrow> int list \<Rightarrow> bool" where
  "guarded fl n q L M a [] = True"
| "guarded fl n q L M a (l # ls) = (ok_state (root_state fl n q L M a ls) (may_notify fl n (diag_fun n q) l True) \<and> guarded fl n q L M a ls)"

lemma root_run:
  assumes m: "search_mode (op_fl op) n q" "op_fixedRow op \<le> 0" and f: "formula_of (op_fl op) nc n q = (L, e)"
    and N: "cycle_set n N" "has_diag n (diag_of (op_fl op) (diag_fun n q)) N"
    and M: "mc_new (op_fl op) n beyond (run_diag (op_fl op) n q) L = Inr M"
    and g: "\<And>a. guarded (op_fl op) n q L M a ls"
  shows "\<exists>a. \<forall>s. root_state (op_fl op) n q L M a ls = Inr s \<longrightarrow> reaches op nc n q beyond val [] s"
proof -
  let ?a = "concat (map (\<lambda>c. c @ [0]) (fst e))"
  let ?s0 = "init_solver (op_fl op) n (vec_perm (run_diag (op_fl op) n q)) L M ?a"
  have new: "new_solver op n beyond True (fst e) (run_diag (op_fl op) n q) [] L = Inr ?s0"
    by (rule new_solver_init[OF formula_clean[OF m(1) f N] m(2) M])
  have "guarded (op_fl op) n q L M ?a ls \<Longrightarrow> root_state (op_fl op) n q L M ?a ls = Inr s \<Longrightarrow> sat_run op n (diag_fun n q) val ?s0 [] s" for s
  proof (induction ls arbitrary: s)
    case (Cons l ls)
    then obtain s' where s': "root_state (op_fl op) n q L M ?a ls = Inr s'" "may_notify (op_fl op) n (diag_fun n q) l True s'"
      "notify_assignment n l True s' = Inr s" by (auto simp: bindE_eq_Inr ok_state_def)
    then have "sat_run op n (diag_fun n q) val ?s0 [] s'" using Cons by simp
    from sat_run.more[OF this sat_step.assigned[OF s'(2,3)]] show ?case by simp
  qed (simp add: sat_run.start)
  then show ?thesis using f new g unfolding reaches_def by blast
qed

section \<open>The swap as the diagonal\<close>

definition ex_opts :: opts where
  "ex_opts = \<lparr>op_fl = bit_flags, op_allModels = True, op_propLits = False, op_checkSols = True,
     op_checkFreq = 1, op_fixedRow = 0, op_saveState = False\<rparr>"

definition ex_L :: lits3 where
  "ex_L = fst (alloc_diag False 2 [1, 0] (no_lits 2, 1))"

definition ex_lits :: "int list" where
  "ex_lits = [6, -5, 3, -4]"

abbreviation ex_reaches :: "clause list \<Rightarrow> solver \<Rightarrow> bool" where
  "ex_reaches \<equiv> reaches ex_opts False 2 [2] (0, 0) (\<lambda>_. 0)"

abbreviation ex_state :: "mincheck \<Rightarrow> int list \<Rightarrow> int list \<Rightarrow> solver res" where
  "ex_state \<equiv> root_state bit_flags 2 [2] ex_L"

lemma ex_guarded: "guarded bit_flags 2 [2] ex_L M a ex_lits"
  by code_simp

lemma ex_full:
  "ok_state (ex_state M a ex_lits) (\<lambda>s. table_full 2 (sv_cyc s) \<and> sv_clauses s = [] \<and> cy_matrix (sv_cyc s) = [[1, 0], [1, 0]])"
  by code_simp

text \<open>The answers to the callbacks on the complete table.\<close>

lemma ex_asked:
  "ok_state (mc_new bit_flags 2 (0, 0) (run_diag bit_flags 2 [2]) ex_L) (\<lambda>M.
     ok_state (bindE (ex_state M a ex_lits) (cb_has_external_clause ex_opts 2 (\<lambda>_. 0) 0)) (\<lambda>(b, s).
       b \<and> sv_clauses s = [[-3, -6]] \<and> set (sv_pos s @ sv_neg s) \<subseteq> {[]}) \<and>
     ok_state (bindE (ex_state M a ex_lits) (cb_check_found_model ex_opts 2 (\<lambda>_. 0))) (\<lambda>(b, s). sv_clauses s = [[-3, -6]]))"
  by code_simp

lemma ex_level:
  "ok_state (ex_state M a []) (\<lambda>s. ok_state (notify_all bit_flags 2 (diag_fun 2 [2]) [3, 6] (notify_new_decision_level s)) (\<lambda>_. True))"
  by code_simp

lemma ex_mode: "search_mode (op_fl ex_opts) 2 [2]" "op_fixedRow ex_opts \<le> 0" "op_fl ex_opts = bit_flags" "mode_ok bit_flags 2 [2]"
  by (simp_all add: search_mode_def mode_ok_def ex_opts_def bit_flags_def)

lemma ex_formula_L: "fst (formula_of bit_flags False 2 [2]) = ex_L"
proof -
  have "diag_list 2 [2] = [1, 0]" by code_simp
  then show ?thesis
    by (simp add: formula_of_def bit_flags_def encode_diag_def encodeEntries_diag_def ex_L_def split: prod.splits)
qed

lemma ex_cycle_set: "cycle_set 2 (\<lambda>i j. 1 - j)" "has_diag 2 (diag_of bit_flags (diag_fun 2 [2])) (\<lambda>i j. 1 - j)"
proof -
  show "cycle_set 2 (\<lambda>i j. 1 - j)"
    unfolding cycle_set_def row_perms_def diag_perm_def cycle_law_def by (intro conjI allI impI perm_onI) (auto simp: less2)
  show "has_diag 2 (diag_of bit_flags (diag_fun 2 [2])) (\<lambda>i j. 1 - j)"
    using diag_fun_two by (auto simp: has_diag_def diag_of_def bit_flags_def)
qed

lemma ex_lexmin:
  assumes N: "\<And>i j. i < 2 \<Longrightarrow> j < 2 \<Longrightarrow> N i j = 1 - j"
  shows "lexmin 2 T N"
  unfolding lexmin_def lex_less_def mlist_def
proof
  fix p assume "p \<in> syms 2 T"
  then have p: "perm_on 2 p" by (rule syms_perm)
  have "pact 2 p N i j = N i j" if ij: "i < 2" "j < 2" for i j
  proof -
    have "p 0 \<noteq> p 1" "p 0 < 2" "p 1 < 2" using perm_on_inj[OF p, of 0 1] perm_on_less[OF p] by auto
    then have "1 - p j = p (1 - j)" using ij(2) by (auto simp: less2)
    moreover have "pinv 2 p (p (1 - j)) = 1 - j" by (rule pinv_left[OF p]) simp
    moreover have "N (p i) (p j) = 1 - p j" by (rule N) (simp_all add: perm_on_less[OF p] ij)
    ultimately show ?thesis using N[OF ij] by (simp add: pact_def)
  qed
  then have "map (\<lambda>(i, j). pact 2 p N i j) (cells 2) = map (\<lambda>(i, j). N i j) (cells 2)" by (intro map_cong) auto
  then show "\<not> map (\<lambda>(i, j). pact 2 p N i j) (cells 2) < map (\<lambda>(i, j). N i j) (cells 2)"
    by (simp only: less_irrefl not_False_eq_True)
qed

lemma ex_run:
  assumes "\<And>M a. guarded bit_flags 2 [2] ex_L M a ls"
  shows "\<exists>M a. mc_new bit_flags 2 (0, 0) (run_diag bit_flags 2 [2]) ex_L = Inr M \<and> (\<forall>s. ex_state M a ls = Inr s \<longrightarrow> ex_reaches [] s)"
proof -
  have d: "run_diag bit_flags 2 [2] = diag_ints 2 [2]" by (simp add: run_diag_def bit_flags_def)
  obtain M where M: "mc_new bit_flags 2 (0, 0) (run_diag bit_flags 2 [2]) ex_L = Inr M"
    using constructor_started[OF ex_mode(4), of "(0, 0)" ex_L] unfolding d by blast
  have f: "formula_of (op_fl ex_opts) False 2 [2] = (ex_L, snd (formula_of bit_flags False 2 [2]))"
    using ex_formula_L ex_mode(3) by (metis prod.collapse)
  show ?thesis
    using root_run[OF ex_mode(1,2) f, unfolded ex_mode(3), OF ex_cycle_set M assms] M by blast
qed

text \<open>After the root level is notified: the complete table is the swap; then the answer and its delivery.\<close>

lemma ex_complete:
  obtains s where "ex_reaches [] s" "table_full 2 (sv_cyc s)" "sv_clauses s = []"
    "\<And>i j. i < 2 \<Longrightarrow> j < 2 \<Longrightarrow> mat_fun (sv_cyc s) i j = 1 - j" "row_perms 2 (mat_fun (sv_cyc s))"
proof -
  obtain M a where M: "\<forall>s. ex_state M a ex_lits = Inr s \<longrightarrow> ex_reaches [] s" using ex_run[OF ex_guarded] by blast
  obtain s where s: "ex_state M a ex_lits = Inr s" "table_full 2 (sv_cyc s)" "sv_clauses s = []" "cy_matrix (sv_cyc s) = [[1, 0], [1, 0]]"
    using ok_stateE[OF ex_full[of M a]] by blast
  have m: "mat_fun (sv_cyc s) i j = 1 - j" if "i < 2" "j < 2" for i j using that s(4) by (auto simp: mat_fun_def less2)
  have "row_perms 2 (mat_fun (sv_cyc s))"
    unfolding row_perms_def by (intro allI impI perm_onI) (use m in \<open>auto simp: less2\<close>)
  moreover have "ex_reaches [] s" using M s(1) by blast
  ultimately show thesis using that[of s] s(2,3) m by blast
qed

lemma ex_delivered:
  obtains s where "ex_reaches [[-6, -3]] s" "sv_clauses s = []" "set (sv_pos s @ sv_neg s) \<subseteq> {[]}"
proof -
  obtain M a where M: "mc_new bit_flags 2 (0, 0) (run_diag bit_flags 2 [2]) ex_L = Inr M"
    "\<forall>s. ex_state M a ex_lits = Inr s \<longrightarrow> ex_reaches [] s" using ex_run[OF ex_guarded] by blast
  have "ok_state (bindE (ex_state M a ex_lits) (cb_has_external_clause ex_opts 2 (\<lambda>_. 0) 0)) (\<lambda>(b, s).
       b \<and> sv_clauses s = [[-3, -6]] \<and> set (sv_pos s @ sv_neg s) \<subseteq> {[]})"
    using ex_asked[of a] M(1) by (simp add: ok_state_def)
  then obtain s s1 where s: "ex_state M a ex_lits = Inr s" "cb_has_external_clause ex_opts 2 (\<lambda>_. 0) 0 s = Inr (True, s1)"
    "sv_clauses s1 = [[-3, -6]]" "set (sv_pos s1 @ sv_neg s1) \<subseteq> {[]}"
    by (auto simp: ok_state_def bindE_eq_Inr split: sum.splits)
  have "take_lits cb_add_external_clause_lit (Suc (length (last (sv_clauses s1)))) s1 = Inr ([-6, -3], s1\<lparr>sv_clauses := []\<rparr>)"
    using pending.take_all[of s1] s(3) by simp
  then have "sat_step ex_opts 2 (diag_fun 2 [2]) (\<lambda>_. 0) [] s [[-6, -3]] (s1\<lparr>sv_clauses := []\<rparr>)"
    using sat_step.clause[of "[]" s ex_opts 2 "\<lambda>_. 0" 0 s1] s(2) by (simp add: no_conflict_def)
  then have "ex_reaches [[-6, -3]] (s1\<lparr>sv_clauses := []\<rparr>)"
    using M(2)[rule_format, OF s(1)] sat_run.more[where G = "[]" and s = s] unfolding reaches_def by fastforce
  then show thesis using that s(4) by simp
qed

lemma ex_pending:
  obtains s where "ex_reaches [] s" "sv_clauses s = [] @ [[-3, -6]]"
proof -
  obtain M a where M: "mc_new bit_flags 2 (0, 0) (run_diag bit_flags 2 [2]) ex_L = Inr M"
    "\<forall>s. ex_state M a ex_lits = Inr s \<longrightarrow> ex_reaches [] s" using ex_run[OF ex_guarded] by blast
  have "ok_state (bindE (ex_state M a ex_lits) (cb_check_found_model ex_opts 2 (\<lambda>_. 0))) (\<lambda>(b, s). sv_clauses s = [[-3, -6]])"
    using ex_asked[of a] M(1) by (simp add: ok_state_def)
  then obtain s s1 b where s: "ex_state M a ex_lits = Inr s" "cb_check_found_model ex_opts 2 (\<lambda>_. 0) s = Inr (b, s1)"
    "sv_clauses s1 = [[-3, -6]]"
    by (auto simp: ok_state_def bindE_eq_Inr split: sum.splits)
  have "table_full 2 (sv_cyc s)" using ex_full[of M a] s(1) by (simp add: ok_state_def)
  then have "sat_step ex_opts 2 (diag_fun 2 [2]) (\<lambda>_. 0) [] s [] s1"
    using sat_step.model[of "[]" s 2 ex_opts "\<lambda>_. 0" b s1] s(2) by (simp add: no_conflict_def)
  then have "ex_reaches [] s1"
    using M(2)[rule_format, OF s(1)] sat_run.more[where G = "[]" and s = s] unfolding reaches_def by fastforce
  then show thesis using that s(3) by simp
qed

lemma ex_unsat:
  assumes "cnf_holds v (fst (snd (formula_of bit_flags False 2 [2])))"
  shows "\<not> clause_holds v [-6, -3]"
proof -
  have d: "diag_list 2 [2] = [1, 0]" by code_simp
  obtain e where f: "encode_diag False False 2 [1, 0] = (ex_L, e)" "e = snd (formula_of bit_flags False 2 [2])"
    using ex_formula_L d by (simp add: formula_of_def bit_flags_def) (metis prod.collapse)
  have "perm_on 2 (\<lambda>i. [1, 0] ! i)" by (rule perm_onI) (auto simp: less2)
  then obtain nf where "encodes (\<lambda>v. \<exists>N. reads 2 ex_L (\<lambda>i. [1, 0] ! i) v N \<and> cycle_set 2 N \<and> has_diag 2 (Some (\<lambda>i. [1, 0] ! i)) N) ([], nf) e"
    using encode_diag_encodes[OF f(1)] by blast
  from encodesD(3)[OF this] obtain N where N: "reads 2 ex_L (\<lambda>i. [1, 0] ! i) v N" "cycle_set 2 N" "has_diag 2 (Some (\<lambda>i. [1, 0] ! i)) N"
    using assms f(2) by blast
  have r: "row_perms 2 N" "N 0 0 = 1" "N 1 1 = 0" using N(2,3) by (auto simp: cycle_set_def has_diag_def)
  have "N 0 1 = 0" "N 1 0 = 1"
    using row_perms_inj[OF r(1), of 0 0 1] row_perms_inj[OF r(1), of 1 0 1] row_perms_less[OF r(1), of 0 1] row_perms_less[OF r(1), of 1 0] r
    by auto
  moreover have "ex_L ! 0 ! 1 ! 0 = 3" "ex_L ! 1 ! 0 ! 1 = 6" by code_simp+
  ultimately have "lit_holds v 3" "lit_holds v 6"
    using readsD(2)[OF N(1), of 0 1 0] readsD(2)[OF N(1), of 1 0 1] by (simp_all add: entry_holds_def)
  then show ?thesis by (simp add: clause_holds_def lit_holds_def)
qed

section \<open>A forced literal\<close>

definition fr_opts :: opts where
  "fr_opts = \<lparr>op_fl = \<lparr>fl_diag = False, fl_smaller = False, fl_prop = True, fl_old = False, fl_bit = False, fl_maxDepth = 9, fl_maxMC = 9\<rparr>,
     op_allModels = True, op_propLits = True, op_checkSols = True, op_checkFreq = 1, op_fixedRow = 0, op_saveState = False\<rparr>"

definition fr_L :: lits3 where
  "fr_L = fst (alloc_all 2 (no_lits 2, 1))"

definition fr_lits :: "int list" where
  "fr_lits = [-7, -1, 2]"

abbreviation fr_state :: "mincheck \<Rightarrow> int list \<Rightarrow> solver res" where
  "fr_state M a \<equiv> root_state (op_fl fr_opts) 2 [] fr_L M a fr_lits"

lemma fr_guarded: "guarded (op_fl fr_opts) 2 [] fr_L M a fr_lits"
  by code_simp

lemma fr_forced:
  "ok_state (mc_new (op_fl fr_opts) 2 (0, 0) (run_diag (op_fl fr_opts) 2 []) fr_L) (\<lambda>M.
     ok_state (bindE (fr_state M a) (cb_propagate fr_opts 2 (\<lambda>_. 0) 0 False)) (\<lambda>(l, s). l = -8) \<and>
     ok_state (fr_state M a) (\<lambda>s. sv_clauses s = []))"
  by code_simp

lemma fr_mode: "search_mode (op_fl fr_opts) 2 []" "op_fixedRow fr_opts \<le> 0"
  by (simp_all add: search_mode_def mode_ok_def fr_opts_def)

lemma fr_run:
  obtains s s' where "reaches fr_opts False 2 [] (0, 0) (\<lambda>_. 0) [] s" "sv_clauses s = []"
    "cb_propagate fr_opts 2 (\<lambda>_. 0) 0 False s = Inr (-8, s')"
proof -
  obtain M where M: "mc_new (op_fl fr_opts) 2 (0, 0) (run_diag (op_fl fr_opts) 2 []) fr_L = Inr M"
    using ok_stateE[OF fr_forced] by blast
  have "fst (formula_of (op_fl fr_opts) False 2 []) = fr_L"
    by (simp add: formula_of_def fr_opts_def encode_all_def fr_L_def split: prod.splits)
  then obtain e where f: "formula_of (op_fl fr_opts) False 2 [] = (fr_L, e)" by (metis prod.collapse)
  have "has_diag 2 (diag_of (op_fl fr_opts) (diag_fun 2 [])) (\<lambda>i j. 1 - j)" by (simp add: has_diag_def diag_of_def fr_opts_def)
  from root_run[OF fr_mode f ex_cycle_set(1) this M fr_guarded]
  obtain a where a: "\<forall>s. fr_state M a = Inr s \<longrightarrow> reaches fr_opts False 2 [] (0, 0) (\<lambda>_. 0) [] s" by blast
  have "ok_state (bindE (fr_state M a) (cb_propagate fr_opts 2 (\<lambda>_. 0) 0 False)) (\<lambda>(l, s). l = -8)"
    "ok_state (fr_state M a) (\<lambda>s. sv_clauses s = [])"
    using fr_forced[of a] M by (simp_all add: ok_state_def)
  then obtain s s' where "fr_state M a = Inr s" "sv_clauses s = []" "cb_propagate fr_opts 2 (\<lambda>_. 0) 0 False s = Inr (-8, s')"
    by (auto simp: ok_state_def bindE_eq_Inr split: sum.splits)
  then show thesis using that a by blast
qed

section \<open>Instances\<close>






theorem streams_end_witness:
  "\<exists>s. reaches ex_opts False 2 [2] (0, 0) (\<lambda>_. 0) [] s \<and>
     take_lits cb_add_external_clause_lit 3 s = Inr ([-6, -3], s\<lparr>sv_clauses := []\<rparr>)"
proof -
  obtain s where s: "ex_reaches [] s" "sv_clauses s = [] @ [[-3, -6]]" using ex_pending by blast
  have "take_lits cb_add_external_clause_lit (Suc (length [-3, -6 :: int])) s = Inr (rev [-3, -6], s\<lparr>sv_clauses := []\<rparr>)"
    using streams_end[OF ex_mode(1,2) s(1)] s(2) by blast
  then show ?thesis using s(1) by (auto simp: eval_nat_numeral)
qed



theorem lit2entry_roundtrip_witness:
  "ex_L ! 1 ! 0 ! 1 = 6 \<and> lit2entry bit_flags 2 (diag_fun 2 [2]) ! 6 = Some (1, 0, 1)"
proof -
  have f: "formula_of bit_flags False 2 [2] = (ex_L, snd (formula_of bit_flags False 2 [2]))"
    using ex_formula_L by (metis prod.collapse)
  have "ex_L ! 1 ! 0 ! 1 = 6" by code_simp
  then show ?thesis using lit2entry_roundtrip[OF ex_mode(4) f, THEN conjunct2, rule_format, of 1 0 1] by simp
qed

end
