(* ===== verification/Classification.thy ===== *)
theory Classification
  imports Partitions Cycles
begin

text \<open>
  Why it is enough to go through the diagonals of \<open>makeDiagonals\<close> and to print the canonical tables
  of each (\<^verbatim>\<open>main.cpp\<close>, \<^verbatim>\<open>useful.cpp\<close>): every permutation is conjugate to exactly one
  permutation with consecutive cycles of nondecreasing length, so every cycle set is isomorphic to
  exactly one table that is canonical for one of these diagonals. The cycles of a permutation are the
  ones \<open>permToCyclePerm\<close> finds.
\<close>

section \<open>Every permutation is conjugate to one with consecutive cycles\<close>

lemma block_perm_shift: "block_perm p (off + a) (off + k) = off + block_perm p a k"
  by (induction p arbitrary: a) (auto simp: add.assoc)

lemma block_perm_first: "k < l \<Longrightarrow> block_perm (l # p) 0 k = (if Suc k = l then 0 else Suc k)"
  by simp

lemma block_perm_rest: "block_perm (l # p) 0 (l + k) = l + block_perm p 0 k"
  using block_perm_shift[of p l 0 k] by simp

lemma cycles_conjugate:
  assumes "\<forall>c\<in>set cs. is_cycle t c" "k < length (concat cs)"
  shows "concat cs ! block_perm (map length cs) 0 k = t (concat cs ! k) \<and> block_perm (map length cs) 0 k < length (concat cs)"
  using assms
proof (induction cs arbitrary: k)
  case (Cons c cs)
  have c: "c \<noteq> []" "\<And>i. i < length c \<Longrightarrow> t (c ! i) = c ! (Suc i mod length c)" using Cons.prems(1) by (auto simp: is_cycle_def)
  show ?case
  proof (cases "k < length c")
    case True
    have "Suc k mod length c = (if Suc k = length c then 0 else Suc k)" using True by simp
    then show ?thesis using True c by (auto simp: block_perm_first nth_append simp del: block_perm.simps)
  next
    case False
    then obtain k' where k: "k = length c + k'" by (metis le_iff_add not_less)
    then show ?thesis using Cons.IH[of k'] Cons.prems by (auto simp: block_perm_rest nth_append simp del: block_perm.simps)
  qed
qed simp

text \<open>Blocks of length one at the end do not matter.\<close>

lemma block_perm_singles: "block_perm (replicate m 1) off x = x"
  by (induction m arbitrary: off) auto

lemma block_perm_append: "block_perm (p @ q) off x = (if x < off + sum_list p then block_perm p off x else block_perm q (off + sum_list p) x)"
proof (induction p arbitrary: off)
  case Nil
  then show ?case by (cases q) auto
next
  case (Cons l p)
  then show ?case by (auto simp: add.assoc)
qed

text \<open>
  The cycles sorted by length, those of length one last; their elements in this order are the
  conjugating permutation.
\<close>

lemma conjugate_blocks:
  assumes t: "perm_on n t"
  shows "\<exists>p g. sorted p \<and> (\<forall>l\<in>set p. 2 \<le> l) \<and> sum_list p \<le> n \<and> perm_on n g \<and> (\<forall>i<n. g (block_perm p 0 i) = t (g i))"
proof -
  let ?v = "map (\<lambda>i. int (t i)) [0..<n]"
  have vt: "vec_perm ?v i = t i" if "i < n" for i using that by (simp add: vec_perm_def)
  have "perm_vec n ?v" unfolding perm_vec_def using perm_on_cong[of n "vec_perm ?v" t] vt t by auto
  from permToCyclePerm_all[OF this] obtain cs where cs: "\<forall>c\<in>set cs. is_cycle (vec_perm ?v) c" "distinct (concat cs)" "set (concat cs) = {..<n}"
    by blast
  define as where "as = sort_key length (filter (\<lambda>c. 2 \<le> length c) cs)"
  define bs where "bs = filter (\<lambda>c. \<not> 2 \<le> length c) cs"
  let ?ds = "as @ bs"
  have ds: "mset ?ds = mset cs" by (simp add: as_def bs_def)
  note m = mset_concat_cong[OF ds] and s = mset_eq_setD[OF ds]
  have d: "distinct (concat ?ds)" "set (concat ?ds) = {..<n}"
    using mset_eq_imp_distinct_iff[OF m] mset_eq_setD[OF m] cs(2,3) by auto
  then have len: "length (concat ?ds) = n" using distinct_card[OF d(1)] by simp
  let ?p = "map length as" and ?g = "\<lambda>i. concat ?ds ! i"
  have p: "\<forall>l\<in>set ?p. 2 \<le> l" "sorted ?p" by (simp_all add: as_def)
  have "length (concat as) = sum_list ?p" by (simp add: length_concat)
  then have sum: "sum_list ?p \<le> n" using len by simp
  have "map length bs = replicate (length bs) 1"
  proof (rule replicate_eqI[symmetric, THEN sym])
    fix l assume "l \<in> set (map length bs)"
    then obtain c where "c \<in> set cs" "\<not> 2 \<le> length c" "l = length c" by (auto simp: bs_def)
    moreover from this have "c \<noteq> []" using cs(1) by (auto simp: is_cycle_def)
    ultimately show "l = 1" by (simp add: not_le less_2_cases_iff)
  qed simp
  then have bp: "block_perm (map length ?ds) 0 i = block_perm ?p 0 i" for i
    using block_perm_high[of 0 ?p i] by (simp add: block_perm_append block_perm_singles[unfolded One_nat_def])
  have "perm_on n ?g"
    by (rule perm_onI) (use d len nth_mem[of _ "concat ?ds"] in \<open>auto simp: nth_eq_iff_index_eq\<close>)
  moreover have "?g (block_perm ?p 0 i) = t (?g i)" if i: "i < n" for i
  proof -
    have "?g i < n" using d(2) nth_mem[of i "concat ?ds"] len i by auto
    then show ?thesis using cycles_conjugate[of ?ds "vec_perm ?v" i] cs(1) s len i vt unfolding bp by simp
  qed
  ultimately show ?thesis using p sum by blast
qed

section \<open>The lengths are determined\<close>

definition period :: "(nat \<Rightarrow> nat) \<Rightarrow> nat \<Rightarrow> nat \<Rightarrow> bool" where
  "period t x l \<longleftrightarrow> 0 < l \<and> (t ^^ l) x = x \<and> (\<forall>m. 0 < m \<and> m < l \<longrightarrow> (t ^^ m) x \<noteq> x)"

lemma period_cong: "(\<And>m. (s ^^ m) y = y \<longleftrightarrow> (t ^^ m) x = x) \<Longrightarrow> period s y l = period t x l"
  by (simp add: period_def)

lemma block_power: "k < l \<Longrightarrow> (block_perm (l # p) 0 ^^ m) k = (k + m) mod l"
proof (induction m)
  case (Suc m)
  have "(k + m) mod l < l" using Suc.prems by simp
  then show ?case using Suc by (auto simp: block_perm_first mod_Suc simp del: block_perm.simps)
qed simp

lemma block_power_rest: "(block_perm (l # p) 0 ^^ m) (l + k) = l + (block_perm p 0 ^^ m) k"
  by (induction m) (simp_all add: block_perm_rest del: block_perm.simps)

lemma block_period: "k < l \<Longrightarrow> period (block_perm (l # p) 0) k a \<longleftrightarrow> a = l"
proof
  assume k: "k < l"
  have e: "(block_perm (l # p) 0 ^^ m) k = k \<longleftrightarrow> l dvd m" for m
  proof -
    have "(k + m) mod l = k \<longleftrightarrow> (k + m) mod l = k mod l" using k by simp
    also have "\<dots> \<longleftrightarrow> l dvd m" using mod_eq_dvd_iff_nat[of k "k + m" l] by simp
    finally show ?thesis using block_power[OF k, where m = m and p = p] by simp
  qed
  show "a = l" if "period (block_perm (l # p) 0) k a"
    using that k unfolding period_def e by (metis dvd_imp_le dvd_refl le_neq_implies_less zero_less_iff_neq_zero not_less_zero)
  show "period (block_perm (l # p) 0) k a" if "a = l"
    using that k unfolding period_def e by (auto dest: dvd_imp_le)
qed

definition points :: "nat list \<Rightarrow> nat \<Rightarrow> nat set" where
  "points p a = {x. x < sum_list p \<and> period (block_perm p 0) x a}"

lemma points_Cons: "points (l # p) a = (if l = a then {..<l} else {}) \<union> (+) l ` points p a"
proof (rule set_eqI)
  fix x
  show "x \<in> points (l # p) a \<longleftrightarrow> x \<in> (if l = a then {..<l} else {}) \<union> (+) l ` points p a"
  proof (cases "x < l")
    case True
    then show ?thesis using block_period[OF True, of p a] by (auto simp: points_def)
  next
    case False
    then obtain k where k: "x = l + k" by (metis le_iff_add not_less)
    have "period (block_perm (l # p) 0) (l + k) a = period (block_perm p 0) k a"
      by (rule period_cong) (simp add: block_power_rest)
    then show ?thesis unfolding k by (auto simp: points_def)
  qed
qed

lemma card_points: "card (points p a) = a * count_list p a"
proof (induction p)
  case (Cons l p)
  have fin: "finite (points p a)" by (simp add: points_def)
  have "card ((+) l ` points p a) = a * count_list p a" using Cons by (simp add: card_image)
  moreover have "{..<l} \<inter> (+) l ` points p a = {}" by auto
  ultimately show ?case using fin by (auto simp: points_Cons card_Un_disjoint)
qed (simp add: points_def)

lemma points_below:
  assumes "sum_list p \<le> n" "2 \<le> a"
  shows "{x. x < n \<and> period (block_perm p 0) x a} = points p a"
proof -
  have "x < sum_list p" if "period (block_perm p 0) x a" for x
  proof (rule ccontr)
    assume "\<not> x < sum_list p"
    then have "(block_perm p 0 ^^ 1) x = x" using block_perm_high[of 0 p x] by simp
    moreover have "(block_perm p 0 ^^ 1) x \<noteq> x"
      using that assms(2) unfolding period_def by (metis less_le_trans one_less_numeral_iff semiring_norm(76) zero_less_one)
    ultimately show False by blast
  qed
  then show ?thesis using assms(1) less_le_trans by (auto simp: points_def)
qed

lemma block_perm_conjugate:
  assumes p: "sorted p" "\<forall>l\<in>set p. 2 \<le> l" "sum_list p \<le> n" and q: "sorted q" "\<forall>l\<in>set q. 2 \<le> l" "sum_list q \<le> n"
    and f: "perm_on n f" "\<And>i. i < n \<Longrightarrow> f (block_perm p 0 i) = block_perm q 0 (f i)"
  shows "p = q"
proof -
  let ?s = "block_perm p 0" and ?t = "block_perm q 0"
  have less: "(?s ^^ m) i < n" if "i < n" for m i using that p(3) by (induction m) (auto intro: block_perm_less)
  have pow: "(?t ^^ m) (f i) = f ((?s ^^ m) i)" if "i < n" for m i using that f(2) less by (induction m) auto
  have "period ?t (f i) a = period ?s i a" if i: "i < n" for i a
  proof (rule period_cong)
    show "((?t ^^ m) (f i) = f i) = ((?s ^^ m) i = i)" for m
      using pow[OF i] perm_on_inj[OF f(1) less[OF i] i] by simp
  qed
  then have "f ` {x. x < n \<and> period ?s x a} = {x. x < n \<and> period ?t x a}" for a
    using perm_on_less[OF f(1)] perm_on_surj[OF f(1)] by auto blast
  moreover have "inj_on f {x. x < n \<and> period ?s x a}" for a
    using f(1) unfolding perm_on_def bij_betw_def by (auto intro: inj_on_subset)
  ultimately have c: "card {x. x < n \<and> period ?s x a} = card {x. x < n \<and> period ?t x a}" for a
    using card_image by metis
  have "count_list p a = count_list q a" for a
  proof (cases "2 \<le> a")
    case True
    then show ?thesis using c[of a] card_points[of p a] card_points[of q a] points_below[OF p(3) True] points_below[OF q(3) True] by simp
  next
    case False
    then have "a \<notin> set p" "a \<notin> set q" using p(2) q(2) by auto
    then show ?thesis by (metis count_notin)
  qed
  then have "mset p = mset q" by (intro multiset_eqI) (simp add: count_mset)
  then show ?thesis using p(1) q(1) by (metis properties_for_sort)
qed

section \<open>Isomorphic tables\<close>

text \<open>A permutation that carries the table \<open>M\<close> to the table \<open>N\<close>.\<close>

definition carries :: "nat \<Rightarrow> (nat \<Rightarrow> nat) \<Rightarrow> cmat \<Rightarrow> cmat \<Rightarrow> bool" where
  "carries n f M N \<longleftrightarrow> perm_on n f \<and> (\<forall>i<n. \<forall>j<n. N (f i) (f j) = f (M i j))"

definition isomorphic :: "nat \<Rightarrow> cmat \<Rightarrow> cmat \<Rightarrow> bool" where
  "isomorphic n M N \<longleftrightarrow> (\<exists>f. carries n f M N)"

lemma carries_perm: "carries n f M N \<Longrightarrow> perm_on n f"
  by (simp add: carries_def)

lemma carriesD: "carries n f M N \<Longrightarrow> i < n \<Longrightarrow> j < n \<Longrightarrow> N (f i) (f j) = f (M i j)"
  by (simp add: carries_def)

lemma pact_carries:
  assumes "perm_on n f" "row_perms n N"
  shows "carries n f (pact n f N) N"
  using assms by (auto simp: carries_def pact_def perm_on_less row_perms_less)

lemma carries_pact: "carries n f M N \<Longrightarrow> row_perms n M \<Longrightarrow> i < n \<Longrightarrow> j < n \<Longrightarrow> pact n f N i j = M i j"
  by (simp add: carries_def pact_def row_perms_less)

lemma carries_comp:
  assumes "carries n f M N" "carries n g L M" "row_perms n L"
  shows "carries n (f \<circ> g) L N"
  using assms perm_on_comp by (auto simp: carries_def perm_on_less row_perms_less)

lemma carries_inv:
  assumes c: "carries n f M N" and M: "row_perms n M"
  shows "carries n (pinv n f) N M"
proof -
  have f: "perm_on n f" by (rule carries_perm[OF c])
  have "M (pinv n f x) (pinv n f y) = pinv n f (N x y)" if xy: "x < n" "y < n" for x y
  proof -
    let ?i = "pinv n f x" and ?j = "pinv n f y"
    have ij: "?i < n" "?j < n" "f ?i = x" "f ?j = y" using f xy by (simp_all add: pinv_less)
    then have "N x y = f (M ?i ?j)" using carriesD[OF c, of ?i ?j] by simp
    then show ?thesis using f row_perms_less[OF M ij(1,2)] by simp
  qed
  then show ?thesis using pinv_perm[OF f] by (simp add: carries_def)
qed

lemma lexmin_cong:
  assumes "\<And>i j. i < n \<Longrightarrow> j < n \<Longrightarrow> A i j = B i j"
  shows "lexmin n T A = lexmin n T B"
proof -
  have "mlist n A = mlist n B" by (rule mlist_cong) (rule assms)
  moreover have "mlist n (pact n p A) = mlist n (pact n p B)" if "p \<in> syms n T" for p
    using assms perm_on_less[OF syms_perm[OF that]] by (intro mlist_cong) (simp add: pact_def)
  ultimately show ?thesis by (simp add: lexmin_def lex_less_def)
qed

section \<open>The classification\<close>

lemma diag_list_nth: "i < n \<Longrightarrow> diag_list n p ! i = block_perm p 0 i"
  by (simp add: diag_list_def)

text \<open>The tables the program prints for a diagonal.\<close>

definition canonical :: "nat \<Rightarrow> nat list \<Rightarrow> cmat \<Rightarrow> bool" where
  "canonical n d M \<longleftrightarrow> cycle_set n M \<and> has_diag n (Some (\<lambda>i. d ! i)) M \<and> lexmin n (Some (\<lambda>i. d ! i)) M"

lemma canonical_image:
  assumes n: "1 \<le> n" and ds: "all_diagonals n = Inr ds" and N: "cycle_set n N"
  shows "\<exists>d\<in>set ds. \<exists>M. canonical n d M \<and> isomorphic n M N"
proof -
  have rp: "row_perms n N" and "perm_on n (\<lambda>i. N i i)" using N by (simp_all add: cycle_set_def diag_perm_def)
  from conjugate_blocks[OF this(2)] obtain p g where p: "sorted p" "\<forall>l\<in>set p. 2 \<le> l" "sum_list p \<le> n"
    and g: "perm_on n g" "\<And>i. i < n \<Longrightarrow> g (block_perm p 0 i) = N (g i) (g i)" by blast
  let ?d = "diag_list n p" and ?N = "pact n g N"
  let ?T = "Some (\<lambda>i. ?d ! i)"
  have d: "?d \<in> set ds" using all_diagonals_all[OF n] ds p by auto
  have N1: "row_perms n ?N" "cycle_set n ?N" using pact_row_perms[OF g(1) rp] pact_cycle_set[OF g(1) N] by simp_all
  have "?N i i = block_perm p 0 i" if i: "i < n" for i
    using g(2)[OF i, symmetric] block_perm_less[OF i, of 0 p] p(3) g(1) by (simp add: pact_def)
  then have D: "has_diag n ?T ?N" by (simp add: has_diag_def diag_list_nth)
  obtain q where q: "q \<in> syms n ?T" "lexmin n ?T (pact n q ?N)" using canonical_exists[OF N1(1), of ?T] by blast
  have qp: "perm_on n q" by (rule syms_perm[OF q(1)])
  have "canonical n ?d (pact n q ?N)"
    using q(2) pact_has_diag[OF q(1) N1(1) D] pact_cycle_set[OF qp N1(2)] by (simp add: canonical_def)
  moreover have "isomorphic n (pact n q ?N) N"
    using carries_comp[OF pact_carries[OF g(1) rp] pact_carries[OF qp N1(1)] pact_row_perms[OF qp N1(1)]]
    by (auto simp: isomorphic_def)
  ultimately show ?thesis using d by blast
qed

lemma canonical_same:
  assumes n: "1 \<le> n" and ds: "all_diagonals n = Inr ds" "d \<in> set ds" "d' \<in> set ds"
    and M: "canonical n d M" "canonical n d' M'" and f: "carries n f M' M"
  shows "d' = d \<and> (\<forall>i<n. \<forall>j<n. M' i j = M i j)"
proof -
  obtain p where p: "d = diag_list n p" "sorted p" "\<forall>l\<in>set p. 2 \<le> l" "sum_list p \<le> n"
    using all_diagonals_permutations(3)[OF n ds(1,2)] by blast
  obtain p' where p': "d' = diag_list n p'" "sorted p'" "\<forall>l\<in>set p'. 2 \<le> l" "sum_list p' \<le> n"
    using all_diagonals_permutations(3)[OF n ds(1,3)] by blast
  note fp = carries_perm[OF f]
  have diag: "M i i = block_perm p 0 i" "M' i i = block_perm p' 0 i" if "i < n" for i
    using M that p(1) p'(1) by (simp_all add: canonical_def has_diag_def diag_list_nth)
  have comm: "f (block_perm p' 0 i) = block_perm p 0 (f i)" if i: "i < n" for i
    using carriesD[OF f i i] diag(1)[OF perm_on_less[OF fp i]] diag(2)[OF i] by simp
  have "p' = p" by (rule block_perm_conjugate[OF p'(2-) p(2-) fp comm])
  then have dd: "d' = d" using p(1) p'(1) by simp
  let ?T = "Some (\<lambda>i. d ! i)"
  have "f (d ! i) = d ! f i" if i: "i < n" for i
    using comm[OF i] perm_on_less[OF fp i] i \<open>p' = p\<close> by (simp add: p(1) diag_list_nth)
  then have fs: "f \<in> syms n ?T" using fp by (simp add: syms_def)
  have rp: "row_perms n M" "row_perms n M'" using M by (simp_all add: canonical_def cycle_set_def)
  have e: "pact n f M i j = M' i j" if "i < n" "j < n" for i j by (rule carries_pact[OF f rp(2) that])
  have min: "has_diag n ?T M" "lexmin n ?T M" "lexmin n ?T (pact n f M)"
    using M dd lexmin_cong[of n "pact n f M" M' ?T] e by (simp_all add: canonical_def)
  show ?thesis using dd canonical_unique[OF rp(1) min(1) fs min(2,3)] e by simp
qed

text \<open>
  C4: going through the diagonals and keeping the canonical tables of each classifies the cycle sets:
  every cycle set of size \<open>n\<close> is isomorphic to a canonical table for one of the diagonals, and neither
  the diagonal nor the table can be chosen differently.
\<close>

theorem classification:
  assumes "1 \<le> n" "all_diagonals n = Inr ds" "cycle_set n N"
  shows "\<exists>d\<in>set ds. \<exists>M. canonical n d M \<and> isomorphic n M N \<and>
    (\<forall>d'\<in>set ds. \<forall>M'. canonical n d' M' \<and> isomorphic n M' N \<longrightarrow> d' = d \<and> (\<forall>i<n. \<forall>j<n. M' i j = M i j))"
proof -
  obtain d M f where d: "d \<in> set ds" "canonical n d M" "carries n f M N"
    using canonical_image[OF assms] by (auto simp: isomorphic_def)
  have rp: "row_perms n M'" if "canonical n d' M'" for d' M' using that by (simp add: canonical_def cycle_set_def)
  have "d' = d \<and> (\<forall>i<n. \<forall>j<n. M' i j = M i j)"
    if d': "d' \<in> set ds" "canonical n d' M'" "carries n g M' N" for d' M' g
    using canonical_same[OF assms(1,2) d(1) d'(1) d(2) d'(2) carries_comp[OF carries_inv[OF d(3) rp[OF d(2)]] d'(3) rp[OF d'(2)]]] .
  then show ?thesis using d unfolding isomorphic_def by blast
qed

theorem classification_witness:
  "\<exists>ds d M. all_diagonals 2 = Inr ds \<and> d \<in> set ds \<and> canonical 2 d M \<and> isomorphic 2 M (\<lambda>i j. 1 - j)"
proof -
  obtain ds where ds: "all_diagonals 2 = Inr ds" using all_diagonals_all[of 2] by auto
  have "cycle_set 2 (\<lambda>i j. 1 - j)"
    unfolding cycle_set_def row_perms_def diag_perm_def cycle_law_def by (intro conjI allI impI perm_onI) (auto simp: less_2_cases_iff)
  from classification[OF _ ds this] show ?thesis using ds by auto
qed

end
