(* ===== verification/Command_Line.thy ===== *)
theory Command_Line
  imports Globals Partitions
begin

text \<open>
  The command line (\<^verbatim>\<open>main.cpp\<close>, the first loop of \<open>main\<close>): \<open>atoi\<close> and the reading of lists
  of numbers from a \<open>stringstream\<close>, and the options. An option whose value is missing reads
  \<open>argv[argc]\<close>, a null pointer, and a number out of the range of \<open>int\<close> is undefined for
  \<open>atoi\<close>: both are \<open>UB\<close>. Four options do not end their round of the loop, so that the value they
  have taken is compared with the names of the options after them.
\<close>

section \<open>Numbers\<close>

definition code :: "char \<Rightarrow> nat" where
  "code c = of_char c"

definition is_space :: "char \<Rightarrow> bool" where
  "is_space c \<longleftrightarrow> code c = 32 \<or> 9 \<le> code c \<and> code c \<le> 13"

definition is_digit :: "char \<Rightarrow> bool" where
  "is_digit c \<longleftrightarrow> 48 \<le> code c \<and> code c \<le> 57"

definition number :: "string \<Rightarrow> int" where
  "number ds = foldl (\<lambda>v c. 10 * v + int (code c - 48)) 0 ds"

definition int_range :: "int \<Rightarrow> bool" where
  "int_range v \<longleftrightarrow> -(2 ^ 31) \<le> v \<and> v < 2 ^ 31"

text \<open>White space, a sign and the digits; with the rest of the text.\<close>

definition scan_int :: "string \<Rightarrow> string \<times> int \<times> string" where
  "scan_int s = (let s1 = dropWhile is_space s;
     neg = (case s1 of c # _ \<Rightarrow> c = CHR ''-'' | [] \<Rightarrow> False);
     s2 = (case s1 of c # r \<Rightarrow> if c = CHR ''-'' \<or> c = CHR ''+'' then r else s1 | [] \<Rightarrow> []);
     ds = takeWhile is_digit s2
     in (ds, if neg then - number ds else number ds, dropWhile is_digit s2))"

definition atoi :: "string \<Rightarrow> int res" where
  "atoi s = (case scan_int s of (_, v, _) \<Rightarrow> if int_range v then Inr v else Inl UB)"

text \<open>\<open>ss >> element\<close>: fails without digits and out of range.\<close>

definition read_int :: "string \<Rightarrow> (int \<times> string) option" where
  "read_int s = (case scan_int s of (ds, v, r) \<Rightarrow> if ds = [] \<or> \<not> int_range v then None else Some (v, r))"

definition skip_comma :: "string \<Rightarrow> string" where
  "skip_comma s = (case s of c # r \<Rightarrow> if c = CHR '','' then r else s | [] \<Rightarrow> [])"

lemma length_takeWhile_dropWhile: "takeWhile P xs \<noteq> [] \<Longrightarrow> length (dropWhile P xs) < length xs"
  by (cases xs) (auto simp: le_imp_less_Suc length_dropWhile_le split: if_splits)

text \<open>The text after the sign.\<close>

definition unsigned_part :: "string \<Rightarrow> string" where
  "unsigned_part s = (case s of c # r \<Rightarrow> if c = CHR ''-'' \<or> c = CHR ''+'' then r else s | [] \<Rightarrow> [])"

lemma unsigned_part_le: "length (unsigned_part s) \<le> length s"
  by (cases s) (simp_all add: unsigned_part_def)

lemma scan_int_parts:
  "fst (scan_int s) = takeWhile is_digit (unsigned_part (dropWhile is_space s))"
  "snd (snd (scan_int s)) = dropWhile is_digit (unsigned_part (dropWhile is_space s))"
  by (simp_all add: scan_int_def unsigned_part_def Let_def)

lemma read_int_Some: "read_int s = Some (v, r) \<longleftrightarrow>
  fst (scan_int s) \<noteq> [] \<and> int_range (fst (snd (scan_int s))) \<and> v = fst (snd (scan_int s)) \<and> r = snd (snd (scan_int s))"
  by (cases "scan_int s") (auto simp: read_int_def)

lemma read_int_shorter: "read_int s = Some (v, r) \<Longrightarrow> length r < length s"
  unfolding read_int_Some scan_int_parts
  using length_takeWhile_dropWhile[of is_digit "unsigned_part (dropWhile is_space s)"]
    unsigned_part_le[of "dropWhile is_space s"] length_dropWhile_le[of is_space s]
  by auto

lemma skip_comma_le: "length (skip_comma r) \<le> length r"
  by (cases r) (simp_all add: skip_comma_def)

function read_ints :: "string \<Rightarrow> int list" where
  "read_ints s = (case read_int s of None \<Rightarrow> [] | Some (v, r) \<Rightarrow> v # read_ints (skip_comma r))"
  by pat_completeness auto
termination
  by (relation "measure length") (auto intro: le_less_trans[OF skip_comma_le] read_int_shorter)

declare read_ints.simps [simp del]

section \<open>Options\<close>

record config =
  cf_allModels :: bool
  cf_diagPart :: bool
  cf_size :: int
  cf_time :: int
  cf_propLits :: bool
  cf_checkSols :: bool
  cf_checkFreq :: int
  cf_smaller :: bool
  cf_propagate :: bool
  cf_oldBreak :: bool
  cf_useBit :: bool
  cf_noCommander :: bool
  cf_diagonal :: "int list"
  cf_firstRow :: "int list"
  cf_fixedRow :: int
  cf_numToFix :: int
  cf_maxDepth :: int
  cf_maxMC :: int
  cf_out :: string
  cf_logging :: int

definition int_max :: int where
  "int_max = 2 ^ 31 - 1"

definition defaults :: config where
  "defaults = \<lparr>cf_allModels = False, cf_diagPart = False, cf_size = 3, cf_time = -1, cf_propLits = False,
     cf_checkSols = False, cf_checkFreq = 40, cf_smaller = False, cf_propagate = False, cf_oldBreak = False,
     cf_useBit = False, cf_noCommander = False, cf_diagonal = [], cf_firstRow = [], cf_fixedRow = 0,
     cf_numToFix = 0, cf_maxDepth = int_max, cf_maxMC = int_max, cf_out = [], cf_logging = 0\<rparr>"

text \<open>One round of the loop: \<open>a\<close> is the argument it looks at, \<open>rest\<close> what follows; the result is the rest for the next round.\<close>

type_synonym round = "(config \<times> string list) res"

definition with_value :: "string list \<Rightarrow> (string \<Rightarrow> string list \<Rightarrow> round) \<Rightarrow> round" where
  "with_value rest f = (case rest of [] \<Rightarrow> Inl UB | v # r \<Rightarrow> f v r)"

definition arg_logging :: "config \<Rightarrow> string \<Rightarrow> string list \<Rightarrow> round" where
  "arg_logging cf a rest = (if a = ''--logging''
     then with_value rest (\<lambda>v r. bindE (atoi v) (\<lambda>k. if 0 < k then Inr (cf\<lparr>cf_logging := k\<rparr>, r) else Inl ExitFailure))
     else Inr (cf, rest))"

definition arg_out :: "config \<Rightarrow> string \<Rightarrow> string list \<Rightarrow> round" where
  "arg_out cf a rest = (if a = ''--out'' then with_value rest (\<lambda>v r. arg_logging (cf\<lparr>cf_out := v\<rparr>) v r) else arg_logging cf a rest)"

definition arg_maxMC :: "config \<Rightarrow> string \<Rightarrow> string list \<Rightarrow> round" where
  "arg_maxMC cf a rest = (if a = ''--maxMC''
     then with_value rest (\<lambda>v r. bindE (atoi v) (\<lambda>k. if 0 < k then Inr (cf\<lparr>cf_maxMC := k\<rparr>, r) else Inl ExitFailure))
     else arg_out cf a rest)"

definition arg_maxDepth :: "config \<Rightarrow> string \<Rightarrow> string list \<Rightarrow> round" where
  "arg_maxDepth cf a rest = (if a = ''--maxDepth''
     then with_value rest (\<lambda>v r. bindE (atoi v) (\<lambda>k. if 0 < k then Inr (cf\<lparr>cf_maxDepth := k\<rparr>, r) else Inl ExitFailure))
     else arg_maxMC cf a rest)"

definition arg_unfixFR :: "config \<Rightarrow> string \<Rightarrow> string list \<Rightarrow> round" where
  "arg_unfixFR cf a rest = (if a = ''--unfixFR''
     then with_value rest (\<lambda>v r. bindE (atoi v) (\<lambda>k. if 0 < k then Inr (cf\<lparr>cf_fixedRow := -1, cf_numToFix := k\<rparr>, r)
            else arg_maxDepth (cf\<lparr>cf_fixedRow := -1\<rparr>) v r))
     else arg_maxDepth cf a rest)"

definition arg_fixFR :: "config \<Rightarrow> string \<Rightarrow> string list \<Rightarrow> round" where
  "arg_fixFR cf a rest = (if a = ''--fixFR''
     then with_value rest (\<lambda>v r. bindE (atoi v) (\<lambda>k. if 0 < k then Inr (cf\<lparr>cf_fixedRow := 1, cf_numToFix := k\<rparr>, r)
            else arg_unfixFR (cf\<lparr>cf_fixedRow := 1\<rparr>) v r))
     else arg_unfixFR cf a rest)"

definition arg_firstRow :: "config \<Rightarrow> string \<Rightarrow> string list \<Rightarrow> round" where
  "arg_firstRow cf a rest = (if a = ''--firstRow''
     then with_value rest (\<lambda>v r. let row = cf_firstRow cf @ read_ints v
            in if int (length row) \<noteq> cf_size cf then Inl ExitFailure else arg_fixFR (cf\<lparr>cf_firstRow := row\<rparr>) v r)
     else arg_fixFR cf a rest)"

definition arg_diag :: "config \<Rightarrow> string \<Rightarrow> string list \<Rightarrow> round" where
  "arg_diag cf a rest = (if a = ''--diag''
     then with_value rest (\<lambda>v r. let d = cf_diagonal cf @ read_ints v
            in if int (length d) \<noteq> cf_size cf then Inl ExitFailure
               else arg_firstRow (cf\<lparr>cf_diagonal := d, cf_diagPart := True\<rparr>) v r)
     else arg_firstRow cf a rest)"

text \<open>The options without a value, and those that take any number.\<close>

definition arg_round :: "config \<Rightarrow> string \<Rightarrow> string list \<Rightarrow> round" where
  "arg_round cf a rest =
     (if a = ''--allModels'' then Inr (cf\<lparr>cf_allModels := True\<rparr>, rest)
      else if a = ''--diagPart'' then Inr (cf\<lparr>cf_diagPart := True\<rparr>, rest)
      else if a = ''--size'' \<or> a = ''-s'' then with_value rest (\<lambda>v r. bindE (atoi v) (\<lambda>k. Inr (cf\<lparr>cf_size := k\<rparr>, r)))
      else if a = ''--time'' \<or> a = ''-t'' then with_value rest (\<lambda>v r. bindE (atoi v) (\<lambda>k. Inr (cf\<lparr>cf_time := k\<rparr>, r)))
      else if a = ''--propLits'' then Inr (cf\<lparr>cf_propLits := True\<rparr>, rest)
      else if a = ''--checkSols'' then Inr (cf\<lparr>cf_checkSols := True\<rparr>, rest)
      else if a = ''--checkFreq'' then with_value rest (\<lambda>v r. bindE (atoi v) (\<lambda>k. Inr (cf\<lparr>cf_checkFreq := k\<rparr>, r)))
      else if a = ''--smallerEncoding'' then Inr (cf\<lparr>cf_smaller := True\<rparr>, rest)
      else if a = ''--propagate'' then Inr (cf\<lparr>cf_propagate := True\<rparr>, rest)
      else if a = ''--oldBreak'' then Inr (cf\<lparr>cf_oldBreak := True\<rparr>, rest)
      else if a = ''--useBit'' then Inr (cf\<lparr>cf_useBit := True\<rparr>, rest)
      else if a = ''--noCommander'' then Inr (cf\<lparr>cf_noCommander := True\<rparr>, rest)
      else arg_diag cf a rest)"

text \<open>Every round consumes at least the argument it looks at, so the loop ends.\<close>

named_theorems round_defs

lemmas [round_defs] = arg_logging_def arg_out_def arg_maxMC_def arg_maxDepth_def arg_unfixFR_def arg_fixFR_def
  arg_firstRow_def arg_diag_def arg_round_def with_value_def

definition shrinks :: "string list \<Rightarrow> round \<Rightarrow> bool" where
  "shrinks rest x \<longleftrightarrow> (\<forall>cf r. x = Inr (cf, r) \<longrightarrow> length r \<le> length rest)"

lemma shrinks_simps [simp]:
  "shrinks rest (Inl e)" "shrinks rest (Inr (cf, rest))" "shrinks (v # r) (Inr (cf, r))"
  by (simp_all add: shrinks_def)

lemma shrinks_value: "(\<And>v r. shrinks r (f v r)) \<Longrightarrow> shrinks rest (with_value rest f)"
  by (cases rest) (fastforce simp: with_value_def shrinks_def intro: le_SucI)+

lemma shrinks_bind: "(\<And>k. shrinks rest (f k)) \<Longrightarrow> shrinks rest (bindE x f)"
  by (cases x) simp_all

lemma shrinks_if: "shrinks rest x \<Longrightarrow> shrinks rest y \<Longrightarrow> shrinks rest (if b then x else y)"
  by simp

lemma shrinks_let: "(\<And>v. shrinks rest (f v)) \<Longrightarrow> shrinks rest (let v = x in f v)"
  by simp

named_theorems arg_shrinks

lemma arg_logging_shrinks [arg_shrinks]: "shrinks rest (arg_logging cf a rest)"
  unfolding arg_logging_def by (intro shrinks_value shrinks_bind shrinks_if) simp_all

lemma arg_out_shrinks [arg_shrinks]: "shrinks rest (arg_out cf a rest)"
  unfolding arg_out_def by (intro shrinks_value shrinks_if arg_shrinks)

lemma arg_maxMC_shrinks [arg_shrinks]: "shrinks rest (arg_maxMC cf a rest)"
  unfolding arg_maxMC_def by (intro shrinks_value shrinks_bind shrinks_if arg_shrinks) simp_all

lemma arg_maxDepth_shrinks [arg_shrinks]: "shrinks rest (arg_maxDepth cf a rest)"
  unfolding arg_maxDepth_def by (intro shrinks_value shrinks_bind shrinks_if arg_shrinks) simp_all

lemma arg_unfixFR_shrinks [arg_shrinks]: "shrinks rest (arg_unfixFR cf a rest)"
  unfolding arg_unfixFR_def by (intro shrinks_value shrinks_bind shrinks_if arg_shrinks) simp_all

lemma arg_fixFR_shrinks [arg_shrinks]: "shrinks rest (arg_fixFR cf a rest)"
  unfolding arg_fixFR_def by (intro shrinks_value shrinks_bind shrinks_if arg_shrinks) simp_all

lemma arg_firstRow_shrinks [arg_shrinks]: "shrinks rest (arg_firstRow cf a rest)"
  unfolding arg_firstRow_def by (intro shrinks_value shrinks_let shrinks_if arg_shrinks) simp_all

lemma arg_diag_shrinks [arg_shrinks]: "shrinks rest (arg_diag cf a rest)"
  unfolding arg_diag_def by (intro shrinks_value shrinks_let shrinks_if arg_shrinks) simp_all

lemma arg_round_shrinks: "shrinks rest (arg_round cf a rest)"
  unfolding arg_round_def by (intro shrinks_value shrinks_bind shrinks_if arg_shrinks) simp_all

lemma bindE_fundef_cong [fundef_cong]:
  "x = y \<Longrightarrow> (\<And>v. y = Inr v \<Longrightarrow> f v = g v) \<Longrightarrow> bindE x f = bindE y g"
  by (cases y) simp_all

function parse_args :: "config \<Rightarrow> string list \<Rightarrow> config res" where
  "parse_args cf [] = Inr cf"
| "parse_args cf (a # rest) = bindE (arg_round cf a rest) (\<lambda>(cf', r). parse_args cf' r)"
  by pat_completeness auto
termination
proof (relation "measure (\<lambda>(cf, xs). length xs)", goal_cases)
  case (2 cf a rest x cf' r)
  then show ?case using arg_round_shrinks[of rest cf a] by (cases x) (simp add: shrinks_def le_imp_less_Suc)
qed simp

section \<open>The ranges of the settings\<close>

definition config_ok :: "config \<Rightarrow> bool" where
  "config_ok cf \<longleftrightarrow> int_range (cf_size cf) \<and> int_range (cf_time cf) \<and> int_range (cf_checkFreq cf) \<and>
     (\<forall>x\<in>set (cf_diagonal cf @ cf_firstRow cf). int_range x) \<and> cf_fixedRow cf \<in> {-1, 0, 1} \<and>
     0 \<le> cf_numToFix cf \<and> int_range (cf_numToFix cf) \<and> 0 < cf_maxDepth cf \<and> int_range (cf_maxDepth cf) \<and>
     0 < cf_maxMC cf \<and> int_range (cf_maxMC cf) \<and> 0 \<le> cf_logging cf \<and> int_range (cf_logging cf) \<and>
     (cf_diagonal cf \<noteq> [] \<longrightarrow> cf_diagPart cf)"

definition round_ok :: "round \<Rightarrow> bool" where
  "round_ok x \<longleftrightarrow> (\<forall>cf r. x = Inr (cf, r) \<longrightarrow> config_ok cf)"

lemma round_okI: "round_ok (Inl e)" "config_ok cf \<Longrightarrow> round_ok (Inr (cf, r))"
  by (simp_all add: round_ok_def)

lemma round_ok_value: "(\<And>v r. round_ok (f v r)) \<Longrightarrow> round_ok (with_value rest f)"
  by (cases rest) (simp_all add: with_value_def round_okI)

lemma atoi_range: "atoi v = Inr k \<Longrightarrow> int_range k"
  by (auto simp: atoi_def split: prod.splits if_splits)

lemma round_ok_atoi: "(\<And>k. int_range k \<Longrightarrow> round_ok (f k)) \<Longrightarrow> round_ok (bindE (atoi v) f)"
  using atoi_range by (cases "atoi v") (simp_all add: round_okI)

lemma round_ok_if: "(b \<Longrightarrow> round_ok x) \<Longrightarrow> (\<not> b \<Longrightarrow> round_ok y) \<Longrightarrow> round_ok (if b then x else y)"
  by simp

lemma read_ints_range: "x \<in> set (read_ints s) \<Longrightarrow> int_range x"
proof (induction s rule: read_ints.induct)
  case (1 s)
  show ?case
  proof (cases "read_int s")
    case None
    then show ?thesis using 1(2) by (simp add: read_ints.simps[of s])
  next
    case (Some vr)
    obtain v r where vr: "vr = (v, r)" by fastforce
    then have "x = v \<or> x \<in> set (read_ints (skip_comma r))" using 1(2) Some by (simp add: read_ints.simps[of s])
    then show ?thesis using 1(1)[OF Some vr[symmetric]] Some vr read_int_Some by auto
  qed
qed

lemmas round_ok_intros = round_ok_value round_ok_atoi round_ok_if round_okI

named_theorems arg_ok

lemma arg_logging_ok [arg_ok]: "config_ok cf \<Longrightarrow> round_ok (arg_logging cf a rest)"
  unfolding arg_logging_def by (intro round_ok_intros) (simp_all add: config_ok_def)

lemma arg_out_ok [arg_ok]: "config_ok cf \<Longrightarrow> round_ok (arg_out cf a rest)"
  unfolding arg_out_def by (intro round_ok_intros arg_ok) (simp_all add: config_ok_def)

lemma arg_maxMC_ok [arg_ok]: "config_ok cf \<Longrightarrow> round_ok (arg_maxMC cf a rest)"
  unfolding arg_maxMC_def by (intro round_ok_intros arg_ok) (simp_all add: config_ok_def)

lemma arg_maxDepth_ok [arg_ok]: "config_ok cf \<Longrightarrow> round_ok (arg_maxDepth cf a rest)"
  unfolding arg_maxDepth_def by (intro round_ok_intros arg_ok) (simp_all add: config_ok_def)

lemma arg_unfixFR_ok [arg_ok]: "config_ok cf \<Longrightarrow> round_ok (arg_unfixFR cf a rest)"
  unfolding arg_unfixFR_def by (intro round_ok_intros arg_ok) (simp_all add: config_ok_def)

lemma arg_fixFR_ok [arg_ok]: "config_ok cf \<Longrightarrow> round_ok (arg_fixFR cf a rest)"
  unfolding arg_fixFR_def by (intro round_ok_intros arg_ok) (simp_all add: config_ok_def)

lemma arg_firstRow_ok [arg_ok]: "config_ok cf \<Longrightarrow> round_ok (arg_firstRow cf a rest)"
  unfolding arg_firstRow_def Let_def by (intro round_ok_intros arg_ok) (auto simp: config_ok_def read_ints_range)

lemma arg_diag_ok [arg_ok]: "config_ok cf \<Longrightarrow> round_ok (arg_diag cf a rest)"
  unfolding arg_diag_def Let_def by (intro round_ok_intros arg_ok) (auto simp: config_ok_def read_ints_range)

lemma arg_round_ok: "config_ok cf \<Longrightarrow> round_ok (arg_round cf a rest)"
  unfolding arg_round_def by (intro round_ok_intros arg_ok) (simp_all add: config_ok_def)

lemma parse_args_ok: "config_ok cf \<Longrightarrow> parse_args cf args = Inr cf' \<Longrightarrow> config_ok cf'"
proof (induction cf args rule: parse_args.induct)
  case (2 cf a rest)
  then obtain cf1 r where r: "arg_round cf a rest = Inr (cf1, r)" "parse_args cf1 r = Inr cf'"
    by (auto simp: bindE_eq_Inr)
  then have "config_ok cf1" using arg_round_ok[OF 2(2), of a rest] by (simp add: round_ok_def)
  then show ?case using 2(1)[OF r(1) refl _ r(2)] by simp
qed simp

lemma defaults_ok: "config_ok defaults"
  by (simp add: config_ok_def defaults_def int_range_def int_max_def)

text \<open>
  C28: whatever the arguments are, the settings the program goes on with are in range: every number fits an
  \<open>int\<close>, the limits are positive, the number of rows to fix is not negative, and a diagonal comes with
  \<open>diagPart\<close>.
\<close>

theorem settings_in_range:
  assumes "parse_args defaults args = Inr cf"
  shows "config_ok cf"
  by (rule parse_args_ok[OF defaults_ok assms])

theorem settings_in_range_witness: "config_ok (projr (parse_args defaults [''--size'', ''4'', ''--maxMC'', ''100'']))"
proof -
  have "isl (parse_args defaults [''--size'', ''4'', ''--maxMC'', ''100'']) = False" by code_simp
  then obtain cf where "parse_args defaults [''--size'', ''4'', ''--maxMC'', ''100''] = Inr cf"
    by (cases "parse_args defaults [''--size'', ''4'', ''--maxMC'', ''100'']") auto
  with settings_in_range[OF this] show ?thesis by simp
qed

section \<open>Numbers read back\<close>

text \<open>What the program prints as a number is read as that number, up to the range of \<open>int\<close>.\<close>

lemma code_digit [simp]: "d < 10 \<Longrightarrow> code (char_of (48 + d)) = 48 + d"
  by (simp add: code_def)

lemma char_of_digit: "(d :: nat) < 10 \<Longrightarrow> is_digit (char_of (48 + d))"
  by (simp add: is_digit_def)

lemma digits_step: "digits k = (if k < 10 then [char_of (48 + k)] else digits (k div 10) @ [char_of (48 + k mod 10)])"
  by simp

declare digits.simps [simp del]

lemma digits_ok: "digits k \<noteq> [] \<and> list_all is_digit (digits k) \<and> number (digits k) = int k"
proof (induction k rule: digits.induct)
  case (1 k)
  show ?case
  proof (cases "k < 10")
    case True
    then show ?thesis by (simp add: digits_step[of k] char_of_digit number_def)
  next
    case False
    have "int (k mod 10) + 10 * int (k div 10) = int k" by presburger
    then show ?thesis
      using 1[OF False] False by (simp add: digits_step[of k] char_of_digit number_def algebra_simps)
  qed
qed

lemma digit_first: "is_digit c \<Longrightarrow> \<not> is_space c \<and> c \<noteq> CHR ''-'' \<and> c \<noteq> CHR ''+''"
  by (auto simp: is_digit_def is_space_def code_def)

lemma scan_digits:
  assumes "r = [] \<or> \<not> is_digit (hd r)"
  shows "scan_int (digits k @ r) = (digits k, int k, r)"
proof -
  obtain c cs where d: "digits k = c # cs" using digits_ok[of k] by (cases "digits k") auto
  have "is_digit c" "\<forall>x\<in>set cs. is_digit x" using digits_ok[of k] d by (auto simp: list_all_iff)
  moreover from this have "takeWhile is_digit (cs @ r) = cs" "dropWhile is_digit (cs @ r) = r"
    using assms by (cases r; simp)+
  moreover have "number (c # cs) = int k" using digits_ok[of k] d by simp
  ultimately show ?thesis using digit_first[of c] by (simp add: scan_int_def d)
qed

lemma int_range_nat: "k < 2 ^ 31 \<Longrightarrow> int_range (int k)"
  by (simp add: int_range_def)

lemma atoi_digits: "k < 2 ^ 31 \<Longrightarrow> atoi (digits k) = Inr (int k)"
  using scan_digits[of "[]" k] int_range_nat[of k] by (simp add: atoi_def)

text \<open>A line of \<^verbatim>\<open>diagonals.txt\<close> (\<^verbatim>\<open>main_diagMaker.cpp\<close>) without its end.\<close>

definition diag_line :: "nat list \<Rightarrow> string" where
  "diag_line d = concat (map (\<lambda>i. digits i @ '','') d)"

lemma read_ints_line: "\<forall>i\<in>set d. i < 2 ^ 31 \<Longrightarrow> read_ints (diag_line d) = map int d"
proof (induction d)
  case Nil
  show ?case by (subst read_ints.simps) (simp add: diag_line_def read_int_def scan_int_def)
next
  case (Cons i d)
  have nd: "\<not> is_digit (CHR '','')" by (simp add: is_digit_def code_def)
  have l: "diag_line (i # d) = digits i @ ('','' @ diag_line d)" by (simp add: diag_line_def)
  have "read_int (diag_line (i # d)) = Some (int i, '','' @ diag_line d)"
    unfolding l read_int_def using scan_digits[of "'','' @ diag_line d" i] nd digits_ok[of i] int_range_nat[of i] Cons.prems by simp
  then show ?case using Cons by (subst read_ints.simps) (simp add: skip_comma_def)
qed

text \<open>The file \<^verbatim>\<open>diagonals.txt\<close>: one line for each diagonal.\<close>

definition diagMaker :: "nat \<Rightarrow> string res" where
  "diagMaker n = bindE (all_diagonals n) (\<lambda>ds. Inr (concat (map (\<lambda>d. diag_line d @ [char_of (10 :: nat)]) ds)))"

section \<open>A diagonal on the command line\<close>

lemma option_names:
  "arg_round cf ''--size'' (v # r) = bindE (atoi v) (\<lambda>k. Inr (cf\<lparr>cf_size := k\<rparr>, r))"
  "arg_round cf ''--diag'' (v # r) = (let d = cf_diagonal cf @ read_ints v
     in if int (length d) \<noteq> cf_size cf then Inl ExitFailure
        else arg_firstRow (cf\<lparr>cf_diagonal := d, cf_diagPart := True\<rparr>) v r)"
  by (simp_all add: arg_round_def arg_diag_def with_value_def)

text \<open>A value that does not start like an option is none, so the round ends with it.\<close>

lemma arg_firstRow_value:
  assumes "take 2 v \<noteq> ''--''"
  shows "arg_firstRow cf v r = Inr (cf, r)"
proof -
  have "v \<noteq> x" if "take 2 x = ''--''" for x using that assms by auto
  then show ?thesis
    by (simp add: arg_firstRow_def arg_fixFR_def arg_unfixFR_def arg_maxDepth_def arg_maxMC_def arg_out_def arg_logging_def)
qed

lemma line_no_option: "take 2 (diag_line d) \<noteq> ''--''"
proof (cases d)
  case (Cons i e)
  obtain c cs where "digits i = c # cs" "is_digit c" using digits_ok[of i] by (cases "digits i") auto
  then show ?thesis using Cons digit_first[of c] by (simp add: diag_line_def)
qed (simp add: diag_line_def)

text \<open>
  C29: a line of the file the diagonal maker writes, given as \<open>--diag\<close> after the \<open>--size\<close> it was made
  for, is read as that diagonal.
\<close>

theorem diagonal_line_roundtrip:
  assumes "diagMaker n = Inr f" "all_diagonals n = Inr ds" "d \<in> set ds" "1 \<le> n" "n < 2 ^ 31"
  shows "parse_args defaults [''--size'', digits n, ''--diag'', diag_line d] =
      Inr (defaults\<lparr>cf_size := int n, cf_diagonal := map int d, cf_diagPart := True\<rparr>) \<and>
    (\<exists>before after. f = before @ diag_line d @ char_of (10 :: nat) # after)"
proof -
  have "length d = n" "perm_on n (\<lambda>i. d ! i)" using all_diagonals_permutations[OF assms(4,2,3)] by auto
  then have d: "length d = n" "\<forall>i\<in>set d. i < 2 ^ 31" using assms(5) perm_on_less by (auto simp: in_set_conv_nth) (metis order_less_trans)
  have "parse_args defaults [''--size'', digits n, ''--diag'', diag_line d] =
      Inr (defaults\<lparr>cf_size := int n, cf_diagonal := map int d, cf_diagPart := True\<rparr>)"
    using d arg_firstRow_value[OF line_no_option]
    by (simp add: option_names atoi_digits[OF assms(5)] read_ints_line[OF d(2)] defaults_def)
  moreover obtain xs ys where "ds = xs @ d # ys" using assms(3) by (metis split_list)
  then have "f = concat (map (\<lambda>d. diag_line d @ [char_of (10 :: nat)]) xs) @ diag_line d @ char_of (10 :: nat) #
      concat (map (\<lambda>d. diag_line d @ [char_of (10 :: nat)]) ys)"
    using assms(1,2) by (simp add: diagMaker_def)
  ultimately show ?thesis by blast
qed

text \<open>
  C31: the options are read in their order: the same line before its \<open>--size\<close> is compared with the
  default size 3, and the program is left unless it has three elements.
\<close>

theorem diagonal_before_size_exits:
  assumes "\<forall>i\<in>set d. i < 2 ^ 31" "length d \<noteq> 3"
  shows "parse_args defaults (''--diag'' # diag_line d # ''--size'' # digits (length d) # rest) = Inl ExitFailure"
  using assms(2) by (simp add: option_names read_ints_line[OF assms(1)] defaults_def)

text \<open>
  C32: the value of \<open>--out\<close> is looked at as an option again: a file called like the option
  \<open>--logging\<close> takes the argument after it.
\<close>

theorem out_value_is_option:
  assumes "0 < k" "k < 2 ^ 31"
  shows "parse_args cf (''--out'' # ''--logging'' # digits k # rest) = parse_args (cf\<lparr>cf_out := ''--logging'', cf_logging := int k\<rparr>) rest"
  using assms
  by (simp add: arg_round_def arg_diag_def arg_firstRow_def arg_fixFR_def arg_unfixFR_def arg_maxDepth_def arg_maxMC_def
      arg_out_def arg_logging_def with_value_def atoi_digits)

theorem diagonal_line_roundtrip_witness:
  "\<exists>f. diagMaker 3 = Inr f \<and> parse_args defaults [''--size'', digits 3, ''--diag'', diag_line [1, 0, 2]] =
     Inr (defaults\<lparr>cf_size := 3, cf_diagonal := [1, 0, 2], cf_diagPart := True\<rparr>)"
proof -
  have "isl (all_diagonals 3) = False" "[1, 0, 2] \<in> set (projr (all_diagonals 3))" by code_simp+
  then obtain ds where ds: "all_diagonals 3 = Inr ds" "[1, 0, 2] \<in> set ds" by (cases "all_diagonals 3") auto
  obtain f where f: "diagMaker 3 = Inr f" by (simp add: diagMaker_def ds)
  show ?thesis using diagonal_line_roundtrip[OF f ds] f by simp
qed

theorem diagonal_before_size_exits_witness:
  "parse_args defaults [''--diag'', diag_line [1, 0], ''--size'', digits 2] = Inl ExitFailure"
proof -
  have d: "\<forall>i\<in>set [1, 0]. i < (2 :: nat) ^ 31" "length [1, 0 :: nat] \<noteq> 3" and l: "length [1, 0 :: nat] = 2" by simp_all
  show ?thesis using diagonal_before_size_exits[OF d, of "[]"] unfolding l .
qed

theorem out_value_is_option_witness:
  "cf_logging (projr (parse_args defaults [''--out'', ''--logging'', digits 2])) = 2"
  using out_value_is_option[of 2 defaults "[]"] by simp

end
