(* ===== verification/Program.thy ===== *)
theory Program
  imports Propagator_Start Classification Command_Line Encode_Rows
begin

text \<open>
  The program as a whole (\<^verbatim>\<open>main.cpp\<close> after the options; \<open>CadicalSolver::solve\<close> in
  \<^verbatim>\<open>solveCadicalClass.cpp\<close>): the three modes, the check before the solver is created, and the loop
  that calls the SAT solver as long as it answers 10.

  Parameter: \<open>sat\<close> is one call of the SAT solver, which runs the callbacks on the propagator; it returns its
  answer and the state of the propagator afterwards. \<open>answers\<close> says what is documented of it.
\<close>

section \<open>Settings\<close>

definition config_flags :: "config \<Rightarrow> flags" where
  "config_flags cf = \<lparr>fl_diag = cf_diagPart cf, fl_smaller = cf_smaller cf, fl_prop = cf_propagate cf,
     fl_old = cf_oldBreak cf, fl_bit = cf_useBit cf, fl_maxDepth = cf_maxDepth cf, fl_maxMC = cf_maxMC cf\<rparr>"

definition config_opts :: "config \<Rightarrow> opts" where
  "config_opts cf = \<lparr>op_fl = config_flags cf, op_allModels = cf_allModels cf, op_propLits = cf_propLits cf,
     op_checkSols = cf_checkSols cf, op_checkFreq = cf_checkFreq cf, op_fixedRow = cf_fixedRow cf, op_saveState = False\<rparr>"

section \<open>One solver\<close>

type_synonym sat = "solver \<Rightarrow> int \<times> solver"

text \<open>The loop of \<open>solve\<close>; \<open>None\<close> when it does not end.\<close>

partial_function (option) solve_loop :: "sat \<Rightarrow> solver \<Rightarrow> solver option" where
  "solve_loop sat s = (case sat s of (r, s') \<Rightarrow> if r = 10 then solve_loop sat s' else Some s')"

text \<open>
  One job: the formula is checked, the solver is created and called; the result is its number of
  models. \<open>None\<close> is a job that does not return, \<open>Some (Inl e)\<close> one that leaves the program.
\<close>

definition run_job :: "sat \<Rightarrow> opts \<Rightarrow> nat \<Rightarrow> nat \<times> nat \<Rightarrow> int list \<Rightarrow> int list \<Rightarrow> lits3 \<times> enc \<Rightarrow> nat res option" where
  "run_job sat op n beyond d firstRow f =
     (case bindE (prepare f) (\<lambda>(L, F, h). new_solver op n beyond True F d firstRow L) of
        Inl e \<Rightarrow> Some (Inl e)
      | Inr s \<Rightarrow> map_option (\<lambda>s'. Inr (sv_nModels s')) (solve_loop sat s))"

text \<open>
  The loop over the diagonals, with the sum of the numbers of models. For 20 diagonals and more the jobs
  run in parallel; each has its own solver and its own place in \<open>numSols\<close>.
\<close>

primrec run_jobs :: "('a \<Rightarrow> nat res option) \<Rightarrow> 'a list \<Rightarrow> nat res option" where
  "run_jobs job [] = Some (Inr 0)"
| "run_jobs job (d # ds) = (case job d of None \<Rightarrow> None | Some (Inl e) \<Rightarrow> Some (Inl e)
     | Some (Inr m) \<Rightarrow> map_option (\<lambda>r. bindE r (\<lambda>k. Inr (m + k))) (run_jobs job ds))"

section \<open>The modes\<close>

text \<open>
  A given diagonal is read at the elements below the size, and its values index the literals; a
  negative size is no length of a vector, and the exception is not caught.
\<close>

definition diag_readable :: "nat \<Rightarrow> int list \<Rightarrow> bool" where
  "diag_readable n d \<longleftrightarrow> n \<le> length d \<and> list_all (\<lambda>x. 0 \<le> x \<and> x < int n) d"

definition run_all :: "sat \<Rightarrow> nat \<times> nat \<Rightarrow> config \<Rightarrow> nat res option" where
  "run_all sat beyond cf = (let n = nat (cf_size cf)
     in run_job sat (config_opts cf) n beyond [] [] (encode_all (cf_noCommander cf) n))"

definition run_diagonals :: "sat \<Rightarrow> nat \<times> nat \<Rightarrow> config \<Rightarrow> nat res option" where
  "run_diagonals sat beyond cf = (let n = nat (cf_size cf)
     in case all_diagonals n of Inl e \<Rightarrow> Some (Inl e)
        | Inr ds \<Rightarrow> run_jobs (\<lambda>d. run_job sat (config_opts cf) n beyond (map int d) []
            (encode_diag (cf_noCommander cf) (cf_smaller cf) n d)) ds)"

definition run_fixed :: "sat \<Rightarrow> nat \<times> nat \<Rightarrow> config \<Rightarrow> nat res option" where
  "run_fixed sat beyond cf = (let n = nat (cf_size cf)
     in if \<not> diag_readable n (cf_diagonal cf) then Some (Inl UB)
        else case encode_fixed (cf_noCommander cf) (cf_smaller cf) n (map nat (cf_diagonal cf)) (cf_fixedRow cf) (cf_firstRow cf) (nat (cf_numToFix cf)) of
          Inl e \<Rightarrow> Some (Inl e)
        | Inr f \<Rightarrow> run_job sat (config_opts cf) n beyond (cf_diagonal cf) (cf_firstRow cf) f)"

definition run_program :: "sat \<Rightarrow> nat \<times> nat \<Rightarrow> config \<Rightarrow> nat res option" where
  "run_program sat beyond cf =
     (if cf_size cf < 0 then Some (Inl ExitFailure)
      else if \<not> cf_diagPart cf then run_all sat beyond cf
      else if cf_diagonal cf = [] then run_diagonals sat beyond cf
      else run_fixed sat beyond cf)"

definition ybe_sms :: "sat \<Rightarrow> nat \<times> nat \<Rightarrow> string list \<Rightarrow> nat res option" where
  "ybe_sms sat beyond args = (case parse_args defaults args of Inl e \<Rightarrow> Some (Inl e) | Inr cf \<Rightarrow> run_program sat beyond cf)"

section \<open>What is documented of the SAT solver\<close>

text \<open>
  From every state a call ends in a state of a run; the tables that are printed are tables of models of the
  formula; the answer is 10 only after \<open>cb_check_found_model\<close> has accepted a model, and otherwise 20,
  only when the clauses are refuted.
\<close>

definition tables_shown :: "nat \<Rightarrow> solver \<Rightarrow> bool" where
  "tables_shown n s \<longleftrightarrow> (\<forall>Ns. sv_out s = output_of n Ns \<longrightarrow> (\<forall>N\<in>set Ns. cycle_set n N))"

definition answers :: "sat \<Rightarrow> opts \<Rightarrow> nat \<Rightarrow> (nat \<Rightarrow> nat) \<Rightarrow> (int \<Rightarrow> int) \<Rightarrow> cnf \<Rightarrow> solver \<Rightarrow> bool" where
  "answers sat op n t val F s0 \<longleftrightarrow> (\<forall>G s. sat_run op n t val s0 G s \<longrightarrow>
     (case sat s of (r, s') \<Rightarrow> \<exists>G'. sat_run op n t val s0 G' s' \<and> tables_shown n s' \<and>
        (r = 10 \<and> (\<exists>s1. cb_check_found_model op n val s1 = Inr (True, s')) \<or> r = 20 \<and> refuted F G' s')))"

lemma answersE:
  assumes "answers sat op n t val F s0" "sat_run op n t val s0 G s"
  obtains r s' G' where "sat s = (r, s')" "sat_run op n t val s0 G' s'" "tables_shown n s'"
    "r = 10 \<and> (\<exists>s1. cb_check_found_model op n val s1 = Inr (True, s')) \<or> r = 20 \<and> refuted F G' s'"
proof -
  obtain r s' where rs: "sat s = (r, s')" by fastforce
  note C = assms(1)[unfolded answers_def, rule_format, OF assms(2), unfolded rs prod.case]
  show thesis using C that[OF rs] by blast
qed

lemma accepted_single: "cb_check_found_model op n val s = Inr (True, s') \<Longrightarrow> \<not> op_allModels op"
  by (auto simp: cb_check_found_model_def check_def Let_def bindE_eq_Inr split: if_splits)

section \<open>The jobs start\<close>

text \<open>Every permutation is the diagonal of a cycle set: the one whose rows are all this permutation.\<close>

lemma constant_rows: "perm_on n t \<Longrightarrow> cycle_set n (\<lambda>i j. t j)"
  by (simp add: cycle_set_def row_perms_def diag_perm_def cycle_law_def)

lemma mode_table:
  assumes "search_mode fl n q"
  shows "\<exists>N. cycle_set n N \<and> has_diag n (diag_of fl (diag_fun n q)) N"
proof (cases "fl_diag fl")
  case True
  have "perm_on n (diag_fun n q)" using diag_ints_vec assms by (auto simp: search_mode_def diag_vec_def perm_vec_def)
  from constant_rows[OF this] show ?thesis by (auto simp: has_diag_def diag_of_def)
next
  case False
  then show ?thesis using constant_rows[OF perm_on_id] by (auto simp: has_diag_def diag_of_def)
qed

lemma job_starts:
  assumes m: "search_mode (op_fl op) n q" "op_fixedRow op \<le> 0" and f: "formula_of (op_fl op) nc n q = (L, e)"
  obtains s0 where "new_solver op n beyond True (fst e) (run_diag (op_fl op) n q) firstRow L = Inr s0"
    "run_job sat op n beyond (run_diag (op_fl op) n q) firstRow (formula_of (op_fl op) nc n q) =
       map_option (\<lambda>s. Inr (sv_nModels s)) (solve_loop sat s0)"
    "run_inv op n q L [] [] s0"
proof -
  let ?fl = "op_fl op"
  obtain N where N: "cycle_set n N" "has_diag n (diag_of ?fl (diag_fun n q)) N" using mode_table[OF m(1)] by blast
  have clean: "\<not> list_ex (\<lambda>c. c = [] \<or> 0 \<in> set c) (fst e)" by (rule formula_clean[OF m(1) f N])
  then have z: "\<not> has_zero (fst e)" by (auto simp: has_zero_def list_ex_iff)
  have R: "run_ok ?fl n q L" by (rule formula_run_ok[OF m(1) f])
  have M0: "\<exists>M. mc_new ?fl n beyond (run_diag ?fl n q) L = Inr M"
    using constructor_started[of ?fl n q beyond L] m(1) by (auto simp: search_mode_def run_diag_def mc_new_def)
  then obtain M where M: "mc_new ?fl n beyond (run_diag ?fl n q) L = Inr M" by blast
  obtain s0 where s0: "new_solver op n beyond True (fst e) (run_diag ?fl n q) firstRow L = Inr s0"
    using new_solver_init[OF clean m(2) M] by blast
  have "run_job sat op n beyond (run_diag ?fl n q) firstRow (formula_of ?fl nc n q) =
      map_option (\<lambda>s. Inr (sv_nModels s)) (solve_loop sat s0)"
    using z s0 by (simp add: run_job_def f prepare_def)
  then show thesis using that s0 new_solver_inv[OF R m(2) s0] by blast
qed

section \<open>One job counts the canonical tables\<close>

definition canon_set :: "nat \<Rightarrow> (nat \<Rightarrow> nat) option \<Rightarrow> nat list set" where
  "canon_set n T = mlist n ` {M. cycle_set n M \<and> has_diag n T M \<and> lexmin n T M}"

lemma differ_mlist: "differ n M N \<longleftrightarrow> mlist n M \<noteq> mlist n N"
  by (auto simp: differ_def mlist_eq_iff)

lemma sorted_wrt_differ: "sorted_wrt (differ n) Ns \<Longrightarrow> distinct (map (mlist n) Ns)"
  by (induction Ns) (auto simp: differ_mlist)

lemma finished_count:
  assumes m: "search_mode (op_fl op) n q" "op_fixedRow op \<le> 0" and a: "op_allModels op"
    and r: "reaches op nc n q beyond val G s" "refuted (fst (snd (formula_of (op_fl op) nc n q))) G s" "tables_shown n s"
  shows "sv_nModels s = card (canon_set n (diag_of (op_fl op) (diag_fun n q)))"
proof -
  let ?T = "diag_of (op_fl op) (diag_fun n q)"
  obtain Ns where Ns: "sv_out s = output_of n Ns" "sv_nModels s = length Ns"
    "\<forall>N. cycle_set n N \<and> has_diag n ?T N \<and> lexmin n ?T N \<longrightarrow> (\<exists>M\<in>set Ns. \<not> differ n M N)"
    "\<forall>N\<in>set Ns. has_diag n ?T N" "\<forall>N\<in>set Ns. row_perms n N \<longrightarrow> lexmin n ?T N" "sorted_wrt (differ n) Ns"
    using enumeration[OF m r(1,2)] a by (auto simp: excluded_def)
  have cs: "\<forall>N\<in>set Ns. cycle_set n N" using r(3) Ns(1) by (simp add: tables_shown_def)
  have "canon_set n ?T \<subseteq> mlist n ` set Ns"
  proof
    fix x assume "x \<in> canon_set n ?T"
    then obtain N where N: "x = mlist n N" "cycle_set n N \<and> has_diag n ?T N \<and> lexmin n ?T N" by (auto simp: canon_set_def)
    then obtain M where "M \<in> set Ns" "\<not> differ n M N" using Ns(3) by blast
    then show "x \<in> mlist n ` set Ns" using N(1) by (metis differ_mlist image_eqI)
  qed
  moreover have "mlist n ` set Ns \<subseteq> canon_set n ?T"
    using cs Ns(4,5) by (auto simp: canon_set_def cycle_set_def)
  ultimately have "canon_set n ?T = set (map (mlist n) Ns)" by auto
  then show ?thesis using distinct_card[OF sorted_wrt_differ[OF Ns(6)]] Ns(2) by simp
qed

lemma job_counts:
  assumes m: "search_mode (op_fl op) n q" "op_fixedRow op \<le> 0" and al: "op_allModels op"
    and a: "\<And>L e s0. formula_of (op_fl op) nc n q = (L, e) \<Longrightarrow>
      new_solver op n beyond True (fst e) (run_diag (op_fl op) n q) [] L = Inr s0 \<Longrightarrow>
      \<exists>val. answers sat op n (diag_fun n q) val (fst e) s0"
  shows "run_job sat op n beyond (run_diag (op_fl op) n q) [] (formula_of (op_fl op) nc n q) =
    Some (Inr (card (canon_set n (diag_of (op_fl op) (diag_fun n q)))))"
proof -
  obtain L e where f: "formula_of (op_fl op) nc n q = (L, e)" by (cases "formula_of (op_fl op) nc n q")
  from m f obtain s0 where s0: "new_solver op n beyond True (fst e) (run_diag (op_fl op) n q) [] L = Inr s0"
    "run_job sat op n beyond (run_diag (op_fl op) n q) [] (formula_of (op_fl op) nc n q) =
       map_option (\<lambda>s. Inr (sv_nModels s)) (solve_loop sat s0)"
    by (rule job_starts)
  obtain val where "answers sat op n (diag_fun n q) val (fst e) s0" using a[OF f s0(1)] by blast
  from answersE[OF this sat_run.start] obtain r s' G' where
    r: "sat s0 = (r, s')" "sat_run op n (diag_fun n q) val s0 G' s'" "tables_shown n s'"
      "r = 10 \<and> (\<exists>s1. cb_check_found_model op n val s1 = Inr (True, s')) \<or> r = 20 \<and> refuted (fst e) G' s'" by blast
  then have "r = 20" "refuted (fst e) G' s'" using accepted_single al by blast+
  moreover have "reaches op nc n q beyond val G' s'" using f s0(1) r(2) by (auto simp: reaches_def)
  ultimately have "sv_nModels s' = card (canon_set n (diag_of (op_fl op) (diag_fun n q)))"
    using finished_count[OF m al _ _ r(3), of nc beyond val G'] f by simp
  moreover have "solve_loop sat s0 = Some s'" using r(1) \<open>r = 20\<close> by (subst solve_loop.simps) simp
  ultimately show ?thesis using s0(2) by simp
qed

section \<open>Isomorphism classes\<close>

definition tables :: "nat \<Rightarrow> nat list set" where
  "tables n = mlist n ` {N. cycle_set n N}"

definition same_class :: "nat \<Rightarrow> (nat list \<times> nat list) set" where
  "same_class n = {(mlist n M, mlist n N) | M N. cycle_set n M \<and> cycle_set n N \<and> isomorphic n M N}"

lemma cycle_set_rows: "cycle_set n N \<Longrightarrow> row_perms n N"
  by (simp add: cycle_set_def)

lemma isomorphic_refl: "mlist n M = mlist n N \<Longrightarrow> isomorphic n M N"
  unfolding isomorphic_def carries_def by (rule exI[of _ "\<lambda>i. i"]) (simp add: mlist_eq_iff perm_on_id)

lemma isomorphic_sym: "isomorphic n M N \<Longrightarrow> row_perms n M \<Longrightarrow> isomorphic n N M"
  unfolding isomorphic_def using carries_inv by blast

lemma isomorphic_trans: "isomorphic n L M \<Longrightarrow> isomorphic n M N \<Longrightarrow> row_perms n L \<Longrightarrow> isomorphic n L N"
  using carries_comp unfolding isomorphic_def by blast

lemma same_classI: "cycle_set n M \<Longrightarrow> cycle_set n N \<Longrightarrow> isomorphic n M N \<Longrightarrow> (mlist n M, mlist n N) \<in> same_class n"
  unfolding same_class_def by blast

lemma same_classE:
  assumes "(x, y) \<in> same_class n"
  obtains M N where "x = mlist n M" "y = mlist n N" "cycle_set n M" "cycle_set n N" "isomorphic n M N"
  using assms unfolding same_class_def by blast

lemma tablesE:
  assumes "x \<in> tables n"
  obtains N where "x = mlist n N" "cycle_set n N"
  using assms unfolding tables_def by blast

lemma same_class_equiv: "equiv (tables n) (same_class n)"
proof (rule equivI)
  show "same_class n \<subseteq> tables n \<times> tables n" by (auto simp: same_class_def tables_def)
  show "refl_on (tables n) (same_class n)"
    by (rule refl_onI) (auto simp: tables_def intro!: same_classI isomorphic_refl)
  show "sym (same_class n)"
  proof (rule symI)
    fix x y assume "(x, y) \<in> same_class n"
    then obtain M N where "x = mlist n M" "y = mlist n N" "cycle_set n M" "cycle_set n N" "isomorphic n M N"
      by (rule same_classE)
    then show "(y, x) \<in> same_class n" using same_classI isomorphic_sym cycle_set_rows by blast
  qed
  show "trans (same_class n)"
  proof (rule transI)
    fix x y z assume xyz: "(x, y) \<in> same_class n" "(y, z) \<in> same_class n"
    obtain A B where AB: "x = mlist n A" "y = mlist n B" "cycle_set n A" "cycle_set n B" "isomorphic n A B" using xyz(1) by (rule same_classE)
    obtain C D where CD: "y = mlist n C" "z = mlist n D" "cycle_set n C" "cycle_set n D" "isomorphic n C D" using xyz(2) by (rule same_classE)
    have "mlist n B = mlist n C" using AB(2) CD(1) by simp
    from isomorphic_trans[OF isomorphic_trans[OF AB(5) isomorphic_refl[OF this] cycle_set_rows[OF AB(3)]] CD(5) cycle_set_rows[OF AB(3)]]
    show "(x, z) \<in> same_class n" using same_classI[OF AB(3) CD(4)] AB(1) CD(2) by simp
  qed
qed

text \<open>A set with exactly one element in every class counts the classes.\<close>

lemma card_transversal:
  assumes e: "equiv A r" and C: "C \<subseteq> A" and all: "\<And>x. x \<in> A \<Longrightarrow> \<exists>y\<in>C. (y, x) \<in> r"
    and one: "\<And>x y. x \<in> C \<Longrightarrow> y \<in> C \<Longrightarrow> (x, y) \<in> r \<Longrightarrow> x = y"
  shows "card (A // r) = card C"
proof -
  have "inj_on (\<lambda>x. r `` {x}) C"
  proof (rule inj_onI)
    fix x y assume xy: "x \<in> C" "y \<in> C" "r `` {x} = r `` {y}"
    then have "(x, y) \<in> r" using eq_equiv_class[OF _ e, of x y] C by blast
    then show "x = y" by (rule one[OF xy(1,2)])
  qed
  moreover have "A // r = (\<lambda>x. r `` {x}) ` C"
  proof
    show "A // r \<subseteq> (\<lambda>x. r `` {x}) ` C"
    proof
      fix k assume "k \<in> A // r"
      then obtain x where x: "x \<in> A" "k = r `` {x}" by (rule quotientE)
      then obtain y where "y \<in> C" "(y, x) \<in> r" using all by blast
      then show "k \<in> (\<lambda>x. r `` {x}) ` C" using equiv_class_eq[OF e] x(2) by blast
    qed
    show "(\<lambda>x. r `` {x}) ` C \<subseteq> A // r" using C by (auto intro: quotientI)
  qed
  ultimately show ?thesis by (simp add: card_image)
qed

lemma finite_canon_set: "finite (canon_set n T)"
proof -
  have "canon_set n T \<subseteq> {xs. set xs \<subseteq> {..<n} \<and> length xs = n * n}"
    using row_perms_less[OF cycle_set_rows] by (fastforce simp: canon_set_def mlist_def)
  then show ?thesis using finite_lists_length_eq[of "{..<n}" "n * n"] finite_subset by auto
qed

lemma canon_set_cong:
  assumes "\<And>i. i < n \<Longrightarrow> s i = t i"
  shows "canon_set n (Some s) = canon_set n (Some t)"
proof -
  have "syms n (Some s) = syms n (Some t)" using assms by (auto simp: syms_def perm_on_less)
  then show ?thesis using assms by (simp add: canon_set_def has_diag_def lexmin_def)
qed

lemma canon_set_canonical: "canon_set n (Some (\<lambda>i. d ! i)) = mlist n ` {M. canonical n d M}"
  by (simp add: canon_set_def canonical_def)

lemma canon_set_subset: "canon_set n T \<subseteq> tables n"
  by (auto simp: canon_set_def tables_def)

text \<open>Without a diagonal, and over all diagonals.\<close>

lemma classes_without_diagonal: "card (tables n // same_class n) = card (canon_set n None)"
proof (rule card_transversal[OF same_class_equiv canon_set_subset])
  fix x assume "x \<in> tables n"
  then obtain N where N: "x = mlist n N" "cycle_set n N" by (rule tablesE)
  obtain p where p: "p \<in> syms n None" "lexmin n None (pact n p N)" using canonical_exists[OF cycle_set_rows[OF N(2)]] by blast
  have pp: "perm_on n p" by (rule syms_perm[OF p(1)])
  have c: "cycle_set n (pact n p N)" by (rule pact_cycle_set[OF pp N(2)])
  then have "mlist n (pact n p N) \<in> canon_set n None" using p(2) by (simp add: canon_set_def has_diag_def)
  moreover have "isomorphic n (pact n p N) N"
    using pact_carries[OF pp cycle_set_rows[OF N(2)]] by (auto simp: isomorphic_def)
  ultimately show "\<exists>y\<in>canon_set n None. (y, x) \<in> same_class n" using same_classI[OF c N(2)] N(1) by blast
next
  fix x y assume xy: "x \<in> canon_set n None" "y \<in> canon_set n None" "(x, y) \<in> same_class n"
  then obtain M N where MN: "x = mlist n M" "y = mlist n N" "cycle_set n M" "cycle_set n N" "isomorphic n M N"
    by (elim same_classE)
  obtain f where f: "carries n f M N" using MN(5) by (auto simp: isomorphic_def)
  have min: "lexmin n None A" if A: "mlist n A \<in> canon_set n None" for A
  proof -
    obtain B where B: "mlist n A = mlist n B" "lexmin n None B" using A unfolding canon_set_def by blast
    have "lexmin n None A = lexmin n None B" by (rule lexmin_cong) (use B(1) in \<open>simp add: mlist_eq_iff\<close>)
    then show ?thesis using B(2) by simp
  qed
  have e: "pact n f N i j = M i j" if "i < n" "j < n" for i j by (rule carries_pact[OF f cycle_set_rows[OF MN(3)] that])
  have "f \<in> syms n None" using carries_perm[OF f] by (simp add: syms_def)
  moreover have "lexmin n None N" "lexmin n None (pact n f N)"
    using min[of N] min[of M] MN(1,2) xy(1,2) lexmin_cong[of n "pact n f N" M None] e by simp_all
  ultimately have "M i j = N i j" if ij: "i < n" "j < n" for i j
    using canonical_unique[of n N None f, OF cycle_set_rows[OF MN(4)] _ _ _ _ ij] e[OF ij] by (simp add: has_diag_def)
  then show "x = y" using MN(1,2) by (simp add: mlist_eq_iff)
qed

lemma canonical_mlist: "canonical n d M \<Longrightarrow> mlist n M = mlist n N \<Longrightarrow> cycle_set n N \<Longrightarrow> canonical n d N"
  using lexmin_cong[of n M N "Some (\<lambda>i. d ! i)"] by (auto simp: canonical_def has_diag_def mlist_eq_iff)

lemma classes_over_diagonals:
  assumes n: "1 \<le> n" and ds: "all_diagonals n = Inr ds"
  shows "card (tables n // same_class n) = sum_list (map (\<lambda>d. card (canon_set n (Some (\<lambda>i. d ! i)))) ds)"
proof -
  let ?c = "\<lambda>d. canon_set n (Some (\<lambda>i. d ! i))"
  have same: "d' = d \<and> mlist n M' = mlist n M"
    if "d \<in> set ds" "d' \<in> set ds" "canonical n d M" "canonical n d' M'" "isomorphic n M' M" for d d' M M'
    using canonical_same[OF n ds that(1-4)] that(5) by (auto simp: isomorphic_def mlist_eq_iff)
  have disj: "?c d \<inter> ?c d' = {}" if "d \<in> set ds" "d' \<in> set ds" "d \<noteq> d'" for d d'
    using same[OF that(1,2)] that(3) isomorphic_refl unfolding canon_set_canonical by (force simp: image_iff)
  have "card (tables n // same_class n) = card (\<Union>d\<in>set ds. ?c d)"
  proof (rule card_transversal[OF same_class_equiv])
    show "(\<Union>d\<in>set ds. ?c d) \<subseteq> tables n" using canon_set_subset by blast
    show "\<exists>y\<in>\<Union>d\<in>set ds. ?c d. (y, x) \<in> same_class n" if x: "x \<in> tables n" for x
    proof -
      obtain N where N: "x = mlist n N" "cycle_set n N" using x by (rule tablesE)
      from canonical_image[OF n ds N(2)] obtain d M where M: "d \<in> set ds" "canonical n d M" "isomorphic n M N" by blast
      have "(mlist n M, x) \<in> same_class n" using same_classI M(2,3) N by (simp add: canonical_def)
      moreover have "mlist n M \<in> ?c d" using M(2) unfolding canon_set_canonical by blast
      ultimately show ?thesis using M(1) by blast
    qed
    show "x = y" if xy: "x \<in> (\<Union>d\<in>set ds. ?c d)" "y \<in> (\<Union>d\<in>set ds. ?c d)" "(x, y) \<in> same_class n" for x y
    proof -
      obtain M N where MN: "x = mlist n M" "y = mlist n N" "cycle_set n M" "cycle_set n N" "isomorphic n M N"
        using xy(3) by (rule same_classE)
      obtain d d' A B where d: "d \<in> set ds" "d' \<in> set ds" "canonical n d A" "canonical n d' B" "x = mlist n A" "y = mlist n B"
        using xy(1,2) unfolding canon_set_canonical by blast
      have "canonical n d M" "canonical n d' N" using canonical_mlist[OF d(3)] canonical_mlist[OF d(4)] MN(1-4) d(5,6) by simp_all
      from same[OF d(2,1) this(2,1) MN(5)] show ?thesis using MN(1,2) by simp
    qed
  qed
  also have "\<dots> = (\<Sum>d\<in>set ds. card (?c d))"
    using disj finite_canon_set by (intro card_UN_disjoint) auto
  also have "\<dots> = sum_list (map (\<lambda>d. card (?c d)) ds)"
    using all_diagonals_all[OF n] ds by (simp add: sum_list_distinct_conv_sum_set)
  finally show ?thesis .
qed

lemma run_jobs_sum: "(\<And>d. d \<in> set ds \<Longrightarrow> job d = Some (Inr (f d))) \<Longrightarrow> run_jobs job ds = Some (Inr (sum_list (map f ds)))"
  by (induction ds) auto

section \<open>What the program counts\<close>

definition searches :: "config \<Rightarrow> nat \<Rightarrow> bool" where
  "searches cf n \<longleftrightarrow> cf_size cf = int n \<and> 1 < n \<and> \<not> cf_oldBreak cf \<and> cf_fixedRow cf \<le> 0 \<and>
     (if cf_diagPart cf then cf_useBit cf \<and> (cf_smaller cf \<longrightarrow> n \<noteq> 2) else cf_propagate cf \<and> \<not> cf_smaller cf)"

definition cycle_lengths :: "nat \<Rightarrow> nat list \<Rightarrow> bool" where
  "cycle_lengths n q \<longleftrightarrow> (\<forall>l\<in>set q. 2 \<le> l) \<and> sum_list q \<le> n"

text \<open>The solver answers as documented for every job of the mode.\<close>

definition answers_all :: "sat \<Rightarrow> nat \<times> nat \<Rightarrow> config \<Rightarrow> nat \<Rightarrow> bool" where
  "answers_all sat beyond cf n \<longleftrightarrow> (\<forall>q L e s0. cycle_lengths n q \<longrightarrow>
     formula_of (config_flags cf) (cf_noCommander cf) n q = (L, e) \<longrightarrow>
     new_solver (config_opts cf) n beyond True (fst e) (run_diag (config_flags cf) n q) [] L = Inr s0 \<longrightarrow>
     (\<exists>val. answers sat (config_opts cf) n (diag_fun n q) val (fst e) s0))"

lemma searches_mode: "searches cf n \<Longrightarrow> cycle_lengths n q \<Longrightarrow> search_mode (op_fl (config_opts cf)) n q"
  by (auto simp: searches_def cycle_lengths_def search_mode_def mode_ok_def config_opts_def config_flags_def split: if_splits)

lemma config_simps [simp]:
  "op_fl (config_opts cf) = config_flags cf" "fl_diag (config_flags cf) = cf_diagPart cf"
  "op_allModels (config_opts cf) = cf_allModels cf" "op_fixedRow (config_opts cf) = cf_fixedRow cf"
  "fl_smaller (config_flags cf) = cf_smaller cf"
  by (simp_all add: config_opts_def config_flags_def)


section \<open>Without \<open>--allModels\<close>\<close>

lemma solve_loop_diverges:
  assumes inv: "\<And>s. P s \<Longrightarrow> fst (sat s) = 10 \<and> P (snd (sat s))" and s: "P s"
  shows "solve_loop sat s = None"
proof -
  have "solve_loop sat' u = Some y \<Longrightarrow> sat' = sat \<longrightarrow> \<not> P u" for sat' u y
  proof (erule solve_loop.raw_induct[where P = "\<lambda>sat' u y. sat' = sat \<longrightarrow> \<not> P u", rotated], intro impI notI)
    fix f sat' u y
    assume IH: "\<And>sat' u y. f sat' u = Some y \<Longrightarrow> sat' = sat \<longrightarrow> \<not> P u"
      and step: "(case sat' u of (r, u') \<Rightarrow> if r = 10 then f sat' u' else Some u') = Some y" and e: "sat' = sat" and u: "P u"
    obtain r u' where r: "sat u = (r, u')" by (cases "sat u")
    then have "r = 10" "P u'" using inv[OF u] by simp_all
    then show False using IH[of sat' u' y] step r e by simp
  qed
  then show ?thesis using s by (cases "solve_loop sat s") auto
qed

lemma job_diverges:
  assumes "searches cf n" "\<not> cf_allModels cf" "answers_all sat beyond cf n" and q: "cycle_lengths n q"
  shows "run_job sat (config_opts cf) n beyond (run_diag (config_flags cf) n q) [] (formula_of (config_flags cf) (cf_noCommander cf) n q) = None"
proof -
  let ?op = "config_opts cf" and ?fl = "config_flags cf" and ?nc = "cf_noCommander cf"
  have c: "cf_fixedRow cf \<le> 0" using assms(1) by (simp add: searches_def)
  let ?T = "diag_of ?fl (diag_fun n q)"
  note m = searches_mode[OF assms(1) q] and m' = searches_mode[OF assms(1) q, unfolded config_simps]
  obtain L e where f: "formula_of ?fl ?nc n q = (L, e)" by (cases "formula_of ?fl ?nc n q")
  from job_starts[of ?op, OF m, unfolded config_simps, OF c f] obtain s0 where
    s0: "new_solver ?op n beyond True (fst e) (run_diag ?fl n q) [] L = Inr s0"
    "run_job sat ?op n beyond (run_diag ?fl n q) [] (formula_of ?fl ?nc n q) = map_option (\<lambda>s. Inr (sv_nModels s)) (solve_loop sat s0)"
    by blast
  obtain val where a: "answers sat ?op n (diag_fun n q) val (fst e) s0"
    using assms(3) q f s0(1) unfolding answers_all_def by blast
  obtain N where N: "cycle_set n N" "has_diag n ?T N" using mode_table[OF m'] by blast
  obtain p where p: "p \<in> syms n ?T" "lexmin n ?T (pact n p N)" using canonical_exists[OF cycle_set_rows[OF N(1)]] by blast
  have M: "cycle_set n (pact n p N)" "has_diag n ?T (pact n p N)"
    using pact_cycle_set[OF syms_perm[OF p(1)] N(1)] pact_has_diag[OF p(1) cycle_set_rows[OF N(1)] N(2)] by simp_all
  have live: "\<not> refuted (fst e) G s" if r: "sat_run ?op n (diag_fun n q) val s0 G s" for G s
  proof
    assume R: "refuted (fst e) G s"
    have "reaches ?op ?nc n q beyond val G s" unfolding reaches_def config_simps using f s0(1) r by blast
    from enumeration[of ?op, OF m _ this] R f c M p(2) assms(2) show False
      unfolding config_simps excluded_def by auto
  qed
  have "solve_loop sat s0 = None"
  proof (rule solve_loop_diverges[where P = "\<lambda>s. \<exists>G. sat_run ?op n (diag_fun n q) val s0 G s"])
    fix s assume "\<exists>G. sat_run ?op n (diag_fun n q) val s0 G s"
    then obtain G where "sat_run ?op n (diag_fun n q) val s0 G s" by blast
    from answersE[OF a this] live show "fst (sat s) = 10 \<and> (\<exists>G. sat_run ?op n (diag_fun n q) val s0 G (snd (sat s)))"
      by (metis fst_conv snd_conv)
  qed (use sat_run.start in blast)
  then show ?thesis using s0(2) by simp
qed


end
