(* ===== verification/Output_Text.thy ===== *)
theory Output_Text
  imports Propagator_Run Command_Line
begin

text \<open>
  The file of solutions (\<^verbatim>\<open>useful.cpp\<close>, \<open>fprintCycleSet\<close>; \<^verbatim>\<open>solveGeneral.cpp\<close>): the text that is
  written determines the tables.
\<close>

declare digits.simps [simp del]

lemma digits_append:
  assumes "digits a @ x = digits b @ y" "\<not> is_digit (hd x)" "\<not> is_digit (hd y)"
  shows "a = b" "x = y"
proof -
  have "(digits a, int a, x) = scan_int (digits a @ x)" by (rule scan_digits[symmetric]) (rule disjI2, rule assms(2))
  also have "\<dots> = scan_int (digits b @ y)" by (rule arg_cong[OF assms(1)])
  also have "\<dots> = (digits b, int b, y)" by (rule scan_digits) (rule disjI2, rule assms(3))
  finally have e: "(digits a, int a, x) = (digits b, int b, y)" .
  show "a = b" using e by (metis prod.inject of_nat_eq_iff)
  show "x = y" using e by (metis prod.inject)
qed

definition row_text :: "nat list \<Rightarrow> string" where
  "row_text ks = concat (map (\<lambda>k. digits k @ '' '') ks) @ [char_of (10 :: nat)]"

lemma space_no_digit: "\<not> is_digit (CHR '' '')" "\<not> is_digit (char_of (10 :: nat))"
  by (simp_all add: is_digit_def code_def)

lemma row_text_append:
  "length xs = length ys \<Longrightarrow> row_text xs @ r = row_text ys @ r' \<Longrightarrow> xs = ys \<and> r = r'"
proof (induction xs ys rule: list_induct2)
  case (Cons x xs y ys)
  have t: "row_text (k # ks) @ u = digits k @ (CHR '' '' # (row_text ks @ u))" for k ks u by (simp add: row_text_def)
  have "digits x @ (CHR '' '' # (row_text xs @ r)) = digits y @ (CHR '' '' # (row_text ys @ r'))"
    using Cons.prems unfolding t .
  from digits_append[OF this] space_no_digit Cons.IH show ?case by simp
qed (simp add: row_text_def)

lemma rows_text_append:
  "list_all2 (\<lambda>x y. length x = length y) xss yss \<Longrightarrow> concat (map row_text xss) @ r = concat (map row_text yss) @ r' \<Longrightarrow> xss = yss \<and> r = r'"
proof (induction rule: list_all2_induct)
  case (Cons x xs y ys)
  from row_text_append[OF Cons.hyps(1), of "concat (map row_text xs) @ r" "concat (map row_text ys) @ r'"] Cons show ?case by simp
qed simp

definition table_rows :: "nat \<Rightarrow> cmat \<Rightarrow> nat list list" where
  "table_rows n N = map (\<lambda>i. map (N i) [0..<n]) [0..<n]"

lemma solution_rows:
  "solution_text n k N = ''Solution '' @ digits k @ [char_of (10 :: nat)] @ concat (map row_text (table_rows n N))"
  by (simp add: solution_text_def fprintCycleSet_def table_rows_def row_text_def show_int_def comp_def)

lemma table_rows_eq: "table_rows n M = table_rows n N \<Longrightarrow> \<not> differ n M N"
  by (auto simp: table_rows_def differ_def map_eq_conv)

lemma solution_text_append:
  assumes "solution_text n k M @ r = solution_text n k N @ r'"
  shows "\<not> differ n M N \<and> r = r'"
proof -
  have "list_all2 (\<lambda>x y. length x = length y) (table_rows n M) (table_rows n N)"
    by (simp add: table_rows_def list_all2_conv_all_nth)
  from rows_text_append[OF this, of r r'] assms table_rows_eq show ?thesis by (auto simp: solution_rows)
qed

fun output_from :: "nat \<Rightarrow> nat \<Rightarrow> cmat list \<Rightarrow> string" where
  "output_from n k [] = []"
| "output_from n k (N # Ns) = solution_text n k N @ output_from n (Suc k) Ns"

lemma output_from_nth: "output_from n k Ns = concat (map (\<lambda>i. solution_text n (k + i) (Ns ! i)) [0..<length Ns])"
proof (induction Ns arbitrary: k)
  case (Cons N Ns)
  have "[0..<length (N # Ns)] = 0 # map Suc [0..<length Ns]" by (simp add: upt_conv_Cons map_Suc_upt del: upt_Suc)
  then show ?case using Cons by (simp add: comp_def del: upt_Suc)
qed simp

lemma output_of_from: "output_of n Ns = output_from n 1 Ns"
  by (simp add: output_of_def output_from_nth)

lemma output_from_inj: "output_from n k Ms = output_from n k Ns \<Longrightarrow> list_all2 (\<lambda>M N. \<not> differ n M N) Ms Ns"
proof (induction n k Ms arbitrary: Ns rule: output_from.induct)
  case (1 n k)
  then show ?case by (cases Ns) (simp_all add: solution_rows)
next
  case (2 n k M Ms)
  then obtain N Ns' where Ns: "Ns = N # Ns'" by (cases Ns) (simp_all add: solution_rows)
  show ?case using 2 solution_text_append[of n k M "output_from n (Suc k) Ms" N "output_from n (Suc k) Ns'"] by (simp add: Ns)
qed

lemma output_determines: "output_of n Ms = output_of n Ns \<Longrightarrow> list_all2 (\<lambda>M N. \<not> differ n M N) Ms Ns"
  unfolding output_of_from by (rule output_from_inj)

text \<open>
  C30: the text written to the file of solutions can be read back: it determines the number of the tables
  that were printed, and their entries.
\<close>

theorem output_readable:
  "output_of n Ms = output_of n Ns \<longleftrightarrow> length Ms = length Ns \<and> (\<forall>k<length Ns. \<not> differ n (Ms ! k) (Ns ! k))"
proof
  assume "output_of n Ms = output_of n Ns"
  from output_determines[OF this] show "length Ms = length Ns \<and> (\<forall>k<length Ns. \<not> differ n (Ms ! k) (Ns ! k))"
    by (auto simp: list_all2_conv_all_nth)
next
  assume e: "length Ms = length Ns \<and> (\<forall>k<length Ns. \<not> differ n (Ms ! k) (Ns ! k))"
  have "table_rows n M = table_rows n N" if "\<not> differ n M N" for M N using that by (auto simp: table_rows_def differ_def)
  then show "output_of n Ms = output_of n Ns" using e unfolding output_of_def by (intro arg_cong[of _ _ concat] map_cong) (auto simp: solution_rows)
qed

theorem output_readable_witness:
  "output_of 2 [\<lambda>i j. j] \<noteq> output_of 2 [\<lambda>i j. 1 - j]"
proof -
  have "differ 2 (\<lambda>i j. j) (\<lambda>i j. 1 - j)" by (auto simp: differ_def intro: exI[of _ 0])
  then show ?thesis using output_readable[of 2 "[\<lambda>i j. j]" "[\<lambda>i j. 1 - j]"] by simp
qed

end
