(* ===== verification/Program_Example.thy ===== *)
theory Program_Example
  imports Program Propagator_Example Output_Text
begin

text \<open>
  The whole program on two elements, used to instantiate the theorems about it: a SAT solver that
  answers as documented, given by the states it ends in for the two diagonals.
\<close>

section \<open>Two diagonals\<close>

definition all_opts :: "bool \<Rightarrow> opts" where
  "all_opts am = ex_opts\<lparr>op_allModels := am\<rparr>"

text \<open>The literals of the root level and the table for a diagonal.\<close>

definition pair_lits :: "nat list \<Rightarrow> int list" where
  "pair_lits q = (if q = [] then [-6, 5, -3, 4] else [6, -5, 3, -4])"

definition pair_table :: "nat list \<Rightarrow> cmat" where
  "pair_table q i j = (if q = [] then j else 1 - j)"

lemma pair_lengths: "cycle_lengths 2 q \<Longrightarrow> q = [] \<or> q = [2]"
proof -
  assume "cycle_lengths 2 q"
  then have q: "\<forall>l\<in>set q. 2 \<le> l" "sum_list q \<le> 2" by (simp_all add: cycle_lengths_def)
  show ?thesis
  proof (cases q)
    case (Cons l ls)
    then have "l = 2" "sum_list ls = 0" using q by (simp_all del: sum_list_eq_0_iff)
    then show ?thesis using q(1) Cons by (cases ls) auto
  qed simp
qed

lemma pair_mode: "q = [] \<or> q = [2] \<Longrightarrow> search_mode (op_fl (all_opts am)) 2 q"
  by (auto simp: search_mode_def mode_ok_def all_opts_def ex_opts_def bit_flags_def)

lemma pair_fixed: "op_fixedRow (all_opts am) \<le> 0" "op_fl (all_opts am) = bit_flags"
  by (simp_all add: all_opts_def ex_opts_def)

lemma pair_diag: "q = [] \<or> q = [2] \<Longrightarrow> i < 2 \<Longrightarrow> diag_fun 2 q i = pair_table q i i"
proof -
  assume q: "q = [] \<or> q = [2]" and i: "i < 2"
  have "diag_fun 2 [] 0 = 0" "diag_fun 2 [] 1 = 1" "diag_fun 2 [2] 0 = 1" "diag_fun 2 [2] 1 = 0" by code_simp+
  then show ?thesis using q i by (auto simp: pair_table_def less2)
qed

lemma pair_cycle_set: "cycle_set 2 (pair_table q)"
proof -
  have "perm_on 2 (pair_table q 0)" by (rule perm_onI) (auto simp: pair_table_def less2 split: if_splits)
  moreover have "(\<lambda>i. pair_table q 0) = pair_table q" by (simp add: fun_eq_iff pair_table_def)
  ultimately show ?thesis using constant_rows by metis
qed

lemma pair_has_diag: "q = [] \<or> q = [2] \<Longrightarrow> has_diag 2 (diag_of bit_flags (diag_fun 2 q)) (pair_table q)"
  using pair_diag[of q] by (simp add: has_diag_def diag_of_def bit_flags_def)

lemma pair_formula:
  assumes q: "q = [] \<or> q = [2]"
  shows "fst (formula_of bit_flags False 2 q) = ex_L"
proof -
  have "diag_keep False d = (\<lambda>i j k. True)" for d by (simp add: diag_keep_def fun_eq_iff)
  then have "alloc_diag False 2 (diag_list 2 q) s = alloc_diag False 2 [1, 0] s" for s
    by (simp add: alloc_diag_def)
  then show ?thesis
    by (simp add: formula_of_def bit_flags_def encode_diag_def encodeEntries_diag_def ex_L_def split: prod.splits)
qed

section \<open>The states the solver ends in\<close>

abbreviation pair_state :: "nat list \<Rightarrow> mincheck \<Rightarrow> int list \<Rightarrow> solver res" where
  "pair_state q M a \<equiv> root_state bit_flags 2 q ex_L M a (pair_lits q)"

definition pair_clause :: "nat list \<Rightarrow> int list" where
  "pair_clause q = (if q = [] then [-4, -5] else [-3, -6])"

lemma pair_guarded: "guarded bit_flags 2 [] ex_L M a (pair_lits [])" "guarded bit_flags 2 [2] ex_L M a (pair_lits [2])"
  by code_simp+

definition pair_asked :: "nat list \<Rightarrow> int list \<Rightarrow> bool" where
  "pair_asked q a = ok_state (mc_new bit_flags 2 (0, 0) (run_diag bit_flags 2 q) ex_L) (\<lambda>M.
     ok_state (bindE (pair_state q M a) (cb_has_external_clause (all_opts True) 2 (\<lambda>_. 0) 0)) (\<lambda>(b, s).
       b \<and> sv_clauses s = [pair_clause q] \<and> set (sv_pos s @ sv_neg s) \<subseteq> {[]} \<and> sv_out s = output_of 2 [pair_table q]) \<and>
     ok_state (pair_state q M a) (\<lambda>s. table_full 2 (sv_cyc s)) \<and>
     ok_state (bindE (pair_state q M a) (cb_check_found_model (all_opts False) 2 (\<lambda>_. 0))) (\<lambda>(b, s).
       b \<and> sv_out s = output_of 2 [pair_table q]))"

lemma pair_asked_ok: "pair_asked [] a" "pair_asked [2] a"
  by code_simp+

text \<open>The states are reached, the clause is false for the only table, and the output holds this table.\<close>

lemma cycle_set_cong:
  assumes "cycle_set n M" "\<not> differ n M N"
  shows "cycle_set n N"
proof -
  have e: "N i j = M i j" if "i < n" "j < n" for i j using assms(2) that by (auto simp: differ_def)
  have "row_perms n M" using assms(1) by (rule cycle_set_rows)
  then have less: "M i j < n" if "i < n" "j < n" for i j using that by (rule row_perms_less)
  have "row_perms n N" using assms(1) e perm_on_cong[of n "M i" "N i" for i] by (simp add: cycle_set_def row_perms_def)
  moreover have "diag_perm n N"
    using assms(1) e perm_on_cong[of n "\<lambda>i. M i i" "\<lambda>i. N i i"] by (simp add: cycle_set_def diag_perm_def)
  moreover have "cycle_law n N" using assms(1) e less by (simp add: cycle_set_def cycle_law_def)
  ultimately show ?thesis by (simp add: cycle_set_def)
qed

lemma shown_tables:
  assumes "sv_out s = output_of n [N]" "cycle_set n N"
  shows "tables_shown n s"
  unfolding tables_shown_def
proof (intro allI impI ballI)
  fix Ns M assume Ns: "sv_out s = output_of n Ns" "M \<in> set Ns"
  have "list_all2 (\<lambda>M N. \<not> differ n M N) [N] Ns" by (rule output_determines) (use assms(1) Ns(1) in simp)
  then have "\<not> differ n N M" using Ns(2) by (auto simp: list_all2_Cons1)
  then show "cycle_set n M" by (rule cycle_set_cong[OF assms(2)])
qed

lemma pair_run:
  assumes q: "q = [] \<or> q = [2]"
  shows "\<exists>M a. mc_new bit_flags 2 (0, 0) (run_diag bit_flags 2 q) ex_L = Inr M \<and>
    (\<forall>s. pair_state q M a = Inr s \<longrightarrow> reaches (all_opts am) False 2 q (0, 0) (\<lambda>_. 0) [] s)"
proof -
  obtain M where M: "mc_new bit_flags 2 (0, 0) (run_diag bit_flags 2 q) ex_L = Inr M"
  proof -
    have "pair_asked q []" using pair_asked_ok q by blast
    from ok_stateE[OF this[unfolded pair_asked_def]] show thesis using that by blast
  qed
  have f: "formula_of (op_fl (all_opts am)) False 2 q = (ex_L, snd (formula_of bit_flags False 2 q))"
    unfolding pair_fixed(2) using pair_formula[OF q] by (metis prod.collapse)
  have g: "guarded (op_fl (all_opts am)) 2 q ex_L M a (pair_lits q)" for a
    unfolding pair_fixed(2) using pair_guarded q by blast
  from root_run[OF pair_mode[OF q] pair_fixed(1) f pair_cycle_set[of q] _ _ g, unfolded pair_fixed(2), OF pair_has_diag[OF q] M]
  show ?thesis using M by blast
qed

lemma pair_unsat:
  assumes q: "q = [] \<or> q = [2]" and v: "cnf_holds v (fst (snd (formula_of bit_flags False 2 q)))"
  shows "\<not> clause_holds v (pair_clause q)"
proof -
  let ?d = "diag_list 2 q"
  obtain e where f: "encode_diag False False 2 ?d = (ex_L, e)" "e = snd (formula_of bit_flags False 2 q)"
    using pair_formula[OF q] by (simp add: formula_of_def bit_flags_def) (metis prod.collapse)
  have d: "?d ! i = pair_table q i i" if "i < 2" for i
    using pair_diag[OF q that] that by (simp add: diag_list_fun)
  have "perm_on 2 (\<lambda>i. pair_table q i i)" using pair_cycle_set[of q] by (simp add: cycle_set_def diag_perm_def)
  then have "perm_on 2 (\<lambda>i. ?d ! i)" using perm_on_cong[of 2 "\<lambda>i. ?d ! i"] d by simp
  from encode_diag_encodes[OF f(1) this] obtain nf where
    "encodes (\<lambda>v. \<exists>N. reads 2 ex_L (\<lambda>i. ?d ! i) v N \<and> cycle_set 2 N \<and> has_diag 2 (Some (\<lambda>i. ?d ! i)) N) ([], nf) e" by blast
  from encodesD(3)[OF this] obtain N where N: "reads 2 ex_L (\<lambda>i. ?d ! i) v N" "cycle_set 2 N" "has_diag 2 (Some (\<lambda>i. ?d ! i)) N"
    using v f(2) by blast
  note r = cycle_set_rows[OF N(2)]
  have diag: "N 0 0 = pair_table q 0 0" "N 1 1 = pair_table q 1 1" using N(3) d by (simp_all add: has_diag_def)
  have "N 0 1 < 2" "N 1 0 < 2" "N 0 0 \<noteq> N 0 1" "N 1 0 \<noteq> N 1 1"
    using row_perms_less[OF r] row_perms_inj[OF r, of 0 0 1] row_perms_inj[OF r, of 1 0 1] by auto
  then have n: "N 0 1 = pair_table q 0 1" "N 1 0 = pair_table q 1 0" using diag by (auto simp: pair_table_def split: if_splits)
  have l: "ex_L ! 0 ! 1 ! 0 = 3" "ex_L ! 0 ! 1 ! 1 = 4" "ex_L ! 1 ! 0 ! 0 = 5" "ex_L ! 1 ! 0 ! 1 = 6" by code_simp+
  show ?thesis
    using q readsD(2)[OF N(1), of 0 1 0] readsD(2)[OF N(1), of 0 1 1] readsD(2)[OF N(1), of 1 0 0] readsD(2)[OF N(1), of 1 0 1] n l
    by (auto simp: entry_holds_def clause_holds_def lit_holds_def pair_clause_def pair_table_def)
qed

text \<open>What a call of the solver ends in.\<close>

definition pair_end :: "bool \<Rightarrow> nat list \<Rightarrow> solver \<Rightarrow> bool" where
  "pair_end am q s \<longleftrightarrow> (\<exists>G. reaches (all_opts am) False 2 q (0, 0) (\<lambda>_. 0) G s \<and> tables_shown 2 s \<and>
     (if am then refuted (fst (snd (formula_of bit_flags False 2 q))) G s
      else \<exists>s1. cb_check_found_model (all_opts am) 2 (\<lambda>_. 0) s1 = Inr (True, s)))"

lemma reaches_step:
  assumes "reaches op nc n q beyond val G s" "sat_step op n (diag_fun n q) val G s g s'"
  shows "reaches op nc n q beyond val (G @ g) s'"
  using assms unfolding reaches_def by (meson sat_run.more)

lemma pair_ends:
  assumes q: "q = [] \<or> q = [2]"
  shows "\<exists>s. pair_end am q s"
proof -
  obtain M a where M: "mc_new bit_flags 2 (0, 0) (run_diag bit_flags 2 q) ex_L = Inr M"
    "\<And>s. pair_state q M a = Inr s \<Longrightarrow> reaches (all_opts am) False 2 q (0, 0) (\<lambda>_. 0) [] s"
    using pair_run[OF q, of am] by blast
  have "pair_asked q a" using pair_asked_ok q by blast
  then have A: "ok_state (bindE (pair_state q M a) (cb_has_external_clause (all_opts True) 2 (\<lambda>_. 0) 0)) (\<lambda>(b, s).
       b \<and> sv_clauses s = [pair_clause q] \<and> set (sv_pos s @ sv_neg s) \<subseteq> {[]} \<and> sv_out s = output_of 2 [pair_table q])"
    "ok_state (pair_state q M a) (\<lambda>s. table_full 2 (sv_cyc s))"
    "ok_state (bindE (pair_state q M a) (cb_check_found_model (all_opts False) 2 (\<lambda>_. 0))) (\<lambda>(b, s). b \<and> sv_out s = output_of 2 [pair_table q])"
    unfolding pair_asked_def M(1) ok_state_def sum.case by blast+
  obtain s where s: "pair_state q M a = Inr s" "table_full 2 (sv_cyc s)" using ok_stateE[OF A(2)] by blast
  note r = M(2)[OF s(1)]
  show ?thesis
  proof (cases am)
    case True
    obtain s1 where s1: "cb_has_external_clause (all_opts True) 2 (\<lambda>_. 0) 0 s = Inr (True, s1)" "sv_clauses s1 = [pair_clause q]"
      "set (sv_pos s1 @ sv_neg s1) \<subseteq> {[]}" "sv_out s1 = output_of 2 [pair_table q]"
      using ok_stateE[OF A(1)] s(1) by auto
    let ?s = "s1\<lparr>sv_clauses := []\<rparr>"
    have "0 \<notin> set (pair_clause q)" by (simp add: pair_clause_def)
    then have "take_lits cb_add_external_clause_lit (Suc (length (last (sv_clauses s1)))) s1 = Inr (rev (pair_clause q), ?s)"
      using pending.take_all[of s1] s1(2) by simp
    then have "sat_step (all_opts True) 2 (diag_fun 2 q) (\<lambda>_. 0) [] s [rev (pair_clause q)] ?s"
      using sat_step.clause[of "[]" s "all_opts True" 2 "\<lambda>_. 0" 0 s1] s1(1) by (simp add: no_conflict_def)
    have "reaches (all_opts True) False 2 q (0, 0) (\<lambda>_. 0) [] s" using r True by simp
    from reaches_step[OF this \<open>sat_step _ _ _ _ _ _ _ _\<close>] have "reaches (all_opts True) False 2 q (0, 0) (\<lambda>_. 0) [rev (pair_clause q)] ?s" by simp
    moreover have "tables_shown 2 ?s" using shown_tables[of ?s 2 "pair_table q"] s1(4) pair_cycle_set by simp
    moreover have "refuted (fst (snd (formula_of bit_flags False 2 q))) [rev (pair_clause q)] ?s"
      using pair_unsat[OF q] by (auto simp: refuted_def cnf_holds_def clause_holds_def)
    ultimately show ?thesis using True by (auto simp: pair_end_def)
  next
    case False
    obtain s1 where s1: "cb_check_found_model (all_opts False) 2 (\<lambda>_. 0) s = Inr (True, s1)" "sv_out s1 = output_of 2 [pair_table q]"
      using ok_stateE[OF A(3)] s(1) by auto
    have "sat_step (all_opts False) 2 (diag_fun 2 q) (\<lambda>_. 0) [] s [] s1"
      using sat_step.model[of "[]" s 2 "all_opts False" "\<lambda>_. 0" True s1] s(2) s1(1) by (simp add: no_conflict_def)
    from reaches_step[OF _ this, of False "(0, 0)"] r False
    have "reaches (all_opts False) False 2 q (0, 0) (\<lambda>_. 0) [] s1" by simp
    moreover have "tables_shown 2 s1" using shown_tables[OF s1(2) pair_cycle_set] .
    ultimately show ?thesis using False s1(1) by (auto simp: pair_end_def)
  qed
qed

section \<open>A SAT solver that answers as documented\<close>

definition pair_sat :: "bool \<Rightarrow> solver \<Rightarrow> solver \<Rightarrow> sat" where
  "pair_sat am s1 s2 s = (if am then 20 else 10, if mat_at (sv_cyc s) 0 0 = 0 then s1 else s2)"

definition pair_config :: "bool \<Rightarrow> config" where
  "pair_config am = defaults\<lparr>cf_allModels := am, cf_diagPart := True, cf_size := 2, cf_checkSols := True, cf_checkFreq := 1,
     cf_propagate := True, cf_useBit := True, cf_maxDepth := 9, cf_maxMC := 9\<rparr>"

lemma pair_config_opts: "config_opts (pair_config am) = all_opts am" "config_flags (pair_config am) = bit_flags"
  by (simp_all add: config_opts_def config_flags_def pair_config_def defaults_def all_opts_def ex_opts_def bit_flags_def)

lemma pair_searches: "searches (pair_config am) 2" "cf_diagonal (pair_config am) = []" "cf_noCommander (pair_config am) = False"
  "cf_allModels (pair_config am) = am"
  by (simp_all add: searches_def pair_config_def defaults_def)

lemma pair_answers_one:
  assumes q: "q = [] \<or> q = [2]" and f: "formula_of bit_flags False 2 q = (L, e)"
    and new: "new_solver (all_opts am) 2 (0, 0) True (fst e) (run_diag bit_flags 2 q) [] L = Inr s0"
    and e: "pair_end am [] s1" "pair_end am [2] s2"
  shows "answers (pair_sat am s1 s2) (all_opts am) 2 (diag_fun 2 q) (\<lambda>_. 0) (fst e) s0"
  unfolding answers_def
proof (intro allI impI)
  fix G s assume run: "sat_run (all_opts am) 2 (diag_fun 2 q) (\<lambda>_. 0) s0 G s"
  have "reaches (all_opts am) False 2 q (0, 0) (\<lambda>_. 0) G s"
    unfolding reaches_def pair_fixed(2) using f new run by blast
  from reaches_inv[OF pair_mode[OF q] pair_fixed(1) this] obtain Ns where I: "run_inv (all_opts am) 2 q L G Ns s"
    using f unfolding pair_fixed(2) by (metis prod.inject)
  note TI = table_stateD(7)[OF state_okD(1)[OF run_invD(1)[OF I]]]
  have "fl_diag (op_fl (all_opts am))" by (simp add: pair_fixed(2) bit_flags_def)
  from table_invD(4)[OF TI this, of 0] have "mat_at (sv_cyc s) 0 0 = int (pair_table q 0 0)" using pair_diag[OF q, of 0] by simp
  then have st: "pair_sat am s1 s2 s = (if am then 20 else 10, if q = [] then s1 else s2)" by (simp add: pair_sat_def pair_table_def)
  let ?s = "if q = [] then s1 else s2"
  have "pair_end am q ?s" using e q by auto
  then obtain G' where G': "reaches (all_opts am) False 2 q (0, 0) (\<lambda>_. 0) G' ?s" "tables_shown 2 ?s"
    "if am then refuted (fst e) G' ?s else \<exists>s1. cb_check_found_model (all_opts am) 2 (\<lambda>_. 0) s1 = Inr (True, ?s)"
    unfolding pair_end_def f fst_conv snd_conv by blast
  have "sat_run (all_opts am) 2 (diag_fun 2 q) (\<lambda>_. 0) s0 G' ?s"
    using G'(1) f new unfolding reaches_def pair_fixed(2) by auto
  then show "case pair_sat am s1 s2 s of (r, s') \<Rightarrow> \<exists>G'. sat_run (all_opts am) 2 (diag_fun 2 q) (\<lambda>_. 0) s0 G' s' \<and> tables_shown 2 s' \<and>
      (r = 10 \<and> (\<exists>s1. cb_check_found_model (all_opts am) 2 (\<lambda>_. 0) s1 = Inr (True, s')) \<or> r = 20 \<and> refuted (fst e) G' s')"
    unfolding st prod.case using G'(2,3) by (cases am) auto
qed

lemma pair_answers: "\<exists>sat. answers_all sat (0, 0) (pair_config am) 2"
proof -
  obtain s1 where e1: "pair_end am [] s1" using pair_ends[of "[]" am] by auto
  obtain s2 where e2: "pair_end am [2] s2" using pair_ends[of "[2]" am] by auto
  note e = e1 e2
  have "answers_all (pair_sat am s1 s2) (0, 0) (pair_config am) 2"
    unfolding answers_all_def pair_config_opts pair_searches(3)
  proof (intro allI impI)
    fix q L e' s0
    assume "cycle_lengths 2 q" "formula_of bit_flags False 2 q = (L, e')"
      "new_solver (all_opts am) 2 (0, 0) True (fst e') (run_diag bit_flags 2 q) [] L = Inr s0"
    from pair_answers_one[OF pair_lengths[OF this(1)] this(2,3) e]
    show "\<exists>val. answers (pair_sat am s1 s2) (all_opts am) 2 (diag_fun 2 q) val (fst e') s0" by (rule exI[where x = "\<lambda>_. 0"])
  qed
  then show ?thesis by blast
qed



end
