(* ===== verification/VMTF.thy ===== *)
theory VMTF
  imports Prelude
begin

text \<open>
  The variable-move-to-front decision queue of the SAT solver (CaDiCaL, \<^verbatim>\<open>queue.hpp\<close>,
  \<^verbatim>\<open>queue.cpp\<close>, \<open>bump_queue\<close> in \<^verbatim>\<open>analyze.cpp\<close>, \<open>update_queue_unassigned\<close> in
  \<^verbatim>\<open>internal.hpp\<close>, the queue part of \<open>unassign\<close> in \<^verbatim>\<open>backtrack.cpp\<close> and
  \<open>next_decision_variable_on_queue\<close> in \<^verbatim>\<open>decide.cpp\<close>): a doubly linked list in an array of links,
  the time stamps, and the pointer from which the next decision is searched.

  Variables are natural numbers, 0 is no variable. Time stamps are integers without a bound
  (\<open>int64_t\<close>, with an assertion that the maximum is not reached).
\<close>

section \<open>Links\<close>

record link =
  l_prev :: nat
  l_next :: nat

record queue =
  q_first :: nat
  q_last :: nat
  q_unassigned :: nat
  q_bumped :: int

definition upd_link :: "nat \<Rightarrow> (link \<Rightarrow> link) \<Rightarrow> link list \<Rightarrow> link list res" where
  "upd_link i f ls = (if i < length ls then Inr (ls[i := f (ls ! i)]) else Inl UB)"

text \<open>The link of \<open>idx\<close> is a reference, so it is read again after the first write.\<close>

definition dequeue :: "nat \<Rightarrow> link list \<times> queue \<Rightarrow> (link list \<times> queue) res" where
  "dequeue idx s = (case s of (ls, q) \<Rightarrow>
     bindE (vget ls (int idx)) (\<lambda>l.
     bindE (if l_prev l \<noteq> 0 then bindE (upd_link (l_prev l) (\<lambda>k. k\<lparr>l_next := l_next l\<rparr>) ls) (\<lambda>ls. Inr (ls, q))
            else Inr (ls, q\<lparr>q_first := l_next l\<rparr>)) (\<lambda>(ls, q).
     bindE (vget ls (int idx)) (\<lambda>l.
     if l_next l \<noteq> 0 then bindE (upd_link (l_next l) (\<lambda>k. k\<lparr>l_prev := l_prev l\<rparr>) ls) (\<lambda>ls. Inr (ls, q))
     else Inr (ls, q\<lparr>q_last := l_prev l\<rparr>)))))"

definition enqueue :: "nat \<Rightarrow> link list \<times> queue \<Rightarrow> (link list \<times> queue) res" where
  "enqueue idx s = (case s of (ls, q) \<Rightarrow>
     bindE (upd_link idx (\<lambda>l. l\<lparr>l_prev := q_last q\<rparr>) ls) (\<lambda>ls.
     bindE (if q_last q \<noteq> 0 then bindE (upd_link (q_last q) (\<lambda>k. k\<lparr>l_next := idx\<rparr>) ls) (\<lambda>ls. Inr (ls, q))
            else Inr (ls, q\<lparr>q_first := idx\<rparr>)) (\<lambda>(ls, q).
     bindE (upd_link idx (\<lambda>l. l\<lparr>l_next := 0\<rparr>) ls) (\<lambda>ls. Inr (ls, q\<lparr>q_last := idx\<rparr>)))))"

section \<open>The list the links stand for\<close>

definition hd_or :: "nat \<Rightarrow> nat list \<Rightarrow> nat" where
  "hd_or n xs = (if xs = [] then n else hd xs)"

definition last_or :: "nat \<Rightarrow> nat list \<Rightarrow> nat" where
  "last_or p xs = (if xs = [] then p else last xs)"

lemma hd_or_simps [simp]: "hd_or n [] = n" "hd_or n (x # xs) = x" "hd_or n (xs @ ys) = hd_or (hd_or n ys) xs"
  by (auto simp: hd_or_def)

lemma last_or_simps [simp]: "last_or p [] = p" "last_or p (xs @ [x]) = x" "last_or p (x # xs) = last_or x xs"
  "last_or p (xs @ ys) = last_or (last_or p xs) ys"
  by (auto simp: last_or_def)

fun chain :: "link list \<Rightarrow> nat \<Rightarrow> nat list \<Rightarrow> nat \<Rightarrow> bool" where
  "chain ls p [] n = True"
| "chain ls p (x # xs) n \<longleftrightarrow> l_prev (ls ! x) = p \<and> l_next (ls ! x) = hd_or n xs \<and> chain ls x xs n"

lemma chain_append: "chain ls p (xs @ ys) n \<longleftrightarrow> chain ls p xs (hd_or n ys) \<and> chain ls (last_or p xs) ys n"
  by (induction xs arbitrary: p) auto

lemma chain_other: "y \<notin> set xs \<Longrightarrow> chain (ls[y := l]) p xs n = chain ls p xs n"
  by (induction xs arbitrary: p) auto

lemma chain_last:
  assumes "chain ls p xs n" "distinct xs" "xs \<noteq> []" "last xs < length ls"
  shows "chain (ls[last xs := (ls ! last xs)\<lparr>l_next := m\<rparr>]) p xs m"
proof -
  obtain ys y where xs: "xs = ys @ [y]" using assms(3) by (metis append_butlast_last_id)
  then show ?thesis using assms by (simp add: chain_append chain_other)
qed

lemma chain_hd:
  assumes "chain ls p xs n" "distinct xs" "xs \<noteq> []" "hd xs < length ls"
  shows "chain (ls[hd xs := (ls ! hd xs)\<lparr>l_prev := q\<rparr>]) q xs n"
  using assms by (cases xs) (simp_all add: chain_other)

definition holds :: "link list \<times> queue \<Rightarrow> nat list \<Rightarrow> bool" where
  "holds s xs \<longleftrightarrow> distinct xs \<and> (\<forall>x\<in>set xs. 0 < x \<and> x < length (fst s)) \<and>
     q_first (snd s) = hd_or 0 xs \<and> q_last (snd s) = last_or 0 xs \<and> chain (fst s) 0 xs 0"

definition keeps_rest :: "link list \<times> queue \<Rightarrow> link list \<times> queue \<Rightarrow> bool" where
  "keeps_rest s s' \<longleftrightarrow> length (fst s') = length (fst s) \<and> q_unassigned (snd s') = q_unassigned (snd s) \<and> q_bumped (snd s') = q_bumped (snd s)"

lemma last_or_in: "xs \<noteq> [] \<Longrightarrow> last_or p xs \<in> set xs"
  by (simp add: last_or_def)

lemma hd_or_in: "xs \<noteq> [] \<Longrightarrow> hd_or p xs \<in> set xs"
  by (simp add: hd_or_def)

lemma enqueue_holds:
  assumes h: "holds s xs" and idx: "idx \<notin> set xs" "0 < idx" "idx < length (fst s)"
  shows "\<exists>s'. enqueue idx s = Inr s' \<and> holds s' (xs @ [idx]) \<and> keeps_rest s s'"
proof -
  obtain ls q where s: "s = (ls, q)" by fastforce
  note H = h[unfolded holds_def s, simplified]
  let ?l1 = "ls[idx := (ls ! idx)\<lparr>l_prev := q_last q\<rparr>]"
  show ?thesis
  proof (cases "xs = []")
    case True
    then show ?thesis using H idx by (simp add: s enqueue_def upd_link_def holds_def keeps_rest_def)
  next
    case False
    let ?u = "last xs"
    have u: "?u \<in> set xs" "?u \<noteq> idx" "0 < ?u" "?u < length ls" "q_last q = ?u"
      using False H idx(1) last_in_set[OF False] by (auto simp: last_or_def)
    let ?l2 = "?l1[?u := (?l1 ! ?u)\<lparr>l_next := idx\<rparr>]"
    let ?l3 = "?l2[idx := (?l2 ! idx)\<lparr>l_next := 0\<rparr>]"
    have e: "enqueue idx s = Inr (?l3, q\<lparr>q_last := idx\<rparr>)"
      using u idx(3) by (simp add: s enqueue_def upd_link_def)
    have "chain ?l1 0 xs 0" using H idx(1) by (simp add: chain_other)
    then have "chain ?l2 0 xs idx" using H False u(4) by (intro chain_last) simp_all
    then have "chain ?l3 0 xs idx" using idx(1) by (simp add: chain_other)
    moreover have "?l3 ! idx = \<lparr>l_prev = ?u, l_next = 0, \<dots> = ()\<rparr>" using idx(3) u(2,5) s by simp
    ultimately have "chain ?l3 0 (xs @ [idx]) 0" using False by (simp add: chain_append last_or_def)
    then have "holds (?l3, q\<lparr>q_last := idx\<rparr>) (xs @ [idx])"
      using H idx False s by (auto simp: holds_def hd_or_def)
    then show ?thesis using e by (auto simp: s keeps_rest_def)
  qed
qed

lemma dequeue_holds:
  assumes h: "holds s (us @ idx # vs)"
  shows "\<exists>s'. dequeue idx s = Inr s' \<and> holds s' (us @ vs) \<and> keeps_rest s s'"
proof -
  obtain ls q where s: "s = (ls, q)" by fastforce
  note H = h[unfolded holds_def s, simplified]
  let ?p = "last_or 0 us" and ?n = "hd_or 0 vs"
  have l: "l_prev (ls ! idx) = ?p" "l_next (ls ! idx) = ?n" "chain ls 0 us idx" "chain ls idx vs 0" "idx < length ls"
    using H by (simp_all add: chain_append)
  have p0: "?p = 0 \<longleftrightarrow> us = []" using H last_or_in[of us 0] by (auto simp: last_or_def)
  have n0: "?n = 0 \<longleftrightarrow> vs = []" using H hd_or_in[of vs 0] by (auto simp: hd_or_def)
  let ?l1 = "if us = [] then ls else ls[?p := (ls ! ?p)\<lparr>l_next := ?n\<rparr>]"
  let ?q1 = "if us = [] then q\<lparr>q_first := ?n\<rparr> else q"
  let ?l2 = "if vs = [] then ?l1 else ?l1[?n := (?l1 ! ?n)\<lparr>l_prev := ?p\<rparr>]"
  let ?q2 = "if vs = [] then ?q1\<lparr>q_last := ?p\<rparr> else ?q1"
  have pi: "us \<noteq> [] \<Longrightarrow> ?p \<in> set us \<and> ?p < length ls \<and> ?p \<noteq> idx \<and> ?p \<notin> set vs"
    using last_or_in[of us 0] H by auto
  have ni: "vs \<noteq> [] \<Longrightarrow> ?n \<in> set vs \<and> ?n < length ls \<and> ?n \<noteq> idx \<and> ?n \<notin> set us"
    using hd_or_in[of vs 0] H by auto
  have i1: "?l1 ! idx = ls ! idx" "length ?l1 = length ls" using pi by auto
  have e: "dequeue idx s = Inr (?l2, ?q2)"
    using l(1,2,5) p0 n0 pi ni i1 unfolding s dequeue_def
    by (cases "us = []"; cases "vs = []") (simp_all add: upd_link_def)
  have "chain ?l1 0 us ?n"
    using l(3) H pi chain_last[of ls 0 us idx ?n] by (auto simp: last_or_def)
  then have c1: "chain ?l2 0 us ?n" using ni by (auto simp: chain_other)
  have "chain ?l1 idx vs 0" using l(4) pi by (auto simp: chain_other)
  then have c2: "chain ?l2 ?p vs 0"
    using ni H i1(2) chain_hd[of ?l1 idx vs 0 ?p] by (auto simp: hd_or_def)
  have "holds (?l2, ?q2) (us @ vs)" using H c1 c2 by (cases "us = []") (auto simp: holds_def chain_append last_or_def hd_or_def)
  moreover have "keeps_rest s (?l2, ?q2)" by (simp add: keeps_rest_def s)
  ultimately show ?thesis using e by blast
qed

text \<open>What a client may rely on: the operations are those of a list.\<close>

locale order_list =
  fixes deq enq :: "nat \<Rightarrow> 's \<Rightarrow> 's res" and rep :: "'s \<Rightarrow> nat list \<Rightarrow> bool" and rest :: "'s \<Rightarrow> 's \<Rightarrow> bool" and fits :: "'s \<Rightarrow> nat \<Rightarrow> bool"
  assumes enq: "\<And>s xs x. rep s xs \<Longrightarrow> x \<notin> set xs \<Longrightarrow> 0 < x \<Longrightarrow> fits s x \<Longrightarrow> \<exists>s'. enq x s = Inr s' \<and> rep s' (xs @ [x]) \<and> rest s s'"
    and deq: "\<And>s us x vs. rep s (us @ x # vs) \<Longrightarrow> \<exists>s'. deq x s = Inr s' \<and> rep s' (us @ vs) \<and> rest s s'"
    and elems: "\<And>s xs x. rep s xs \<Longrightarrow> x \<in> set xs \<Longrightarrow> 0 < x \<and> fits s x"
    and dist: "\<And>s xs. rep s xs \<Longrightarrow> distinct xs"
    and rest_trans: "\<And>a b c. rest a b \<Longrightarrow> rest b c \<Longrightarrow> rest a c"
    and rest_fits: "\<And>a b x. rest a b \<Longrightarrow> fits b x = fits a x"
    and rest_refl: "\<And>a. rest a a"
begin

lemma to_end:
  assumes "rep s (us @ x # vs)"
  shows "\<exists>s'. bindE (deq x s) (enq x) = Inr s' \<and> rep s' (us @ vs @ [x]) \<and> rest s s'"
proof -
  obtain s1 where s1: "deq x s = Inr s1" "rep s1 (us @ vs)" "rest s s1" using deq[OF assms] by blast
  have "x \<notin> set (us @ vs)" using dist[OF assms] by auto
  moreover have "0 < x" "fits s1 x" using elems[OF assms, of x] rest_fits[OF s1(3)] by auto
  ultimately obtain s2 where "enq x s1 = Inr s2" "rep s2 ((us @ vs) @ [x])" "rest s1 s2" using enq[OF s1(2)] by blast
  then show ?thesis using s1 rest_trans[OF s1(3)] by auto
qed

lemma enq_all:
  assumes "rep s []" "distinct ys" "\<forall>y\<in>set ys. 0 < y \<and> fits s y"
  shows "\<exists>s'. foldE enq ys s = Inr s' \<and> rep s' ys \<and> rest s s'"
proof -
  have "rep t xs \<Longrightarrow> distinct (xs @ zs) \<Longrightarrow> \<forall>y\<in>set zs. 0 < y \<and> fits t y \<Longrightarrow>
      \<exists>s'. foldE enq zs t = Inr s' \<and> rep s' (xs @ zs) \<and> rest t s'" for t xs zs
  proof (induction zs arbitrary: t xs)
    case (Cons z zs)
    obtain u where u: "enq z t = Inr u" "rep u (xs @ [z])" "rest t u" using enq[OF Cons.prems(1), of z] Cons.prems by auto
    have "\<forall>y\<in>set zs. 0 < y \<and> fits u y" using Cons.prems(3) rest_fits[OF u(3)] by simp
    from Cons.IH[OF u(2) _ this] show ?case using u Cons.prems(2) rest_trans[OF u(3)] by auto
  qed (auto intro: rest_refl)
  from this[OF assms(1), of ys] show ?thesis using assms by simp
qed

end

interpretation links: order_list dequeue enqueue holds keeps_rest "\<lambda>s x. x < length (fst s)"
proof unfold_locales
  show "\<exists>s'. enqueue x s = Inr s' \<and> holds s' (xs @ [x]) \<and> keeps_rest s s'"
    if "holds s xs" "x \<notin> set xs" "0 < x" "x < length (fst s)" for s xs x using enqueue_holds[OF that] .
  show "\<exists>s'. dequeue x s = Inr s' \<and> holds s' (us @ vs) \<and> keeps_rest s s'"
    if "holds s (us @ x # vs)" for s us x vs using dequeue_holds[OF that] .
qed (auto simp: holds_def keeps_rest_def)

section \<open>The decision queue\<close>

text \<open>The queue with its time stamps; \<open>vals\<close> says which variables have a value.\<close>

record vmtf =
  vm_links :: "link list"
  vm_queue :: queue
  vm_btab :: "int list"
  vm_stamp :: int
  vm_vals :: "bool list"
  vm_max :: nat

definition update_queue_unassigned :: "nat \<Rightarrow> vmtf \<Rightarrow> vmtf res" where
  "update_queue_unassigned idx m = bindE (vget (vm_btab m) (int idx)) (\<lambda>b.
     Inr (m\<lparr>vm_queue := (vm_queue m)\<lparr>q_unassigned := idx, q_bumped := b\<rparr>\<rparr>))"

definition set_btab :: "nat \<Rightarrow> int \<Rightarrow> vmtf \<Rightarrow> vmtf res" where
  "set_btab i b m = (if i < length (vm_btab m) then Inr (m\<lparr>vm_btab := (vm_btab m)[i := b]\<rparr>) else Inl UB)"

definition init_enqueue :: "bool \<Rightarrow> nat \<Rightarrow> vmtf \<Rightarrow> vmtf res" where
  "init_enqueue reverse idx m = (let q = vm_queue m in
     if reverse then
       bindE (upd_link idx (\<lambda>l. l\<lparr>l_prev := 0\<rparr>) (vm_links m)) (\<lambda>ls.
       bindE (if q_first q \<noteq> 0
              then bindE (upd_link (q_first q) (\<lambda>k. k\<lparr>l_prev := idx\<rparr>) ls) (\<lambda>ls.
                   bindE (vget (vm_btab m) (int (q_first q))) (\<lambda>b.
                   bindE (set_btab idx (b - 1) (m\<lparr>vm_links := ls\<rparr>)) Inr))
              else bindE (set_btab idx 0 (m\<lparr>vm_links := ls, vm_queue := q\<lparr>q_last := idx\<rparr>\<rparr>)) Inr) (\<lambda>m1.
       bindE (upd_link idx (\<lambda>l. l\<lparr>l_next := q_first q\<rparr>) (vm_links m1)) (\<lambda>ls.
       (let m2 = m1\<lparr>vm_links := ls, vm_queue := (vm_queue m1)\<lparr>q_first := idx\<rparr>\<rparr>
        in if q_unassigned q = 0 then update_queue_unassigned (q_last (vm_queue m2)) m2 else Inr m2))))
     else
       bindE (upd_link idx (\<lambda>l. l\<lparr>l_next := 0\<rparr>) (vm_links m)) (\<lambda>ls.
       bindE (if q_last q \<noteq> 0 then bindE (upd_link (q_last q) (\<lambda>k. k\<lparr>l_next := idx\<rparr>) ls) (\<lambda>ls. Inr (ls, q))
              else Inr (ls, q\<lparr>q_first := idx\<rparr>)) (\<lambda>(ls, q1).
       bindE (set_btab idx (vm_stamp m + 1) (m\<lparr>vm_stamp := vm_stamp m + 1\<rparr>)) (\<lambda>m1.
       bindE (upd_link idx (\<lambda>l. l\<lparr>l_prev := q_last q1\<rparr>) ls) (\<lambda>ls.
       update_queue_unassigned idx (m1\<lparr>vm_links := ls, vm_queue := q1\<lparr>q_last := idx\<rparr>\<rparr>))))))"

definition init_queue :: "bool \<Rightarrow> nat \<Rightarrow> nat \<Rightarrow> vmtf \<Rightarrow> vmtf res" where
  "init_queue reverse old_max new_max = foldE (\<lambda>i. init_enqueue reverse (i + 1)) [old_max..<new_max]"

definition bump_queue :: "nat \<Rightarrow> vmtf \<Rightarrow> vmtf res" where
  "bump_queue idx m = bindE (vget (vm_links m) (int idx)) (\<lambda>l.
     if l_next l = 0 then Inr m
     else bindE (bindE (dequeue idx (vm_links m, vm_queue m)) (enqueue idx)) (\<lambda>(ls, q).
          bindE (set_btab idx (vm_stamp m + 1) (m\<lparr>vm_links := ls, vm_queue := q, vm_stamp := vm_stamp m + 1\<rparr>)) (\<lambda>m1.
          bindE (vget (vm_vals m1) (int idx)) (\<lambda>v. if \<not> v then update_queue_unassigned idx m1 else Inr m1))))"

text \<open>A variable gets a value, and loses it.\<close>

definition assign_var :: "nat \<Rightarrow> vmtf \<Rightarrow> vmtf" where
  "assign_var idx m = m\<lparr>vm_vals := (vm_vals m)[idx := True]\<rparr>"

definition unassign_var :: "nat \<Rightarrow> vmtf \<Rightarrow> vmtf res" where
  "unassign_var idx m = (let m1 = m\<lparr>vm_vals := (vm_vals m)[idx := False]\<rparr>
     in bindE (vget (vm_btab m1) (int idx)) (\<lambda>b. if q_bumped (vm_queue m1) < b then update_queue_unassigned idx m1 else Inr m1))"

text \<open>The search for the next decision; \<open>None\<close> when it does not end.\<close>

partial_function (option) search_back :: "bool list \<Rightarrow> link list \<Rightarrow> nat \<Rightarrow> nat \<Rightarrow> (nat \<times> nat) res option" where
  "search_back vals ls res searched = (case vget vals (int res) of Inl e \<Rightarrow> Some (Inl e)
     | Inr v \<Rightarrow> if v then (case vget ls (int res) of Inl e \<Rightarrow> Some (Inl e) | Inr l \<Rightarrow> search_back vals ls (l_prev l) (searched + 1))
                else Some (Inr (res, searched)))"

definition next_decision :: "vmtf \<Rightarrow> (nat \<times> vmtf) res option" where
  "next_decision m = (case search_back (vm_vals m) (vm_links m) (q_unassigned (vm_queue m)) 0 of
       None \<Rightarrow> None | Some (Inl e) \<Rightarrow> Some (Inl e)
     | Some (Inr (res, searched)) \<Rightarrow> Some (if searched \<noteq> 0 then bindE (update_queue_unassigned res m) (\<lambda>m. Inr (res, m)) else Inr (res, m)))"

section \<open>New variables\<close>

text \<open>The arrays grow by doubling. (A size 0 would never grow; the code only starts from a positive one.)\<close>

function grow :: "nat \<Rightarrow> nat \<Rightarrow> nat" where
  "grow v n = (if v = 0 \<or> n < v then v else grow (2 * v) n)"
  by auto

termination by (relation "measure (\<lambda>(v, n). Suc n - v)") auto

declare grow.simps [simp del]

definition enlarge :: "nat \<Rightarrow> vmtf \<Rightarrow> vmtf" where
  "enlarge new_max m = (let vsize = length (vm_links m);
       k = grow (if vsize \<noteq> 0 then 2 * vsize else 1 + new_max) new_max - vsize
     in m\<lparr>vm_links := vm_links m @ replicate k \<lparr>l_prev = 0, l_next = 0\<rparr>,
          vm_btab := vm_btab m @ replicate k 0, vm_vals := vm_vals m @ replicate k False\<rparr>)"

definition init_vars :: "bool \<Rightarrow> nat \<Rightarrow> vmtf \<Rightarrow> vmtf res" where
  "init_vars reverse new_max m = (if new_max \<le> vm_max m then Inr m
     else let m1 = (if length (vm_links m) \<le> new_max then enlarge new_max m else m)
          in init_queue reverse (vm_max m) new_max (m1\<lparr>vm_max := new_max\<rparr>))"

definition new_vmtf :: vmtf where
  "new_vmtf = \<lparr>vm_links = [], vm_queue = \<lparr>q_first = 0, q_last = 0, q_unassigned = 0, q_bumped = 0\<rparr>,
     vm_btab = [], vm_stamp = 0, vm_vals = [], vm_max = 0\<rparr>"

section \<open>The invariant\<close>

text \<open>
  The links stand for a list of all the variables, the stamps increase along it, every unassigned
  variable is stamped at most \<open>q_bumped\<close>, and \<open>q_unassigned\<close> is stamped at least that.
\<close>

definition vmtf_rep :: "vmtf \<Rightarrow> nat list \<Rightarrow> bool" where
  "vmtf_rep m xs \<longleftrightarrow> holds (vm_links m, vm_queue m) xs \<and>
     length (vm_btab m) = length (vm_links m) \<and> length (vm_vals m) = length (vm_links m) \<and>
     sorted_wrt (\<lambda>x y. vm_btab m ! x < vm_btab m ! y) xs \<and>
     (\<forall>x\<in>set xs. vm_btab m ! x \<le> vm_stamp m) \<and>
     (xs \<noteq> [] \<longrightarrow> q_unassigned (vm_queue m) \<in> set xs \<and> q_bumped (vm_queue m) \<le> vm_btab m ! q_unassigned (vm_queue m)) \<and>
     (\<forall>x\<in>set xs. \<not> vm_vals m ! x \<longrightarrow> vm_btab m ! x \<le> q_bumped (vm_queue m))"

definition vmtf_inv :: "vmtf \<Rightarrow> bool" where
  "vmtf_inv m \<longleftrightarrow> (\<exists>xs. vmtf_rep m xs \<and> set xs = {1..vm_max m}) \<and> (vm_max m = 0 \<or> vm_max m < length (vm_links m)) \<and>
     (\<forall>x. vm_max m < x \<and> x < length (vm_links m) \<longrightarrow> \<not> vm_vals m ! x)"

lemma vmtf_repD:
  assumes "vmtf_rep m xs"
  shows "holds (vm_links m, vm_queue m) xs" "length (vm_btab m) = length (vm_links m)" "length (vm_vals m) = length (vm_links m)"
    "sorted_wrt (\<lambda>x y. vm_btab m ! x < vm_btab m ! y) xs" "\<And>x. x \<in> set xs \<Longrightarrow> vm_btab m ! x \<le> vm_stamp m"
    "xs \<noteq> [] \<Longrightarrow> q_unassigned (vm_queue m) \<in> set xs" "xs \<noteq> [] \<Longrightarrow> q_bumped (vm_queue m) \<le> vm_btab m ! q_unassigned (vm_queue m)"
    "\<And>x. x \<in> set xs \<Longrightarrow> \<not> vm_vals m ! x \<Longrightarrow> vm_btab m ! x \<le> q_bumped (vm_queue m)"
    "\<And>x. x \<in> set xs \<Longrightarrow> 0 < x \<and> x < length (vm_links m)" "distinct xs"
  using assms unfolding vmtf_rep_def holds_def by auto

lemma holds_unassigned [simp]:
  "holds (ls, q\<lparr>q_unassigned := u\<rparr>) xs = holds (ls, q) xs" "holds (ls, q\<lparr>q_bumped := b\<rparr>) xs = holds (ls, q) xs"
  by (simp_all add: holds_def)

lemma upd_thrice: "i \<noteq> j \<Longrightarrow> xs[i := a, j := b, i := c] = xs[j := b, i := c]"
  by (simp add: list_update_swap)

lemma link_swap: "(l::link)\<lparr>l_next := a, l_prev := b\<rparr> = l\<lparr>l_prev := b, l_next := a\<rparr>"
  by simp

lemma init_enqueue_enqueue:
  assumes "holds (vm_links m, vm_queue m) xs" "idx \<notin> set xs" "0 < idx" "idx < length (vm_links m)"
    and "enqueue idx (vm_links m, vm_queue m) = Inr (ls, q)" and "length (vm_btab m) = length (vm_links m)"
  shows "init_enqueue False idx m = Inr (m\<lparr>vm_links := ls, vm_stamp := vm_stamp m + 1, vm_btab := (vm_btab m)[idx := vm_stamp m + 1],
     vm_queue := q\<lparr>q_unassigned := idx, q_bumped := vm_stamp m + 1\<rparr>\<rparr>)"
proof -
  let ?l = "last_or 0 xs"
  have l: "q_last (vm_queue m) = ?l" using assms(1) by (simp add: holds_def)
  show ?thesis
  proof (cases "?l = 0")
    case True
    then show ?thesis using assms l
      by (cases m) (auto simp: init_enqueue_def enqueue_def upd_link_def set_btab_def update_queue_unassigned_def link_swap)
  next
    case False
    then have "xs \<noteq> []" by auto
    then have "?l \<in> set xs" by (rule last_or_in)
    then have "?l \<noteq> idx" "?l < length (vm_links m)" using assms(1,2) by (auto simp: holds_def)
    then show ?thesis using assms l False
      by (cases m) (auto simp: init_enqueue_def enqueue_def upd_link_def set_btab_def update_queue_unassigned_def link_swap upd_thrice)
  qed
qed


lemma keeps_restD:
  assumes "keeps_rest (ls, q) (ls', q')"
  shows "length ls' = length ls" "q_unassigned q' = q_unassigned q" "q_bumped q' = q_bumped q"
  using assms by (auto simp: keeps_rest_def)

lemma sorted_other: "y \<notin> set xs \<Longrightarrow> sorted_wrt (\<lambda>a b. (bs[y := v]) ! a < (bs[y := v]) ! b) xs = sorted_wrt (\<lambda>a b. bs ! a < (bs ! b :: int)) xs"
  by (intro iffI; erule sorted_wrt_mono_rel[rotated]) (metis nth_list_update_neq)+

text \<open>A variable moved to the end of the list with a fresh stamp keeps the representation.\<close>

lemma rep_fresh_last:
  assumes r: "vmtf_rep m zs" and xs: "set xs = set zs - {x}" "sorted_wrt (\<lambda>a b. vm_btab m ! a < vm_btab m ! b) xs"
    and h: "holds (ls, q) (xs @ [x])" "length ls = length (vm_links m)"
  shows "vmtf_rep (m\<lparr>vm_links := ls, vm_stamp := vm_stamp m + 1, vm_btab := (vm_btab m)[x := vm_stamp m + 1],
       vm_queue := q\<lparr>q_unassigned := x, q_bumped := vm_stamp m + 1\<rparr>\<rparr>) (xs @ [x])"
    and "x \<in> set zs \<Longrightarrow> vm_vals m ! x \<Longrightarrow> q_unassigned q = q_unassigned (vm_queue m) \<Longrightarrow> q_bumped q = q_bumped (vm_queue m) \<Longrightarrow>
     vmtf_rep (m\<lparr>vm_links := ls, vm_stamp := vm_stamp m + 1, vm_btab := (vm_btab m)[x := vm_stamp m + 1], vm_queue := q\<rparr>) (xs @ [x])"
proof -
  let ?b = "(vm_btab m)[x := vm_stamp m + 1]"
  have x: "x \<notin> set xs" "x < length (vm_btab m)" using h vmtf_repD(2)[OF r] by (auto simp: holds_def)
  have old: "?b ! y = vm_btab m ! y" if "y \<in> set xs" for y using that x by (metis nth_list_update_neq)
  have le: "vm_btab m ! y \<le> vm_stamp m" if "y \<in> set xs" for y using vmtf_repD(5)[OF r, of y] that xs(1) by auto
  have len: "length (vm_btab m) = length (vm_links m)" "length (vm_vals m) = length (vm_links m)"
    using vmtf_repD(2,3)[OF r] by auto
  have so: "sorted_wrt (\<lambda>a b. ?b ! a < ?b ! b) (xs @ [x])"
    using xs(2) x old le by (auto simp: sorted_wrt_append sorted_other le_less_trans)
  have bd: "?b ! y \<le> vm_stamp m + 1" if "y \<in> set (xs @ [x])" for y using that x old[of y] le[of y] by auto
  show "vmtf_rep (m\<lparr>vm_links := ls, vm_stamp := vm_stamp m + 1, vm_btab := ?b,
       vm_queue := q\<lparr>q_unassigned := x, q_bumped := vm_stamp m + 1\<rparr>\<rparr>) (xs @ [x])"
    using h so bd len x by (simp add: vmtf_rep_def)
  assume z: "x \<in> set zs" "vm_vals m ! x" and q: "q_unassigned q = q_unassigned (vm_queue m)" "q_bumped q = q_bumped (vm_queue m)"
  then have ne: "zs \<noteq> []" by auto
  have s: "set (xs @ [x]) = set zs" using xs(1) z by auto
  have "q_bumped q \<le> ?b ! q_unassigned q"
  proof (cases "q_unassigned q = x")
    case True
    then show ?thesis using vmtf_repD(7)[OF r ne] vmtf_repD(5)[OF r z(1)] q x by simp
  next
    case False
    then show ?thesis using vmtf_repD(7)[OF r ne] q by simp
  qed
  moreover have "?b ! y \<le> q_bumped q" if "y \<in> set (xs @ [x])" "\<not> vm_vals m ! y" for y
    using vmtf_repD(8)[OF r, of y] that z(2) s q(2) by (cases "y = x") auto
  moreover have "q_unassigned q \<in> set (xs @ [x])" using vmtf_repD(6)[OF r ne] s q by simp
  ultimately show "vmtf_rep (m\<lparr>vm_links := ls, vm_stamp := vm_stamp m + 1, vm_btab := ?b, vm_queue := q\<rparr>) (xs @ [x])"
    using h so bd len by (simp add: vmtf_rep_def)
qed

lemma init_enqueue_rep:
  assumes r: "vmtf_rep m xs" and idx: "idx \<notin> set xs" "0 < idx" "idx < length (vm_links m)"
  shows "\<exists>m'. init_enqueue False idx m = Inr m' \<and> vmtf_rep m' (xs @ [idx]) \<and> length (vm_links m') = length (vm_links m) \<and>
     vm_vals m' = vm_vals m \<and> vm_max m' = vm_max m \<and> q_unassigned (vm_queue m') = idx"
proof -
  obtain ls q where e: "enqueue idx (vm_links m, vm_queue m) = Inr (ls, q)" "holds (ls, q) (xs @ [idx])"
      and k: "keeps_rest (vm_links m, vm_queue m) (ls, q)"
    using enqueue_holds[OF vmtf_repD(1)[OF r] idx(1,2)] idx(3) by auto
  note len = keeps_restD[OF k]
  from init_enqueue_enqueue[OF vmtf_repD(1)[OF r] idx e(1) vmtf_repD(2)[OF r]]
    rep_fresh_last(1)[OF r _ vmtf_repD(4)[OF r] e(2) len(1)] idx(1) len(1)
  show ?thesis by auto
qed

lemma init_queue_rep:
  assumes "vmtf_rep m xs" "set xs = {1..a}" "a \<le> b" "b < length (vm_links m) \<or> a = b"
  shows "\<exists>m'. init_queue False a b m = Inr m' \<and> vmtf_rep m' (xs @ [a + 1..<b + 1]) \<and> length (vm_links m') = length (vm_links m) \<and>
     vm_vals m' = vm_vals m \<and> vm_max m' = vm_max m \<and> q_unassigned (vm_queue m') = (if a < b then b else q_unassigned (vm_queue m))"
  using assms
proof (induction "b - a" arbitrary: a m xs)
  case 0
  then show ?case by (auto simp: init_queue_def)
next
  case (Suc k)
  then have ab: "a < b" by simp
  obtain m1 where m1: "init_enqueue False (a + 1) m = Inr m1" "vmtf_rep m1 (xs @ [a + 1])" "length (vm_links m1) = length (vm_links m)"
      "vm_vals m1 = vm_vals m" "vm_max m1 = vm_max m" "q_unassigned (vm_queue m1) = a + 1"
    using init_enqueue_rep[OF Suc.prems(1), of "a + 1"] Suc.prems ab by auto
  have "set (xs @ [a + 1]) = {1..a + 1}" "k = b - (a + 1)" "a + 1 \<le> b" "b < length (vm_links m1) \<or> a + 1 = b"
    using Suc ab m1(3) by auto
  from Suc.hyps(1)[OF this(2) m1(2) this(1) this(3) this(4)]
  obtain m' where "init_queue False (a + 1) b m1 = Inr m'" "vmtf_rep m' ((xs @ [a + 1]) @ [a + 1 + 1..<b + 1])"
      "length (vm_links m') = length (vm_links m1)" "vm_vals m' = vm_vals m1" "vm_max m' = vm_max m1"
      "q_unassigned (vm_queue m') = (if a + 1 < b then b else q_unassigned (vm_queue m1))" by blast
  moreover have "[a + 1..<b + 1] = (a + 1) # [a + 1 + 1..<b + 1]" "[a..<b] = a # [a + 1..<b]"
    using ab by (auto intro: upt_conv_Cons)
  ultimately show ?case using m1 ab by (simp add: init_queue_def del: upt_Suc)
qed


lemma bump_queue_rep:
  assumes r: "vmtf_rep m (us @ x # vs)"
  shows "\<exists>m'. bump_queue x m = Inr m' \<and> vmtf_rep m' (us @ vs @ [x]) \<and> length (vm_links m') = length (vm_links m) \<and>
     vm_vals m' = vm_vals m \<and> vm_max m' = vm_max m"
proof (cases "vs = []")
  case True
  have "chain (vm_links m) 0 (us @ [x]) 0" using vmtf_repD(1)[OF r] True by (simp add: holds_def)
  then show ?thesis using True r vmtf_repD(9)[OF r, of x] by (simp add: bump_queue_def chain_append)
next
  case False
  note h = vmtf_repD(1)[OF r]
  obtain ls q where e: "bindE (dequeue x (vm_links m, vm_queue m)) (enqueue x) = Inr (ls, q)" "holds (ls, q) ((us @ vs) @ [x])"
      and k: "keeps_rest (vm_links m, vm_queue m) (ls, q)"
    using links.to_end[OF h] by auto
  note k = keeps_restD[OF k]
  have "hd_or 0 vs \<noteq> 0" using hd_or_in[OF False, of 0] vmtf_repD(9)[OF r, of "hd_or 0 vs"] by auto
  then have n: "l_next (vm_links m ! x) \<noteq> 0" using h by (simp add: holds_def chain_append)
  have x: "x < length (vm_links m)" "x \<notin> set (us @ vs)" using vmtf_repD(9,10)[OF r] by auto
  have so: "sorted_wrt (\<lambda>a b. vm_btab m ! a < vm_btab m ! b) (us @ vs)" "set (us @ vs) = set (us @ x # vs) - {x}"
    using vmtf_repD(4)[OF r] x by (auto simp: sorted_wrt_append)
  note rep = rep_fresh_last[OF r so(2,1) e(2) k(1)]
  have bump: "bump_queue x m = Inr (if \<not> vm_vals m ! x
      then m\<lparr>vm_links := ls, vm_stamp := vm_stamp m + 1, vm_btab := (vm_btab m)[x := vm_stamp m + 1],
         vm_queue := q\<lparr>q_unassigned := x, q_bumped := vm_stamp m + 1\<rparr>\<rparr>
      else m\<lparr>vm_links := ls, vm_stamp := vm_stamp m + 1, vm_btab := (vm_btab m)[x := vm_stamp m + 1], vm_queue := q\<rparr>)"
    using n e(1) x vmtf_repD(2,3)[OF r] by (cases m) (simp add: bump_queue_def set_btab_def update_queue_unassigned_def)
  show ?thesis using bump rep k by (cases "vm_vals m ! x") simp_all
qed

lemma assign_var_rep: "vmtf_rep m xs \<Longrightarrow> vmtf_rep (assign_var x m) xs"
  by (simp add: vmtf_rep_def assign_var_def) (metis nth_list_update_eq nth_list_update_neq nth_list_update holds_def fst_conv)

lemma unassign_var_rep:
  assumes r: "vmtf_rep m xs" and x: "x \<in> set xs"
  shows "\<exists>m'. unassign_var x m = Inr m' \<and> vmtf_rep m' xs \<and> length (vm_links m') = length (vm_links m) \<and>
     vm_vals m' = (vm_vals m)[x := False] \<and> vm_max m' = vm_max m"
proof -
  have l: "x < length (vm_btab m)" "xs \<noteq> []" using vmtf_repD(2,9)[OF r] x by auto
  have le: "vm_btab m ! y \<le> max (q_bumped (vm_queue m)) (vm_btab m ! x)"
    if "y \<in> set xs" "\<not> (vm_vals m)[x := False] ! y" for y
    using vmtf_repD(8)[OF r that(1)] that(2) by (cases "y = x") auto
  show ?thesis
  proof (cases "q_bumped (vm_queue m) < vm_btab m ! x")
    case True
    have "vmtf_rep (m\<lparr>vm_vals := (vm_vals m)[x := False], vm_queue := (vm_queue m)\<lparr>q_unassigned := x, q_bumped := vm_btab m ! x\<rparr>\<rparr>) xs"
      using r x le True by (auto simp: vmtf_rep_def)
    then show ?thesis using l True by (simp add: unassign_var_def update_queue_unassigned_def)
  next
    case False
    have "vmtf_rep (m\<lparr>vm_vals := (vm_vals m)[x := False]\<rparr>) xs"
      using r x le False by (auto simp: vmtf_rep_def)
    then show ?thesis using l False by (simp add: unassign_var_def)
  qed
qed

text \<open>The search returns the last unassigned variable.\<close>

lemma search_back_rep:
  assumes "chain ls p (us @ x # zs @ [y]) n" "\<forall>z\<in>set (us @ x # zs @ [y]). z < length ls" "length vals = length ls"
    and "\<not> vals ! x" "\<forall>z\<in>set (zs @ [y]). vals ! z"
  shows "search_back vals ls y k = Some (Inr (x, k + length zs + 1))"
  using assms
proof (induction zs arbitrary: y n k rule: rev_induct)
  case Nil
  then show ?case by (subst search_back.simps) (simp add: chain_append search_back.simps)
next
  case (snoc z zs)
  then have "chain ls p (us @ x # zs @ [z]) y" by (simp add: chain_append)
  then have "search_back vals ls z (k + 1) = Some (Inr (x, k + 1 + length zs + 1))" using snoc by simp
  moreover have "l_prev (ls ! y) = z" using snoc.prems(1) by (simp add: chain_append)
  ultimately show ?case using snoc.prems by (subst search_back.simps) simp
qed


lemma next_decision_rep:
  assumes r: "vmtf_rep m xs" and ex: "y \<in> set xs" "\<not> vm_vals m ! y"
  shows "\<exists>x m'. next_decision m = Some (Inr (x, m')) \<and> x \<in> set xs \<and> \<not> vm_vals m ! x \<and>
     (\<forall>y\<in>set xs. \<not> vm_vals m ! y \<longrightarrow> vm_btab m ! y \<le> vm_btab m ! x) \<and> vmtf_rep m' xs \<and>
     m' = m\<lparr>vm_queue := vm_queue m'\<rparr>"
proof -
  let ?u = "q_unassigned (vm_queue m)"
  have "xs \<noteq> []" using ex(1) by auto
  note u = vmtf_repD(6,7)[OF r this]
  obtain us vs where s: "xs = us @ ?u # vs" using split_list[OF u(1)] by blast
  have gt: "vm_vals m ! z" if "z \<in> set vs" for z
  proof (rule ccontr)
    assume "\<not> vm_vals m ! z"
    then have "vm_btab m ! z \<le> vm_btab m ! ?u" using vmtf_repD(8)[OF r, of z] that s u(2) by fastforce
    moreover have "vm_btab m ! ?u < vm_btab m ! z"
      using vmtf_repD(4)[OF r] that by (subst (asm) s) (simp add: sorted_wrt_append)
    ultimately show False by simp
  qed
  have "y \<in> set (us @ [?u])" using ex gt s by (metis Un_iff set_append set_ConsD append_Nil append.assoc append_Cons in_set_conv_decomp)
  then have "\<exists>z\<in>set (us @ [?u]). \<not> vm_vals m ! z" using ex(2) by blast
  then obtain ys x zs where d: "us @ [?u] = ys @ x # zs" "\<not> vm_vals m ! x" "\<And>z. z \<in> set zs \<Longrightarrow> vm_vals m ! z"
    using split_list_last_prop[of "us @ [?u]" "\<lambda>z. \<not> vm_vals m ! z"] by auto
  have xs: "xs = ys @ x # zs @ vs" using s d(1) by (metis append.assoc append_Cons append_Nil)
  have le: "vm_btab m ! z \<le> vm_btab m ! x" if "z \<in> set xs" "\<not> vm_vals m ! z" for z
  proof -
    have "z \<in> set ys \<or> z = x" using that d(3) gt xs by auto
    then show ?thesis using vmtf_repD(4)[OF r] by (auto simp: xs sorted_wrt_append less_imp_le)
  qed
  have x: "x \<in> set xs" "x < length (vm_btab m)" using xs vmtf_repD(2,9)[OF r] by auto
  let ?m = "m\<lparr>vm_queue := (vm_queue m)\<lparr>q_unassigned := x, q_bumped := vm_btab m ! x\<rparr>\<rparr>"
  have rm: "vmtf_rep ?m xs" using r x le by (auto simp: vmtf_rep_def)
  have nd: "next_decision m = Some (Inr (x, if zs = [] then m else ?m))"
  proof (cases zs rule: rev_cases)
    case Nil
    then have "x = ?u" using d(1) by simp
    then show ?thesis using Nil d(2) x vmtf_repD(3)[OF r] vmtf_repD(9)[OF r, of ?u] u
      by (simp add: next_decision_def search_back.simps)
  next
    case (snoc zs' w)
    then have w: "w = ?u" using d(1) by (metis append_Cons append.assoc last_snoc)
    have "chain (vm_links m) 0 (ys @ x # zs' @ [?u]) (hd_or 0 vs)"
      using vmtf_repD(1)[OF r] xs snoc w by (simp add: holds_def chain_append)
    from search_back_rep[OF this, where vals = "vm_vals m" and k = 0] vmtf_repD(3,9)[OF r] d(2,3) xs snoc w
    have "search_back (vm_vals m) (vm_links m) ?u 0 = Some (Inr (x, length zs' + 1))" by auto
    then show ?thesis using snoc x by (simp add: next_decision_def update_queue_unassigned_def)
  qed
  show ?thesis
  proof (cases "zs = []")
    case True
    then show ?thesis using nd d(2) x(1) le r by simp
  next
    case False
    then show ?thesis using nd d(2) x(1) le rm by simp
  qed
qed

section \<open>Runs\<close>

text \<open>
  What the search does to the queue: new variables, a variable bumped, assigned or unassigned, a
  decision asked for while some variable has no value.
\<close>

inductive vmtf_step :: "vmtf \<Rightarrow> vmtf \<Rightarrow> bool" where
  Init: "init_vars False n m = Inr m' \<Longrightarrow> vmtf_step m m'"
| Bump: "x \<in> {1..vm_max m} \<Longrightarrow> bump_queue x m = Inr m' \<Longrightarrow> vmtf_step m m'"
| Assign: "x \<in> {1..vm_max m} \<Longrightarrow> \<not> vm_vals m ! x \<Longrightarrow> vmtf_step m (assign_var x m)"
| Unassign: "x \<in> {1..vm_max m} \<Longrightarrow> vm_vals m ! x \<Longrightarrow> unassign_var x m = Inr m' \<Longrightarrow> vmtf_step m m'"
| Decide: "x \<in> {1..vm_max m} \<Longrightarrow> \<not> vm_vals m ! x \<Longrightarrow> next_decision m = Some (Inr (y, m')) \<Longrightarrow> vmtf_step m m'"

lemma vmtf_invE:
  assumes "vmtf_inv m"
  obtains xs where "vmtf_rep m xs" "set xs = {1..vm_max m}" "vm_max m = 0 \<or> vm_max m < length (vm_links m)"
    "\<forall>x. vm_max m < x \<and> x < length (vm_links m) \<longrightarrow> \<not> vm_vals m ! x"
  using assms unfolding vmtf_inv_def by blast

lemma vmtf_invI:
  assumes "vmtf_rep m xs" "set xs = {1..vm_max m}" "vm_max m = 0 \<or> vm_max m < length (vm_links m)"
    "\<forall>x. vm_max m < x \<and> x < length (vm_links m) \<longrightarrow> \<not> vm_vals m ! x"
  shows "vmtf_inv m"
  using assms unfolding vmtf_inv_def by blast

lemma grow_gt: "0 < v \<Longrightarrow> n < grow v n \<and> v \<le> grow v n"
proof (induction v n rule: grow.induct)
  case (1 v n)
  then show ?case by (subst (1 2) grow.simps) auto
qed

lemma enlarge_rep:
  assumes r: "vmtf_rep m xs"
  shows "vmtf_rep (enlarge n m) xs" and "n < length (vm_links (enlarge n m))" and "vm_max (enlarge n m) = vm_max m"
    and "\<And>x. x < length (vm_links (enlarge n m)) \<Longrightarrow> vm_vals (enlarge n m) ! x \<Longrightarrow> x < length (vm_links m) \<and> vm_vals m ! x"
proof -
  let ?v = "length (vm_links m)"
  define k where "k = grow (if ?v \<noteq> 0 then 2 * ?v else 1 + n) n - ?v"
  have e: "enlarge n m = m\<lparr>vm_links := vm_links m @ replicate k \<lparr>l_prev = 0, l_next = 0\<rparr>,
      vm_btab := vm_btab m @ replicate k 0, vm_vals := vm_vals m @ replicate k False\<rparr>"
    by (simp add: enlarge_def k_def Let_def)
  have len: "length (vm_btab m) = ?v" "length (vm_vals m) = ?v" using vmtf_repD(2,3)[OF r] by auto
  have b: "x < ?v \<Longrightarrow> (vm_btab m @ replicate k 0) ! x = vm_btab m ! x" "x < ?v \<Longrightarrow> (vm_vals m @ replicate k False) ! x = vm_vals m ! x" for x
    using len by (simp_all add: nth_append)
  have dom: "x < ?v" if "x \<in> set xs" for x using vmtf_repD(9)[OF r that] by simp
  have ch: "chain (ls @ zs) p ys q = chain ls p ys q" if "\<forall>y\<in>set ys. y < length ls" for ls zs p ys q
    using that by (induction ys arbitrary: p) (auto simp: nth_append)
  have ho: "holds (vm_links m @ replicate k \<lparr>l_prev = 0, l_next = 0\<rparr>, vm_queue m) xs"
    using vmtf_repD(1)[OF r] dom by (auto simp: holds_def ch intro: trans_less_add1)
  have so: "sorted_wrt (\<lambda>a c. (vm_btab m @ replicate k 0) ! a < (vm_btab m @ replicate k 0) ! c) xs"
    using vmtf_repD(4)[OF r] by (rule sorted_wrt_mono_rel[rotated]) (simp add: b dom)
  show "vmtf_rep (enlarge n m) xs" unfolding vmtf_rep_def e
    using ho so vmtf_repD(5-8)[OF r] b dom len by auto
  show "n < length (vm_links (enlarge n m))"
    using grow_gt[of "2 * ?v" n] grow_gt[of "1 + n" n] by (cases "?v = 0") (simp_all add: e k_def)
  show "vm_max (enlarge n m) = vm_max m" by (simp add: e)
  show "x < ?v \<and> vm_vals m ! x" if "x < length (vm_links (enlarge n m))" "vm_vals (enlarge n m) ! x" for x
    using that len by (auto simp: e nth_append split: if_splits)
qed


lemma init_vars_inv:
  assumes "vmtf_inv m"
  shows "\<exists>m'. init_vars False n m = Inr m' \<and> vmtf_inv m' \<and> vm_max m' = max n (vm_max m)"
proof (cases "n \<le> vm_max m")
  case True
  then show ?thesis using assms by (simp add: init_vars_def)
next
  case False
  obtain xs where xs: "vmtf_rep m xs" "set xs = {1..vm_max m}"
      and hi: "\<forall>x. vm_max m < x \<and> x < length (vm_links m) \<longrightarrow> \<not> vm_vals m ! x"
    using assms unfolding vmtf_inv_def by blast
  define m1 where "m1 = (if length (vm_links m) \<le> n then enlarge n m else m)"
  have m1: "vmtf_rep m1 xs" "n < length (vm_links m1)" "vm_max m1 = vm_max m"
    unfolding m1_def using xs(1) enlarge_rep(1-3)[OF xs(1), of n] by auto
  have hi1: "\<not> vm_vals m1 ! x" if x: "vm_max m < x" "x < length (vm_links m1)" for x
  proof (cases "length (vm_links m) \<le> n")
    case True
    then show ?thesis using enlarge_rep(4)[OF xs(1), of x n] hi x by (auto simp: m1_def)
  next
    case F: False
    then show ?thesis using hi x by (simp add: m1_def)
  qed
  let ?m = "m1\<lparr>vm_max := n\<rparr>"
  have rm: "vmtf_rep ?m xs" using m1(1) by (simp add: vmtf_rep_def)
  obtain m' where m': "init_queue False (vm_max m) n ?m = Inr m'" "vmtf_rep m' (xs @ [vm_max m + 1..<n + 1])"
      "length (vm_links m') = length (vm_links m1)" "vm_vals m' = vm_vals m1" "vm_max m' = n"
    using init_queue_rep[OF rm xs(2), of n] False m1(2) by (auto simp del: upt_Suc)
  have "set (xs @ [vm_max m + 1..<n + 1]) = {1..vm_max m'}" unfolding set_append xs(2) m'(5) using False by auto
  then have "vmtf_inv m'"
    by (rule vmtf_invI[OF m'(2)]) (use m' m1(2) hi1 False in auto)
  moreover have "init_vars False n m = Inr m'" using False m'(1)
    unfolding init_vars_def m1_def[symmetric] Let_def by simp
  ultimately show ?thesis using m'(5) False by simp
qed

lemma bump_queue_inv:
  assumes "vmtf_inv m" "x \<in> {1..vm_max m}"
  shows "\<exists>m'. bump_queue x m = Inr m' \<and> vmtf_inv m' \<and> vm_max m' = vm_max m"
proof -
  obtain xs where xs: "vmtf_rep m xs" "set xs = {1..vm_max m}" "vm_max m = 0 \<or> vm_max m < length (vm_links m)"
      "\<forall>x. vm_max m < x \<and> x < length (vm_links m) \<longrightarrow> \<not> vm_vals m ! x"
    by (rule vmtf_invE[OF assms(1)])
  have "x \<in> set xs" using xs(2) assms(2) by blast
  then obtain us vs where s: "xs = us @ x # vs" by (auto dest: split_list)
  obtain m' where m': "bump_queue x m = Inr m'" "vmtf_rep m' (us @ vs @ [x])" "length (vm_links m') = length (vm_links m)"
      "vm_vals m' = vm_vals m" "vm_max m' = vm_max m"
    using bump_queue_rep[OF xs(1)[unfolded s]] by blast
  have "set (us @ vs @ [x]) = {1..vm_max m'}" using xs(2) m'(5) s by auto
  then have "vmtf_inv m'" by (rule vmtf_invI[OF m'(2)]) (use m' xs in auto)
  then show ?thesis using m' by blast
qed

lemma assign_var_inv: "vmtf_inv m \<Longrightarrow> x \<in> {1..vm_max m} \<Longrightarrow> vmtf_inv (assign_var x m)"
  by (elim vmtf_invE, rule vmtf_invI[OF assign_var_rep]) (auto simp: assign_var_def)

lemma unassign_var_inv:
  assumes "vmtf_inv m" "x \<in> {1..vm_max m}"
  shows "\<exists>m'. unassign_var x m = Inr m' \<and> vmtf_inv m' \<and> vm_max m' = vm_max m"
proof -
  obtain xs where xs: "vmtf_rep m xs" "set xs = {1..vm_max m}" "vm_max m = 0 \<or> vm_max m < length (vm_links m)"
      "\<forall>x. vm_max m < x \<and> x < length (vm_links m) \<longrightarrow> \<not> vm_vals m ! x"
    by (rule vmtf_invE[OF assms(1)])
  have "x \<in> set xs" using xs(2) assms(2) by blast
  then obtain m' where m': "unassign_var x m = Inr m'" "vmtf_rep m' xs" "length (vm_links m') = length (vm_links m)"
      "vm_vals m' = (vm_vals m)[x := False]" "vm_max m' = vm_max m"
    using unassign_var_rep[OF xs(1)] by blast
  have "set xs = {1..vm_max m'}" using xs(2) m'(5) by simp
  then have "vmtf_inv m'" by (rule vmtf_invI[OF m'(2)]) (use m' xs assms(2) in auto)
  then show ?thesis using m' by blast
qed

lemma next_decision_inv:
  assumes "vmtf_inv m" "x \<in> {1..vm_max m}" "\<not> vm_vals m ! x"
  shows "\<exists>y m'. next_decision m = Some (Inr (y, m')) \<and> vmtf_inv m' \<and> y \<in> {1..vm_max m} \<and> \<not> vm_vals m ! y \<and>
     (\<forall>z\<in>{1..vm_max m}. \<not> vm_vals m ! z \<longrightarrow> vm_btab m ! z \<le> vm_btab m ! y) \<and> m' = m\<lparr>vm_queue := vm_queue m'\<rparr>"
proof -
  obtain xs where xs: "vmtf_rep m xs" "set xs = {1..vm_max m}" "vm_max m = 0 \<or> vm_max m < length (vm_links m)"
      "\<forall>x. vm_max m < x \<and> x < length (vm_links m) \<longrightarrow> \<not> vm_vals m ! x"
    by (rule vmtf_invE[OF assms(1)])
  obtain y m' where y: "next_decision m = Some (Inr (y, m'))" "y \<in> set xs" "\<not> vm_vals m ! y"
      "\<forall>z\<in>set xs. \<not> vm_vals m ! z \<longrightarrow> vm_btab m ! z \<le> vm_btab m ! y" "vmtf_rep m' xs" "m' = m\<lparr>vm_queue := vm_queue m'\<rparr>"
    using next_decision_rep[OF xs(1) _ assms(3)] xs(2) assms(2) by blast
  have f: "vm_max m' = vm_max m" "vm_links m' = vm_links m" "vm_vals m' = vm_vals m" by (subst y(6), simp)+
  have "vmtf_inv m'" by (rule vmtf_invI[OF y(5)]) (use f xs in auto)
  then show ?thesis using y xs(2) by metis
qed

lemma vmtf_step_inv: "vmtf_step m m' \<Longrightarrow> vmtf_inv m \<Longrightarrow> vmtf_inv m'"
proof (induction rule: vmtf_step.induct)
  case (Init n m m')
  then show ?case using init_vars_inv[of m n] by auto
next
  case (Bump x m m')
  then show ?case using bump_queue_inv[of m x] by auto
next
  case (Assign x m)
  then show ?case by (intro assign_var_inv)
next
  case (Unassign x m m')
  then show ?case using unassign_var_inv[of m x] by auto
next
  case (Decide x m y m')
  then show ?case using next_decision_inv[of m x] by auto
qed

lemma new_vmtf_inv: "vmtf_inv new_vmtf"
  by (rule vmtf_invI[of _ "[]"]) (simp_all add: new_vmtf_def vmtf_rep_def holds_def)

lemma runs_inv: "vmtf_step\<^sup>*\<^sup>* new_vmtf m \<Longrightarrow> vmtf_inv m"
  by (induction rule: rtranclp_induct) (auto intro: new_vmtf_inv vmtf_step_inv)

section \<open>The initial order\<close>

lemma init_enqueue_front:
  assumes h: "holds (vm_links m, vm_queue m) xs" and idx: "idx \<notin> set xs" "0 < idx" "idx < length (vm_links m)"
    and len: "length (vm_btab m) = length (vm_links m)"
  shows "\<exists>m'. init_enqueue True idx m = Inr m' \<and> holds (vm_links m', vm_queue m') (idx # xs) \<and>
     length (vm_links m') = length (vm_links m) \<and> length (vm_btab m') = length (vm_links m) \<and> vm_vals m' = vm_vals m \<and>
     q_unassigned (vm_queue m') = (if q_unassigned (vm_queue m) = 0 then last_or idx xs else q_unassigned (vm_queue m))"
proof -
  let ?ls = "vm_links m" and ?q = "vm_queue m"
  let ?f = "hd_or 0 xs"
  note H = h[unfolded holds_def, simplified]
  have lb: "last_or idx xs < length (vm_btab m)"
    using last_or_in[of xs idx] H idx len by (cases "xs = []") auto
  show ?thesis
  proof (cases "xs = []")
    case True
    then show ?thesis using H idx len
      by (auto simp: init_enqueue_def upd_link_def set_btab_def update_queue_unassigned_def holds_def)
  next
    case False
    have f: "?f \<in> set xs" using hd_or_in[OF False] by auto
    have f2: "?f \<noteq> 0" "?f \<noteq> idx" "?f < length ?ls" "q_first ?q = ?f" using f H idx by auto
    let ?l = "?ls[idx := (?ls ! idx)\<lparr>l_prev := 0\<rparr>, ?f := (?ls ! ?f)\<lparr>l_prev := idx\<rparr>, idx := (?ls ! idx)\<lparr>l_prev := 0, l_next := ?f\<rparr>]"
    have "chain (?ls[idx := (?ls ! idx)\<lparr>l_prev := 0\<rparr>]) 0 xs 0" using H idx(1) by (simp add: chain_other)
    then have "chain (?ls[idx := (?ls ! idx)\<lparr>l_prev := 0\<rparr>, ?f := (?ls ! ?f)\<lparr>l_prev := idx\<rparr>]) idx xs 0"
      using chain_hd[of "?ls[idx := (?ls ! idx)\<lparr>l_prev := 0\<rparr>]" 0 xs 0 idx] H False f2 by (simp add: hd_or_def)
    then have c: "chain ?l 0 (idx # xs) 0" using idx f2 by (simp add: chain_other)
    have "q_last ?q = last_or 0 xs" using H by simp
    then have ql: "q_last ?q = last_or idx xs" using False by (simp add: last_or_def)
    have "holds (?l, ?q\<lparr>q_first := idx\<rparr>) (idx # xs)" using H idx c ql by (auto simp: holds_def)
    then show ?thesis using f2 idx len ql lb
      by (auto simp: init_enqueue_def upd_link_def set_btab_def update_queue_unassigned_def Let_def)
  qed
qed

lemma init_queue_front:
  assumes "holds (vm_links m, vm_queue m) xs" "set xs = {1..a}" "a \<le> b" "b < length (vm_links m)"
    and "length (vm_btab m) = length (vm_links m)" "a = 0 \<longrightarrow> q_unassigned (vm_queue m) = 0" "0 < a \<longrightarrow> q_unassigned (vm_queue m) = last xs" "xs \<noteq> [] \<longrightarrow> last xs = 1"
  shows "\<exists>m'. init_queue True a b m = Inr m' \<and> holds (vm_links m', vm_queue m') (rev [a + 1..<b + 1] @ xs) \<and>
     vm_vals m' = vm_vals m \<and> length (vm_links m') = length (vm_links m) \<and> (0 < b \<longrightarrow> q_unassigned (vm_queue m') = 1)"
  using assms
proof (induction "b - a" arbitrary: a m xs)
  case 0
  then show ?case by (auto simp: init_queue_def)
next
  case (Suc k)
  then have ab: "a < b" by simp
  have ne: "xs = [] \<longleftrightarrow> a = 0" using Suc.prems(2) by (cases a) auto
  have "Suc a \<notin> set xs" "Suc a < length (vm_links m)" using Suc.prems(2,4) ab by simp_all
  from init_enqueue_front[OF Suc.prems(1) this(1) zero_less_Suc this(2) Suc.prems(5)]
  obtain m1 where m1: "init_enqueue True (Suc a) m = Inr m1" "holds (vm_links m1, vm_queue m1) (Suc a # xs)"
      "length (vm_links m1) = length (vm_links m)" "length (vm_btab m1) = length (vm_links m)" "vm_vals m1 = vm_vals m"
      "q_unassigned (vm_queue m1) = (if q_unassigned (vm_queue m) = 0 then last_or (Suc a) xs else q_unassigned (vm_queue m))" by blast
  have l1: "last (Suc a # xs) = 1" using Suc.prems(8) ne by auto
  have u: "q_unassigned (vm_queue m1) = last (Suc a # xs)"
    using m1(6) Suc.prems(6,7) l1 ne by (cases "a = 0") (auto simp: last_or_def)
  have p: "set (Suc a # xs) = {1..Suc a}" "k = b - Suc a" "Suc a \<le> b" "b < length (vm_links m1)" "length (vm_btab m1) = length (vm_links m1)"
      "Suc a = 0 \<longrightarrow> q_unassigned (vm_queue m1) = 0" "0 < Suc a \<longrightarrow> q_unassigned (vm_queue m1) = last (Suc a # xs)"
      "Suc a # xs \<noteq> [] \<longrightarrow> last (Suc a # xs) = 1"
    using Suc.prems(2,4) Suc.hyps(2) ab m1(3,4) u l1 by auto
  from Suc.hyps(1)[OF p(2) m1(2) p(1,3-8)]
  obtain m' where "init_queue True (Suc a) b m1 = Inr m'" "holds (vm_links m', vm_queue m') (rev [Suc a + 1..<b + 1] @ Suc a # xs)"
     "vm_vals m' = vm_vals m1" "length (vm_links m') = length (vm_links m1)" "0 < b \<longrightarrow> q_unassigned (vm_queue m') = 1" by blast
  moreover have "[a + 1..<b + 1] = Suc a # [Suc a + 1..<b + 1]" "[a..<b] = a # [Suc a..<b]"
    using ab by (auto simp: upt_conv_Cons simp del: upt_Suc)
  ultimately show ?case using m1 by (simp add: init_queue_def del: upt_Suc)
qed

lemma next_decision_here:
  assumes "length (vm_vals m) = length (vm_links m)" "q_unassigned (vm_queue m) = x" "x < length (vm_links m)" "\<not> vm_vals m ! x"
  shows "next_decision m = Some (Inr (x, m))"
  using assms by (simp add: next_decision_def search_back.simps)

lemma enlarge_new:
  assumes "0 < n"
  shows "\<exists>k>n. enlarge n new_vmtf\<lparr>vm_max := n\<rparr> = new_vmtf\<lparr>vm_links := replicate k \<lparr>l_prev = 0, l_next = 0\<rparr>,
     vm_btab := replicate k 0, vm_vals := replicate k False, vm_max := n\<rparr>"
  using grow_gt[of "1 + n" n] assms by (intro exI[where x = "grow (1 + n) n"]) (simp add: enlarge_def new_vmtf_def Let_def)

lemma initial_queue:
  assumes "0 < n"
  shows "\<exists>m. init_vars rv n new_vmtf = Inr m \<and> holds (vm_links m, vm_queue m) (if rv then rev [1..<n + 1] else [1..<n + 1]) \<and>
     next_decision m = Some (Inr (if rv then 1 else n, m))"
proof -
  obtain k where k: "n < k" "enlarge n new_vmtf\<lparr>vm_max := n\<rparr> = new_vmtf\<lparr>vm_links := replicate k \<lparr>l_prev = 0, l_next = 0\<rparr>,
     vm_btab := replicate k 0, vm_vals := replicate k False, vm_max := n\<rparr>"
    using enlarge_new[OF assms] by blast
  let ?m = "new_vmtf\<lparr>vm_links := replicate k \<lparr>l_prev = 0, l_next = 0\<rparr>,
     vm_btab := replicate k 0, vm_vals := replicate k False, vm_max := n\<rparr>"
  have i: "init_vars rv n new_vmtf = init_queue rv 0 n ?m" for rv
    using assms unfolding k(2)[symmetric] by (simp add: init_vars_def new_vmtf_def)
  have r: "vmtf_rep ?m []" by (simp add: vmtf_rep_def new_vmtf_def holds_def)
  show ?thesis
  proof (cases rv)
    case True
    obtain m where m: "init_queue True 0 n ?m = Inr m" "holds (vm_links m, vm_queue m) (rev [1..<n + 1])"
        "vm_vals m = replicate k False" "length (vm_links m) = k" "q_unassigned (vm_queue m) = 1"
      using init_queue_front[OF vmtf_repD(1)[OF r], of 0 n] k(1) assms by (auto simp: new_vmtf_def simp del: upt_Suc)
    then show ?thesis using True i[of True] k(1) assms next_decision_here[of m 1] by (simp del: upt_Suc)
  next
    case False
    obtain m where m: "init_queue False 0 n ?m = Inr m" "vmtf_rep m [1..<n + 1]" "vm_vals m = replicate k False"
        "length (vm_links m) = k" "q_unassigned (vm_queue m) = n"
      using init_queue_rep[OF r, of 0 n] k(1) assms by (auto simp del: upt_Suc)
    then show ?thesis using False i[of False] k(1) vmtf_repD(1)[OF m(2)] next_decision_here[of m n] by (simp del: upt_Suc)
  qed
qed

section \<open>An example\<close>

text \<open>Two variables; the first is bumped and then assigned.\<close>

definition example_queue :: vmtf where
  "example_queue = \<lparr>vm_links = [\<lparr>l_prev = 0, l_next = 0\<rparr>, \<lparr>l_prev = 2, l_next = 0\<rparr>, \<lparr>l_prev = 0, l_next = 1\<rparr>],
     vm_queue = \<lparr>q_first = 2, q_last = 1, q_unassigned = 1, q_bumped = 3\<rparr>, vm_btab = [0, 3, 2], vm_stamp = 3,
     vm_vals = [False, True, False], vm_max = 2\<rparr>"

lemma example_reached: "vmtf_step\<^sup>*\<^sup>* new_vmtf example_queue"
proof -
  let ?m = "\<lparr>vm_links = [\<lparr>l_prev = 0, l_next = 0\<rparr>, \<lparr>l_prev = 0, l_next = 2\<rparr>, \<lparr>l_prev = 1, l_next = 0\<rparr>],
     vm_queue = \<lparr>q_first = 1, q_last = 2, q_unassigned = 2, q_bumped = 2\<rparr>, vm_btab = [0, 1, 2], vm_stamp = 2,
     vm_vals = [False, False, False], vm_max = 2\<rparr>"
  let ?b = "example_queue\<lparr>vm_vals := [False, False, False]\<rparr>"
  have "init_vars False 2 new_vmtf = Inr ?m" by code_simp
  then have "vmtf_step new_vmtf ?m" by (rule vmtf_step.Init)
  moreover have "bump_queue 1 ?m = Inr ?b" by code_simp
  then have "vmtf_step ?m ?b" by (intro vmtf_step.Bump[where x = 1]) simp_all
  moreover have "assign_var 1 ?b = example_queue" by code_simp
  then have "vmtf_step ?b example_queue" using vmtf_step.Assign[of 1 ?b] by (simp add: example_queue_def)
  ultimately show ?thesis by (meson rtranclp.rtrancl_refl rtranclp.rtrancl_into_rtrancl)
qed

section \<open>Properties\<close>



text \<open>
  C33: in every reachable state with an unassigned variable, \<open>next_decision_variable_on_queue\<close> ends
  and returns an unassigned variable, the one with the latest stamp of all unassigned ones, and
  changes nothing but the queue's search pointer.
\<close>

theorem next_decision_latest:
  assumes "vmtf_step\<^sup>*\<^sup>* new_vmtf m" "x \<in> {1..vm_max m}" "\<not> vm_vals m ! x"
  shows "\<exists>y m'. next_decision m = Some (Inr (y, m')) \<and> y \<in> {1..vm_max m} \<and> \<not> vm_vals m ! y \<and>
     (\<forall>z\<in>{1..vm_max m}. \<not> vm_vals m ! z \<longrightarrow> vm_btab m ! z \<le> vm_btab m ! y) \<and> m' = m\<lparr>vm_queue := vm_queue m'\<rparr>"
  using next_decision_inv[OF runs_inv[OF assms(1)] assms(2,3)] by blast

lemma next_decision_latest_witness:
  "\<exists>y m'. next_decision example_queue = Some (Inr (y, m')) \<and> y \<in> {1..2} \<and> \<not> vm_vals example_queue ! y"
proof -
  have "2 \<in> {1..vm_max example_queue}" "\<not> vm_vals example_queue ! 2" by (simp_all add: example_queue_def)
  from next_decision_latest[OF example_reached this] show ?thesis by (auto simp: example_queue_def)
qed

text \<open>
  C39: in every reachable state the operations of the queue return, without an access outside the
  arrays: new variables, moving a variable to the end, and unassigning one.
\<close>

theorem queue_operations_return:
  assumes "vmtf_step\<^sup>*\<^sup>* new_vmtf m" "x \<in> {1..vm_max m}"
  shows "(\<exists>m'. init_vars False n m = Inr m' \<and> vm_max m' = max n (vm_max m)) \<and> (\<exists>m'. bump_queue x m = Inr m') \<and>
     (\<exists>m'. unassign_var x m = Inr m')"
  using init_vars_inv[OF runs_inv[OF assms(1)], of n] bump_queue_inv[OF runs_inv[OF assms(1)] assms(2)]
    unassign_var_inv[OF runs_inv[OF assms(1)] assms(2)] by blast

lemma queue_operations_return_witness: "\<exists>m'. init_vars False 5 example_queue = Inr m' \<and> vm_max m' = 5"
proof -
  have "2 \<in> {1..vm_max example_queue}" by (simp add: example_queue_def)
  from queue_operations_return[OF example_reached this, of 5] show ?thesis by (auto simp: example_queue_def)
qed

text \<open>
  C36: on a state that stands for the list \<open>us @ x # vs\<close>, \<open>bump_queue\<close> gives one that stands for
  \<open>us @ vs @ [x]\<close>: the linked list implements moving an element to the end.
\<close>

theorem bump_moves_to_end:
  assumes "vmtf_rep m (us @ x # vs)"
  shows "\<exists>m'. bump_queue x m = Inr m' \<and> vmtf_rep m' (us @ vs @ [x])"
  using bump_queue_rep[OF assms] by blast

lemma bump_moves_to_end_witness: "\<exists>m'. bump_queue 2 example_queue = Inr m' \<and> vmtf_rep m' [1, 2]"
proof -
  have "vmtf_rep example_queue ([] @ 2 # [1])" by (simp add: vmtf_rep_def holds_def example_queue_def less_Suc_eq)
  from bump_moves_to_end[OF this] show ?thesis by simp
qed

text \<open>
  C40: the first \<open>n\<close> variables are queued in the order of their indices, or with the option
  \<open>reverse\<close> in the opposite order, and the first decision is the last of them, \<open>n\<close>, or 1.
\<close>

theorem initial_order:
  assumes "0 < n"
  shows "\<exists>m. init_vars rv n new_vmtf = Inr m \<and> holds (vm_links m, vm_queue m) (if rv then rev [1..<n + 1] else [1..<n + 1]) \<and>
     next_decision m = Some (Inr (if rv then 1 else n, m))"
  using initial_queue[OF assms] .

lemma initial_order_witness:
  "\<exists>m. init_vars True 3 new_vmtf = Inr m \<and> holds (vm_links m, vm_queue m) [3, 2, 1] \<and> next_decision m = Some (Inr (1, m))"
  using initial_order[of 3 True] by (simp add: upt_rec numeral_eq_Suc)

end
