(* ===== verification/Score_Heap.thy ===== *)
theory Score_Heap
  imports Prelude "HOL-Library.Multiset"
begin

text \<open>
  The binary heap of the SAT solver (CaDiCaL, \<^verbatim>\<open>heap.hpp\<close>) and its use for decisions by score
  (\<open>score_smaller\<close> in \<^verbatim>\<open>internal.hpp\<close>, \<^verbatim>\<open>score.cpp\<close>, \<open>next_decision_variable_with_best_score\<close> in
  \<^verbatim>\<open>decide.cpp\<close>): an array of elements with the positions of the elements in a second array, ordered
  by a comparison that is an argument.

  Elements and positions are natural numbers; the largest 32 bit number marks an element that is not
  in the heap. Reading the position of an element beyond the second array also makes that array
  longer, which no operation can observe, so \<open>index\<close> only gives the value. The loops are partial
  functions, \<open>None\<close> when they do not end.
\<close>

section \<open>The heap\<close>

record heap =
  h_array :: "nat list"
  h_pos :: "nat list"

definition invalid_heap_position :: nat where
  "invalid_heap_position = 4294967295"

definition new_heap :: heap where
  "new_heap = \<lparr>h_array = [], h_pos = []\<rparr>"

definition index :: "nat \<Rightarrow> heap \<Rightarrow> nat" where
  "index e h = (if e < length (h_pos h) then h_pos h ! e else invalid_heap_position)"

definition set_index :: "nat \<Rightarrow> nat \<Rightarrow> heap \<Rightarrow> heap" where
  "set_index e i h = h\<lparr>h_pos := (h_pos h @ replicate (1 + e - length (h_pos h)) invalid_heap_position)[e := i]\<rparr>"

definition contains :: "nat \<Rightarrow> heap \<Rightarrow> bool" where
  "contains e h \<longleftrightarrow> e < length (h_pos h) \<and> h_pos h ! e \<noteq> invalid_heap_position"

definition has_parent :: "nat \<Rightarrow> heap \<Rightarrow> bool" where
  "has_parent e h \<longleftrightarrow> 0 < index e h"

definition has_left :: "nat \<Rightarrow> heap \<Rightarrow> bool" where
  "has_left e h \<longleftrightarrow> 2 * index e h + 1 < length (h_array h)"

definition has_right :: "nat \<Rightarrow> heap \<Rightarrow> bool" where
  "has_right e h \<longleftrightarrow> 2 * index e h + 2 < length (h_array h)"

definition parent :: "nat \<Rightarrow> heap \<Rightarrow> nat res" where
  "parent e h = vget (h_array h) (int ((index e h - 1) div 2))"

definition left :: "nat \<Rightarrow> heap \<Rightarrow> nat res" where
  "left e h = vget (h_array h) (int (2 * index e h + 1))"

definition right :: "nat \<Rightarrow> heap \<Rightarrow> nat res" where
  "right e h = vget (h_array h) (int (2 * index e h + 2))"

definition exchange :: "nat \<Rightarrow> nat \<Rightarrow> heap \<Rightarrow> heap res" where
  "exchange a b h = (let i = index a h; j = index b h in
     bindE (vget (h_array h) (int i)) (\<lambda>x. bindE (vget (h_array h) (int j)) (\<lambda>y.
       Inr (set_index b i (set_index a j (h\<lparr>h_array := (h_array h)[i := y, j := x]\<rparr>))))))"

partial_function (option) up :: "(nat \<Rightarrow> nat \<Rightarrow> bool) \<Rightarrow> nat \<Rightarrow> heap \<Rightarrow> heap res option" where
  "up lt e h = (if has_parent e h
     then (case parent e h of Inl x \<Rightarrow> Some (Inl x)
       | Inr p \<Rightarrow> if lt p e
           then (case exchange p e h of Inl x \<Rightarrow> Some (Inl x) | Inr h' \<Rightarrow> up lt e h')
           else Some (Inr h))
     else Some (Inr h))"

definition bigger_child :: "(nat \<Rightarrow> nat \<Rightarrow> bool) \<Rightarrow> nat \<Rightarrow> heap \<Rightarrow> nat res" where
  "bigger_child lt e h = bindE (left e h) (\<lambda>c.
     if has_right e h then bindE (right e h) (\<lambda>r. Inr (if lt c r then r else c)) else Inr c)"

partial_function (option) down :: "(nat \<Rightarrow> nat \<Rightarrow> bool) \<Rightarrow> nat \<Rightarrow> heap \<Rightarrow> heap res option" where
  "down lt e h = (if has_left e h
     then (case bigger_child lt e h of Inl x \<Rightarrow> Some (Inl x)
       | Inr c \<Rightarrow> if lt e c
           then (case exchange e c h of Inl x \<Rightarrow> Some (Inl x) | Inr h' \<Rightarrow> down lt e h')
           else Some (Inr h))
     else Some (Inr h))"

definition up_down :: "(nat \<Rightarrow> nat \<Rightarrow> bool) \<Rightarrow> nat \<Rightarrow> heap \<Rightarrow> heap res option" where
  "up_down lt e h = (case up lt e h of None \<Rightarrow> None | Some (Inl x) \<Rightarrow> Some (Inl x) | Some (Inr h') \<Rightarrow> down lt e h')"

definition push_back :: "(nat \<Rightarrow> nat \<Rightarrow> bool) \<Rightarrow> nat \<Rightarrow> heap \<Rightarrow> heap res option" where
  "push_back lt e h = up_down lt e (set_index e (length (h_array h)) (h\<lparr>h_array := h_array h @ [e]\<rparr>))"

definition front :: "heap \<Rightarrow> nat res" where
  "front h = vget (h_array h) 0"

definition pop_front :: "(nat \<Rightarrow> nat \<Rightarrow> bool) \<Rightarrow> heap \<Rightarrow> (nat \<times> heap) res option" where
  "pop_front lt h = (case front h of Inl x \<Rightarrow> Some (Inl x)
     | Inr r \<Rightarrow> let l = last (h_array h) in
         (case (if 1 < length (h_array h) then exchange r l h else Inr h) of Inl x \<Rightarrow> Some (Inl x)
          | Inr h1 \<Rightarrow> let h2 = set_index r invalid_heap_position h1; h3 = h2\<lparr>h_array := butlast (h_array h2)\<rparr> in
              if 1 < length (h_array h3)
              then (case down lt l h3 of None \<Rightarrow> None | Some (Inl x) \<Rightarrow> Some (Inl x) | Some (Inr h4) \<Rightarrow> Some (Inr (r, h4)))
              else Some (Inr (r, h3))))"

definition update :: "(nat \<Rightarrow> nat \<Rightarrow> bool) \<Rightarrow> nat \<Rightarrow> heap \<Rightarrow> heap res option" where
  "update = up_down"

section \<open>Order\<close>

abbreviation par :: "nat \<Rightarrow> nat" where
  "par i \<equiv> (i - 1) div 2"

definition edge_ok :: "(nat \<Rightarrow> nat \<Rightarrow> bool) \<Rightarrow> nat list \<Rightarrow> nat \<Rightarrow> bool" where
  "edge_ok lt a i \<longleftrightarrow> \<not> lt (a ! par i) (a ! i)"

definition ordered :: "(nat \<Rightarrow> nat \<Rightarrow> bool) \<Rightarrow> nat list \<Rightarrow> bool" where
  "ordered lt a \<longleftrightarrow> (\<forall>i. 0 < i \<and> i < length a \<longrightarrow> edge_ok lt a i)"

text \<open>At \<open>k\<close> the order may be wrong: upwards and downwards, or only downwards.\<close>

definition skip_ok :: "(nat \<Rightarrow> nat \<Rightarrow> bool) \<Rightarrow> nat list \<Rightarrow> nat \<Rightarrow> bool" where
  "skip_ok lt a k \<longleftrightarrow> (\<forall>c. 0 < k \<and> 0 < c \<and> c < length a \<and> par c = k \<longrightarrow> \<not> lt (a ! par k) (a ! c))"

definition up_ok :: "(nat \<Rightarrow> nat \<Rightarrow> bool) \<Rightarrow> nat list \<Rightarrow> nat \<Rightarrow> bool" where
  "up_ok lt a k \<longleftrightarrow> (\<forall>i. 0 < i \<and> i < length a \<and> i \<noteq> k \<and> par i \<noteq> k \<longrightarrow> edge_ok lt a i) \<and> skip_ok lt a k"

definition down_ok :: "(nat \<Rightarrow> nat \<Rightarrow> bool) \<Rightarrow> nat list \<Rightarrow> nat \<Rightarrow> bool" where
  "down_ok lt a k \<longleftrightarrow> (\<forall>i. 0 < i \<and> i < length a \<and> par i \<noteq> k \<longrightarrow> edge_ok lt a i) \<and> skip_ok lt a k"

abbreviation swapped :: "nat list \<Rightarrow> nat \<Rightarrow> nat \<Rightarrow> nat list" where
  "swapped a i j \<equiv> a[i := a ! j, j := a ! i]"

lemma nth_swapped: "i < length a \<Longrightarrow> j < length a \<Longrightarrow> swapped a i j ! m = (if m = j then a ! i else if m = i then a ! j else a ! m)"
  by (simp add: nth_list_update)

lemma par_less: "0 < k \<Longrightarrow> par k < k"
  by auto

lemma par_children: "par c = k \<Longrightarrow> 0 < c \<Longrightarrow> c = 2 * k + 1 \<or> c = 2 * k + 2"
  by presburger

text \<open>What the heap relies on: the comparison is a strict weak order.\<close>

locale weak_less =
  fixes lt :: "nat \<Rightarrow> nat \<Rightarrow> bool"
  assumes asym: "lt a b \<Longrightarrow> \<not> lt b a"
    and trans_not: "\<not> lt a b \<Longrightarrow> \<not> lt b c \<Longrightarrow> \<not> lt a c"
begin

lemma up_step:
  assumes u: "up_ok lt a k" and k: "0 < k" "k < length a" and l: "lt (a ! par k) (a ! k)"
  shows "up_ok lt (swapped a (par k) k) (par k)"
proof -
  have p: "par k < k" "par k < length a" using par_less k by auto
  note n = nth_swapped[OF p(2) k(2)]
  have e: "\<not> lt (a ! par i) (a ! i)" if "0 < i" "i < length a" "i \<noteq> k" "par i \<noteq> k" for i
    using u that by (auto simp: up_ok_def edge_ok_def)
  have sk: "\<not> lt (a ! par k) (a ! c)" if "0 < c" "c < length a" "par c = k" for c
    using u that k by (auto simp: up_ok_def skip_ok_def)
  have "edge_ok lt (swapped a (par k) k) i" if i: "0 < i" "i < length a" "i \<noteq> par k" "par i \<noteq> par k" for i
  proof (cases "par i = k")
    case True
    then have "i \<noteq> k" using par_less[OF k(1)] by auto
    then show ?thesis using sk[OF i(1,2) True] True i n unfolding edge_ok_def by simp
  next
    case False
    then have "i \<noteq> k" using i by auto
    then show ?thesis using e[OF i(1,2) _ False] i(3,4) False n unfolding edge_ok_def by simp
  qed
  moreover have "skip_ok lt (swapped a (par k) k) (par k)" unfolding skip_ok_def
  proof (intro allI impI)
    fix c assume c: "0 < par k \<and> 0 < c \<and> c < length (swapped a (par k) k) \<and> par c = par k"
    have g: "\<not> lt (a ! par (par k)) (a ! par k)" using e[of "par k"] c p par_less[of "par k"] by fastforce
    have pp: "par (par k) \<noteq> k" "par (par k) \<noteq> par k" using p c par_less[of "par k"] by linarith+
    have cp: "c \<noteq> par k" using c par_less[of c] by fastforce
    show "\<not> lt (swapped a (par k) k ! par (par k)) (swapped a (par k) k ! c)"
    proof (cases "c = k")
      case True
      then show ?thesis using g pp n by simp
    next
      case False
      have "\<not> lt (a ! par k) (a ! c)" using e[of c] c False p by auto
      then show ?thesis using trans_not[OF g] False pp cp n by simp
    qed
  qed
  ultimately show ?thesis by (simp add: up_ok_def)
qed

lemma up_end: "up_ok lt a k \<Longrightarrow> \<not> (0 < k \<and> lt (a ! par k) (a ! k)) \<Longrightarrow> down_ok lt a k"
  by (auto simp: up_ok_def down_ok_def edge_ok_def)

lemma down_step:
  assumes d: "down_ok lt a k" and c: "0 < c" "c < length a" "par c = k" and l: "lt (a ! k) (a ! c)"
    and best: "\<And>d. 0 < d \<Longrightarrow> d < length a \<Longrightarrow> par d = k \<Longrightarrow> \<not> lt (a ! c) (a ! d)"
  shows "down_ok lt (swapped a k c) c"
proof -
  have k: "k < c" "k < length a" using par_less[OF c(1)] c by auto
  note n = nth_swapped[OF k(2) c(2)]
  have e: "\<not> lt (a ! par i) (a ! i)" if "0 < i" "i < length a" "par i \<noteq> k" for i
    using d that by (auto simp: down_ok_def edge_ok_def)
  have sk: "\<not> lt (a ! par k) (a ! c)" if "0 < k" using d that c by (auto simp: down_ok_def skip_ok_def)
  have "edge_ok lt (swapped a k c) i" if i: "0 < i" "i < length a" "par i \<noteq> c" for i
  proof (cases "par i = k")
    case True
    then show ?thesis
      using asym[OF l] best[OF i(1,2) True] True i k par_less[OF i(1)] n unfolding edge_ok_def by (cases "i = c") auto
  next
    case False
    then have "i \<noteq> c" using c(3) by auto
    then show ?thesis using e[OF i(1,2) False] sk i False n unfolding edge_ok_def by (cases "i = k") auto
  qed
  moreover have "skip_ok lt (swapped a k c) c" unfolding skip_ok_def
  proof (intro allI impI)
    fix d assume d': "0 < c \<and> 0 < d \<and> d < length (swapped a k c) \<and> par d = c"
    then have "d \<noteq> c" "d \<noteq> k" "par d \<noteq> k" using par_less[of d] k by auto
    then show "\<not> lt (swapped a k c ! par c) (swapped a k c ! d)" using e[of d] d' c(3) k n by auto
  qed
  ultimately show ?thesis by (simp add: down_ok_def)
qed

lemma down_end:
  assumes "down_ok lt a k" "\<And>d. 0 < d \<Longrightarrow> d < length a \<Longrightarrow> par d = k \<Longrightarrow> \<not> lt (a ! k) (a ! d)"
  shows "ordered lt a"
  using assms by (auto simp: down_ok_def ordered_def edge_ok_def)

lemma ordered_top:
  assumes "ordered lt a" "i < length a"
  shows "\<not> lt (a ! 0) (a ! i)"
  using assms(2)
proof (induction i rule: less_induct)
  case (less i)
  show ?case
  proof (cases "i = 0")
    case True
    then show ?thesis using asym by blast
  next
    case False
    then have "\<not> lt (a ! 0) (a ! par i)" "edge_ok lt a i" using less assms(1) par_less[of i] by (auto simp: ordered_def)
    then show ?thesis using trans_not unfolding edge_ok_def by blast
  qed
qed

end

section \<open>Positions\<close>

definition heap_wf :: "heap \<Rightarrow> bool" where
  "heap_wf h \<longleftrightarrow> length (h_array h) \<le> invalid_heap_position \<and>
     (\<forall>i<length (h_array h). h_array h ! i < length (h_pos h) \<and> h_pos h ! (h_array h ! i) = i) \<and>
     (\<forall>e<length (h_pos h). h_pos h ! e \<noteq> invalid_heap_position \<longrightarrow> h_pos h ! e < length (h_array h) \<and> h_array h ! (h_pos h ! e) = e)"

lemma index_set: "index x (set_index e i h) = (if x = e then i else index x h)"
  by (auto simp: index_def set_index_def nth_append nth_list_update)

lemma array_set [simp]: "h_array (set_index e i h) = h_array h"
  by (simp add: set_index_def)

text \<open>The positions, seen through \<open>index\<close> only.\<close>

lemma heap_wf_iff: "heap_wf h \<longleftrightarrow> length (h_array h) \<le> invalid_heap_position \<and>
     (\<forall>i<length (h_array h). index (h_array h ! i) h = i) \<and>
     (\<forall>e. index e h \<noteq> invalid_heap_position \<longrightarrow> index e h < length (h_array h) \<and> h_array h ! index e h = e)"
  unfolding heap_wf_def index_def by (intro conj_cong refl iffI allI impI) (auto split: if_splits)

lemma contains_index: "contains e h \<longleftrightarrow> index e h \<noteq> invalid_heap_position"
  by (simp add: contains_def index_def)

lemma heap_wfD:
  assumes "heap_wf h"
  shows "length (h_array h) \<le> invalid_heap_position" "\<And>i. i < length (h_array h) \<Longrightarrow> index (h_array h ! i) h = i"
    "\<And>e. index e h \<noteq> invalid_heap_position \<Longrightarrow> index e h < length (h_array h)"
    "\<And>e. index e h \<noteq> invalid_heap_position \<Longrightarrow> h_array h ! index e h = e"
  using assms by (auto simp: heap_wf_iff)

lemma contains_in: "heap_wf h \<Longrightarrow> contains e h \<longleftrightarrow> e \<in> set (h_array h)"
  unfolding contains_index using heap_wfD[of h] by (metis in_set_conv_nth less_irrefl order_less_le_trans)

lemma heap_wf_distinct: "heap_wf h \<Longrightarrow> distinct (h_array h)"
  unfolding distinct_conv_nth using heap_wfD(2) by metis

lemma exchange_wf:
  assumes w: "heap_wf h" and i: "i < length (h_array h)" "j < length (h_array h)"
  shows "\<exists>h'. exchange (h_array h ! i) (h_array h ! j) h = Inr h' \<and> heap_wf h' \<and> h_array h' = swapped (h_array h) i j"
proof -
  let ?a = "h_array h"
  let ?h = "set_index (?a ! j) i (set_index (?a ! i) j (h\<lparr>h_array := swapped ?a i j\<rparr>))"
  note ix = heap_wfD(2)[OF w]
  have e: "exchange (?a ! i) (?a ! j) h = Inr ?h" using i ix by (simp add: exchange_def Let_def)
  have inj: "?a ! x = ?a ! y \<longleftrightarrow> x = y" if "x < length ?a" "y < length ?a" for x y using ix that by metis
  have upd: "index x (h\<lparr>h_array := z\<rparr>) = index x h" for x z by (simp add: index_def)
  have 1: "index (h_array ?h ! m) ?h = m" if "m < length ?a" for m
    using that i inj ix by (simp add: index_set upd nth_swapped)
  have 2: "index x ?h < length ?a \<and> h_array ?h ! index x ?h = x" if "index x ?h \<noteq> invalid_heap_position" for x
    using that i heap_wfD(3,4)[OF w, of x] ix by (auto simp: index_set upd nth_swapped split: if_splits)
  have "heap_wf ?h" using 1 2 heap_wfD(1)[OF w] by (simp add: heap_wf_iff)
  then show ?thesis using e by simp
qed

lemma upd_index [simp]: "index x (h\<lparr>h_array := z\<rparr>) = index x h"
  by (simp add: index_def)

lemma mset_swapped: "i < length a \<Longrightarrow> j < length a \<Longrightarrow> mset (swapped a i j) = mset a"
  by (rule mset_swap)

section \<open>The loops\<close>

context weak_less
begin

lemma up_loop:
  assumes "heap_wf h" "k < length (h_array h)" "h_array h ! k = e" "up_ok lt (h_array h) k"
  shows "\<exists>h' k'. up lt e h = Some (Inr h') \<and> heap_wf h' \<and> k' < length (h_array h') \<and> h_array h' ! k' = e \<and>
     down_ok lt (h_array h') k' \<and> mset (h_array h') = mset (h_array h)"
  using assms
proof (induction k arbitrary: h rule: less_induct)
  case (less k)
  let ?a = "h_array h"
  have ix: "index e h = k" using heap_wfD(2)[OF less.prems(1,2)] less.prems(3) by simp
  show ?case
  proof (cases "0 < k \<and> lt (?a ! par k) e")
    case True
    then have k: "0 < k" "lt (?a ! par k) (?a ! k)" "par k < k" using less.prems(3) by auto
    obtain h' where h': "exchange (?a ! par k) (?a ! k) h = Inr h'" "heap_wf h'" "h_array h' = swapped ?a (par k) k"
      using exchange_wf[OF less.prems(1), of "par k" k] k less.prems(2) by auto
    have u: "up_ok lt (h_array h') (par k)" using up_step[OF less.prems(4) k(1) less.prems(2) k(2)] h'(3) by simp
    have p: "par k < length (h_array h')" "h_array h' ! par k = e"
      using h'(3) k less.prems(2,3) by (simp_all add: nth_list_update)
    have m: "mset (h_array h') = mset ?a" unfolding h'(3) using k less.prems(2) by (intro mset_swapped) auto
    have "up lt e h = up lt e h'" using True h'(1) ix less.prems(2,3) k
      by (subst up.simps) (simp add: has_parent_def parent_def)
    then show ?thesis using less.IH[OF k(3) h'(2) p u] m by simp
  next
    case False
    then have "up lt e h = Some (Inr h)" using ix less.prems(2)
      by (subst up.simps) (auto simp: has_parent_def parent_def)
    then show ?thesis using up_end[OF less.prems(4)] False less.prems by auto
  qed
qed

lemma bigger_child_best:
  assumes "heap_wf h" "k < length (h_array h)" "h_array h ! k = e" "2 * k + 1 < length (h_array h)"
  shows "\<exists>c. bigger_child lt e h = Inr (h_array h ! c) \<and> 0 < c \<and> c < length (h_array h) \<and> par c = k \<and>
     (\<forall>d. 0 < d \<and> d < length (h_array h) \<and> par d = k \<longrightarrow> \<not> lt (h_array h ! c) (h_array h ! d))"
proof -
  let ?a = "h_array h"
  have ix: "index e h = k" using heap_wfD(2)[OF assms(1,2)] assms(3) by simp
  have irr: "\<not> lt x x" for x using asym by blast
  let ?c = "if 2 * k + 2 < length ?a \<and> lt (?a ! (2 * k + 1)) (?a ! (2 * k + 2)) then 2 * k + 2 else 2 * k + 1"
  have "left e h = Inr (?a ! (2 * k + 1))" unfolding left_def ix using assms(4) by (simp only: vget_in)
  moreover have "right e h = Inr (?a ! (2 * k + 2))" if "2 * k + 2 < length ?a"
    unfolding right_def ix using that by (simp only: vget_in)
  ultimately have "bigger_child lt e h = Inr (?a ! ?c)"
    using ix by (auto simp: bigger_child_def has_right_def)
  moreover have "\<not> lt (?a ! ?c) (?a ! d)" if "0 < d" "d < length ?a" "par d = k" for d
    using par_children[OF that(3,1)] that(2) asym irr by (auto split: if_splits)
  ultimately show ?thesis using assms(4) by (intro exI[where x = ?c]) auto
qed

lemma down_loop:
  assumes "heap_wf h" "k < length (h_array h)" "h_array h ! k = e" "down_ok lt (h_array h) k"
  shows "\<exists>h'. down lt e h = Some (Inr h') \<and> heap_wf h' \<and> ordered lt (h_array h') \<and> mset (h_array h') = mset (h_array h)"
  using assms
proof (induction "length (h_array h) - k" arbitrary: h k rule: less_induct)
  case less
  let ?a = "h_array h"
  have ix: "index e h = k" using heap_wfD(2)[OF less.prems(1,2)] less.prems(3) by simp
  show ?case
  proof (cases "2 * k + 1 < length ?a")
    case True
    obtain c where c: "bigger_child lt e h = Inr (?a ! c)" "0 < c" "c < length ?a" "par c = k"
        and best: "\<forall>d. 0 < d \<and> d < length ?a \<and> par d = k \<longrightarrow> \<not> lt (?a ! c) (?a ! d)"
      using bigger_child_best[OF less.prems(1-3) True] by blast
    have left: "has_left e h" using True ix by (simp add: has_left_def)
    show ?thesis
    proof (cases "lt e (?a ! c)")
      case T: True
      obtain h' where h': "exchange (?a ! k) (?a ! c) h = Inr h'" "heap_wf h'" "h_array h' = swapped ?a k c"
        using exchange_wf[OF less.prems(1,2) c(3)] by blast
      have d: "down_ok lt (h_array h') c"
        using down_step[OF less.prems(4) c(2-4)] T best less.prems(3) h'(3) by simp
      have p: "c < length (h_array h')" "h_array h' ! c = e" using h'(3) c(3) less.prems(2,3) by simp_all
      have q: "length (h_array h') - c < length ?a - k" using par_less[OF c(2)] c(3,4) h'(3) by simp
      have m: "mset (h_array h') = mset ?a" unfolding h'(3) using less.prems(2) c(3) by (intro mset_swapped)
      have "down lt e h = down lt e h'" using left c(1) T h'(1) less.prems(3) by (subst down.simps) simp
      then show ?thesis using less.hyps[OF q h'(2) p d] m by simp
    next
      case F: False
      have "\<not> lt (?a ! k) (?a ! d)" if "0 < d" "d < length ?a" "par d = k" for d
        using trans_not[OF F] best that less.prems(3) by blast
      then have "ordered lt ?a" using down_end[OF less.prems(4)] by blast
      moreover have "down lt e h = Some (Inr h)" using left c(1) F by (subst down.simps) simp
      ultimately show ?thesis using less.prems(1) by simp
    qed
  next
    case False
    have "\<not> lt (?a ! k) (?a ! d)" if "0 < d" "d < length ?a" "par d = k" for d
      using par_children[OF that(3,1)] that(2) False by auto
    then have "ordered lt ?a" using down_end[OF less.prems(4)] by blast
    moreover have "down lt e h = Some (Inr h)" using False ix by (subst down.simps) (simp add: has_left_def)
    ultimately show ?thesis using less.prems(1) by simp
  qed
qed

lemma up_down_loop:
  assumes "heap_wf h" "k < length (h_array h)" "h_array h ! k = e" "up_ok lt (h_array h) k"
  shows "\<exists>h'. up_down lt e h = Some (Inr h') \<and> heap_wf h' \<and> ordered lt (h_array h') \<and> mset (h_array h') = mset (h_array h)"
proof -
  obtain h1 k1 where 1: "up lt e h = Some (Inr h1)" "heap_wf h1" "k1 < length (h_array h1)" "h_array h1 ! k1 = e"
      "down_ok lt (h_array h1) k1" "mset (h_array h1) = mset (h_array h)"
    using up_loop[OF assms] by blast
  then show ?thesis using down_loop[OF 1(2-5)] by (simp add: up_down_def)
qed

end

section \<open>The operations\<close>

definition heap_inv :: "(nat \<Rightarrow> nat \<Rightarrow> bool) \<Rightarrow> heap \<Rightarrow> bool" where
  "heap_inv lt h \<longleftrightarrow> heap_wf h \<and> ordered lt (h_array h)"

definition elems :: "heap \<Rightarrow> nat set" where
  "elems h = {e. contains e h}"

lemma elems_array: "heap_wf h \<Longrightarrow> elems h = set (h_array h)"
  by (auto simp: elems_def contains_in)

lemma new_heap_inv: "heap_inv lt new_heap" "elems new_heap = {}"
  by (simp_all add: heap_inv_def heap_wf_def ordered_def new_heap_def elems_def contains_def)

lemma append_wf:
  assumes w: "heap_wf h" and e: "\<not> contains e h" and n: "length (h_array h) < invalid_heap_position"
  shows "heap_wf (set_index e (length (h_array h)) (h\<lparr>h_array := h_array h @ [e]\<rparr>))"
proof -
  let ?a = "h_array h"
  let ?h = "set_index e (length ?a) (h\<lparr>h_array := ?a @ [e]\<rparr>)"
  have "?a ! i \<noteq> e" if "i < length ?a" for i using e contains_in[OF w, of e] that by (metis nth_mem)
  then have "\<forall>i<length (?a @ [e]). index ((?a @ [e]) ! i) ?h = i"
    using heap_wfD(2)[OF w] by (auto simp: index_set nth_append less_Suc_eq)
  moreover have "\<forall>x. index x ?h \<noteq> invalid_heap_position \<longrightarrow> index x ?h < length (?a @ [e]) \<and> (?a @ [e]) ! index x ?h = x"
    using heap_wfD(3,4)[OF w] by (auto simp: index_set nth_append less_Suc_eq)
  moreover have "length (?a @ [e]) \<le> invalid_heap_position" using n by simp
  ultimately show ?thesis by (simp add: heap_wf_iff del: length_append)
qed

lemma remove_last_wf:
  assumes w: "heap_wf h" and a: "h_array h = b @ [r]"
  shows "heap_wf ((set_index r invalid_heap_position h)\<lparr>h_array := b\<rparr>)"
proof -
  let ?h = "(set_index r invalid_heap_position h)\<lparr>h_array := b\<rparr>"
  have d: "distinct (b @ [r])" using heap_wf_distinct[OF w] a by simp
  have n: "length b < invalid_heap_position" using heap_wfD(1)[OF w] a by simp
  have "index (b ! i) ?h = i" if "i < length b" for i
    using heap_wfD(2)[OF w, of i] that a d by (auto simp: index_set nth_append)
  moreover have "index x ?h < length b \<and> b ! index x ?h = x" if "index x ?h \<noteq> invalid_heap_position" for x
    using heap_wfD(3,4)[OF w, of x] that a by (auto simp: index_set nth_append less_Suc_eq split: if_splits)
  ultimately show ?thesis using n by (simp add: heap_wf_iff)
qed

context weak_less
begin

lemma push_back_inv:
  assumes i: "heap_inv lt h" and e: "\<not> contains e h" and n: "length (h_array h) < invalid_heap_position"
  shows "\<exists>h'. push_back lt e h = Some (Inr h') \<and> heap_inv lt h' \<and> elems h' = insert e (elems h)"
proof -
  let ?a = "h_array h"
  let ?h = "set_index e (length ?a) (h\<lparr>h_array := ?a @ [e]\<rparr>)"
  have w: "heap_wf h" "ordered lt ?a" using i by (auto simp: heap_inv_def)
  have "edge_ok lt (?a @ [e]) i" if "0 < i" "i < length ?a" for i
    using w(2) that par_less[of i] by (auto simp: ordered_def edge_ok_def nth_append)
  moreover have "skip_ok lt (?a @ [e]) (length ?a)" unfolding skip_ok_def
    by (metis length_append_singleton less_Suc_eq_le not_less par_less)
  ultimately have u: "up_ok lt (?a @ [e]) (length ?a)" by (auto simp: up_ok_def less_Suc_eq)
  obtain h' where h': "up_down lt e ?h = Some (Inr h')" "heap_wf h'" "ordered lt (h_array h')" "mset (h_array h') = mset (?a @ [e])"
    using up_down_loop[OF append_wf[OF w(1) e n], of "length ?a" e] u by auto
  have "set (h_array h') = insert e (set ?a)" using arg_cong[OF h'(4), of set_mset] by simp
  then show ?thesis using h' w(1) by (simp add: push_back_def heap_inv_def elems_array)
qed

lemma pop_front_inv:
  assumes i: "heap_inv lt h" and ne: "elems h \<noteq> {}"
  shows "\<exists>r h'. front h = Inr r \<and> pop_front lt h = Some (Inr (r, h')) \<and> heap_inv lt h' \<and> r \<in> elems h \<and> elems h' = elems h - {r} \<and>
     (\<forall>x\<in>elems h. \<not> lt r x)"
proof -
  let ?a = "h_array h"
  have w: "heap_wf h" "ordered lt ?a" using i by (auto simp: heap_inv_def)
  have el: "elems h = set ?a" by (rule elems_array[OF w(1)])
  have n: "?a \<noteq> []" using ne el by simp
  let ?r = "?a ! 0" and ?l = "last ?a" and ?n = "length ?a - 1"
  have fr: "front h = Inr ?r" using n vget_in[of 0 ?a] by (simp add: front_def)
  have top: "\<not> lt ?r x" if "x \<in> set ?a" for x using that ordered_top[OF w(2)] by (auto simp: in_set_conv_nth)
  have dist: "distinct ?a" by (rule heap_wf_distinct[OF w(1)])
  have "\<exists>h'. pop_front lt h = Some (Inr (?r, h')) \<and> heap_inv lt h' \<and> set (h_array h') = set ?a - {?r}"
  proof (cases "length ?a = 1")
    case True
    then have a: "?a = [] @ [?r]" by (cases ?a) auto
    let ?h = "(set_index ?r invalid_heap_position h)\<lparr>h_array := []\<rparr>"
    have "pop_front lt h = Some (Inr (?r, ?h))" using True fr by (cases ?a) (simp_all add: pop_front_def Let_def)
    moreover have "heap_inv lt ?h" using remove_last_wf[OF w(1) a] by (simp add: heap_inv_def ordered_def)
    moreover have "set ?a - {?r} = {}" by (subst a) simp
    ultimately show ?thesis by (intro exI[where x = ?h]) simp
  next
    case False
    then have l: "1 < length ?a" "0 < length ?a" "?n < length ?a" "?n \<noteq> 0" using n by (cases ?a; simp)+
    have la: "?l = ?a ! ?n" using n by (rule last_conv_nth)
    obtain h1 where h1: "exchange ?r ?l h = Inr h1" "heap_wf h1" "h_array h1 = swapped ?a 0 ?n"
      using exchange_wf[OF w(1) l(2,3)] la by auto
    let ?b = "butlast (h_array h1)"
    have len: "length ?b = ?n" using h1(3) by simp
    have lst: "last (h_array h1) = ?r" using h1(3) l n by (simp add: last_conv_nth nth_list_update)
    then have ab: "h_array h1 = ?b @ [?r]" using h1(3) n by (metis append_butlast_last_id length_greater_0_conv length_list_update)
    let ?h = "(set_index ?r invalid_heap_position h1)\<lparr>h_array := ?b\<rparr>"
    have wf: "heap_wf ?h" by (rule remove_last_wf[OF h1(2) ab])
    have nb: "?b ! i = (if i = 0 then ?l else ?a ! i)" if "i < ?n" for i
      using that l la h1(3) by (simp add: nth_butlast nth_list_update)
    have "mset (h_array h1) = mset ?a" unfolding h1(3) using l by (intro mset_swapped)
    then have "mset ?a = add_mset ?r (mset ?b)" by (subst (asm) ab) simp
    then have sb: "set ?b = set ?a - {?r}"
      using dist by (metis insert_DiffM2 Diff_insert_absorb distinct.simps(2) mset.simps(2) mset_eq_imp_distinct_iff set_mset_mset list.set(2) mset_eq_setD)
    have "down_ok lt ?b 0" unfolding down_ok_def
    proof (intro conjI allI impI)
      fix i assume i: "0 < i \<and> i < length ?b \<and> par i \<noteq> 0"
      then have "edge_ok lt ?a i" using w(2) len by (auto simp: ordered_def)
      then show "edge_ok lt ?b i" using i nb[of i] nb[of "par i"] len par_less[of i] by (simp add: edge_ok_def)
    qed (simp add: skip_ok_def)
    then have dn: "down_ok lt (h_array ?h) 0" by simp
    show ?thesis
    proof (cases "1 < length ?b")
      case T: True
      have b0: "0 < length (h_array ?h)" "h_array ?h ! 0 = ?l" using nb[of 0] T len by auto
      obtain h2 where h2: "down lt ?l ?h = Some (Inr h2)" "heap_wf h2" "ordered lt (h_array h2)" "mset (h_array h2) = mset (h_array ?h)"
        using down_loop[OF wf b0 dn] by blast
      have "pop_front lt h = Some (Inr (?r, h2))" using fr l(1) h1(1) T h2(1) by (simp add: pop_front_def Let_def)
      moreover have "set (h_array h2) = set ?a - {?r}" using mset_eq_setD[OF h2(4)] sb by simp
      ultimately show ?thesis using h2 by (auto simp: heap_inv_def)
    next
      case F: False
      have "pop_front lt h = Some (Inr (?r, ?h))" using fr l(1) h1(1) F by (simp add: pop_front_def Let_def)
      moreover have "ordered lt ?b" using F by (auto simp: ordered_def)
      ultimately show ?thesis using wf sb by (intro exI[where x = ?h]) (simp add: heap_inv_def)
    qed
  qed
  then show ?thesis using fr top el n by (auto simp: heap_inv_def elems_array)
qed

lemma update_inv:
  assumes i: "heap_inv lt h" and e: "e \<in> elems h" and lt': "weak_less lt'" "\<And>x y. x \<noteq> e \<Longrightarrow> y \<noteq> e \<Longrightarrow> lt' x y = lt x y"
  shows "\<exists>h'. update lt' e h = Some (Inr h') \<and> heap_inv lt' h' \<and> elems h' = elems h"
proof -
  let ?a = "h_array h"
  have w: "heap_wf h" "ordered lt ?a" using i by (auto simp: heap_inv_def)
  obtain k where k: "k < length ?a" "?a ! k = e" using e elems_array[OF w(1)] by (auto simp: in_set_conv_nth)
  have ne: "?a ! j \<noteq> e" if "j < length ?a" "j \<noteq> k" for j
    using heap_wf_distinct[OF w(1)] k that by (metis nth_eq_iff_index_eq)
  have ok: "\<not> lt (?a ! par j) (?a ! j)" if "0 < j" "j < length ?a" for j using w(2) that by (auto simp: ordered_def edge_ok_def)
  have "edge_ok lt' ?a j" if "0 < j" "j < length ?a" "j \<noteq> k" "par j \<noteq> k" for j
    using ok[OF that(1,2)] ne[of j] ne[of "par j"] that par_less[of j] lt'(2) by (auto simp: edge_ok_def)
  moreover have "skip_ok lt' ?a k" unfolding skip_ok_def
  proof (intro allI impI)
    fix c assume c: "0 < k \<and> 0 < c \<and> c < length ?a \<and> par c = k"
    then have "\<not> lt (?a ! par k) (?a ! c)" using ok[of k] ok[of c] k(1) trans_not[of "?a ! par k" "?a ! k" "?a ! c"] by auto
    moreover have "c \<noteq> k" "par k \<noteq> k" "par k < length ?a" using c par_less[of c] par_less[of k] k(1) by auto
    ultimately show "\<not> lt' (?a ! par k) (?a ! c)" using ne[of c] ne[of "par k"] c lt'(2) by auto
  qed
  ultimately have "up_ok lt' ?a k" by (auto simp: up_ok_def)
  from weak_less.up_down_loop[OF lt'(1) w(1) k this] obtain h' where
    h': "up_down lt' e h = Some (Inr h')" "heap_wf h'" "ordered lt' (h_array h')" "mset (h_array h') = mset ?a" by blast
  then show ?thesis using mset_eq_setD[OF h'(4)] w(1) by (simp add: update_def heap_inv_def elems_array)
qed

end

section \<open>Decisions by score\<close>

text \<open>The variable with the higher score is greater, and of two with the same score the smaller one.\<close>

definition score_smaller :: "'a::linorder list \<Rightarrow> nat \<Rightarrow> nat \<Rightarrow> bool" where
  "score_smaller stab a b = (let s = stab ! a; t = stab ! b in if s < t then True else if s > t then False else a > b)"

interpretation score: weak_less "score_smaller stab" for stab
  by unfold_locales (auto simp: score_smaller_def Let_def split: if_splits)

record 'a scores =
  sc_heap :: heap
  sc_stab :: "'a list"
  sc_vals :: "bool list"
  sc_max :: nat

fun push_all :: "(nat \<Rightarrow> nat \<Rightarrow> bool) \<Rightarrow> nat list \<Rightarrow> heap \<Rightarrow> heap res option" where
  "push_all lt [] h = Some (Inr h)"
| "push_all lt (e # es) h = (case push_back lt e h of None \<Rightarrow> None | Some (Inl x) \<Rightarrow> Some (Inl x) | Some (Inr h') \<Rightarrow> push_all lt es h')"

definition init_scores :: "'a::linorder list \<Rightarrow> nat \<Rightarrow> nat \<Rightarrow> heap \<Rightarrow> heap res option" where
  "init_scores stab old_max new_max = push_all (score_smaller stab) (map (\<lambda>i. i + 1) [old_max..<new_max])"

text \<open>The heap part of \<open>unassign\<close> and of a change of a score.\<close>

definition unassign_score :: "'a::linorder list \<Rightarrow> nat \<Rightarrow> heap \<Rightarrow> heap res option" where
  "unassign_score stab idx h = (if \<not> contains idx h then push_back (score_smaller stab) idx h else Some (Inr h))"

definition update_score :: "'a::linorder list \<Rightarrow> nat \<Rightarrow> heap \<Rightarrow> heap res option" where
  "update_score stab idx h = (if contains idx h then update (score_smaller stab) idx h else Some (Inr h))"

partial_function (option) best_score :: "bool list \<Rightarrow> 'a::linorder list \<Rightarrow> heap \<Rightarrow> (nat \<times> heap) res option" where
  "best_score vals stab h = (case front h of Inl x \<Rightarrow> Some (Inl x)
     | Inr res \<Rightarrow> (case vget vals (int res) of Inl x \<Rightarrow> Some (Inl x)
       | Inr v \<Rightarrow> if \<not> v then Some (Inr (res, h))
           else (case pop_front (score_smaller stab) h of None \<Rightarrow> None | Some (Inl x) \<Rightarrow> Some (Inl x)
             | Some (Inr (r, h')) \<Rightarrow> best_score vals stab h')))"

text \<open>What a decision may assume of the heap: it holds every unassigned variable.\<close>

definition score_inv :: "'a::linorder scores \<Rightarrow> bool" where
  "score_inv s \<longleftrightarrow> heap_inv (score_smaller (sc_stab s)) (sc_heap s) \<and> elems (sc_heap s) \<subseteq> {1..sc_max s} \<and>
     sc_max s < length (sc_vals s) \<and> length (sc_stab s) = length (sc_vals s) \<and> sc_max s < invalid_heap_position \<and>
     (\<forall>x\<in>{1..sc_max s}. \<not> sc_vals s ! x \<longrightarrow> x \<in> elems (sc_heap s))"

lemma best_score_inv:
  assumes "heap_inv (score_smaller stab) h" "x \<in> elems h" "\<not> vals ! x" "\<forall>e\<in>elems h. e < length vals"
  shows "\<exists>r h'. best_score vals stab h = Some (Inr (r, h')) \<and> heap_inv (score_smaller stab) h' \<and> r \<in> elems h \<and> \<not> vals ! r \<and>
     elems h' \<subseteq> elems h \<and> (\<forall>e\<in>elems h. \<not> vals ! e \<longrightarrow> e \<in> elems h' \<and> \<not> score_smaller stab r e)"
  using assms
proof (induction "card (elems h)" arbitrary: h rule: less_induct)
  case less
  have ne: "elems h \<noteq> {}" and fin: "finite (elems h)"
    using less.prems(1,2) by (auto simp: heap_inv_def elems_array)
  obtain r h1 where r: "front h = Inr r" "pop_front (score_smaller stab) h = Some (Inr (r, h1))" "heap_inv (score_smaller stab) h1"
      "r \<in> elems h" "elems h1 = elems h - {r}" "\<forall>e\<in>elems h. \<not> score_smaller stab r e"
    using score.pop_front_inv[OF less.prems(1) ne] by blast
  have v: "vget vals (int r) = Inr (vals ! r)" using less.prems(4) r(4) by simp
  show ?case
  proof (cases "vals ! r")
    case False
    then have "best_score vals stab h = Some (Inr (r, h))" using r(1) v by (subst best_score.simps) simp
    then show ?thesis using less.prems(1) r(4,6) False by blast
  next
    case True
    then have p: "x \<in> elems h1" "card (elems h1) < card (elems h)" "\<forall>e\<in>elems h1. e < length vals"
      using less.prems(2,3,4) r(4,5) fin by (auto simp: card_Diff1_less simp del: card_Diff_insert)
    from less.hyps[OF p(2) r(3) p(1) less.prems(3) p(3)] obtain y h' where y: "best_score vals stab h1 = Some (Inr (y, h'))" "heap_inv (score_smaller stab) h'" "y \<in> elems h1"
        "\<not> vals ! y" "elems h' \<subseteq> elems h1" "\<forall>e\<in>elems h1. \<not> vals ! e \<longrightarrow> e \<in> elems h' \<and> \<not> score_smaller stab y e" by blast
    have "best_score vals stab h = best_score vals stab h1" using r(1,2) v True by (subst best_score.simps) simp
    moreover have "\<forall>e\<in>elems h. \<not> vals ! e \<longrightarrow> e \<in> elems h1" using True r(5) by auto
    ultimately show ?thesis using y r(5) by auto
  qed
qed

lemma elems_card: "heap_wf h \<Longrightarrow> card (elems h) = length (h_array h)"
  using distinct_card[OF heap_wf_distinct] by (simp add: elems_array)

lemma heap_room:
  assumes "heap_wf h" "elems h \<subseteq> {1..n}" "n < invalid_heap_position"
  shows "length (h_array h) < invalid_heap_position"
  using card_mono[OF _ assms(2)] elems_card[OF assms(1)] assms(3) by simp

lemma push_all_inv:
  assumes "heap_inv (score_smaller stab) h" "elems h \<subseteq> {1..a}" "a \<le> b" "b < invalid_heap_position"
  shows "\<exists>h'. init_scores stab a b h = Some (Inr h') \<and> heap_inv (score_smaller stab) h' \<and> elems h' = elems h \<union> {a + 1..b}"
  using assms
proof (induction "b - a" arbitrary: a h)
  case 0
  then show ?case by (simp add: init_scores_def)
next
  case (Suc k)
  then have ab: "a < b" by simp
  have w: "heap_wf h" using Suc.prems(1) by (simp add: heap_inv_def)
  have "\<not> contains (a + 1) h" using Suc.prems(2) by (auto simp: elems_def)
  moreover have "length (h_array h) < invalid_heap_position" using heap_room[OF w Suc.prems(2)] Suc.prems(3,4) by simp
  ultimately obtain h1 where h1: "push_back (score_smaller stab) (a + 1) h = Some (Inr h1)" "heap_inv (score_smaller stab) h1"
      "elems h1 = insert (a + 1) (elems h)"
    using score.push_back_inv[OF Suc.prems(1)] by blast
  have s: "k = b - (a + 1)" "elems h1 \<subseteq> {1..a + 1}" "a + 1 \<le> b" using Suc.hyps(2) Suc.prems(2) h1(3) ab by auto
  from Suc.hyps(1)[OF s(1) h1(2) s(2,3) Suc.prems(4)] obtain h' where h': "init_scores stab (a + 1) b h1 = Some (Inr h')"
     "heap_inv (score_smaller stab) h'" "elems h' = elems h1 \<union> {a + 1 + 1..b}" by blast
  have "[a..<b] = a # [a + 1..<b]" using ab by (auto intro: upt_conv_Cons)
  moreover have "{a + 1..b} = insert (a + 1) {a + 1 + 1..b}" using ab by auto
  then have "elems h' = elems h \<union> {a + 1..b}" unfolding h'(3) h1(3) by simp
  ultimately show ?case using h1(1) h'(1,2) by (simp add: init_scores_def)
qed

inductive score_step :: "'a::linorder scores \<Rightarrow> 'a scores \<Rightarrow> bool" where
  Init: "sc_max s \<le> n \<Longrightarrow> n < length (sc_vals s) \<Longrightarrow> n < invalid_heap_position \<Longrightarrow>
    init_scores (sc_stab s) (sc_max s) n (sc_heap s) = Some (Inr h) \<Longrightarrow> score_step s (s\<lparr>sc_heap := h, sc_max := n\<rparr>)"
| Assign: "x \<in> {1..sc_max s} \<Longrightarrow> score_step s (s\<lparr>sc_vals := (sc_vals s)[x := True]\<rparr>)"
| Unassign: "x \<in> {1..sc_max s} \<Longrightarrow> unassign_score (sc_stab s) x (sc_heap s) = Some (Inr h) \<Longrightarrow>
    score_step s (s\<lparr>sc_heap := h, sc_vals := (sc_vals s)[x := False]\<rparr>)"
| Score: "x \<in> {1..sc_max s} \<Longrightarrow> update_score ((sc_stab s)[x := v]) x (sc_heap s) = Some (Inr h) \<Longrightarrow>
    score_step s (s\<lparr>sc_heap := h, sc_stab := (sc_stab s)[x := v]\<rparr>)"
| Decide: "x \<in> {1..sc_max s} \<Longrightarrow> \<not> sc_vals s ! x \<Longrightarrow> best_score (sc_vals s) (sc_stab s) (sc_heap s) = Some (Inr (y, h)) \<Longrightarrow>
    score_step s (s\<lparr>sc_heap := h\<rparr>)"

definition new_scores :: "'a list \<Rightarrow> 'a scores" where
  "new_scores st = \<lparr>sc_heap = new_heap, sc_stab = st, sc_vals = replicate (length st) False, sc_max = 0\<rparr>"

lemma score_invD:
  assumes "score_inv s"
  shows "heap_inv (score_smaller (sc_stab s)) (sc_heap s)" "elems (sc_heap s) \<subseteq> {1..sc_max s}" "sc_max s < length (sc_vals s)"
    "length (sc_stab s) = length (sc_vals s)" "sc_max s < invalid_heap_position"
    "\<And>x. x \<in> {1..sc_max s} \<Longrightarrow> \<not> sc_vals s ! x \<Longrightarrow> x \<in> elems (sc_heap s)"
  using assms unfolding score_inv_def by blast+

lemma score_invI:
  assumes "heap_inv (score_smaller (sc_stab s)) (sc_heap s)" "elems (sc_heap s) \<subseteq> {1..sc_max s}" "sc_max s < length (sc_vals s)"
    "length (sc_stab s) = length (sc_vals s)" "sc_max s < invalid_heap_position"
    "\<And>x. x \<in> {1..sc_max s} \<Longrightarrow> \<not> sc_vals s ! x \<Longrightarrow> x \<in> elems (sc_heap s)"
  shows "score_inv s"
  using assms unfolding score_inv_def by blast

lemma unassign_score_inv:
  assumes "score_inv s" "x \<in> {1..sc_max s}"
  shows "\<exists>h. unassign_score (sc_stab s) x (sc_heap s) = Some (Inr h) \<and> heap_inv (score_smaller (sc_stab s)) h \<and>
     elems h = insert x (elems (sc_heap s))"
proof (cases "contains x (sc_heap s)")
  case True
  then show ?thesis using score_invD(1)[OF assms(1)] by (auto simp: unassign_score_def elems_def)
next
  case False
  have "heap_wf (sc_heap s)" using score_invD(1)[OF assms(1)] by (simp add: heap_inv_def)
  from heap_room[OF this score_invD(2,5)[OF assms(1)]] show ?thesis
    using score.push_back_inv[OF score_invD(1)[OF assms(1)] False] False by (simp add: unassign_score_def)
qed

lemma update_score_inv:
  assumes "score_inv s" "x \<in> {1..sc_max s}"
  shows "\<exists>h. update_score ((sc_stab s)[x := v]) x (sc_heap s) = Some (Inr h) \<and> heap_inv (score_smaller ((sc_stab s)[x := v])) h \<and>
     elems h = elems (sc_heap s)"
proof -
  let ?h = "sc_heap s" and ?st = "(sc_stab s)[x := v]"
  note inv = score_invD(1)[OF assms(1)]
  have other: "score_smaller ?st y z = score_smaller (sc_stab s) y z" if "y \<noteq> x" "z \<noteq> x" for y z
    using that by (simp add: score_smaller_def)
  show ?thesis
  proof (cases "contains x ?h")
    case True
    then have "x \<in> elems ?h" by (simp add: elems_def)
    from score.update_inv[OF inv this score.weak_less_axioms other]
    show ?thesis using True by (simp add: update_score_def)
  next
    case False
    have ne: "h_array ?h ! i \<noteq> x" if "i < length (h_array ?h)" for i
      using False inv that contains_in[of ?h x] by (auto simp: heap_inv_def)
    have "ordered (score_smaller ?st) (h_array ?h)" unfolding ordered_def edge_ok_def
    proof (intro allI impI)
      fix i assume i: "0 < i \<and> i < length (h_array ?h)"
      then have "h_array ?h ! i \<noteq> x" "h_array ?h ! par i \<noteq> x" using ne[of i] ne[of "par i"] par_less[of i] by auto
      then show "\<not> score_smaller ?st (h_array ?h ! par i) (h_array ?h ! i)"
        using inv i other by (auto simp: heap_inv_def ordered_def edge_ok_def)
    qed
    then show ?thesis using False inv by (simp add: update_score_def heap_inv_def)
  qed
qed

lemma best_score_step:
  assumes "score_inv s" "x \<in> {1..sc_max s}" "\<not> sc_vals s ! x"
  shows "\<exists>y h. best_score (sc_vals s) (sc_stab s) (sc_heap s) = Some (Inr (y, h)) \<and> score_inv (s\<lparr>sc_heap := h\<rparr>) \<and> y \<in> {1..sc_max s} \<and>
     \<not> sc_vals s ! y \<and> (\<forall>z\<in>{1..sc_max s}. \<not> sc_vals s ! z \<longrightarrow> \<not> score_smaller (sc_stab s) y z)"
proof -
  note D = score_invD[OF assms(1)]
  have "\<forall>e\<in>elems (sc_heap s). e < length (sc_vals s)" using D(2,3) by auto
  from best_score_inv[OF D(1) D(6)[OF assms(2,3)] assms(3) this]
  obtain y h where y: "best_score (sc_vals s) (sc_stab s) (sc_heap s) = Some (Inr (y, h))" "heap_inv (score_smaller (sc_stab s)) h"
      "y \<in> elems (sc_heap s)" "\<not> sc_vals s ! y" "elems h \<subseteq> elems (sc_heap s)"
      "\<forall>e\<in>elems (sc_heap s). \<not> sc_vals s ! e \<longrightarrow> e \<in> elems h \<and> \<not> score_smaller (sc_stab s) y e" by blast
  have "score_inv (s\<lparr>sc_heap := h\<rparr>)"
    by (rule score_invI) (use y D in auto)
  then show ?thesis using y D by blast
qed

lemma score_step_inv: "score_step s s' \<Longrightarrow> score_inv s \<Longrightarrow> score_inv s'"
proof (induction rule: score_step.induct)
  case (Init s n h)
  note D = score_invD[OF Init.prems]
  obtain h' where "init_scores (sc_stab s) (sc_max s) n (sc_heap s) = Some (Inr h')" "heap_inv (score_smaller (sc_stab s)) h'"
      "elems h' = elems (sc_heap s) \<union> {sc_max s + 1..n}"
    using push_all_inv[OF D(1,2) Init.hyps(1,3)] by blast
  then have h: "heap_inv (score_smaller (sc_stab s)) h" "elems h = elems (sc_heap s) \<union> {sc_max s + 1..n}"
    using Init.hyps(4) by auto
  show ?case
  proof (rule score_invI)
    show "elems (sc_heap (s\<lparr>sc_heap := h, sc_max := n\<rparr>)) \<subseteq> {1..sc_max (s\<lparr>sc_heap := h, sc_max := n\<rparr>)}"
      using h(2) D(2) Init.hyps(1) by auto
    show "x \<in> elems (sc_heap (s\<lparr>sc_heap := h, sc_max := n\<rparr>))"
      if "x \<in> {1..sc_max (s\<lparr>sc_heap := h, sc_max := n\<rparr>)}" "\<not> sc_vals (s\<lparr>sc_heap := h, sc_max := n\<rparr>) ! x" for x
      using h(2) D(6)[of x] that by auto
  qed (use h(1) D Init.hyps in auto)
next
  case (Assign x s)
  note D = score_invD[OF Assign.prems]
  have "y \<in> elems (sc_heap s)" if "y \<in> {1..sc_max s}" "\<not> (sc_vals s)[x := True] ! y" for y
    using D(3) D(6)[of y] that by (cases "y = x") auto
  then show ?case using D by (intro score_invI) auto
next
  case (Unassign x s h)
  note D = score_invD[OF Unassign.prems]
  have h: "heap_inv (score_smaller (sc_stab s)) h" "elems h = insert x (elems (sc_heap s))"
    using unassign_score_inv[OF Unassign.prems Unassign.hyps(1)] Unassign.hyps(2) by auto
  have "y \<in> elems h" if "y \<in> {1..sc_max s}" "\<not> (sc_vals s)[x := False] ! y" for y
    using h(2) D(6)[of y] that by (cases "y = x") auto
  then show ?case using h D Unassign.hyps(1) by (intro score_invI) auto
next
  case (Score x s v h)
  note D = score_invD[OF Score.prems]
  have "heap_inv (score_smaller ((sc_stab s)[x := v])) h" "elems h = elems (sc_heap s)"
    using update_score_inv[OF Score.prems Score.hyps(1), of v] Score.hyps(2) by auto
  then show ?case using D by (intro score_invI) auto
next
  case (Decide x s y h)
  then show ?case using best_score_step[OF Decide.prems Decide.hyps(1,2)] by auto
qed

lemma new_scores_inv: "st \<noteq> [] \<Longrightarrow> score_inv (new_scores st)"
  by (rule score_invI) (auto simp: new_scores_def new_heap_inv invalid_heap_position_def)

lemma score_runs_inv: "score_step\<^sup>*\<^sup>* (new_scores st) s \<Longrightarrow> st \<noteq> [] \<Longrightarrow> score_inv s"
  by (induction rule: rtranclp_induct) (auto intro: new_scores_inv score_step_inv)

section \<open>An example\<close>

text \<open>Three variables, the second and third with the same score; the second has a value.\<close>

definition example_scores :: "nat scores" where
  "example_scores = \<lparr>sc_heap = \<lparr>h_array = [2, 1, 3], h_pos = [invalid_heap_position, 1, 0, 2]\<rparr>, sc_stab = [0, 5, 7, 7],
     sc_vals = [False, False, True, False], sc_max = 3\<rparr>"

lemma example_scores_reached: "score_step\<^sup>*\<^sup>* (new_scores [0, 5, 7, 7]) example_scores"
proof -
  let ?n = "new_scores [0, 5, 7, 7] :: nat scores" and ?h = "sc_heap example_scores"
  have "init_scores (sc_stab ?n) (sc_max ?n) 3 (sc_heap ?n) = Some (Inr ?h)"
    by (simp add: init_scores_def push_back_def up_down_def up.simps down.simps has_parent_def has_left_def has_right_def parent_def left_def right_def bigger_child_def index_def
        set_index_def exchange_def vget_def score_smaller_def new_scores_def new_heap_def example_scores_def upt_rec
        Let_def nth_append list_update_append numeral_eq_Suc)
  then have "score_step ?n (?n\<lparr>sc_heap := ?h, sc_max := 3\<rparr>)"
    by (intro score_step.Init) (simp_all add: new_scores_def invalid_heap_position_def)
  moreover have "score_step (?n\<lparr>sc_heap := ?h, sc_max := 3\<rparr>) example_scores"
    using score_step.Assign[of 2 "?n\<lparr>sc_heap := ?h, sc_max := 3\<rparr>"]
    by (simp add: new_scores_def example_scores_def numeral_eq_Suc)
  ultimately show ?thesis by (meson rtranclp.rtrancl_refl rtranclp.rtrancl_into_rtrancl)
qed

lemma example_scores_inv: "heap_inv (score_smaller [0, 5, 7, 7 :: nat]) (sc_heap example_scores)" "elems (sc_heap example_scores) = {1, 2, 3}"
proof -
  have i: "score_inv example_scores" using score_runs_inv[OF example_scores_reached] by simp
  show h: "heap_inv (score_smaller [0, 5, 7, 7 :: nat]) (sc_heap example_scores)"
    using score_invD(1)[OF i] by (simp add: example_scores_def)
  then have "heap_wf (sc_heap example_scores)" by (simp add: heap_inv_def)
  from elems_array[OF this] show "elems (sc_heap example_scores) = {1, 2, 3}" by (auto simp: example_scores_def)
qed

section \<open>Properties\<close>

text \<open>
  C37: \<open>pop_front\<close> on a heap that is not empty ends and takes out its front, an element that no other
  one exceeds in score, and leaves a heap of the others.
\<close>

theorem pop_front_takes_best:
  assumes "heap_inv (score_smaller stab) h" "elems h \<noteq> {}"
  shows "\<exists>r h'. front h = Inr r \<and> pop_front (score_smaller stab) h = Some (Inr (r, h')) \<and> heap_inv (score_smaller stab) h' \<and>
     r \<in> elems h \<and> elems h' = elems h - {r} \<and> (\<forall>x\<in>elems h. \<not> score_smaller stab r x)"
  using score.pop_front_inv[OF assms] .

lemma pop_front_takes_best_witness:
  "\<exists>h'. pop_front (score_smaller [0, 5, 7, 7 :: nat]) (sc_heap example_scores) = Some (Inr (2, h')) \<and> elems h' = {1, 3}"
proof -
  have "elems (sc_heap example_scores) \<noteq> {}" by (simp add: example_scores_inv(2))
  from pop_front_takes_best[OF example_scores_inv(1) this] obtain r h' where
    r: "front (sc_heap example_scores) = Inr r" "pop_front (score_smaller [0, 5, 7, 7 :: nat]) (sc_heap example_scores) = Some (Inr (r, h'))"
      "elems h' = elems (sc_heap example_scores) - {r}" by blast
  have "r = 2" using r(1) by (simp add: front_def vget_def example_scores_def)
  moreover have "{1, 2, 3} - {2} = {1, 3 :: nat}" by auto
  ultimately show ?thesis using r(2,3) unfolding example_scores_inv(2) by metis
qed

text \<open>
  C38: when the score of one variable in the heap changes, \<open>update\<close> on it ends and restores the order
  of the heap for the new scores, with the same variables.
\<close>

theorem update_restores_order:
  assumes "heap_inv (score_smaller stab) h" "x \<in> elems h"
  shows "\<exists>h'. update (score_smaller (stab[x := v])) x h = Some (Inr h') \<and> heap_inv (score_smaller (stab[x := v])) h' \<and> elems h' = elems h"
  by (rule score.update_inv[OF assms score.weak_less_axioms]) (simp add: score_smaller_def)

lemma update_restores_order_witness:
  "\<exists>h'. update (score_smaller [0, 9, 7, 7 :: nat]) 1 (sc_heap example_scores) = Some (Inr h') \<and> elems h' = {1, 2, 3}"
proof -
  have "1 \<in> elems (sc_heap example_scores)" by (simp add: example_scores_inv(2))
  from update_restores_order[OF example_scores_inv(1) this, of 9] show ?thesis by (auto simp: example_scores_inv(2))
qed

text \<open>
  C35: in every state the search reaches by new variables, assignments, changes of scores and earlier
  decisions, \<open>next_decision_variable_with_best_score\<close> ends and returns an unassigned variable that no
  other unassigned one exceeds in score, although assigned variables are thrown out of the heap on the
  way.
\<close>

theorem best_score_decision:
  assumes "score_step\<^sup>*\<^sup>* (new_scores st) s" "st \<noteq> []" "x \<in> {1..sc_max s}" "\<not> sc_vals s ! x"
  shows "\<exists>y h. best_score (sc_vals s) (sc_stab s) (sc_heap s) = Some (Inr (y, h)) \<and> y \<in> {1..sc_max s} \<and> \<not> sc_vals s ! y \<and>
     (\<forall>z\<in>{1..sc_max s}. \<not> sc_vals s ! z \<longrightarrow> \<not> score_smaller (sc_stab s) y z)"
  using best_score_step[OF score_runs_inv[OF assms(1,2)] assms(3,4)] by blast

lemma best_score_decision_witness:
  "\<exists>y h. best_score (sc_vals example_scores) (sc_stab example_scores) (sc_heap example_scores) = Some (Inr (y, h)) \<and>
     y \<in> {1..3} \<and> \<not> sc_vals example_scores ! y"
proof -
  have "1 \<in> {1..sc_max example_scores}" "\<not> sc_vals example_scores ! 1" by (simp_all add: example_scores_def)
  from best_score_decision[OF example_scores_reached _ this] show ?thesis by (auto simp: example_scores_def)
qed

end
