(* ===== verification/Spec2Isabelle.thy ===== *)
theory Spec2Isabelle
  imports Domains Encoding Encode_Rows Partitions Cycles Perms Globals MinCheck_Common MinCheck_Full MinCheck_V2 MinCheck_Correct Propagator_Example Program_Example VMTF Score_Heap
begin

text \<open>
  Enumeration of non-degenerate cycle sets (set-theoretic solutions of the Yang-Baxter equation) up to
  isomorphism, by SAT modulo symmetries: a model of the program under \<^verbatim>\<open>src/ybe-sms/src\<close>, and of two
  data structures of the SAT solver that comes with it, under \<^verbatim>\<open>src/cadical-master/src\<close>.

  \<^bold>\<open>The program.\<close> \<^verbatim>\<open>main.cpp\<close> reads options, encodes the tables of size \<open>n\<close> that satisfy the law
  \<open>(i \<cdot> j) \<cdot> (i \<cdot> k) = (j \<cdot> i) \<cdot> (j \<cdot> k)\<close> with permutations as rows and as diagonal into clauses, once, or once for
  each diagonal up to conjugation, and hands the formula to CaDiCaL. An external propagator follows the
  assignments of CaDiCaL in a partially defined table. At a check it searches for a permutation that takes the
  table to a smaller one; if there is one, it adds a clause that excludes the table, and a complete table that
  is minimal is printed and excluded. So each isomorphism class is printed once.

  \<^bold>\<open>Theories and code.\<close>
  \<^item> \<open>Prelude\<close>: exceptions and undefined accesses as values, vectors and loops. \<open>Globals\<close>: the option
    variables the checks read (\<^verbatim>\<open>global.h\<close>), \<open>cycle_set_t\<close> and its printing (\<^verbatim>\<open>useful.h\<close>, \<^verbatim>\<open>useful.cpp\<close>).
  \<^item> \<open>Cycle_Set\<close>: the abstract specification: cycle sets, the action of permutations, canonical tables.
  \<^item> \<open>Domains\<close>: the sets of values \<open>bitdomain_t\<close>, \<open>bitdomains2_t\<close>, \<open>bitdomains3_t\<close> (\<^verbatim>\<open>domains.cpp\<close>).
  \<^item> \<open>Cardinality\<close>, \<open>Encode_Entries\<close>, \<open>Encode_YBE\<close>, \<open>Encode_Rows\<close>, \<open>Encoding\<close>: the clauses
    (\<^verbatim>\<open>clause.cpp\<close>) and the formula of each mode (\<^verbatim>\<open>main.cpp\<close>).
  \<^item> \<open>Partitions\<close>, \<open>Cycles\<close>, \<open>Classification\<close>: integer partitions, diagonals and cycles
    (\<^verbatim>\<open>useful.cpp\<close>), and why the diagonals chosen are enough.
  \<^item> \<open>Perms\<close>: the partially defined permutations \<open>pperm_plain\<close>, \<open>pperm_bit\<close> (\<^verbatim>\<open>useful.cpp\<close>).
  \<^item> \<open>MinCheck_Common\<close>, \<open>MinCheck_Full\<close>: the clauses of the check and the check of one permutation
    (\<^verbatim>\<open>minCheckCommon.cpp\<close>); \<open>MinCheck_V2\<close>, \<open>MinCheck_Search\<close>, \<open>MinCheck_Plain\<close>, \<open>MinCheck_Bit\<close>,
    \<open>MinCheck_Start\<close>, \<open>MinCheck_Correct\<close>: the search through the permutations (\<^verbatim>\<open>minCheck_V2.cpp\<close>).
  \<^item> \<open>Propagator\<close>, \<open>Propagator_Table\<close>, \<open>Propagator_State\<close>, \<open>Propagator_Clauses\<close>, \<open>Propagator_Run\<close>,
    \<open>Propagator_Start\<close>, \<open>Propagator_Correct\<close>: the propagator (\<^verbatim>\<open>solveGeneral.cpp\<close>,
    \<^verbatim>\<open>solveCadicalClass.hpp\<close>, \<^verbatim>\<open>solveCadicalClass.cpp\<close>); \<open>Output_Text\<close>: what its output determines.
  \<^item> \<open>Command_Line\<close>, \<open>Program\<close>: the options, the modes and the loop of \<open>solve\<close> (\<^verbatim>\<open>main.cpp\<close>,
    \<^verbatim>\<open>main_diagMaker.cpp\<close>). \<open>Propagator_Example\<close>, \<open>Program_Example\<close>: concrete runs on two elements.
  \<^item> \<open>VMTF\<close>: CaDiCaL's decision queue (\<^verbatim>\<open>queue.hpp\<close>, \<^verbatim>\<open>queue.cpp\<close> and its users);
    \<open>Score_Heap\<close>: its binary heap and the decision by score (\<^verbatim>\<open>heap.hpp\<close>, \<^verbatim>\<open>score.cpp\<close>).

  \<^bold>\<open>State and interfaces.\<close> Each class is a record with the fields of the class, each method a function on it;
  a method that can throw, exit or index out of range returns \<open>exc + 'a\<close>. The interfaces are locales, each
  interpreted on the model of the code: \<open>domain_store\<close> (sets of values), \<open>encoder\<close> (routines that add
  clauses), \<open>pperm_store\<close> (partial permutations), \<open>symmetry_search\<close> and \<open>partial_search\<close> (the search, for both
  kinds of permutations), \<open>literal_stream\<close> (clauses handed out literal by literal), \<open>order_list\<close> (a list with
  move to end), \<open>weak_less\<close> (a strict weak order).

  \<^bold>\<open>What is shown.\<close>
  \<^item> The program: with a solver that answers as documented, the mode that goes through all diagonals counts each
    isomorphism class of cycle sets exactly once (C1), which rests on the encoding (C8, C9), the check (C6, C7),
    the clauses it learns (C14 to C16), the diagonals (C4, C24, C25) and the propagator (C2, C3). In the mode that
    asks for a single model the loop does not end (C5).
  \<^item> The propagator in every reachable state: the table is legal (C11), backtracking restores it (C10), literals it
    propagates are forced (C19), clauses end with 0 (C20), no access is out of range (C21).
  \<^item> The data structures: refinement of the flat domains and their caches (C12, C13), partial permutations (C17,
    C18), cycles (C26), decision queue (C33, C34, C36, C39, C40) and heap (C35, C37, C38).
  \<^item> Input and output: settings in range and round trips (C28 to C32), numbering of variables (C22), printing
    (C30); \<open>--fixFR\<close> and \<open>--unfixFR\<close> split the tables (C23).

  \<^bold>\<open>What is assumed of CaDiCaL.\<close> It is reached through two interfaces only. The step relation of
  \<open>Propagator_Run\<close> is the documented protocol of \<open>ExternalPropagator\<close> in \<^verbatim>\<open>cadical.hpp\<close>: only observed variables
  without a value are notified, levels are opened one by one and closed by backtracking, a found model gives every
  observed variable a value, reasons are asked for literals the propagator has propagated,
  and clauses, literals and the verdict on a model are asked for while no clause handed over is violated. The predicate \<open>answers\<close>
  of \<open>Program\<close> says of one call of \<open>solve\<close> that it ends in a state reached by such steps, with 10 when the
  propagator has accepted a model, or with 20 when the formula and the clauses received have no model. The two
  examples give functions for which this holds. \<open>VMTF\<close> and \<open>Score_Heap\<close> are proved from their own code.

  \<^bold>\<open>Bounds and recursion.\<close> Fuel occurs in two places: the depth of \<open>part\<close>, given by the cells that are left
  of its vector, and the literals of a clause, given by its length; in both a theorem says that it is enough (C25, C20).
  The search of the check is a function whose calls have fewer rows left. Loops that might not end are partial functions with value
  \<open>None\<close> (\<open>solve_loop\<close>, \<open>search_back\<close>, \<open>up\<close>, \<open>down\<close>, \<open>best_score\<close>), and that they end is part of what is proved. Machine integers
  are unbounded except where the code depends on the bound: \<open>atoi\<close> outside \<open>int\<close> is undefined, and the
  largest 32 bit number marks a missing heap position. Numbers of variables, literals and time stamps do not reach their limits
  for the sizes in question.

  \<^bold>\<open>Not modelled.\<close>
  \<^item> Of the program: \<open>encodeOrder\<close>, \<open>combinePerms\<close> and \<open>prop\<close> of the propagator, which nothing calls;
    \<open>printDomains\<close>, statistics, timers and messages, which only write; the names of files; the parallel
    loop, which is run in sequence (every job has its own state).
  \<^item> Of CaDiCaL: everything but the two data structures. It is a third party solver of about 40,000 lines whose
    correctness is not this program's; its random shuffles and the arithmetic of scores (\<open>double\<close>) have no
    faithful model in the theories at hand.
\<close>

end
